(* ===== verification/Jr2_Prelude.thy ===== *)
theory Jr2_Prelude
  imports Main "HOL-Library.Sublist"
begin

text \<open>
  The prelude of the development: the named collections that carry the component proofs, the type
  names every component uses, and the generic facts on lists, options and association lists that
  the components share. Nothing here models code of the repository.
\<close>

section \<open>Collections\<close>

named_theorems inv_intros \<open>preservation of a component's invariant by one of its operations\<close>
named_theorems frame_simps \<open>what an operation leaves as it was\<close>
named_theorems text_simps \<open>rewriting of JavaScript strings and their UTF-8 lengths\<close>

section \<open>Types\<close>

text \<open>An identifier, a key or an ISO-8601 stamp: compared for equality (and, where the code sorts,
  by the order of its characters), never taken apart except where a definition says so.\<close>

type_synonym ident = string

section \<open>JavaScript collections\<close>

text \<open>A \<^verbatim>\<open>Set\<close> keeps its values once, in the order of insertion; a \<^verbatim>\<open>Map\<close> its keys likewise. The model of
  either is the list of its values, or of its key-value pairs.\<close>

definition setAdd :: "'a \<Rightarrow> 'a list \<Rightarrow> 'a list" where
  "setAdd x xs = (if x \<in> set xs then xs else xs @ [x])"

definition setDelete :: "'a \<Rightarrow> 'a list \<Rightarrow> 'a list" where
  "setDelete x xs = filter (\<lambda>y. y \<noteq> x) xs"

text \<open>\<^verbatim>\<open>[...new Set([...xs, ...ys])]\<close>.\<close>

definition setUnion :: "'a list \<Rightarrow> 'a list \<Rightarrow> 'a list" where
  "setUnion xs ys = fold setAdd ys (fold setAdd xs [])"

text \<open>The change of the first element that satisfies \<open>P\<close>: a mutation of the object that \<^verbatim>\<open>find\<close> gives.\<close>

fun updFirst :: "('a \<Rightarrow> bool) \<Rightarrow> ('a \<Rightarrow> 'a) \<Rightarrow> 'a list \<Rightarrow> 'a list" where
  "updFirst P f [] = []"
| "updFirst P f (x # xs) = (if P x then f x # xs else x # updFirst P f xs)"

text \<open>The removal of the first element that satisfies \<open>P\<close>: \<^verbatim>\<open>splice(findIndex(P), 1)\<close>.\<close>

fun delFirst :: "('a \<Rightarrow> bool) \<Rightarrow> 'a list \<Rightarrow> 'a list" where
  "delFirst P [] = []"
| "delFirst P (x # xs) = (if P x then xs else x # delFirst P xs)"

lemma set_setAdd [simp]: "set (setAdd x xs) = insert x (set xs)"
  by (auto simp: setAdd_def)

lemma setAdd_id [simp]: "x \<in> set xs \<Longrightarrow> setAdd x xs = xs"
  by (simp add: setAdd_def)

lemma distinct_setAdd [simp]: "distinct xs \<Longrightarrow> distinct (setAdd x xs)"
  by (auto simp: setAdd_def)

lemma set_setDelete [simp]: "set (setDelete x xs) = set xs - {x}"
  by (auto simp: setDelete_def)

lemma distinct_setDelete [simp]: "distinct xs \<Longrightarrow> distinct (setDelete x xs)"
  by (simp add: setDelete_def)

lemma set_fold_setAdd [simp]: "set (fold setAdd ys xs) = set xs \<union> set ys"
  by (induction ys arbitrary: xs) auto

lemma distinct_fold_setAdd [simp]: "distinct xs \<Longrightarrow> distinct (fold setAdd ys xs)"
  by (induction ys arbitrary: xs) auto

lemma fold_setAdd_id: "set ys \<subseteq> set xs \<Longrightarrow> fold setAdd ys xs = xs"
  by (induction ys arbitrary: xs) auto

lemma set_setUnion [simp]: "set (setUnion xs ys) = set xs \<union> set ys"
  by (simp add: setUnion_def)

lemma map_updFirst: "(\<And>x. P x \<Longrightarrow> g (f x) = g x) \<Longrightarrow> map g (updFirst P f xs) = map g xs"
  by (induction xs) auto

lemma set_updFirst_subset: "set (updFirst P f xs) \<subseteq> set xs \<union> f ` {x \<in> set xs. P x}"
  by (induction xs) auto

lemma in_updFirst_cases:
  assumes "y \<in> set (updFirst P f xs)"
  obtains "y \<in> set xs" | x where "x \<in> set xs" "P x" "y = f x"
  using assms set_updFirst_subset [of P f xs] by blast

lemma updFirst_image: "x \<in> set xs \<Longrightarrow> x \<in> set (updFirst P f xs) \<or> (P x \<and> f x \<in> set (updFirst P f xs))"
  by (induction xs) auto

lemma updFirst_found: "find P xs = Some y \<Longrightarrow> x \<in> set (updFirst P f xs) \<Longrightarrow> x \<in> set xs \<or> x = f y"
  by (induction xs) (auto split: if_splits)

lemma length_updFirst [simp]: "length (updFirst P f xs) = length xs"
  by (induction xs) auto

lemma set_delFirst_subset: "set (delFirst P xs) \<subseteq> set xs"
  by (induction xs) auto

lemma in_delFirst: "x \<in> set xs \<Longrightarrow> \<not> P x \<Longrightarrow> x \<in> set (delFirst P xs)"
  by (induction xs) auto

lemma distinct_map_delFirst: "distinct (map g xs) \<Longrightarrow> distinct (map g (delFirst P xs))"
  using set_delFirst_subset by (induction xs) fastforce+

text \<open>\<^verbatim>\<open>map.set(k, v)\<close> and \<^verbatim>\<open>map.delete(k)\<close>.\<close>

fun mapSet :: "'k \<Rightarrow> 'v \<Rightarrow> ('k \<times> 'v) list \<Rightarrow> ('k \<times> 'v) list" where
  "mapSet k v [] = [(k, v)]"
| "mapSet k v ((k', v') # m) = (if k = k' then (k, v) # m else (k', v') # mapSet k v m)"

definition mapDelete :: "'k \<Rightarrow> ('k \<times> 'v) list \<Rightarrow> ('k \<times> 'v) list" where
  "mapDelete k m = filter (\<lambda>(k', _). k' \<noteq> k) m"

text \<open>The replacement of the first element that satisfies \<open>P\<close> by a list: none, to remove it.\<close>

fun replFirst :: "('a \<Rightarrow> bool) \<Rightarrow> ('a \<Rightarrow> 'a list) \<Rightarrow> 'a list \<Rightarrow> 'a list" where
  "replFirst P f [] = []"
| "replFirst P f (x # xs) = (if P x then f x @ xs else x # replFirst P f xs)"

lemma map_of_mapSet [simp]: "map_of (mapSet k v m) = (map_of m)(k \<mapsto> v)"
  by (induction m) auto

lemma map_of_mapDelete [simp]: "map_of (mapDelete k m) = (map_of m)(k := None)"
  by (induction m) (auto simp: mapDelete_def)

lemma fst_mapSet [simp]: "fst ` set (mapSet k v m) = insert k (fst ` set m)"
  by (induction k v m rule: mapSet.induct) (simp_all add: insert_commute)

lemma distinct_mapSet: "distinct (map fst m) \<Longrightarrow> distinct (map fst (mapSet k v m))"
  by (induction k v m rule: mapSet.induct) simp_all

lemma updFirst_repl: "updFirst P f xs = replFirst P (\<lambda>x. [f x]) xs"
  by (induction xs) auto

lemma delFirst_repl: "delFirst P xs = replFirst P (\<lambda>_. []) xs"
  by (induction xs) auto

lemma set_replFirst_subset: "set (replFirst P f xs) \<subseteq> set xs \<union> (\<Union>x\<in>{x \<in> set xs. P x}. set (f x))"
  by (induction xs) auto

lemma replFirst_image: "x \<in> set xs \<Longrightarrow> x \<in> set (replFirst P f xs) \<or> (P x \<and> set (f x) \<subseteq> set (replFirst P f xs))"
  by (induction xs) auto

text \<open>Strings.\<close>

definition startsWith :: "string \<Rightarrow> string \<Rightarrow> bool" where
  "startsWith s p \<longleftrightarrow> take (length p) s = p"

section \<open>Lists\<close>

lemma subseq_distinct: "subseq xs ys \<Longrightarrow> distinct ys \<Longrightarrow> distinct xs"
  by (auto simp: subseq_conv_nths intro: distinct_nthsI)

lemma subseq_set: "subseq xs ys \<Longrightarrow> set xs \<subseteq> set ys"
  by (auto simp: subseq_conv_nths dest: in_set_nthsD)

lemma sorted_wrt_subseq: "subseq xs ys \<Longrightarrow> sorted_wrt P ys \<Longrightarrow> sorted_wrt P xs"
  by (induction rule: list_emb.induct) (auto dest: subseq_set)

text \<open>An entry-wise change that keeps a projection \<open>g\<close> of each entry, or removes the entry.\<close>

definition keepsOrDrops :: "('a \<Rightarrow> 'b) \<Rightarrow> 'a \<Rightarrow> 'a list \<Rightarrow> bool" where
  "keepsOrDrops g x ys \<longleftrightarrow> ys = [] \<or> (\<exists>y. ys = [y] \<and> g y = g x)"

lemma keepsOrDrops_simps [simp]: "keepsOrDrops g x []" "keepsOrDrops g x [y] \<longleftrightarrow> g y = g x"
  by (auto simp: keepsOrDrops_def)

lemma subseq_concat_map:
  "(\<And>x. x \<in> set xs \<Longrightarrow> keepsOrDrops g x (f x)) \<Longrightarrow> subseq (map g (concat (map f xs))) (map g xs)"
proof (induction xs)
  case (Cons x xs)
  then have "keepsOrDrops g x (f x)" and "subseq (map g (concat (map f xs))) (map g xs)" by simp_all
  then show ?case by (auto simp: keepsOrDrops_def)
qed simp

lemma subseq_replFirst:
  "(\<And>x. P x \<Longrightarrow> x \<in> set xs \<Longrightarrow> keepsOrDrops g x (f x)) \<Longrightarrow> subseq (map g (replFirst P f xs)) (map g xs)"
proof (induction xs)
  case (Cons x xs)
  show ?case
  proof (cases "P x")
    case True
    then have "keepsOrDrops g x (f x)" using Cons.prems by simp
    then show ?thesis using True by (auto simp: keepsOrDrops_def)
  qed (use Cons in simp)
qed simp

lemma filter_neq_distinct_remove1:
  "distinct xs \<Longrightarrow> filter (\<lambda>y. y \<noteq> x) xs = remove1 x xs"
  by (simp add: distinct_remove1_removeAll removeAll_filter_not_eq) metis

lemma length_filter_neq_less:
  "x \<in> set xs \<Longrightarrow> length (filter (\<lambda>y. y \<noteq> x) xs) < length xs"
  by (induction xs) (auto simp: le_imp_less_Suc)

lemma find_None_filter: "find P xs = None \<longleftrightarrow> filter P xs = []"
  by (auto simp: find_None_iff filter_empty_conv)

lemma find_Some_in:
  assumes "find P xs = Some x"
  shows "x \<in> set xs" and "P x"
  using assms by (auto simp: find_Some_iff)

lemma find_SomeI: "x \<in> set xs \<Longrightarrow> P x \<Longrightarrow> \<exists>y. find P xs = Some y"
  by (cases "find P xs") (auto simp: find_None_iff)

lemma find_cong_set: "(\<And>x. x \<in> set xs \<Longrightarrow> P x = Q x) \<Longrightarrow> find P xs = find Q xs"
  by (induction xs) auto

lemma takeWhile_append_all: "(\<forall>x\<in>set xs. P x) \<Longrightarrow> takeWhile P (xs @ ys) = xs @ takeWhile P ys"
  by (induction xs) auto

end
