(* ===== verification/Decimals.thy ===== *)
theory Decimals
  imports Main
begin

text \<open>
  Numbers printed in base ten and read back: \<^verbatim>\<open>String(n)\<close> and the digits that the readers of quantities and of offsets take.
\<close>

fun decimal :: "nat \<Rightarrow> string" where
  "decimal n = (if n < 10 then [char_of (48 + n)] else decimal (n div 10) @ [char_of (48 + n mod 10)])"

declare decimal.simps [simp del]

definition decimalInt :: "int \<Rightarrow> string" where
  "decimalInt i = (if i < 0 then ''-'' @ decimal (nat (- i)) else decimal (nat i))"

definition isDigit :: "char \<Rightarrow> bool" where
  "isDigit c \<longleftrightarrow> 48 \<le> (of_char c :: nat) \<and> (of_char c :: nat) \<le> 57"

definition isSpace :: "char \<Rightarrow> bool" where
  "isSpace c \<longleftrightarrow> of_char c \<in> {9 :: nat, 10, 11, 12, 13, 32, 160}"

definition digitOf :: "char \<Rightarrow> nat" where
  "digitOf c = of_char c - 48"

fun digitsValue :: "nat \<Rightarrow> string \<Rightarrow> nat" where
  "digitsValue acc [] = acc"
| "digitsValue acc (c # cs) = digitsValue (10 * acc + digitOf c) cs"

lemma digit_of_char [simp]: "d < 10 \<Longrightarrow> digitOf (char_of (48 + d)) = d" "d < 10 \<Longrightarrow> isDigit (char_of (48 + d))"
  by (simp_all add: digitOf_def isDigit_def)

lemma digit_not_space: "isDigit c \<Longrightarrow> \<not> isSpace c"
  by (auto simp: isDigit_def isSpace_def)

lemma digitsValue_append: "digitsValue acc (xs @ ys) = digitsValue (digitsValue acc xs) ys"
  by (induction xs arbitrary: acc) auto

lemma decimal_digits: "\<forall>c \<in> set (decimal n). isDigit c"
  by (induction n rule: decimal.induct) (subst decimal.simps, auto)

lemma decimal_value: "digitsValue 0 (decimal n) = n"
  by (induction n rule: decimal.induct) (subst decimal.simps, auto simp: digitsValue_append)

lemma decimal_nonempty: "decimal n \<noteq> []"
  by (subst decimal.simps) auto

lemma decimal_length: "n < 10 ^ Suc k \<Longrightarrow> length (decimal n) \<le> Suc k"
proof (induction k arbitrary: n)
  case 0
  then show ?case by (subst decimal.simps) simp
next
  case (Suc k)
  have "n div 10 < 10 ^ Suc k" using Suc.prems by (simp add: less_mult_imp_div_less)
  then show ?case using Suc.IH [of "n div 10"] by (subst decimal.simps) simp
qed

end
