(* ===== verification/Truncate.thy ===== *)
theory Truncate
  imports Jr2_Prelude Decimals "HOL-Library.Word" "HOL-Library.Sublist"
begin

text \<open>
  The output bounds of the Working tools, \<^verbatim>\<open>packages/harness/src/truncate.ts\<close>: \<^verbatim>\<open>read\<close> keeps the
  head of a file, \<^verbatim>\<open>bash\<close> the tail of its output, under a line limit and a byte limit.

  A JavaScript string is its list of UTF-16 code units (\<open>16 word\<close>), as \<^verbatim>\<open>charCodeAt\<close> reads it, so an
  unpaired surrogate is a value of the model like any other. A limit is an \<open>int\<close>: an option the
  caller passes may be negative. The one read out of range of the source (\<^verbatim>\<open>lines[0]!\<close> of a content
  with no line, which \<^verbatim>\<open>Buffer.byteLength\<close> refuses) is the value \<open>None\<close> of \<open>truncateHead\<close>.
\<close>

section \<open>JavaScript strings\<close>

type_synonym jsstr = "16 word list"

abbreviation newline :: "16 word" where "newline \<equiv> 10"

definition is_high :: "16 word \<Rightarrow> bool" where
  "is_high c \<longleftrightarrow> 0xd800 \<le> c \<and> c \<le> 0xdbff"

definition is_low :: "16 word \<Rightarrow> bool" where
  "is_low c \<longleftrightarrow> 0xdc00 \<le> c \<and> c \<le> 0xdfff"

text \<open>The UTF-8 bytes of one code unit that is not half of a pair: an unpaired surrogate is written
  as U+FFFD, three bytes.\<close>

definition unitBytes :: "16 word \<Rightarrow> nat" where
  "unitBytes c = (if c \<le> 0x7f then 1 else if c \<le> 0x7ff then 2 else 3)"

text \<open>\<^verbatim>\<open>Buffer.byteLength(content, "utf8")\<close>.\<close>

fun utf8ByteLength :: "jsstr \<Rightarrow> nat" where
  "utf8ByteLength [] = 0"
| "utf8ByteLength [c] = unitBytes c"
| "utf8ByteLength (c # d # cs) =
     (if is_high c \<and> is_low d then 4 + utf8ByteLength cs
      else unitBytes c + utf8ByteLength (d # cs))"

text \<open>\<^verbatim>\<open>content.split("\n")\<close> and \<^verbatim>\<open>lines.join("\n")\<close>.\<close>

fun splitNewline :: "jsstr \<Rightarrow> jsstr list" where
  "splitNewline [] = [[]]"
| "splitNewline (c # cs) =
     (if c = newline then [] # splitNewline cs
      else (case splitNewline cs of [] \<Rightarrow> [[c]] | l # ls \<Rightarrow> (c # l) # ls))"

fun joinNewline :: "jsstr list \<Rightarrow> jsstr" where
  "joinNewline [] = []"
| "joinNewline [l] = l"
| "joinNewline (l # ls) = l @ newline # joinNewline ls"

definition splitLinesForCounting :: "jsstr \<Rightarrow> jsstr list" where
  "splitLinesForCounting content =
     (if content = [] then []
      else let lines = splitNewline content
           in if last content = newline then butlast lines else lines)"

fun replaceUnpairedSurrogates :: "jsstr \<Rightarrow> jsstr" where
  "replaceUnpairedSurrogates [] = []"
| "replaceUnpairedSurrogates [c] = (if is_high c then [0xfffd] else if is_low c then [0xfffd] else [c])"
| "replaceUnpairedSurrogates (c # d # cs) =
     (if is_high c then
        (if is_low d then c # d # replaceUnpairedSurrogates cs
         else 0xfffd # replaceUnpairedSurrogates (d # cs))
      else if is_low c then 0xfffd # replaceUnpairedSurrogates (d # cs)
      else c # replaceUnpairedSurrogates (d # cs))"

section \<open>The printed size\<close>

text \<open>A literal of the source, which is ASCII.\<close>

definition js :: "string \<Rightarrow> jsstr" where
  "js s = map (\<lambda>c. of_nat (of_char c)) s"

text \<open>\<^verbatim>\<open>(n / d).toFixed(1)\<close> for a power of two \<open>d\<close>: the quotient is exact in binary, and \<^verbatim>\<open>toFixed\<close>
  takes the nearest tenth, the larger of two that are as near.\<close>

definition toFixed1 :: "nat \<Rightarrow> nat \<Rightarrow> string" where
  "toFixed1 n d = (let t = (20 * n + d) div (2 * d) in decimal (t div 10) @ ''.'' @ decimal (t mod 10))"

definition formatSize :: "nat \<Rightarrow> string" where
  "formatSize bytes =
     (if bytes < 1024 then decimal bytes @ ''B''
      else if bytes < 1024 * 1024 then toFixed1 bytes 1024 @ ''KB''
      else toFixed1 bytes (1024 * 1024) @ ''MB'')"

section \<open>The two truncations\<close>

datatype truncatedBy = ByLines | ByBytes

record TruncationResult =
  content :: jsstr
  truncated :: bool
  truncatedBy :: "truncatedBy option"
  totalLines :: nat
  totalBytes :: nat
  outputLines :: nat
  outputBytes :: nat
  lastLinePartial :: bool
  firstLineExceedsLimit :: bool
  maxLines :: int
  maxBytes :: int

record TruncationOptions =
  optLines :: "int option"
  optBytes :: "int option"

definition DEFAULT_MAX_LINES :: int where "DEFAULT_MAX_LINES = 2000"
definition DEFAULT_MAX_BYTES :: int where "DEFAULT_MAX_BYTES = 50 * 1024"

definition linesLimit :: "TruncationOptions \<Rightarrow> int" where
  "linesLimit opts = (case optLines opts of Some n \<Rightarrow> n | None \<Rightarrow> DEFAULT_MAX_LINES)"

definition bytesLimit :: "TruncationOptions \<Rightarrow> int" where
  "bytesLimit opts = (case optBytes opts of Some n \<Rightarrow> n | None \<Rightarrow> DEFAULT_MAX_BYTES)"

definition untruncated :: "jsstr \<Rightarrow> nat \<Rightarrow> nat \<Rightarrow> int \<Rightarrow> int \<Rightarrow> TruncationResult" where
  "untruncated text nLines nBytes ml mb =
     \<lparr>content = text, truncated = False, truncatedBy = None, totalLines = nLines,
      totalBytes = nBytes, outputLines = nLines, outputBytes = nBytes, lastLinePartial = False,
      firstLineExceedsLimit = False, maxLines = ml, maxBytes = mb\<rparr>"

text \<open>The loop of \<^verbatim>\<open>truncateHead\<close>: the lines not yet read, the index, what is kept and its bytes.\<close>

fun headLoop :: "int \<Rightarrow> int \<Rightarrow> jsstr list \<Rightarrow> nat \<Rightarrow> jsstr list \<Rightarrow> nat \<Rightarrow> jsstr list \<times> nat \<times> truncatedBy" where
  "headLoop ml mb [] i kept keptBytes = (kept, keptBytes, ByLines)"
| "headLoop ml mb (line # rest) i kept keptBytes =
     (if int i < ml then
        (let lineBytes = utf8ByteLength line + (if 0 < i then 1 else 0)
         in if int (keptBytes + lineBytes) > mb then (kept, keptBytes, ByBytes)
            else headLoop ml mb rest (Suc i) (kept @ [line]) (keptBytes + lineBytes))
      else (kept, keptBytes, ByLines))"

definition truncateHead :: "jsstr \<Rightarrow> TruncationOptions \<Rightarrow> TruncationResult option" where
  "truncateHead text opts =
     (let ml = linesLimit opts; mb = bytesLimit opts;
          nBytes = utf8ByteLength text;
          lines = splitLinesForCounting text;
          nLines = length lines
      in if int nLines \<le> ml \<and> int nBytes \<le> mb then Some (untruncated text nLines nBytes ml mb)
         else case lines of [] \<Rightarrow> None
         | first # _ \<Rightarrow>
           if int (utf8ByteLength first) > mb then
             Some \<lparr>content = [], truncated = True, truncatedBy = Some ByBytes, totalLines = nLines,
                   totalBytes = nBytes, outputLines = 0, outputBytes = 0, lastLinePartial = False,
                   firstLineExceedsLimit = True, maxLines = ml, maxBytes = mb\<rparr>
           else
             (case headLoop ml mb lines 0 [] 0 of (kept, keptBytes, cause) \<Rightarrow>
               let cause' = (if int (length kept) \<ge> ml \<and> int keptBytes \<le> mb then ByLines else cause);
                   output = joinNewline kept
               in Some \<lparr>content = output, truncated = True, truncatedBy = Some cause',
                        totalLines = nLines, totalBytes = nBytes, outputLines = length kept,
                        outputBytes = utf8ByteLength output, lastLinePartial = False,
                        firstLineExceedsLimit = False, maxLines = ml, maxBytes = mb\<rparr>))"

text \<open>\<^verbatim>\<open>truncateStringToBytesFromEnd\<close>: the scan goes back from index \<open>i\<close> by one character, a
  surrogate pair at once; \<open>start\<close> is where the kept end begins.\<close>

function fromEndLoop :: "jsstr \<Rightarrow> int \<Rightarrow> nat \<Rightarrow> nat \<Rightarrow> nat \<Rightarrow> bool \<Rightarrow> nat \<times> bool" where
  "fromEndLoop str mb i outB start needsReplacement =
     (if i = 0 then (start, needsReplacement)
      else
        let code = str ! (i - 1);
            (characterStart, characterBytes, unpaired) =
              (if is_low code \<and> 0 < i - 1 then
                 (if is_high (str ! (i - 2)) then (i - 2, 4, False) else (i - 1, 3, True))
               else if 0xd800 \<le> code \<and> code \<le> 0xdfff then (i - 1, 3, True)
               else (i - 1, if code \<le> 0x7f then 1 else if code \<le> 0x7ff then 2 else 3, False))
        in if int (outB + characterBytes) > mb then (start, needsReplacement)
           else fromEndLoop str mb characterStart (outB + characterBytes) characterStart
                  (needsReplacement \<or> unpaired))"
  by pat_completeness auto
termination
  by (relation "measure (\<lambda>(str, mb, i, ob, st, nr). i)") (auto split: if_splits)

declare fromEndLoop.simps [simp del]

definition truncateStringToBytesFromEnd :: "jsstr \<Rightarrow> int \<Rightarrow> jsstr" where
  "truncateStringToBytesFromEnd str mb =
     (if mb \<le> 0 then []
      else case fromEndLoop str mb (length str) 0 (length str) False of (start, needsReplacement) \<Rightarrow>
        let output = drop start str
        in if needsReplacement then replaceUnpairedSurrogates output else output)"

text \<open>The loop of \<^verbatim>\<open>truncateTail\<close>: the lines not yet read, the last one first.\<close>

fun tailLoop :: "int \<Rightarrow> int \<Rightarrow> jsstr list \<Rightarrow> jsstr list \<Rightarrow> nat \<Rightarrow> jsstr list \<times> nat \<times> truncatedBy \<times> bool" where
  "tailLoop ml mb [] kept keptBytes = (kept, keptBytes, ByLines, False)"
| "tailLoop ml mb (line # rest) kept keptBytes =
     (if int (length kept) < ml then
        (let lineBytes = utf8ByteLength line + (if kept \<noteq> [] then 1 else 0)
         in if int (keptBytes + lineBytes) > mb then
              (if kept = [] then
                 (let end' = truncateStringToBytesFromEnd line mb
                  in ([end'], utf8ByteLength end', ByBytes, True))
               else (kept, keptBytes, ByBytes, False))
            else tailLoop ml mb rest (line # kept) (keptBytes + lineBytes))
      else (kept, keptBytes, ByLines, False))"

definition truncateTail :: "jsstr \<Rightarrow> TruncationOptions \<Rightarrow> TruncationResult" where
  "truncateTail text opts =
     (let ml = linesLimit opts; mb = bytesLimit opts;
          nBytes = utf8ByteLength text;
          lines = splitLinesForCounting text;
          nLines = length lines
      in if int nLines \<le> ml \<and> int nBytes \<le> mb then untruncated text nLines nBytes ml mb
         else
           (case tailLoop ml mb (rev lines) [] 0 of (kept, keptBytes, cause, partial) \<Rightarrow>
             let cause' = (if int (length kept) \<ge> ml \<and> int keptBytes \<le> mb then ByLines else cause);
                 output = joinNewline kept
             in \<lparr>content = output, truncated = True, truncatedBy = Some cause',
                 totalLines = nLines, totalBytes = nBytes, outputLines = length kept,
                 outputBytes = utf8ByteLength output, lastLinePartial = partial,
                 firstLineExceedsLimit = False, maxLines = ml, maxBytes = mb\<rparr>))"

section \<open>Code units, characters and bytes\<close>

lemma is_high_unat: "is_high c \<longleftrightarrow> 0xd800 \<le> unat c \<and> unat c \<le> 0xdbff"
  and is_low_unat: "is_low c \<longleftrightarrow> 0xdc00 \<le> unat c \<and> unat c \<le> 0xdfff"
  and unitBytes_unat: "unitBytes c = (if unat c \<le> 0x7f then 1 else if unat c \<le> 0x7ff then 2 else 3)"
  by (simp_all add: is_high_def is_low_def unitBytes_def word_le_nat_alt)

lemma is_low_not_high: "is_low c \<Longrightarrow> \<not> is_high c"
  by (simp add: is_high_unat is_low_unat)

lemma is_high_not_low: "is_high c \<Longrightarrow> \<not> is_low c"
  using is_low_not_high by blast

lemma surrogate_range: "0xd800 \<le> c \<and> c \<le> 0xdfff \<longleftrightarrow> is_high c \<or> is_low c" for c :: "16 word"
proof -
  have "0xd800 \<le> c \<longleftrightarrow> 0xd800 \<le> unat c" and "c \<le> 0xdfff \<longleftrightarrow> unat c \<le> 0xdfff"
    by (simp_all add: word_le_nat_alt)
  then show ?thesis by (simp add: is_high_unat is_low_unat) arith
qed

lemma newline_plain [simp]: "\<not> is_high newline" "\<not> is_low newline" "unitBytes newline = 1"
  by (simp_all add: is_high_def is_low_def unitBytes_def)

lemma fffd_plain [simp]: "\<not> is_high 0xfffd" "\<not> is_low 0xfffd" "unitBytes 0xfffd = 3"
  by (simp_all add: is_high_def is_low_def unitBytes_def)

lemma unitBytes_high: "is_high c \<Longrightarrow> unitBytes c = 3"
  and unitBytes_low: "is_low c \<Longrightarrow> unitBytes c = 3"
  by (simp_all add: unitBytes_unat is_high_unat is_low_unat)

lemmas surrogate_simps = unitBytes_high unitBytes_low is_low_not_high is_high_not_low

text \<open>The characters of a string: a surrogate pair is one, any other code unit is one.\<close>

fun chars :: "jsstr \<Rightarrow> jsstr list" where
  "chars [] = []"
| "chars [c] = [[c]]"
| "chars (c # d # cs) = (if is_high c \<and> is_low d then [c, d] # chars cs else [c] # chars (d # cs))"

definition unpaired :: "jsstr \<Rightarrow> bool" where
  "unpaired ch \<longleftrightarrow> (\<exists>c. ch = [c] \<and> (is_high c \<or> is_low c))"

definition wellFormed :: "jsstr \<Rightarrow> bool" where
  "wellFormed s \<longleftrightarrow> (\<forall>ch\<in>set (chars s). \<not> unpaired ch)"

lemma unpaired_simps [simp]: "unpaired [c] \<longleftrightarrow> is_high c \<or> is_low c" "\<not> unpaired (c # d # cs)" "\<not> unpaired []"
  by (auto simp: unpaired_def)

lemma concat_chars [simp]: "concat (chars s) = s"
  by (induction s rule: chars.induct) auto

lemma chars_eq_Nil [simp]: "chars s = [] \<longleftrightarrow> s = []"
  by (cases s rule: chars.cases) auto

lemma chars_Cons_plain: "\<not> is_high c \<Longrightarrow> chars (c # cs) = [c] # chars cs"
  by (cases cs) auto

lemma utf8_Cons_plain [text_simps]: "\<not> is_high c \<Longrightarrow> utf8ByteLength (c # cs) = unitBytes c + utf8ByteLength cs"
  by (cases cs) auto

lemma utf8_chars: "utf8ByteLength s = sum_list (map utf8ByteLength (chars s))"
  by (induction s rule: chars.induct) auto

lemma chars_unfold: "chars s = ch # rest \<Longrightarrow> s = ch @ concat rest \<and> chars (concat rest) = rest"
proof (induction s arbitrary: ch rest rule: chars.induct)
  case (3 c d cs)
  then show ?case by (cases "is_high c \<and> is_low d") auto
qed auto

lemma chars_suffix: "chars s = as @ bs \<Longrightarrow> chars (concat bs) = bs"
proof (induction as arbitrary: s)
  case Nil
  then show ?case by (metis append_Nil concat_chars)
next
  case (Cons a as)
  then have "chars (concat (as @ bs)) = as @ bs" using chars_unfold [of s a "as @ bs"] by simp
  then show ?case by (rule Cons.IH)
qed

lemma utf8_suffix: "chars s = as @ bs \<Longrightarrow> utf8ByteLength (concat bs) = sum_list (map utf8ByteLength bs)"
  using chars_suffix utf8_chars by metis

text \<open>The width of the last character, as a scan from the end reads it.\<close>

definition lastWidth :: "jsstr \<Rightarrow> nat" where
  "lastWidth s = (if is_low (last s) \<and> 1 < length s \<and> is_high (s ! (length s - 2)) then 2 else 1)"

lemma lastWidth_Cons: "cs \<noteq> [] \<Longrightarrow> \<not> (length cs = 1 \<and> is_high c \<and> is_low (last cs)) \<Longrightarrow>
    lastWidth (c # cs) = lastWidth cs"
  by (cases cs rule: chars.cases) (auto simp: lastWidth_def nth_Cons' split: if_splits)

lemma lastWidth_le: "s \<noteq> [] \<Longrightarrow> lastWidth s \<le> length s"
  by (cases s) (auto simp: lastWidth_def Suc_le_eq)

lemma chars_last:
  "s \<noteq> [] \<Longrightarrow> chars s = chars (take (length s - lastWidth s) s) @ [drop (length s - lastWidth s) s]"
proof (induction s rule: chars.induct)
  case (2 c)
  then show ?case by (simp add: lastWidth_def)
next
  case (3 c d cs)
  show ?case
  proof (cases "is_high c \<and> is_low d")
    case pair: True
    show ?thesis
    proof (cases "cs = []")
      case True
      with pair show ?thesis by (simp add: lastWidth_def)
    next
      case False
      have "lastWidth (d # cs) = lastWidth cs"
        using False pair by (intro lastWidth_Cons) (auto simp: surrogate_simps)
      moreover have "lastWidth (c # d # cs) = lastWidth (d # cs)"
        using False by (intro lastWidth_Cons) auto
      ultimately have w: "lastWidth (c # d # cs) = lastWidth cs" by simp
      have "lastWidth cs \<le> length cs" using False by (rule lastWidth_le)
      with 3(1) [OF pair False] pair show ?thesis
        by (simp add: w Suc_diff_le)
    qed
  next
    case False
    have w: "lastWidth (c # d # cs) = lastWidth (d # cs)"
      using False by (intro lastWidth_Cons) auto
    have le: "lastWidth (d # cs) \<le> length (d # cs)" by (rule lastWidth_le) simp
    define n where "n = length (d # cs) - lastWidth (d # cs)"
    have n: "length (c # d # cs) - lastWidth (c # d # cs) = Suc n"
      using le by (simp add: w n_def Suc_diff_le)
    have IH: "chars (d # cs) = chars (take n (d # cs)) @ [drop n (d # cs)]"
      using 3(2) [OF False] by (simp add: n_def)
    have "chars (c # take n (d # cs)) = [c] # chars (take n (d # cs))"
      using False by (cases n) auto
    with False IH show ?thesis unfolding n by auto
  qed
qed simp

section \<open>Replacing unpaired surrogates\<close>

lemma replace_utf8 [text_simps]: "utf8ByteLength (replaceUnpairedSurrogates s) = utf8ByteLength s"
proof (induction s rule: replaceUnpairedSurrogates.induct)
  case (3 c d cs)
  then show ?case
    by (cases "is_high c"; cases "is_low d"; cases "is_low c")
       (auto simp: text_simps surrogate_simps)
qed (auto simp: surrogate_simps)

lemma replace_wellFormed: "wellFormed (replaceUnpairedSurrogates s)"
proof (induction s rule: replaceUnpairedSurrogates.induct)
  case (3 c d cs)
  then show ?case
    by (cases "is_high c"; cases "is_low d"; cases "is_low c")
       (auto simp: wellFormed_def chars_Cons_plain)
qed (auto simp: wellFormed_def)

lemma replace_id: "wellFormed s \<Longrightarrow> replaceUnpairedSurrogates s = s"
  by (induction s rule: replaceUnpairedSurrogates.induct) (auto simp: wellFormed_def split: if_splits)

section \<open>The end of one long line\<close>

text \<open>One step of the scan: the character that ends at \<open>i\<close>.\<close>

lemma fromEndLoop_step:
  assumes "0 < i" and "i \<le> length str"
  defines "p \<equiv> take i str"
  defines "j \<equiv> i - lastWidth p"
  shows "fromEndLoop str mb i ob st nr =
    (if int (ob + utf8ByteLength (drop j p)) > mb then (st, nr)
     else fromEndLoop str mb j (ob + utf8ByteLength (drop j p)) j (nr \<or> unpaired (drop j p)))"
proof -
  have ne: "p \<noteq> []" and len: "length p = i" using assms by auto
  have code: "str ! (i - 1) = last p" and prev: "1 < i \<Longrightarrow> str ! (i - 2) = p ! (length p - 2)"
    using assms ne by (auto simp: p_def last_conv_nth)
  have ch: "drop j p = (if lastWidth p = 2 then [p ! (i - 2), last p] else [last p])"
  proof (cases "lastWidth p = 2")
    case True
    then have "1 < i" using len by (auto simp: lastWidth_def split: if_splits)
    then have "drop (i - 2) p = [p ! (i - 2), p ! (i - 1)]"
      using len by (simp add: Cons_nth_drop_Suc [symmetric] numeral_2_eq_2 Suc_diff_Suc)
    with True ne len show ?thesis by (simp add: j_def last_conv_nth)
  next
    case False
    then have "lastWidth p = 1" by (auto simp: lastWidth_def)
    with ne len assms(1) show ?thesis
      by (simp add: j_def last_conv_nth Cons_nth_drop_Suc [symmetric])
  qed
  show ?thesis
  proof (cases "lastWidth p = 2")
    case True
    then have "is_low (last p)" "1 < i" "is_high (p ! (i - 2))"
      using len by (auto simp: lastWidth_def split: if_splits)
    with True ch show ?thesis
      by (subst fromEndLoop.simps) (simp add: code [simplified] prev len j_def Let_def)
  next
    case False
    then have w: "lastWidth p = 1" by (auto simp: lastWidth_def)
    from False have np: "\<not> (is_low (last p) \<and> 1 < i \<and> is_high (p ! (i - 2)))"
      using len by (auto simp: lastWidth_def split: if_splits)
    have j: "j = i - 1" using w by (simp add: j_def)
    show ?thesis
    proof (cases "is_high (last p) \<or> is_low (last p)")
      case True
      with np False ch assms(1) show ?thesis
        by (subst fromEndLoop.simps)
           (auto simp: code [simplified] prev len j surrogate_range [of "last p"] surrogate_simps Let_def
              split: if_splits)
    next
      case False
      with np \<open>lastWidth p \<noteq> 2\<close> ch assms(1) show ?thesis
        by (subst fromEndLoop.simps)
           (auto simp: code [simplified] len j surrogate_range [of "last p"] unitBytes_def Let_def)
    qed
  qed
qed

lemma fromEndLoop_spec:
  assumes "i \<le> length str" and "chars str = chars (take i str) @ cs"
    and "ob = sum_list (map utf8ByteLength cs)" and "int ob \<le> mb"
    and "nr \<longleftrightarrow> (\<exists>c\<in>set cs. unpaired c)"
  shows "\<exists>as bs. chars str = as @ bs
    \<and> fromEndLoop str mb i ob i nr = (length (concat as), \<exists>c\<in>set bs. unpaired c)
    \<and> int (sum_list (map utf8ByteLength bs)) \<le> mb
    \<and> (as \<noteq> [] \<longrightarrow> mb < int (sum_list (map utf8ByteLength (last as # bs))))"
  using assms
proof (induction i arbitrary: cs ob nr rule: less_induct)
  case (less i)
  show ?case
  proof (cases "i = 0")
    case True
    with less.prems show ?thesis
      by (intro exI [of _ "[]"] exI [of _ cs]) (simp add: fromEndLoop.simps)
  next
    case False
    define p where "p = take i str"
    define j where "j = i - lastWidth p"
    have p: "p \<noteq> []" "length p = i" using False less.prems(1) by (auto simp: p_def)
    have split: "chars p = chars (take j p) @ [drop j p]" using chars_last [OF p(1)] p(2) by (simp add: j_def)
    have jlt: "j < i" using False by (auto simp: j_def lastWidth_def)
    have takej: "take j p = take j str" using jlt by (simp add: p_def min_def)
    let ?ob = "ob + utf8ByteLength (drop j p)" and ?nr = "nr \<or> unpaired (drop j p)"
    have all: "chars str = chars (take j str) @ drop j p # cs"
      using less.prems(2) split takej by (simp add: p_def)
    note step = fromEndLoop_step [of i str mb ob i nr, folded p_def j_def]
    show ?thesis
    proof (cases "int ?ob > mb")
      case True
      have "length (concat (chars p)) = i" using p(2) by simp
      with True split step False less.prems all show ?thesis
        by (intro exI [of _ "chars p"] exI [of _ cs])
           (simp add: p_def [symmetric] algebra_simps del: concat_chars)
    next
      case fits: False
      have "\<exists>as bs. chars str = as @ bs
        \<and> fromEndLoop str mb j ?ob j ?nr = (length (concat as), \<exists>c\<in>set bs. unpaired c)
        \<and> int (sum_list (map utf8ByteLength bs)) \<le> mb
        \<and> (as \<noteq> [] \<longrightarrow> mb < int (sum_list (map utf8ByteLength (last as # bs))))"
        using jlt fits less.prems all by (intro less.IH [of j "drop j p # cs"]) auto
      with fits step False less.prems(1) show ?thesis by simp
    qed
  qed
qed

lemma fromEnd_suffix:
  assumes "0 < mb"
  shows "\<exists>k\<le>length (chars str). truncateStringToBytesFromEnd str mb
       = replaceUnpairedSurrogates (concat (drop k (chars str)))
    \<and> int (utf8ByteLength (concat (drop k (chars str)))) \<le> mb
    \<and> (0 < k \<longrightarrow> mb < int (utf8ByteLength (concat (drop (k - 1) (chars str)))))"
proof -
  obtain as bs where split: "chars str = as @ bs"
    and res: "fromEndLoop str mb (length str) 0 (length str) False
      = (length (concat as), \<exists>c\<in>set bs. unpaired c)"
    and le: "int (sum_list (map utf8ByteLength bs)) \<le> mb"
    and gt: "as \<noteq> [] \<longrightarrow> mb < int (sum_list (map utf8ByteLength (last as # bs)))"
    using fromEndLoop_spec [of "length str" str "[]" 0 mb False] assms by auto
  have str: "str = concat as @ concat bs" using split concat_chars [of str] by simp
  have bs: "chars (concat bs) = bs" using split by (rule chars_suffix)
  have "replaceUnpairedSurrogates (concat bs) = concat bs" if "\<not> (\<exists>c\<in>set bs. unpaired c)"
    using that by (intro replace_id) (simp add: wellFormed_def bs)
  then have "truncateStringToBytesFromEnd str mb = replaceUnpairedSurrogates (concat bs)"
    using assms res str by (auto simp: truncateStringToBytesFromEnd_def Let_def)
  moreover have "mb < int (utf8ByteLength (concat (drop (length as - 1) (as @ bs))))" if "as \<noteq> []"
  proof -
    have "chars str = butlast as @ (last as # bs)" using that split by simp
    then have "utf8ByteLength (concat (last as # bs)) = sum_list (map utf8ByteLength (last as # bs))"
      by (rule utf8_suffix)
    moreover have "drop (length as - 1) (as @ bs) = last as # bs"
      using that by (cases as rule: rev_cases) auto
    ultimately show ?thesis using gt that by simp
  qed
  ultimately show ?thesis
    using le utf8_suffix [OF split] by (intro exI [of _ "length as"]) (auto simp: split)
qed

lemma fromEnd_bytes: "0 \<le> mb \<Longrightarrow> int (utf8ByteLength (truncateStringToBytesFromEnd str mb)) \<le> mb"
  using fromEnd_suffix [of mb str]
  by (cases "mb = 0") (auto simp: truncateStringToBytesFromEnd_def text_simps)

section \<open>Lines\<close>

lemma utf8_newline [text_simps]: "utf8ByteLength (xs @ newline # ys) = utf8ByteLength xs + 1 + utf8ByteLength ys"
proof (induction xs rule: utf8ByteLength.induct)
  case 1
  then show ?case by (simp add: text_simps)
next
  case (2 c)
  then show ?case by (simp add: text_simps)
next
  case (3 c d cs)
  then show ?case by simp
qed

lemma joinNewline_Cons: "joinNewline (l # ls) = (if ls = [] then l else l @ newline # joinNewline ls)"
  by (cases ls) auto

lemma joinNewline_snoc: "joinNewline (ls @ [l]) = (if ls = [] then l else joinNewline ls @ newline # l)"
  by (induction ls) (auto simp: joinNewline_Cons)

lemma joinNewline_append:
  "joinNewline (ls @ ms) = (if ls = [] then joinNewline ms else if ms = [] then joinNewline ls
     else joinNewline ls @ newline # joinNewline ms)"
  by (induction ls) (auto simp: joinNewline_Cons)

lemma splitNewline_not_Nil [simp]: "splitNewline s \<noteq> []"
  by (induction s) (auto split: list.splits)

lemma join_split [simp]: "joinNewline (splitNewline s) = s"
  by (induction s) (auto simp: joinNewline_Cons split: list.splits)

lemma splitNewline_snoc_newline: "splitNewline (s @ [newline]) = splitNewline s @ [[]]"
  by (induction s) (auto split: list.splits)

lemma splitLines_join:
  "s = joinNewline (splitLinesForCounting s) @ (if s \<noteq> [] \<and> last s = newline then [newline] else [])"
proof (cases "s \<noteq> [] \<and> last s = newline")
  case True
  then obtain t where t: "s = t @ [newline]" by (metis append_butlast_last_id)
  have "splitLinesForCounting s = splitNewline t"
    by (simp add: t splitLinesForCounting_def splitNewline_snoc_newline del: splitNewline.simps)
  with t show ?thesis by simp
next
  case False
  then show ?thesis by (auto simp: splitLinesForCounting_def)
qed

lemma splitLines_Nil [simp]: "splitLinesForCounting s = [] \<longleftrightarrow> s = []"
  using splitLines_join [of s]
  by (auto simp: splitLinesForCounting_def Let_def dest: arg_cong [where f = length])

section \<open>Keeping the first lines\<close>

lemma headLoop_spec:
  assumes "headLoop ml mb rest i kept kb = (kept', kb', cause)"
    and "i = length kept" and "kb = utf8ByteLength (joinNewline kept)" and "int kb \<le> mb"
  shows "\<exists>k\<le>length rest. kept' = kept @ take k rest \<and> kb' = utf8ByteLength (joinNewline kept')
    \<and> int kb' \<le> mb \<and> (0 < k \<longrightarrow> int (length kept') \<le> ml)
    \<and> (k < length rest \<longrightarrow> ml \<le> int (length kept')
         \<or> mb < int (utf8ByteLength (joinNewline (kept' @ [rest ! k]))))"
  using assms
proof (induction rest arbitrary: i kept kb)
  case Nil
  then show ?case by auto
next
  case (Cons line rest)
  let ?lb = "utf8ByteLength line + (if 0 < i then 1 else 0)"
  have lb: "kb + ?lb = utf8ByteLength (joinNewline (kept @ [line]))"
    using Cons.prems(2,3) by (auto simp: joinNewline_snoc text_simps)
  show ?case
  proof (cases "int i < ml \<and> int (kb + ?lb) \<le> mb")
    case True
    with Cons.prems(1) have "headLoop ml mb rest (Suc i) (kept @ [line]) (kb + ?lb) = (kept', kb', cause)"
      by (simp add: Let_def)
    moreover have "Suc i = length (kept @ [line])" using Cons.prems(2) by simp
    ultimately obtain k where k: "k \<le> length rest"
      "kept' = (kept @ [line]) @ take k rest" "kb' = utf8ByteLength (joinNewline kept')" "int kb' \<le> mb"
      "0 < k \<longrightarrow> int (length kept') \<le> ml"
      "k < length rest \<longrightarrow> ml \<le> int (length kept')
         \<or> mb < int (utf8ByteLength (joinNewline (kept' @ [rest ! k])))"
      using Cons.IH [OF _ _ lb] True by blast
    show ?thesis
      using k True Cons.prems(2) by (intro exI [of _ "Suc k"]) auto
  next
    case False
    with Cons.prems(1) have "kept' = kept" "kb' = kb"
      by (auto simp: Let_def split: if_splits)
    with False Cons.prems(2,3,4) lb show ?thesis
      by (intro exI [of _ 0]) auto
  qed
qed

text \<open>\<^verbatim>\<open>truncateHead\<close> (truncate.ts), for limits that are not negative: it always answers, and either the
  content is whole and within both limits, or the answer is the longest run of whole first lines that
  fits: at most \<open>maxLines\<close> lines and \<open>maxBytes\<close> UTF-8 bytes, and one more line would pass a limit.
  The reported output numbers are those of the content.\<close>

theorem truncateHead_longest_fitting_head:
  assumes "0 \<le> linesLimit opts" and "0 \<le> bytesLimit opts"
  shows "\<exists>r. truncateHead text opts = Some r
    \<and> int (outputLines r) \<le> linesLimit opts \<and> int (outputBytes r) \<le> bytesLimit opts
    \<and> outputBytes r = utf8ByteLength (content r) \<and> prefix (content r) text
    \<and> (\<not> truncated r \<longrightarrow> content r = text)
    \<and> (truncated r \<longrightarrow> (let lines = splitLinesForCounting text; k = outputLines r in
         content r = joinNewline (take k lines) \<and> k \<le> length lines
         \<and> (k < length lines \<longrightarrow> int k = linesLimit opts
              \<or> bytesLimit opts < int (utf8ByteLength (joinNewline (take (Suc k) lines))))))"
proof -
  define lines where "lines = splitLinesForCounting text"
  let ?ml = "linesLimit opts" and ?mb = "bytesLimit opts"
  have pre: "prefix (joinNewline (take k lines)) text" for k
  proof -
    have "prefix (joinNewline (take k lines)) (joinNewline (take k lines @ drop k lines))"
      by (subst joinNewline_append) auto
    then show ?thesis using splitLines_join [of "text"] by (auto simp: lines_def prefix_def)
  qed
  show ?thesis
  proof (cases "int (length lines) \<le> ?ml \<and> int (utf8ByteLength text) \<le> ?mb")
    case True
    then show ?thesis by (simp add: truncateHead_def lines_def untruncated_def Let_def)
  next
    case over: False
    then have "lines \<noteq> []" using assms by (cases "text = []") (simp_all add: lines_def splitLinesForCounting_def [of "[]"])
    then obtain first rest where ln: "lines = first # rest" by (cases lines) auto
    show ?thesis
    proof (cases "int (utf8ByteLength first) > ?mb")
      case True
      with over ln show ?thesis
        using assms by (auto simp: truncateHead_def lines_def [symmetric] Let_def)
    next
      case False
      obtain kept kb cause where loop: "headLoop ?ml ?mb lines 0 [] 0 = (kept, kb, cause)"
        by (metis prod_cases3)
      have "0 = utf8ByteLength (joinNewline [])" and "int 0 \<le> ?mb" using assms by simp_all
      from headLoop_spec [OF loop _ this]
      obtain k where k: "k \<le> length lines" "kept = [] @ take k lines"
        "int (utf8ByteLength (joinNewline kept)) \<le> ?mb" "0 < k \<longrightarrow> int (length kept) \<le> ?ml"
        "k < length lines \<longrightarrow> ?ml \<le> int (length kept)
           \<or> ?mb < int (utf8ByteLength (joinNewline (kept @ [lines ! k])))"
        by (metis list.size(3))
      then have len: "length kept = k" by simp
      have "int k \<le> ?ml" using k(4) len assms(1) by (cases "k = 0") auto
      moreover have "k < length lines \<Longrightarrow> kept @ [lines ! k] = take (Suc k) lines"
        using k(2) by (simp add: take_Suc_conv_app_nth)
      ultimately show ?thesis
        using over False loop k len pre [of k] ln
        by (auto simp: truncateHead_def lines_def [symmetric] Let_def)
    qed
  qed
qed

theorem truncateHead_longest_fitting_head_witness:
  "\<exists>r. truncateHead [97, 10, 98] \<lparr>optLines = Some 1, optBytes = Some 9\<rparr> = Some r
    \<and> outputLines r = 1 \<and> content r = [97] \<and> truncated r"
proof -
  let ?o = "\<lparr>optLines = Some 1, optBytes = Some 9\<rparr>"
  have "0 \<le> linesLimit ?o" and "0 \<le> bytesLimit ?o" by (simp_all add: linesLimit_def bytesLimit_def)
  from truncateHead_longest_fitting_head [OF this, of "[97, 10, 98]"]
  show ?thesis
    by (simp add: truncateHead_def linesLimit_def bytesLimit_def splitLinesForCounting_def
        utf8ByteLength.simps unitBytes_def untruncated_def Let_def)
qed

section \<open>Keeping the last lines\<close>

lemma tailLoop_spec:
  assumes "tailLoop ml mb rrest kept kb = (kept', kb', cause, partial)"
    and "kb = utf8ByteLength (joinNewline kept)" and "int kb \<le> mb"
  shows "(\<not> partial \<longrightarrow> (\<exists>k\<le>length rrest. kept' = rev (take k rrest) @ kept
        \<and> int (utf8ByteLength (joinNewline kept')) \<le> mb \<and> (0 < k \<longrightarrow> int (length kept') \<le> ml)
        \<and> (k < length rrest \<longrightarrow> ml \<le> int (length kept')
             \<or> mb < int (utf8ByteLength (joinNewline (rrest ! k # kept'))))))
    \<and> (partial \<longrightarrow> kept = [] \<and> 0 < ml \<and> (\<exists>line rest. rrest = line # rest \<and> mb < int (utf8ByteLength line)
        \<and> kept' = [truncateStringToBytesFromEnd line mb]))"
  using assms
proof (induction rrest arbitrary: kept kb)
  case Nil
  then show ?case by auto
next
  case (Cons line rrest)
  let ?lb = "utf8ByteLength line + (if kept \<noteq> [] then 1 else 0)"
  have lb: "kb + ?lb = utf8ByteLength (joinNewline (line # kept))"
    using Cons.prems(2) by (auto simp: joinNewline_Cons text_simps)
  show ?case
  proof (cases "int (length kept) < ml \<and> int (kb + ?lb) \<le> mb")
    case True
    with Cons.prems(1) have loop: "tailLoop ml mb rrest (line # kept) (kb + ?lb) = (kept', kb', cause, partial)"
      by (simp add: Let_def split: if_splits)
    note IH = Cons.IH [OF loop lb]
    have "\<not> partial" using IH True by auto
    with IH True obtain k where k: "k \<le> length rrest" "kept' = rev (take k rrest) @ line # kept"
      "int (utf8ByteLength (joinNewline kept')) \<le> mb" "0 < k \<longrightarrow> int (length kept') \<le> ml"
      "k < length rrest \<longrightarrow> ml \<le> int (length kept')
             \<or> mb < int (utf8ByteLength (joinNewline (rrest ! k # kept')))"
      by blast
    from \<open>\<not> partial\<close> True k show ?thesis
      by (simp del: joinNewline.simps) (rule exI [of _ "Suc k"], auto)
  next
    case False
    show ?thesis
    proof (cases "int (length kept) < ml \<and> kept = []")
      case True
      with False Cons.prems show ?thesis
        by (auto simp: Let_def not_le split: if_splits)
    next
      case False2: False
      with False Cons.prems(1) have "kept' = kept" "\<not> partial"
        by (auto simp: Let_def split: if_splits)
      with False Cons.prems(2,3) lb show ?thesis
        by (auto intro!: exI [of _ 0])
    qed
  qed
qed

text \<open>\<^verbatim>\<open>truncateTail\<close> (truncate.ts), for limits that are not negative: the answer is within both limits
  and its output numbers are those of its content. A truncated answer that is not partial is the
  longest run of whole last lines that fits: one more line would pass a limit. It is partial only
  when the last line alone is over the byte limit, and then it is the end of that line.\<close>

theorem truncateTail_longest_fitting_tail:
  fixes src :: jsstr and opts :: TruncationOptions
  assumes "0 \<le> linesLimit opts" and "0 \<le> bytesLimit opts"
  defines "r \<equiv> truncateTail src opts" and "lines \<equiv> splitLinesForCounting src"
  shows "int (outputLines r) \<le> linesLimit opts \<and> int (outputBytes r) \<le> bytesLimit opts
    \<and> outputBytes r = utf8ByteLength (content r)
    \<and> (\<not> truncated r \<longrightarrow> content r = src \<and> \<not> lastLinePartial r)
    \<and> (truncated r \<and> \<not> lastLinePartial r \<longrightarrow>
         outputLines r \<le> length lines
         \<and> content r = joinNewline (drop (length lines - outputLines r) lines)
         \<and> (outputLines r < length lines \<longrightarrow> int (outputLines r) = linesLimit opts
              \<or> bytesLimit opts < int (utf8ByteLength (joinNewline (drop (length lines - Suc (outputLines r)) lines)))))
    \<and> (lastLinePartial r \<longrightarrow> lines \<noteq> [] \<and> bytesLimit opts < int (utf8ByteLength (last lines))
         \<and> content r = truncateStringToBytesFromEnd (last lines) (bytesLimit opts))"
proof (cases "int (length lines) \<le> linesLimit opts \<and> int (utf8ByteLength src) \<le> bytesLimit opts")
  case True
  then show ?thesis by (simp add: r_def lines_def truncateTail_def untruncated_def Let_def)
next
  case over: False
  let ?ml = "linesLimit opts" and ?mb = "bytesLimit opts"
  obtain kept kb cause partial where loop: "tailLoop ?ml ?mb (rev lines) [] 0 = (kept, kb, cause, partial)"
    by (metis prod_cases4)
  have r: "content r = joinNewline kept" "truncated r" "outputLines r = length kept"
    "outputBytes r = utf8ByteLength (joinNewline kept)" "lastLinePartial r = partial"
    using over loop by (auto simp: r_def truncateTail_def lines_def [symmetric] Let_def)
  have "0 = utf8ByteLength (joinNewline [])" and "int 0 \<le> ?mb" using assms by simp_all
  note spec = tailLoop_spec [OF loop this]
  show ?thesis
  proof (cases partial)
    case True
    with spec assms obtain line rest where "0 < ?ml" "rev lines = line # rest" "?mb < int (utf8ByteLength line)"
      "kept = [truncateStringToBytesFromEnd line ?mb]" by auto
    moreover from this(2) have "lines = rev rest @ [line]" by (metis rev.simps(2) rev_rev_ident)
    ultimately show ?thesis using True r fromEnd_bytes [OF assms(2)] by simp
  next
    case False
    obtain k where k: "k \<le> length (rev lines)" "kept = rev (take k (rev lines)) @ []"
      "int (utf8ByteLength (joinNewline kept)) \<le> ?mb" "0 < k \<longrightarrow> int (length kept) \<le> ?ml"
      "k < length (rev lines) \<longrightarrow> ?ml \<le> int (length kept)
         \<or> ?mb < int (utf8ByteLength (joinNewline (rev lines ! k # kept)))"
      using spec False by blast
    have kd: "kept = drop (length lines - k) lines" using k(2) by (simp add: rev_take)
    have len: "length kept = k" using k(1) kd by simp
    have "int k \<le> ?ml" using k(4) len assms(1) by (cases "k = 0") auto
    moreover have "rev lines ! k # kept = drop (length lines - Suc k) lines" if "k < length lines"
      using that kd by (simp add: rev_nth Cons_nth_drop_Suc [symmetric] Suc_diff_Suc)
    ultimately show ?thesis using k r len kd False by auto
  qed
qed

theorem truncateTail_longest_fitting_tail_witness:
  "content (truncateTail [97, 10, 98] \<lparr>optLines = Some 1, optBytes = Some 9\<rparr>) = [98]
   \<and> outputBytes (truncateTail [97, 10, 98] \<lparr>optLines = Some 1, optBytes = Some 9\<rparr>) \<le> 9"
proof -
  let ?o = "\<lparr>optLines = Some 1, optBytes = Some 9\<rparr>"
  have "0 \<le> linesLimit ?o" and "0 \<le> bytesLimit ?o" by (simp_all add: linesLimit_def bytesLimit_def)
  from truncateTail_longest_fitting_tail [OF this, of "[97, 10, 98]"]
  show ?thesis
    by (simp add: truncateTail_def linesLimit_def bytesLimit_def splitLinesForCounting_def
        utf8ByteLength.simps unitBytes_def untruncated_def Let_def)
qed

text \<open>\<^verbatim>\<open>truncateStringToBytesFromEnd\<close> (truncate.ts) with a positive limit keeps the longest end of the
  string that fits in the limit, cut on a character boundary (a surrogate pair is one character) with
  each unpaired surrogate replaced: what it keeps is well formed UTF-16, its UTF-8 length is within
  the limit, and with one character more it is not.\<close>

theorem truncateStringToBytesFromEnd_longest_end:
  assumes "0 < mb"
  shows "\<exists>k\<le>length (chars str). truncateStringToBytesFromEnd str mb
       = replaceUnpairedSurrogates (concat (drop k (chars str)))
    \<and> wellFormed (replaceUnpairedSurrogates (concat (drop k (chars str))))
    \<and> int (utf8ByteLength (truncateStringToBytesFromEnd str mb)) \<le> mb
    \<and> (0 < k \<longrightarrow> mb < int (utf8ByteLength (concat (drop (k - 1) (chars str)))))"
  using fromEnd_suffix [OF assms, of str] replace_wellFormed by (auto simp: text_simps)

theorem truncateStringToBytesFromEnd_longest_end_witness:
  "truncateStringToBytesFromEnd [97, 0xd83d, 0xde00, 98] 5 = [0xd83d, 0xde00, 98]
   \<and> utf8ByteLength (truncateStringToBytesFromEnd [97, 0xd83d, 0xde00, 98] 5) \<le> 5"
  using truncateStringToBytesFromEnd_longest_end [of 5 "[97, 0xd83d, 0xde00, 98]"]
  by (auto simp: truncateStringToBytesFromEnd_def fromEndLoop.simps is_high_def is_low_def unitBytes_def Let_def)

end
