(* ===== verification/Notices.thy ===== *)
theory Notices
  imports Jr2_Prelude
begin

text \<open>
  The notice ledger of a run, \<^verbatim>\<open>packages/orchestrator/src/notices.ts\<close> (class \<^verbatim>\<open>NoticeLedger\<close>), with the
  bodies it carries (\<^verbatim>\<open>wire.ts\<close>). The ledger keeps what the next Turn of an Agent cannot find out for
  itself until the conversation it goes to has heard it, and the Steering messages of the run.

  A value whose shape the ledger never reads (a pick's payload, an output) is its JSON text. A time
  stamp is what \<^verbatim>\<open>Date.parse\<close> gives: milliseconds, or \<open>None\<close> for a text that is not a time (\<^verbatim>\<open>NaN\<close>). The
  id generator of the constructor is the parameter \<open>newId\<close>, and \<open>l_minted\<close> counts its calls. An
  optional list field that the code reads only through \<^verbatim>\<open>?? []\<close> (\<^verbatim>\<open>retry\<close>, \<^verbatim>\<open>heardBy\<close>, \<^verbatim>\<open>told\<close>) is the list.
\<close>

section \<open>Bodies\<close>

type_synonym json = string
type_synonym stamp = "int option"

datatype party = AgentParty | GateParty

datatype PickAnswer =
    EventAnswer ident "(party \<times> ident) option" json
  | OutputAnswer ident json
  | ValueAnswer json

datatype Notice =
    MemoryLimitNotice "ident option" "string option" "string option"
  | ConversationNewNotice string
  | PickAnswerNotice ident bool "PickAnswer option" bool

datatype SteeringAuthor =
    CallerAuthor string ident "string option"
  | MachineAuthor "(party \<times> ident) option"

record SteeringMessage =
  m_text :: string
  m_author :: SteeringAuthor
  m_at :: string

datatype LedgerBody = NoticeBody Notice | SteeringBody SteeringMessage

datatype scope = ConversationScope | WorkspaceScope | SlotScope

fun noticeScope :: "Notice \<Rightarrow> scope" where
  "noticeScope (MemoryLimitNotice _ _ _) = WorkspaceScope"
| "noticeScope (ConversationNewNotice _) = ConversationScope"
| "noticeScope (PickAnswerNotice _ _ _ _) = ConversationScope"

fun bodyScope :: "LedgerBody \<Rightarrow> scope" where
  "bodyScope (NoticeBody n) = noticeScope n"
| "bodyScope (SteeringBody _) = SlotScope"

section \<open>The state of the ledger\<close>

datatype SteeringOutcome = Held | Heard | NotDelivered

record SteeringRecord =
  s_id :: ident
  s_agent :: ident
  s_author :: SteeringAuthor
  s_text :: string
  s_at :: string
  s_outcome :: SteeringOutcome

record NoticeRetry =
  r_slot :: ident
  r_cut :: "ident option"
  r_retried :: bool

record PendingNotice =
  p_id :: ident
  p_notice :: LedgerBody
  p_to :: ident
  p_source :: "ident option"
  p_audience :: "ident list option"
  p_retry :: "NoticeRetry list"
  p_heardBy :: "ident list"
  p_told :: "ident list"

record NoticeMember =
  mb_taker :: ident
  mb_slot :: ident
  mb_continued :: bool
  mb_open :: bool
  mb_since :: stamp

record NoticeLedgerState =
  st_pending :: "PendingNotice list"
  st_seen :: "ident list"
  st_retriesSeen :: "ident list"
  st_members :: "(ident \<times> NoticeMember list) list"
  st_steering :: "SteeringRecord list"

record NoticeLedger =
  l_pending :: "PendingNotice list"
  l_seen :: "ident list"
  l_retriesSeen :: "ident list"
  l_members :: "(ident \<times> NoticeMember list) list"
  l_reserved :: "ident list"
  l_asRetry :: "ident \<rightharpoonup> ident"
  l_steering :: "SteeringRecord list"
  l_minted :: nat

record NoticeScope =
  sc_conversation :: "ident option"
  sc_workspace :: "ident option"
  sc_taker :: "ident option"
  sc_slot :: "ident option"
  sc_turn :: bool
  sc_only :: "ident list option"
  sc_except :: "ident list option"
  sc_exceptPrefix :: "string option"

record RaiseOptions =
  o_retry :: "NoticeRetry option"
  o_told :: "ident list"
  o_at :: "stamp option"

record TakenNotices =
  t_ids :: "ident list"
  t_notices :: "LedgerBody list"
  t_raised :: "(LedgerBody \<times> ident option) list"

definition STEERING_RECORD_MAX :: nat where "STEERING_RECORD_MAX = 100"
definition AUDIENCE_SKEW_MS :: int where "AUDIENCE_SKEW_MS = 2000"

abbreviation nul :: char where "nul \<equiv> CHR 0x00"

definition isWorkspace :: "PendingNotice \<Rightarrow> bool" where
  "isWorkspace p \<longleftrightarrow> bodyScope (p_notice p) = WorkspaceScope"

text \<open>The Machine path of a slot: up to its last \<^verbatim>\<open>/\<close>, and empty when it has none.\<close>

definition slotMachine :: "ident \<Rightarrow> ident" where
  "slotMachine slot = rev (tl (dropWhile (\<lambda>c. c \<noteq> CHR ''/'') (rev slot)))"

definition recordOf :: "SteeringRecord \<Rightarrow> SteeringMessage \<Rightarrow> ident \<Rightarrow> bool" where
  "recordOf r body slot \<longleftrightarrow> s_agent r = slot \<and> s_at r = m_at body \<and> s_text r = m_text body"

definition reservation :: "PendingNotice \<Rightarrow> ident option \<Rightarrow> ident" where
  "reservation p taker =
     (if isWorkspace p then p_id p @ [nul] @ (case taker of Some t \<Rightarrow> t | None \<Rightarrow> []) else p_id p)"

definition retryMark :: "ident \<Rightarrow> ident \<Rightarrow> ident" where
  "retryMark source slot = source @ [nul] @ ''retry'' @ [nul] @ slot"

section \<open>Construction and persistence\<close>

definition newLedger :: "NoticeLedgerState option \<Rightarrow> nat \<Rightarrow> NoticeLedger" where
  "newLedger state minted = (case state of
      None \<Rightarrow> \<lparr>l_pending = [], l_seen = [], l_retriesSeen = [], l_members = [], l_reserved = [],
               l_asRetry = Map.empty, l_steering = [], l_minted = minted\<rparr>
    | Some s \<Rightarrow> \<lparr>l_pending = st_pending s, l_seen = fold setAdd (st_seen s) [],
               l_retriesSeen = fold setAdd (st_retriesSeen s) [], l_members = st_members s,
               l_reserved = [], l_asRetry = Map.empty, l_steering = st_steering s, l_minted = minted\<rparr>)"

definition state :: "NoticeLedger \<Rightarrow> NoticeLedgerState" where
  "state L = \<lparr>st_pending = l_pending L, st_seen = l_seen L, st_retriesSeen = l_retriesSeen L,
              st_members = l_members L, st_steering = l_steering L\<rparr>"

section \<open>Steering messages\<close>

fun trimLoop :: "nat \<Rightarrow> SteeringRecord list \<Rightarrow> SteeringRecord list" where
  "trimLoop 0 rs = rs"
| "trimLoop (Suc over) [] = []"
| "trimLoop (Suc over) (r # rs) = (if s_outcome r = Held then r # trimLoop (Suc over) rs else trimLoop over rs)"

definition trimRecord :: "SteeringRecord list \<Rightarrow> SteeringRecord list" where
  "trimRecord rs = trimLoop (length rs - STEERING_RECORD_MAX) rs"

definition steer :: "(nat \<Rightarrow> ident) \<Rightarrow> SteeringMessage \<Rightarrow> ident \<Rightarrow> NoticeLedger \<Rightarrow> NoticeLedger \<times> ident" where
  "steer newId message slot L =
     (let nid = newId (l_minted L);
          entry = \<lparr>p_id = nid, p_notice = SteeringBody message, p_to = slot, p_source = None,
                   p_audience = None, p_retry = [], p_heardBy = [], p_told = []\<rparr>;
          record' = \<lparr>s_id = nid, s_agent = slot, s_author = m_author message, s_text = m_text message,
                    s_at = m_at message, s_outcome = Held\<rparr>
      in (L\<lparr>l_minted := Suc (l_minted L), l_pending := l_pending L @ [entry],
            l_steering := trimRecord (l_steering L @ [record'])\<rparr>, nid))"

definition setOutcome :: "SteeringMessage \<Rightarrow> ident \<Rightarrow> SteeringOutcome \<Rightarrow> SteeringRecord list \<Rightarrow> SteeringRecord list" where
  "setOutcome body slot outcome rs = updFirst (\<lambda>r. recordOf r body slot) (\<lambda>r. r\<lparr>s_outcome := outcome\<rparr>) rs"

definition retired :: "SteeringMessage \<Rightarrow> ident \<Rightarrow> NoticeLedger \<Rightarrow> bool" where
  "retired body slot L \<longleftrightarrow> (\<exists>r\<in>set (l_steering L). s_outcome r = NotDelivered \<and> recordOf r body slot)"

definition retires :: "ident option \<Rightarrow> PendingNotice \<Rightarrow> bool" where
  "retires machine p \<longleftrightarrow>
     (case p_notice p of NoticeBody _ \<Rightarrow> False
      | SteeringBody _ \<Rightarrow>
          (case machine of None \<Rightarrow> True
           | Some m \<Rightarrow> slotMachine (p_to p) = m \<or> startsWith (slotMachine (p_to p)) (m @ ''.'')))"

fun outcomeOf :: "SteeringOutcome \<Rightarrow> PendingNotice \<Rightarrow> SteeringRecord list \<Rightarrow> SteeringRecord list" where
  "outcomeOf outcome p rs =
     (case p_notice p of SteeringBody m \<Rightarrow> setOutcome m (p_to p) outcome rs | NoticeBody _ \<Rightarrow> rs)"

definition retire :: "ident option \<Rightarrow> NoticeLedger \<Rightarrow> NoticeLedger \<times> bool" where
  "retire machine L =
     (let gone = filter (retires machine) (l_pending L)
      in (L\<lparr>l_pending := filter (\<lambda>p. \<not> retires machine p) (l_pending L),
            l_reserved := filter (\<lambda>k. k \<notin> set (map p_id gone)) (l_reserved L),
            l_steering := fold (outcomeOf NotDelivered) gone (l_steering L)\<rparr>, gone \<noteq> []))"

section \<open>Raising a notice\<close>

definition reservedByAny :: "NoticeLedger \<Rightarrow> PendingNotice \<Rightarrow> bool" where
  "reservedByAny L p \<longleftrightarrow> (\<exists>k\<in>set (l_reserved L). k = p_id p \<or> startsWith k (p_id p @ [nul]))"

definition sameAs :: "Notice \<Rightarrow> ident \<Rightarrow> PendingNotice \<Rightarrow> bool" where
  "sameAs notice to p \<longleftrightarrow> p_source p = None \<and> p_to p = to \<and> p_notice p = NoticeBody notice"

definition isTwin :: "NoticeLedger \<Rightarrow> Notice \<Rightarrow> ident \<Rightarrow> PendingNotice \<Rightarrow> bool" where
  "isTwin L notice to p \<longleftrightarrow>
     sameAs notice to p \<and> (\<not> isWorkspace p \<or> (p_heardBy p = [] \<and> \<not> reservedByAny L p))"

definition membersOf :: "NoticeLedger \<Rightarrow> ident \<Rightarrow> NoticeMember list" where
  "membersOf L ws = (case map_of (l_members L) ws of None \<Rightarrow> [] | Some ms \<Rightarrow> ms)"

text \<open>\<^verbatim>\<open>Date.parse(m.since) <= at + AUDIENCE_SKEW_MS\<close>: a comparison with \<^verbatim>\<open>NaN\<close> is false, and a kill
  whose own time is not a time excludes nobody.\<close>

definition wasThere :: "stamp option \<Rightarrow> NoticeMember \<Rightarrow> bool" where
  "wasThere at m = (case at of None \<Rightarrow> True | Some None \<Rightarrow> True
     | Some (Some t) \<Rightarrow> (case mb_since m of None \<Rightarrow> False | Some s \<Rightarrow> s \<le> t + AUDIENCE_SKEW_MS))"

definition audienceOf :: "NoticeLedger \<Rightarrow> ident \<Rightarrow> RaiseOptions \<Rightarrow> ident list" where
  "audienceOf L ws opts =
     filter (\<lambda>t. t \<notin> set (o_told opts))
       (map mb_taker (filter (wasThere (o_at opts)) (filter (\<lambda>m. mb_open m \<or> mb_continued m) (membersOf L ws))))"

definition addRetry ::
  "(nat \<Rightarrow> ident) \<Rightarrow> Notice \<Rightarrow> ident \<Rightarrow> ident \<Rightarrow> NoticeRetry option \<Rightarrow> NoticeLedger \<Rightarrow> NoticeLedger \<times> bool" where
  "addRetry newId notice to source retry L =
     (case retry of None \<Rightarrow> (L, False)
      | Some r \<Rightarrow>
        if noticeScope notice \<noteq> WorkspaceScope then (L, False)
        else let mark = retryMark source (r_slot r) in
          if mark \<in> set (l_retriesSeen L) then (L, False)
          else let L1 = L\<lparr>l_retriesSeen := setAdd mark (l_retriesSeen L)\<rparr>;
                   isIt = (\<lambda>p. p_source p = Some source \<and> p_to p = to)
               in if find isIt (l_pending L) \<noteq> None
                  then (L1\<lparr>l_pending := updFirst isIt (\<lambda>p. p\<lparr>p_retry := p_retry p @ [r]\<rparr>) (l_pending L)\<rparr>, True)
                  else (L1\<lparr>l_minted := Suc (l_minted L),
                          l_pending := l_pending L @
                            [\<lparr>p_id = newId (l_minted L), p_notice = NoticeBody notice, p_to = to,
                              p_source = Some source, p_audience = Some [], p_retry = [r],
                              p_heardBy = [], p_told = []\<rparr>]\<rparr>, True))"

text \<open>The end of \<^verbatim>\<open>raise\<close>: fold into a pending twin, or push a new entry.\<close>

definition raiseNew ::
  "(nat \<Rightarrow> ident) \<Rightarrow> Notice \<Rightarrow> ident \<Rightarrow> ident option \<Rightarrow> RaiseOptions \<Rightarrow> bool \<Rightarrow> NoticeLedger \<Rightarrow> NoticeLedger \<times> bool" where
  "raiseNew newId notice to source opts changed L =
     (let workspace = (noticeScope notice = WorkspaceScope);
          audience = (if workspace then Some (audienceOf L to opts) else None);
          twin = (if source = None then find (isTwin L notice to) (l_pending L) else None)
      in case twin of
        Some tw \<Rightarrow>
          (case audience of None \<Rightarrow> (L, changed)
           | Some a \<Rightarrow>
             let old = (case p_audience tw of None \<Rightarrow> [] | Some o' \<Rightarrow> o');
                 new = setUnion old a;
                 retried = (case o_retry opts of None \<Rightarrow> False
                            | Some r \<Rightarrow> \<not> (\<exists>x\<in>set (p_retry tw). r_slot x = r_slot r));
                 change = (\<lambda>p. p\<lparr>p_audience := Some new,
                              p_retry := (if retried then p_retry p @ [the (o_retry opts)] else p_retry p)\<rparr>)
             in (L\<lparr>l_pending := updFirst (isTwin L notice to) change (l_pending L)\<rparr>,
                 changed \<or> length new \<noteq> length old \<or> retried))
      | None \<Rightarrow>
          if audience = Some [] \<and> o_retry opts = None then (L, changed)
          else (L\<lparr>l_minted := Suc (l_minted L),
                  l_pending := l_pending L @
                    [\<lparr>p_id = newId (l_minted L), p_notice = NoticeBody notice, p_to = to, p_source = source,
                      p_audience = audience,
                      p_retry = (case o_retry opts of None \<Rightarrow> [] | Some r \<Rightarrow> [r]),
                      p_heardBy = [], p_told = (if workspace then o_told opts else [])\<rparr>]\<rparr>, True))"

definition raise ::
  "(nat \<Rightarrow> ident) \<Rightarrow> Notice \<Rightarrow> ident \<Rightarrow> ident option \<Rightarrow> ident list \<Rightarrow> RaiseOptions \<Rightarrow> NoticeLedger \<Rightarrow> NoticeLedger \<times> bool" where
  "raise newId notice to source older opts L =
     (let changed = (\<exists>s\<in>set older. s \<notin> set (l_seen L));
          L1 = L\<lparr>l_seen := fold setAdd older (l_seen L)\<rparr>
      in case source of
        None \<Rightarrow> raiseNew newId notice to None opts changed L1
      | Some s \<Rightarrow>
          if s \<in> set (l_seen L1)
          then (case addRetry newId notice to s (o_retry opts) L1 of (L2, c) \<Rightarrow> (L2, c \<or> changed))
          else raiseNew newId notice to (Some s) opts True
                 (L1\<lparr>l_seen := setAdd s (l_seen L1),
                     l_retriesSeen := (case o_retry opts of None \<Rightarrow> l_retriesSeen L1
                        | Some r \<Rightarrow> setAdd (retryMark s (r_slot r)) (l_retriesSeen L1))\<rparr>))"

section \<open>Hearing\<close>

text \<open>Every member, and every retry, of a Workspace notice has heard it.\<close>

definition complete :: "PendingNotice \<Rightarrow> bool" where
  "complete p \<longleftrightarrow> isWorkspace p \<and>
     (case p_audience p of None \<Rightarrow> False
      | Some a \<Rightarrow> (\<forall>t\<in>set a. t \<in> set (p_heardBy p)) \<and> (\<forall>r\<in>set (p_retry p). r_retried r))"

text \<open>\<^verbatim>\<open>#retireIfHeard(p)\<close> on one changed entry: it leaves the pending set when it is complete.\<close>

definition retireIfHeard :: "PendingNotice \<Rightarrow> PendingNotice list" where
  "retireIfHeard p = (if complete p then [] else [p])"

definition retryFor :: "PendingNotice \<Rightarrow> NoticeScope \<Rightarrow> ident option \<Rightarrow> NoticeRetry option" where
  "retryFor p sc taker =
     (case taker of None \<Rightarrow> None
      | Some t \<Rightarrow> if \<not> sc_turn sc \<or> t \<in> set (p_told p) then None
                  else find (\<lambda>r. \<not> r_retried r \<and> Some (r_slot r) = sc_slot sc) (p_retry p))"

definition eligible :: "NoticeLedger \<Rightarrow> NoticeScope \<Rightarrow> ident option \<Rightarrow> PendingNotice \<Rightarrow> bool" where
  "eligible L sc taker p \<longleftrightarrow>
     reservation p taker \<notin> set (l_reserved L)
     \<and> (case sc_only sc of None \<Rightarrow> True
        | Some only \<Rightarrow> (case p_source p of None \<Rightarrow> False | Some s \<Rightarrow> s \<in> set only))
     \<and> (case sc_except sc of None \<Rightarrow> True
        | Some ex \<Rightarrow> (case p_source p of None \<Rightarrow> True | Some s \<Rightarrow> s \<notin> set ex))
     \<and> (case sc_exceptPrefix sc of None \<Rightarrow> True
        | Some pre \<Rightarrow> (case p_source p of None \<Rightarrow> True | Some s \<Rightarrow> \<not> startsWith s pre))
     \<and> (case bodyScope (p_notice p) of
          ConversationScope \<Rightarrow> Some (p_to p) = sc_conversation sc
        | SlotScope \<Rightarrow> Some (p_to p) = sc_slot sc
        | WorkspaceScope \<Rightarrow>
            (case taker of None \<Rightarrow> False
             | Some t \<Rightarrow> Some (p_to p) = sc_workspace sc \<and> t \<notin> set (p_heardBy p)
                 \<and> (case p_audience p of None \<Rightarrow> True
                    | Some a \<Rightarrow> t \<in> set a \<or> retryFor p sc taker \<noteq> None)))"

definition takerOf :: "NoticeScope \<Rightarrow> ident option" where
  "takerOf sc = (case sc_taker sc of Some t \<Rightarrow> Some t | None \<Rightarrow> sc_conversation sc)"

definition retryToldOne :: "NoticeScope \<Rightarrow> ident option \<Rightarrow> PendingNotice \<Rightarrow> PendingNotice list" where
  "retryToldOne sc taker p =
     (case taker of None \<Rightarrow> [p]
      | Some t \<Rightarrow>
        if \<not> sc_turn sc \<or> sc_workspace sc \<noteq> Some (p_to p) \<or> t \<notin> set (p_told p) then [p]
        else let mine = (\<lambda>r. \<not> r_retried r \<and> Some (r_slot r) = sc_slot sc);
                 p' = p\<lparr>p_retry := map (\<lambda>r. if mine r then r\<lparr>r_retried := True\<rparr> else r) (p_retry p)\<rparr>
             in if \<exists>r\<in>set (p_retry p). mine r then retireIfHeard p' else [p])"

definition retryTold :: "NoticeScope \<Rightarrow> ident option \<Rightarrow> NoticeLedger \<Rightarrow> NoticeLedger" where
  "retryTold sc taker L = L\<lparr>l_pending := concat (map (retryToldOne sc taker) (l_pending L))\<rparr>"

fun reserveAll :: "NoticeScope \<Rightarrow> ident option \<Rightarrow> PendingNotice list \<Rightarrow> NoticeLedger \<Rightarrow> NoticeLedger" where
  "reserveAll sc taker [] L = L"
| "reserveAll sc taker (p # ps) L =
     (let key = reservation p taker
      in reserveAll sc taker ps
           (L\<lparr>l_reserved := setAdd key (l_reserved L),
              l_asRetry := (case retryFor p sc taker of None \<Rightarrow> l_asRetry L
                            | Some r \<Rightarrow> (l_asRetry L)(key \<mapsto> r_slot r))\<rparr>))"

definition take_notices :: "NoticeScope \<Rightarrow> NoticeLedger \<Rightarrow> NoticeLedger \<times> TakenNotices" where
  "take_notices sc L =
     (let taker = takerOf sc;
          L1 = retryTold sc taker L;
          taken = filter (eligible L1 sc taker) (l_pending L1)
      in (reserveAll sc taker taken L1,
          \<lparr>t_ids = map p_id taken, t_notices = fold setAdd (map p_notice taken) [],
           t_raised = map (\<lambda>p. (p_notice p, p_source p)) taken\<rparr>))"

definition peek :: "NoticeScope \<Rightarrow> NoticeLedger \<Rightarrow> (ident \<times> LedgerBody \<times> ident option) list" where
  "peek sc L = map (\<lambda>p. (p_id p, p_notice p, p_source p)) (filter (eligible L sc (takerOf sc)) (l_pending L))"

text \<open>One turn of the loop of \<^verbatim>\<open>delivered\<close>.\<close>

definition deliverOne :: "ident option \<Rightarrow> ident \<Rightarrow> NoticeLedger \<Rightarrow> NoticeLedger" where
  "deliverOne taker nid L =
     (case find (\<lambda>p. p_id p = nid) (l_pending L) of
        None \<Rightarrow> L\<lparr>l_reserved := setDelete nid (l_reserved L)\<rparr>
      | Some p \<Rightarrow>
        let key = reservation p taker;
            L1 = L\<lparr>l_reserved := setDelete key (l_reserved L)\<rparr>
        in if \<not> isWorkspace p then
             L1\<lparr>l_pending := delFirst (\<lambda>q. p_id q = nid) (l_pending L),
                l_steering := outcomeOf Heard p (l_steering L)\<rparr>
           else
             let retry' = (case l_asRetry L key of None \<Rightarrow> p_retry p
                   | Some slot \<Rightarrow> map (\<lambda>r. if r_slot r = slot then r\<lparr>r_retried := True\<rparr> else r) (p_retry p));
                 heard' = (case taker of None \<Rightarrow> p_heardBy p
                   | Some t \<Rightarrow> if t \<in> set (p_heardBy p) then p_heardBy p else p_heardBy p @ [t]);
                 p' = p\<lparr>p_retry := retry', p_heardBy := heard'\<rparr>
             in L1\<lparr>l_asRetry := (l_asRetry L)(key := None),
                   l_pending := (if complete p' then delFirst (\<lambda>q. p_id q = nid) (l_pending L)
                                 else updFirst (\<lambda>q. p_id q = nid) (\<lambda>_. p') (l_pending L))\<rparr>)"

definition delivered :: "ident list \<Rightarrow> ident option \<Rightarrow> NoticeLedger \<Rightarrow> NoticeLedger" where
  "delivered ids taker L = fold (deliverOne taker) ids L"

definition acknowledge :: "ident list \<Rightarrow> ident \<Rightarrow> NoticeLedger \<Rightarrow> NoticeLedger \<times> nat" where
  "acknowledge ids taker L =
     (let mine = filter (\<lambda>nid. case find (\<lambda>q. p_id q = nid) (l_pending L) of None \<Rightarrow> False
                   | Some p \<Rightarrow> reservation p (Some taker) \<in> set (l_reserved L)) ids
      in (delivered mine (Some taker) L, length mine))"

definition releaseOne :: "ident option \<Rightarrow> ident \<Rightarrow> NoticeLedger \<Rightarrow> NoticeLedger" where
  "releaseOne taker nid L =
     (let key = (case find (\<lambda>q. p_id q = nid) (l_pending L) of None \<Rightarrow> nid | Some p \<Rightarrow> reservation p taker)
      in L\<lparr>l_reserved := setDelete key (l_reserved L), l_asRetry := (l_asRetry L)(key := None)\<rparr>)"

definition release :: "ident list \<Rightarrow> ident option \<Rightarrow> NoticeLedger \<Rightarrow> NoticeLedger" where
  "release ids taker L = fold (releaseOne taker) ids L"

text \<open>The last entry that satisfies \<open>P\<close> changed: a mutation of \<^verbatim>\<open>filter(P).at(-1)\<close>.\<close>

definition updLast :: "('a \<Rightarrow> bool) \<Rightarrow> ('a \<Rightarrow> 'a) \<Rightarrow> 'a list \<Rightarrow> 'a list" where
  "updLast P f xs = rev (updFirst P f (rev xs))"

text \<open>\<^verbatim>\<open>restore\<close> on a pending Workspace notice: it is pending again for \<open>taker\<close>. \<open>pendingFor\<close> says that it
  already was.\<close>

definition pendingFor :: "ident \<Rightarrow> PendingNotice \<Rightarrow> bool" where
  "pendingFor taker p \<longleftrightarrow> taker \<notin> set (p_heardBy p)
     \<and> (case p_audience p of None \<Rightarrow> True | Some a \<Rightarrow> taker \<in> set a)"

definition pendAgain :: "ident \<Rightarrow> PendingNotice \<Rightarrow> PendingNotice" where
  "pendAgain taker p = p\<lparr>p_heardBy := filter (\<lambda>c. c \<noteq> taker) (p_heardBy p),
     p_audience := (case p_audience p of None \<Rightarrow> None
                    | Some a \<Rightarrow> if taker \<in> set a then Some a else Some (a @ [taker]))\<rparr>"

definition restoreSteering ::
  "(nat \<Rightarrow> ident) \<Rightarrow> SteeringMessage \<Rightarrow> ident \<Rightarrow> NoticeLedger \<Rightarrow> NoticeLedger \<times> bool" where
  "restoreSteering newId m to L =
     (let same = (\<lambda>p. p_to p = to \<and> (case p_notice p of NoticeBody _ \<Rightarrow> False
                      | SteeringBody m' \<Rightarrow> m_at m' = m_at m \<and> m_text m' = m_text m))
      in if retired m to L \<or> (\<exists>p\<in>set (l_pending L). same p) then (L, False)
         else (L\<lparr>l_minted := Suc (l_minted L),
                 l_pending := l_pending L @
                   [\<lparr>p_id = newId (l_minted L), p_notice = SteeringBody m, p_to = to, p_source = None,
                     p_audience = None, p_retry = [], p_heardBy = [], p_told = []\<rparr>],
                 l_steering := setOutcome m to Held (l_steering L)\<rparr>, True))"

text \<open>The rest of \<^verbatim>\<open>restore\<close>, when no pending entry is the notice's.\<close>

definition restoreGone ::
  "(nat \<Rightarrow> ident) \<Rightarrow> Notice \<Rightarrow> ident \<Rightarrow> ident option \<Rightarrow> ident option \<Rightarrow> NoticeLedger \<Rightarrow> NoticeLedger \<times> bool" where
  "restoreGone newId notice to source taker L =
     (let L1 = (case source of None \<Rightarrow> L | Some s \<Rightarrow> L\<lparr>l_seen := setAdd s (l_seen L)\<rparr>);
          push = (\<lambda>aud. (L1\<lparr>l_minted := Suc (l_minted L),
                    l_pending := l_pending L @
                      [\<lparr>p_id = newId (l_minted L), p_notice = NoticeBody notice, p_to = to, p_source = source,
                        p_audience = aud, p_retry = [], p_heardBy = [], p_told = []\<rparr>]\<rparr>, True))
      in if noticeScope notice = WorkspaceScope
         then (case taker of None \<Rightarrow> (L1, False) | Some t \<Rightarrow> push (Some [t]))
         else (case source of
                 None \<Rightarrow> raise newId notice to None [] \<lparr>o_retry = None, o_told = [], o_at = None\<rparr> L1
               | Some _ \<Rightarrow> push None))"

definition restore ::
  "(nat \<Rightarrow> ident) \<Rightarrow> LedgerBody \<Rightarrow> ident \<Rightarrow> ident option \<Rightarrow> ident option \<Rightarrow> NoticeLedger \<Rightarrow> NoticeLedger \<times> bool" where
  "restore newId body to source taker L =
     (case body of SteeringBody m \<Rightarrow> restoreSteering newId m to L
      | NoticeBody notice \<Rightarrow>
        (case source of
           Some s \<Rightarrow>
             let isIt = (\<lambda>p. p_source p = Some s \<and> p_to p = to) in
             (case find isIt (l_pending L) of
                None \<Rightarrow> restoreGone newId notice to source taker L
              | Some p \<Rightarrow>
                  (case taker of None \<Rightarrow> (L, False)
                   | Some t \<Rightarrow> if \<not> isWorkspace p \<or> pendingFor t p then (L, False)
                               else (L\<lparr>l_pending := updFirst isIt (pendAgain t) (l_pending L)\<rparr>, True)))
         | None \<Rightarrow>
             (case (noticeScope notice, taker) of
                (WorkspaceScope, Some t) \<Rightarrow>
                  if filter (sameAs notice to) (l_pending L) = [] then restoreGone newId notice to None taker L
                  else if \<exists>p\<in>set (l_pending L). sameAs notice to p \<and> pendingFor t p then (L, False)
                  else (L\<lparr>l_pending := updLast (sameAs notice to) (pendAgain t) (l_pending L)\<rparr>, True)
              | _ \<Rightarrow>
                  if find (isTwin L notice to) (l_pending L) \<noteq> None then (L, False)
                  else restoreGone newId notice to None taker L)))"

section \<open>Who is there\<close>

definition admitted :: "ident \<Rightarrow> ident \<Rightarrow> ident \<Rightarrow> bool \<Rightarrow> stamp \<Rightarrow> NoticeLedger \<Rightarrow> NoticeLedger \<times> bool" where
  "admitted ws taker slot continued since L =
     (let ms = membersOf L ws; isIt = (\<lambda>m. mb_taker m = taker)
      in case find isIt ms of
           Some known \<Rightarrow>
             if mb_open known \<and> mb_continued known = continued then (L, False)
             else (L\<lparr>l_members := mapSet ws
                       (updFirst isIt (\<lambda>m. m\<lparr>mb_open := True, mb_continued := continued\<rparr>) ms) (l_members L)\<rparr>, True)
         | None \<Rightarrow>
             (L\<lparr>l_members := mapSet ws
                  (ms @ [\<lparr>mb_taker = taker, mb_slot = slot, mb_continued = continued, mb_open = True, mb_since = since\<rparr>])
                  (l_members L)\<rparr>, True))"

definition leaveOne :: "ident \<Rightarrow> ident \<Rightarrow> PendingNotice \<Rightarrow> PendingNotice list" where
  "leaveOne taker ws p =
     (case p_audience p of None \<Rightarrow> [p]
      | Some a \<Rightarrow>
        if \<not> isWorkspace p \<or> p_to p \<noteq> ws \<or> taker \<in> set (p_heardBy p) \<or> taker \<notin> set a then [p]
        else retireIfHeard (p\<lparr>p_audience := Some (filter (\<lambda>t. t \<noteq> taker) a)\<rparr>))"

definition leave :: "ident \<Rightarrow> ident \<Rightarrow> NoticeLedger \<Rightarrow> NoticeLedger" where
  "leave taker ws L = L\<lparr>l_pending := concat (map (leaveOne taker ws) (l_pending L))\<rparr>"

fun endedLoop :: "ident \<Rightarrow> ident list \<Rightarrow> NoticeMember list \<Rightarrow> NoticeLedger \<Rightarrow> bool \<Rightarrow> NoticeMember list \<times> NoticeLedger \<times> bool" where
  "endedLoop ws [] ms L changed = (ms, L, changed)"
| "endedLoop ws (taker # takers) ms L changed =
     (let isIt = (\<lambda>m. mb_taker m = taker)
      in case find isIt ms of
           None \<Rightarrow> endedLoop ws takers ms L changed
         | Some m \<Rightarrow>
             if mb_continued m then endedLoop ws takers (updFirst isIt (\<lambda>m. m\<lparr>mb_open := False\<rparr>) ms) L True
             else endedLoop ws takers (delFirst isIt ms) (leave taker ws L) True)"

definition ended :: "ident \<Rightarrow> ident list \<Rightarrow> NoticeLedger \<Rightarrow> NoticeLedger \<times> bool" where
  "ended ws takers L =
     (case endedLoop ws takers (membersOf L ws) L False of (ms, L1, changed) \<Rightarrow>
        (L1\<lparr>l_members := (if ms = [] then mapDelete ws (l_members L1) else mapSet ws ms (l_members L1))\<rparr>, changed))"

fun forgetLoop :: "ident \<Rightarrow> (ident \<times> NoticeMember list) list \<Rightarrow> NoticeLedger \<Rightarrow> bool \<Rightarrow> NoticeLedger \<times> bool" where
  "forgetLoop taker [] L changed = (L, changed)"
| "forgetLoop taker ((ws, ms) # rest) L changed =
     (let isIt = (\<lambda>m. mb_taker m = taker)
      in if find isIt ms = None then forgetLoop taker rest L changed
         else let ms' = delFirst isIt ms;
                  L1 = L\<lparr>l_members := (if ms' = [] then mapDelete ws (l_members L) else mapSet ws ms' (l_members L))\<rparr>
              in forgetLoop taker rest (leave taker ws L1) True)"

definition forget :: "ident \<Rightarrow> NoticeLedger \<Rightarrow> NoticeLedger \<times> bool" where
  "forget taker L = forgetLoop taker (l_members L) L False"

definition toldOne :: "ident list \<Rightarrow> ident list \<Rightarrow> PendingNotice \<Rightarrow> PendingNotice" where
  "toldOne takers a p = p\<lparr>p_told := setUnion (p_told p) takers,
     p_audience := Some (filter (\<lambda>t. t \<notin> set takers \<or> t \<in> set (p_heardBy p)) a)\<rparr>"

definition told :: "ident \<Rightarrow> ident list \<Rightarrow> NoticeLedger \<Rightarrow> NoticeLedger \<times> bool" where
  "told source takers L =
     (let isIt = (\<lambda>q. p_source q = Some source)
      in if takers = [] then (L, False)
         else case find isIt (l_pending L) of None \<Rightarrow> (L, False)
         | Some p \<Rightarrow>
           (case p_audience p of None \<Rightarrow> (L, False)
            | Some a \<Rightarrow>
              let p' = toldOne takers a p;
                  same = (length (the (p_audience p')) = length a \<and> length (p_told p') = length (p_told p))
              in (L\<lparr>l_pending := replFirst isIt (\<lambda>_. if same then [p'] else retireIfHeard p') (l_pending L)\<rparr>, \<not> same)))"

section \<open>Operations as steps\<close>

text \<open>Every call the run host makes on a ledger; \<open>Restart\<close> is a save and a construction from the saved
  state, which forgets what was only in memory.\<close>

datatype LedgerOp =
    Steer SteeringMessage ident
  | Retire "ident option"
  | Raise Notice ident "ident option" "ident list" RaiseOptions
  | Take NoticeScope
  | Restore LedgerBody ident "ident option" "ident option"
  | Delivered "ident list" "ident option"
  | Acknowledge "ident list" ident
  | Release "ident list" "ident option"
  | Admitted ident ident ident bool stamp
  | Ended ident "ident list"
  | Forget ident
  | Told ident "ident list"
  | Restart

fun applyOp :: "(nat \<Rightarrow> ident) \<Rightarrow> LedgerOp \<Rightarrow> NoticeLedger \<Rightarrow> NoticeLedger" where
  "applyOp newId (Steer m slot) L = fst (steer newId m slot L)"
| "applyOp newId (Retire machine) L = fst (retire machine L)"
| "applyOp newId (Raise n to source older opts) L = fst (raise newId n to source older opts L)"
| "applyOp newId (Take sc) L = fst (take_notices sc L)"
| "applyOp newId (Restore b to source taker) L = fst (restore newId b to source taker L)"
| "applyOp newId (Delivered ids taker) L = delivered ids taker L"
| "applyOp newId (Acknowledge ids taker) L = fst (acknowledge ids taker L)"
| "applyOp newId (Release ids taker) L = release ids taker L"
| "applyOp newId (Admitted ws taker slot c since) L = fst (admitted ws taker slot c since L)"
| "applyOp newId (Ended ws takers) L = fst (ended ws takers L)"
| "applyOp newId (Forget taker) L = fst (forget taker L)"
| "applyOp newId (Told source takers) L = fst (told source takers L)"
| "applyOp newId Restart L = newLedger (Some (state L)) (l_minted L)"

text \<open>What the host passes: a retry that is raised has not been taken yet.\<close>

fun okOp :: "LedgerOp \<Rightarrow> bool" where
  "okOp (Raise n to source older opts) = (case o_retry opts of None \<Rightarrow> True | Some r \<Rightarrow> \<not> r_retried r)"
| "okOp _ = True"

section \<open>The invariant\<close>

definition pkey :: "PendingNotice \<Rightarrow> ident \<times> LedgerBody \<times> ident \<times> ident option" where
  "pkey p = (p_id p, p_notice p, p_to p, p_source p)"

definition wfEntry :: "PendingNotice \<Rightarrow> bool" where
  "wfEntry p \<longleftrightarrow> (isWorkspace p \<longleftrightarrow> p_audience p \<noteq> None) \<and> \<not> complete p"

definition srcKey :: "ident \<times> LedgerBody \<times> ident \<times> ident option \<Rightarrow> ident \<times> ident option" where
  "srcKey k = (case k of (_, _, to, source) \<Rightarrow> (to, source))"

definition hasSource :: "ident \<times> LedgerBody \<times> ident \<times> ident option \<Rightarrow> bool" where
  "hasSource k = (case k of (_, _, _, source) \<Rightarrow> source \<noteq> None)"

text \<open>Ids are the generator's and distinct; a source that is pending was seen, and is pending at most once
  for one address; each entry is well formed and someone is still to hear it.\<close>

definition wfKeys :: "(nat \<Rightarrow> ident) \<Rightarrow> nat \<Rightarrow> ident list \<Rightarrow> (ident \<times> LedgerBody \<times> ident \<times> ident option) list \<Rightarrow> bool" where
  "wfKeys newId minted seen ks \<longleftrightarrow>
     distinct (map fst ks) \<and> fst ` set ks \<subseteq> newId ` {..<minted}
     \<and> (\<forall>(_, _, _, source)\<in>set ks. \<forall>s. source = Some s \<longrightarrow> s \<in> set seen)
     \<and> distinct (map srcKey (filter hasSource ks))"

definition wfLedger :: "(nat \<Rightarrow> ident) \<Rightarrow> NoticeLedger \<Rightarrow> bool" where
  "wfLedger newId L \<longleftrightarrow> wfKeys newId (l_minted L) (l_seen L) (map pkey (l_pending L)) \<and> (\<forall>p\<in>set (l_pending L). wfEntry p)"

lemma pkey_simps [simp]:
  "pkey (p\<lparr>p_retry := r\<rparr>) = pkey p" "pkey (p\<lparr>p_heardBy := h\<rparr>) = pkey p"
  "pkey (p\<lparr>p_told := t\<rparr>) = pkey p" "pkey (p\<lparr>p_audience := a\<rparr>) = pkey p"
  by (simp_all add: pkey_def)

lemma isWorkspace_simps [simp]:
  "isWorkspace (p\<lparr>p_retry := r\<rparr>) = isWorkspace p" "isWorkspace (p\<lparr>p_heardBy := h\<rparr>) = isWorkspace p"
  "isWorkspace (p\<lparr>p_told := t\<rparr>) = isWorkspace p" "isWorkspace (p\<lparr>p_audience := a\<rparr>) = isWorkspace p"
  by (simp_all add: isWorkspace_def)

lemma wfKeys_subseq:
  assumes "wfKeys newId minted seen ks" and "subseq ks' ks" and "set seen \<subseteq> set seen'"
  shows "wfKeys newId minted seen' ks'"
proof -
  have sub: "set ks' \<subseteq> set ks" using assms(2) by (rule subseq_set)
  have old: "distinct (map fst ks)" "fst ` set ks \<subseteq> newId ` {..<minted}"
      "\<forall>(_, _, _, source)\<in>set ks. \<forall>s. source = Some s \<longrightarrow> s \<in> set seen"
      "distinct (map srcKey (filter hasSource ks))"
    using assms(1) by (simp_all add: wfKeys_def)
  have "distinct (map fst ks')"
    by (rule subseq_distinct [OF _ old(1)]) (rule subseq_map [OF assms(2)])
  moreover have "fst ` set ks' \<subseteq> newId ` {..<minted}" using old(2) sub by (meson image_mono order_trans)
  moreover have "\<forall>(_, _, _, source)\<in>set ks'. \<forall>s. source = Some s \<longrightarrow> s \<in> set seen'"
    using old(3) sub assms(3) by (auto dest!: subsetD)
  moreover have "distinct (map srcKey (filter hasSource ks'))"
    by (rule subseq_distinct [OF _ old(4)]) (intro subseq_map subseq_filter assms(2))
  ultimately show ?thesis by (simp add: wfKeys_def)
qed

text \<open>A step that only changes or removes entries, and one that adds an entry.\<close>

definition shrinks :: "NoticeLedger \<Rightarrow> NoticeLedger \<Rightarrow> bool" where
  "shrinks L L' \<longleftrightarrow> subseq (map pkey (l_pending L')) (map pkey (l_pending L))
     \<and> set (l_seen L) \<subseteq> set (l_seen L') \<and> l_minted L' = l_minted L"

lemma shrinks_refl [simp]: "shrinks L L"
  by (simp add: shrinks_def)

lemma shrinks_trans: "shrinks L M \<Longrightarrow> shrinks M N \<Longrightarrow> shrinks L N"
  by (auto simp: shrinks_def intro: subseq_order.trans)

lemma wfLedger_shrinks:
  "wfLedger newId L \<Longrightarrow> shrinks L L' \<Longrightarrow> (\<And>p. p \<in> set (l_pending L') \<Longrightarrow> wfEntry p) \<Longrightarrow> wfLedger newId L'"
  by (auto simp: wfLedger_def shrinks_def intro: wfKeys_subseq)

lemma wfLedger_push:
  assumes "wfLedger newId L" and "inj newId"
    and "l_pending L' = l_pending L @ [e]" and "l_minted L' = Suc (l_minted L)"
    and "p_id e = newId (l_minted L)" and "wfEntry e"
    and "set (l_seen L) \<subseteq> set (l_seen L')"
    and "\<And>s. p_source e = Some s \<Longrightarrow> s \<in> set (l_seen L') \<and> (\<forall>p\<in>set (l_pending L). \<not> (p_source p = Some s \<and> p_to p = p_to e))"
  shows "wfLedger newId L'"
proof -
  let ?ks = "map pkey (l_pending L)"
  have wf: "wfKeys newId (l_minted L) (l_seen L) ?ks" using assms(1) by (simp add: wfLedger_def)
  have fresh: "newId (l_minted L) \<notin> newId ` {..<l_minted L}" using assms(2) by (auto dest: injD)
  have src: "srcKey (pkey e) \<notin> srcKey ` (set ?ks \<inter> {k. hasSource k})" if "hasSource (pkey e)"
    using that assms(8) by (auto simp: srcKey_def hasSource_def pkey_def)
  have old: "distinct (map fst ?ks)" "fst ` set ?ks \<subseteq> newId ` {..<l_minted L}"
      "\<forall>(_, _, _, source)\<in>set ?ks. \<forall>s. source = Some s \<longrightarrow> s \<in> set (l_seen L)"
      "distinct (map srcKey (filter hasSource ?ks))"
    using wf by (simp_all add: wfKeys_def)
  have fst_e: "fst (pkey e) = newId (l_minted L)" using assms(5) by (simp add: pkey_def)
  have "fst (pkey e) \<notin> fst ` set ?ks" using fst_e fresh old(2) by (metis subsetD)
  then have "distinct (map fst (?ks @ [pkey e]))" using old(1) by (simp add: image_image)
  moreover have "fst ` set (?ks @ [pkey e]) \<subseteq> newId ` {..<Suc (l_minted L)}"
    using old(2) fst_e by (auto simp: lessThan_Suc)
  moreover have "\<forall>(_, _, _, source)\<in>set (?ks @ [pkey e]). \<forall>s. source = Some s \<longrightarrow> s \<in> set (l_seen L')"
    using old(3) assms(7,8) by (auto simp: pkey_def)
  moreover have "distinct (map srcKey (filter hasSource (?ks @ [pkey e])))"
    using old(4) src by auto
  ultimately have "wfKeys newId (Suc (l_minted L)) (l_seen L') (?ks @ [pkey e])"
    by (simp add: wfKeys_def)
  then show ?thesis using assms by (auto simp: wfLedger_def)
qed

section \<open>Entry-wise steps\<close>

text \<open>Every operation rewrites the pending entries one by one, in order: \<open>rewr R\<close> lifts a relation between an
  entry and what becomes of it (nothing, or one entry) to the pending list.\<close>

inductive rewr :: "('a \<Rightarrow> 'a list \<Rightarrow> bool) \<Rightarrow> 'a list \<Rightarrow> 'a list \<Rightarrow> bool" for R where
  rewr_Nil [intro!, simp]: "rewr R [] []"
| rewr_Cons: "R x zs \<Longrightarrow> rewr R xs ys \<Longrightarrow> rewr R (x # xs) (zs @ ys)"

inductive_simps rewr_Nil_iff [simp]: "rewr R [] ys"

lemma rewr_refl: "(\<And>x. R x [x]) \<Longrightarrow> rewr R xs xs"
proof (induction xs)
  case (Cons x xs)
  then show ?case using rewr_Cons [of R x "[x]" xs xs] by simp
qed simp

lemma rewr_mono: "rewr R xs ys \<Longrightarrow> (\<And>x zs. R x zs \<Longrightarrow> Q x zs) \<Longrightarrow> rewr Q xs ys"
  by (induction rule: rewr.induct) (auto intro: rewr_Cons)

lemma rewr_concat_map: "(\<And>x. x \<in> set xs \<Longrightarrow> R x (f x)) \<Longrightarrow> rewr R xs (concat (map f xs))"
  by (induction xs) (auto intro: rewr_Cons)

lemma rewr_keep: "R x [x] \<Longrightarrow> rewr R xs ys \<Longrightarrow> rewr R (x # xs) (x # ys)"
  using rewr_Cons [of R x "[x]" xs ys] by simp

lemma rewr_replFirst:
  assumes "\<And>p. find P xs = Some p \<Longrightarrow> R p (f p)" and "\<And>x. R x [x]"
  shows "rewr R xs (replFirst P f xs)"
  using assms(1)
proof (induction xs)
  case (Cons x xs)
  show ?case
  proof (cases "P x")
    case True
    then show ?thesis using Cons.prems [of x] by (simp add: rewr_Cons rewr_refl assms(2))
  next
    case False
    then have "rewr R xs (replFirst P f xs)" using Cons.prems by (intro Cons.IH) simp
    then show ?thesis using False by (simp add: rewr_keep assms(2))
  qed
qed simp

lemma rewr_append: "rewr R xs ys \<Longrightarrow> rewr R xs' ys' \<Longrightarrow> rewr R (xs @ xs') (ys @ ys')"
  by (induction rule: rewr.induct) (auto intro: rewr_Cons)

lemma rewr_snoc: "rewr R xs ys \<Longrightarrow> R x zs \<Longrightarrow> rewr R (xs @ [x]) (ys @ zs)"
  using rewr_append [of R xs ys "[x]" zs] rewr_Cons [of R x zs "[]" "[]"] by simp

lemma rewr_trans:
  assumes "rewr R xs ys" and "rewr R ys zs"
    and "\<And>x us. R x us \<Longrightarrow> us = [] \<or> (\<exists>y. us = [y])" and "\<And>x y us. R x [y] \<Longrightarrow> R y us \<Longrightarrow> R x us"
  shows "rewr R xs zs"
  using assms(1,2)
proof (induction arbitrary: zs rule: rewr.induct)
  case (rewr_Cons x us xs ys)
  consider "us = []" | y where "us = [y]" using assms(3) [OF rewr_Cons.hyps(1)] by blast
  then show ?case
  proof cases
    case 1
    then have "rewr R xs zs" using rewr_Cons.IH rewr_Cons.prems by simp
    then show ?thesis using rewr.rewr_Cons [of R x "[]" xs zs] rewr_Cons.hyps(1) 1 by simp
  next
    case 2
    then have "rewr R (y # ys) zs" using rewr_Cons.prems by simp
    then obtain vs ws where "zs = vs @ ws" "R y vs" "rewr R ys ws" by (cases rule: rewr.cases) auto
    then show ?thesis
      using rewr_Cons.IH rewr.rewr_Cons [of R x vs xs ws] assms(4) rewr_Cons.hyps(1) 2 by simp
  qed
qed simp

type_synonym key = "ident \<times> LedgerBody \<times> ident \<times> ident option"

text \<open>What one step may do to one entry: \<open>lose k t\<close> says that the step may end the wait of the taker \<open>t\<close> on the
  Workspace notice \<open>k\<close>, \<open>fin k\<close> that it may end a notice to one conversation or slot, and \<open>unhear\<close> that it
  may take back that a taker heard.\<close>

definition entryStep :: "(key \<Rightarrow> ident \<Rightarrow> bool) \<Rightarrow> (key \<Rightarrow> bool) \<Rightarrow> bool \<Rightarrow> PendingNotice \<Rightarrow> PendingNotice list \<Rightarrow> bool" where
  "entryStep lose fin unhear p qs \<longleftrightarrow>
     (case qs of
        [] \<Rightarrow> if isWorkspace p then (\<forall>t. pendingFor t p \<longrightarrow> lose (pkey p) t) else fin (pkey p)
      | [q] \<Rightarrow> pkey q = pkey p \<and> (wfEntry p \<longrightarrow> wfEntry q)
              \<and> (unhear \<or> set (p_heardBy p) \<subseteq> set (p_heardBy q))
              \<and> (\<forall>t. pendingFor t p \<longrightarrow> pendingFor t q \<or> lose (pkey p) t)
      | _ \<Rightarrow> False)"

lemma entryStep_Nil:
  "entryStep lose fin u p [] \<longleftrightarrow> (if isWorkspace p then (\<forall>t. pendingFor t p \<longrightarrow> lose (pkey p) t) else fin (pkey p))"
  by (simp add: entryStep_def)

lemma entryStep_one:
  "entryStep lose fin u p [q] \<longleftrightarrow> pkey q = pkey p \<and> (wfEntry p \<longrightarrow> wfEntry q)
     \<and> (u \<or> set (p_heardBy p) \<subseteq> set (p_heardBy q)) \<and> (\<forall>t. pendingFor t p \<longrightarrow> pendingFor t q \<or> lose (pkey p) t)"
  by (simp add: entryStep_def)

lemma entryStep_shape: "entryStep lose fin u p us \<Longrightarrow> us = [] \<or> (\<exists>y. us = [y])"
  by (auto simp: entryStep_def split: list.splits)

lemma entryStep_refl [simp]: "entryStep lose fin u p [p]"
  by (simp add: entryStep_one)

lemma isWorkspace_pkey: "pkey p = pkey q \<Longrightarrow> isWorkspace p = isWorkspace q"
  by (simp add: pkey_def isWorkspace_def)

lemma entryStep_trans:
  assumes "entryStep lose fin u x [y]" and "entryStep lose fin u y us"
  shows "entryStep lose fin u x us"
proof -
  have key: "pkey y = pkey x" using assms(1) by (simp add: entryStep_one)
  note xy = key isWorkspace_pkey [OF key]
  have heard: "pendingFor t y \<or> lose (pkey x) t" if "pendingFor t x" for t
    using assms(1) that by (simp add: entryStep_one)
  consider "us = []" | z where "us = [z]" using entryStep_shape [OF assms(2)] by blast
  then show ?thesis
  proof cases
    case 1
    have "if isWorkspace x then \<forall>t. pendingFor t y \<longrightarrow> lose (pkey x) t else fin (pkey x)"
      using assms(2) unfolding 1 entryStep_Nil xy by simp
    then show ?thesis unfolding 1 entryStep_Nil by (cases "isWorkspace x") (use heard in auto)
  next
    case (2 z)
    have y: "wfEntry x \<longrightarrow> wfEntry y" "u \<or> set (p_heardBy x) \<subseteq> set (p_heardBy y)"
      using assms(1) unfolding entryStep_one by simp_all
    have z: "pkey z = pkey x" "wfEntry y \<longrightarrow> wfEntry z" "u \<or> set (p_heardBy y) \<subseteq> set (p_heardBy z)"
        "\<forall>t. pendingFor t y \<longrightarrow> pendingFor t z \<or> lose (pkey x) t"
      using assms(2) unfolding 2 entryStep_one xy by simp_all
    have "u \<or> set (p_heardBy x) \<subseteq> set (p_heardBy z)" using y(2) z(3) by (cases u) auto
    moreover have "pendingFor t z \<or> lose (pkey x) t" if "pendingFor t x" for t
      using heard [OF that] z(4) by auto
    ultimately show ?thesis unfolding 2 entryStep_one using y(1) z(1,2) by simp
  qed
qed

definition ledgerStep :: "(key \<Rightarrow> ident \<Rightarrow> bool) \<Rightarrow> (key \<Rightarrow> bool) \<Rightarrow> bool \<Rightarrow> NoticeLedger \<Rightarrow> NoticeLedger \<Rightarrow> bool" where
  "ledgerStep lose fin u L L' \<longleftrightarrow> rewr (entryStep lose fin u) (l_pending L) (l_pending L')
     \<and> set (l_seen L) \<subseteq> set (l_seen L') \<and> l_minted L' = l_minted L"

lemma ledgerStep_same:
  "l_pending L' = l_pending L \<Longrightarrow> set (l_seen L) \<subseteq> set (l_seen L') \<Longrightarrow> l_minted L' = l_minted L \<Longrightarrow>
   ledgerStep lose fin u L L'"
  by (simp add: ledgerStep_def rewr_refl)

lemma ledgerStep_refl [simp]: "ledgerStep lose fin u L L"
  by (simp add: ledgerStep_same)

lemma ledgerStep_trans:
  assumes "ledgerStep lose fin u L M" and "ledgerStep lose fin u M N"
  shows "ledgerStep lose fin u L N"
proof -
  have "rewr (entryStep lose fin u) (l_pending L) (l_pending N)"
    by (rule rewr_trans [where ys = "l_pending M"])
       (use assms in \<open>simp_all add: ledgerStep_def entryStep_shape\<close>, blast intro: entryStep_trans)
  then show ?thesis using assms by (auto simp: ledgerStep_def)
qed

lemma ledgerStep_fold:
  "(\<And>x M. x \<in> set xs \<Longrightarrow> ledgerStep lose fin u M (f x M)) \<Longrightarrow> ledgerStep lose fin u L (fold f xs L)"
  by (induction xs arbitrary: L) (auto intro: ledgerStep_trans)

lemma ledgerStep_concat:
  "(\<And>p. p \<in> set (l_pending L) \<Longrightarrow> entryStep lose fin u p (f p)) \<Longrightarrow> l_pending L' = concat (map f (l_pending L)) \<Longrightarrow>
   l_seen L' = l_seen L \<Longrightarrow> l_minted L' = l_minted L \<Longrightarrow> ledgerStep lose fin u L L'"
  by (simp add: ledgerStep_def rewr_concat_map)

lemma ledgerStep_replFirst:
  "l_pending L' = replFirst P f (l_pending L) \<Longrightarrow> (\<And>p. find P (l_pending L) = Some p \<Longrightarrow> entryStep lose fin u p (f p)) \<Longrightarrow>
   set (l_seen L) \<subseteq> set (l_seen L') \<Longrightarrow> l_minted L' = l_minted L \<Longrightarrow> ledgerStep lose fin u L L'"
  by (simp add: ledgerStep_def rewr_replFirst)

lemma ledgerStep_subseq: "rewr (entryStep lose fin u) ps qs \<Longrightarrow> subseq (map pkey qs) (map pkey ps)"
proof (induction rule: rewr.induct)
  case (rewr_Cons x zs xs ys)
  then have "zs = [] \<or> (\<exists>y. zs = [y] \<and> pkey y = pkey x)" using entryStep_shape entryStep_one by metis
  then show ?case using rewr_Cons.IH by auto
qed simp

lemma rewr_in:
  "rewr R xs ys \<Longrightarrow> y \<in> set ys \<Longrightarrow> \<exists>x zs. x \<in> set xs \<and> y \<in> set zs \<and> R x zs"
  by (induction rule: rewr.induct) auto

lemma rewr_out:
  "rewr R xs ys \<Longrightarrow> x \<in> set xs \<Longrightarrow> \<exists>zs. set zs \<subseteq> set ys \<and> R x zs"
  by (induction rule: rewr.induct) auto

lemma wfLedger_ledgerStep:
  assumes "wfLedger newId L" and "ledgerStep lose fin u L L'"
  shows "wfLedger newId L'"
proof -
  have r: "rewr (entryStep lose fin u) (l_pending L) (l_pending L')" using assms(2) by (simp add: ledgerStep_def)
  have "wfEntry q" if q: "q \<in> set (l_pending L')" for q
  proof -
    obtain x zs where x: "x \<in> set (l_pending L)" "q \<in> set zs" "entryStep lose fin u x zs"
      using rewr_in [OF r q] by blast
    then have "zs = [q]" using entryStep_shape [OF x(3)] by auto
    then show ?thesis using x assms(1) by (simp add: entryStep_one wfLedger_def)
  qed
  then show ?thesis
    using wfLedger_shrinks [OF assms(1)] assms(2) ledgerStep_subseq [OF r] by (simp add: shrinks_def ledgerStep_def)
qed

section \<open>Every operation is an entry-wise step or a push\<close>

fun mayLose :: "LedgerOp \<Rightarrow> key \<Rightarrow> ident \<Rightarrow> bool" where
  "mayLose (Delivered ids taker) (nid, _, _, _) t \<longleftrightarrow> nid \<in> set ids \<and> taker = Some t"
| "mayLose (Acknowledge ids taker) (nid, _, _, _) t \<longleftrightarrow> nid \<in> set ids \<and> taker = t"
| "mayLose (Told source takers) (_, _, _, src) t \<longleftrightarrow> src = Some source \<and> t \<in> set takers"
| "mayLose (Ended ws takers) (_, _, to, _) t \<longleftrightarrow> to = ws \<and> t \<in> set takers"
| "mayLose (Forget taker) _ t \<longleftrightarrow> t = taker"
| "mayLose _ _ _ \<longleftrightarrow> False"

fun mayDrop :: "LedgerOp \<Rightarrow> key \<Rightarrow> bool" where
  "mayDrop (Delivered ids _) (nid, _, _, _) \<longleftrightarrow> nid \<in> set ids"
| "mayDrop (Acknowledge ids _) (nid, _, _, _) \<longleftrightarrow> nid \<in> set ids"
| "mayDrop (Retire _) (_, body, _, _) \<longleftrightarrow> (\<exists>m. body = SteeringBody m)"
| "mayDrop _ _ \<longleftrightarrow> False"

fun unhears :: "LedgerOp \<Rightarrow> bool" where
  "unhears (Restore _ _ _ _) = True"
| "unhears _ = False"

abbreviation opKeeps :: "LedgerOp \<Rightarrow> NoticeLedger \<Rightarrow> NoticeLedger \<Rightarrow> bool" where
  "opKeeps op \<equiv> ledgerStep (mayLose op) (mayDrop op) (unhears op)"

lemma wfEntry_simps: "wfEntry p \<longleftrightarrow> (isWorkspace p \<longleftrightarrow> p_audience p \<noteq> None) \<and> \<not> complete p"
  by (simp add: wfEntry_def)

lemma entryStep_retireIfHeard:
  assumes "pkey q = pkey p" and "p_audience q = None \<longleftrightarrow> p_audience p = None"
    and "set (p_heardBy p) \<subseteq> set (p_heardBy q)"
    and "\<And>t. pendingFor t p \<Longrightarrow> pendingFor t q \<or> lose (pkey p) t"
  shows "entryStep lose fin u p (retireIfHeard q)"
proof -
  have ws: "isWorkspace q = isWorkspace p" using assms(1) by (rule isWorkspace_pkey)
  have "lose (pkey p) t" if "complete q" "pendingFor t p" for t
    using that assms(4) [OF that(2)] by (auto simp: complete_def pendingFor_def split: option.splits)
  moreover have "complete q \<Longrightarrow> isWorkspace p" using ws by (simp add: complete_def)
  ultimately show ?thesis
    using assms ws by (auto simp: retireIfHeard_def entryStep_Nil entryStep_one wfEntry_def)
qed

lemma retryTold_keeps: "ledgerStep lose fin u L (retryTold sc tk L)"
proof -
  have one: "entryStep lose fin u p (retryToldOne sc tk p)" for p
    by (auto simp: retryToldOne_def Let_def pendingFor_def intro!: entryStep_retireIfHeard split: option.splits)
  then show ?thesis
    by (intro ledgerStep_concat [where f = "retryToldOne sc tk"]) (simp_all add: retryTold_def)
qed

lemma reserveAll_frame [frame_simps]:
  "l_pending (reserveAll sc tk ps M) = l_pending M" "l_seen (reserveAll sc tk ps M) = l_seen M"
  "l_minted (reserveAll sc tk ps M) = l_minted M"
  by (induction ps arbitrary: M) (simp_all add: Let_def)

lemma Take_keeps: "opKeeps (Take sc) L (fst (take_notices sc L))"
  by (rule ledgerStep_trans [OF retryTold_keeps [of _ _ _ _ sc "takerOf sc"]])
     (simp add: take_notices_def Let_def frame_simps ledgerStep_same)

lemma deliverOne_keeps:
  assumes "nid \<in> set ids"
  shows "opKeeps (Delivered ids taker) L (deliverOne taker nid L)"
proof (cases "find (\<lambda>p. p_id p = nid) (l_pending L)")
  case None
  then show ?thesis by (simp add: deliverOne_def ledgerStep_same)
next
  case (Some p)
  then have id: "p_id p = nid" by (rule find_Some_in(2))
  show ?thesis
  proof (cases "isWorkspace p")
    case False
    have "entryStep (mayLose (Delivered ids taker)) (mayDrop (Delivered ids taker)) (unhears (Delivered ids taker)) p []"
      using False id assms by (simp add: entryStep_Nil pkey_def)
    then show ?thesis using Some False
      by (intro ledgerStep_replFirst [where P = "\<lambda>p. p_id p = nid" and f = "\<lambda>_. []"])
         (auto simp: deliverOne_def Let_def delFirst_repl)
  next
    case True
    define retry' where "retry' = (case l_asRetry L (reservation p taker) of None \<Rightarrow> p_retry p
                   | Some slot \<Rightarrow> map (\<lambda>r. if r_slot r = slot then r\<lparr>r_retried := True\<rparr> else r) (p_retry p))"
    define heard' where "heard' = (case taker of None \<Rightarrow> p_heardBy p
                   | Some t \<Rightarrow> if t \<in> set (p_heardBy p) then p_heardBy p else p_heardBy p @ [t])"
    define p' where "p' = p\<lparr>p_retry := retry', p_heardBy := heard'\<rparr>"
    have "entryStep (mayLose (Delivered ids taker)) (mayDrop (Delivered ids taker)) (unhears (Delivered ids taker)) p (retireIfHeard p')"
      using id assms by (intro entryStep_retireIfHeard)
        (auto simp: p'_def heard'_def pendingFor_def pkey_def split: option.splits)
    moreover have "l_pending (deliverOne taker nid L) = replFirst (\<lambda>q. p_id q = nid) (\<lambda>_. retireIfHeard p') (l_pending L)"
      using Some True
      by (simp add: deliverOne_def Let_def retireIfHeard_def delFirst_repl updFirst_repl p'_def retry'_def heard'_def)
    ultimately show ?thesis using Some
      by (intro ledgerStep_replFirst [where P = "\<lambda>p. p_id p = nid" and f = "\<lambda>_. retireIfHeard p'"])
         (auto simp: deliverOne_def Let_def)
  qed
qed

lemma Delivered_keeps: "opKeeps (Delivered ids taker) L (delivered ids taker L)"
  unfolding delivered_def by (rule ledgerStep_fold) (rule deliverOne_keeps)

lemma ledgerStep_mono:
  assumes "ledgerStep lose fin u L L'" and "\<And>k t. lose k t \<Longrightarrow> lose' k t" and "\<And>k. fin k \<Longrightarrow> fin' k"
  shows "ledgerStep lose' fin' u L L'"
proof -
  have "entryStep lose' fin' u p qs" if "entryStep lose fin u p qs" for p qs
    using that assms(2,3) [of "pkey p"] entryStep_shape [OF that]
    by (auto simp: entryStep_Nil entryStep_one split: if_splits) blast+
  then show ?thesis using assms(1) by (auto simp: ledgerStep_def intro: rewr_mono)
qed

lemma Acknowledge_keeps: "opKeeps (Acknowledge ids taker) L (fst (acknowledge ids taker L))"
  by (auto simp: acknowledge_def Let_def intro!: ledgerStep_mono [OF Delivered_keeps, simplified])

lemma leave_keeps:
  assumes "\<And>k. fst (snd (snd k)) = ws \<Longrightarrow> lose k taker"
  shows "ledgerStep lose fin u L (leave taker ws L)"
proof -
  have "entryStep lose fin u p (leaveOne taker ws p)" for p
    using assms [of "pkey p"]
    by (auto simp: leaveOne_def pendingFor_def pkey_def intro!: entryStep_retireIfHeard split: option.splits)
  then show ?thesis
    by (intro ledgerStep_concat [where f = "leaveOne taker ws"]) (simp_all add: leave_def)
qed

lemma endedLoop_keeps:
  assumes "endedLoop ws takers ms L changed = (ms', L', changed')"
    and "\<And>k t. t \<in> set takers \<Longrightarrow> fst (snd (snd k)) = ws \<Longrightarrow> lose k t"
  shows "ledgerStep lose fin u L L'"
  using assms
proof (induction ws takers ms L changed arbitrary: ms' L' changed' rule: endedLoop.induct)
  case (2 ws taker takers ms L changed)
  have left: "ledgerStep lose fin u L (leave taker ws L)" using 2(5) by (intro leave_keeps) simp
  show ?case
  proof (cases "find (\<lambda>m. mb_taker m = taker) ms")
    case None
    then show ?thesis using 2(1) [OF refl None] 2(4,5) by simp
  next
    case (Some m)
    then show ?thesis using 2(2) [OF refl Some] 2(3) [OF refl Some] 2(4,5) left
      by (cases "mb_continued m") (auto intro: ledgerStep_trans)
  qed
qed simp

lemma ledgerStep_frame:
  "ledgerStep lose fin u L M \<Longrightarrow> l_pending N = l_pending M \<Longrightarrow> l_seen N = l_seen M \<Longrightarrow> l_minted N = l_minted M \<Longrightarrow>
   ledgerStep lose fin u L N"
  by (simp add: ledgerStep_def)

lemma Ended_keeps: "opKeeps (Ended ws takers) L (fst (ended ws takers L))"
proof -
  obtain ms M c where loop: "endedLoop ws takers (membersOf L ws) L False = (ms, M, c)" by (metis prod_cases3)
  have "opKeeps (Ended ws takers) L M"
    by (rule endedLoop_keeps [OF loop]) auto
  then show ?thesis by (rule ledgerStep_frame) (simp_all add: ended_def loop)
qed

lemma forgetLoop_keeps:
  assumes "\<And>k. lose k taker"
  shows "ledgerStep lose fin u L (fst (forgetLoop taker wss L changed))"
proof (induction wss arbitrary: L changed)
  case (Cons wm rest)
  obtain ws ms where wm: "wm = (ws, ms)" by (cases wm)
  define ms' where "ms' = delFirst (\<lambda>m. mb_taker m = taker) ms"
  define L1 where "L1 = L\<lparr>l_members := (if ms' = [] then mapDelete ws (l_members L) else mapSet ws ms' (l_members L))\<rparr>"
  have "ledgerStep lose fin u L L1" by (rule ledgerStep_same) (simp_all add: L1_def)
  moreover have "ledgerStep lose fin u L1 (leave taker ws L1)" by (rule leave_keeps) (rule assms)
  ultimately have "ledgerStep lose fin u L (fst (forgetLoop taker rest (leave taker ws L1) True))"
    using Cons.IH by (blast intro: ledgerStep_trans)
  then show ?case using Cons.IH unfolding L1_def ms'_def wm by (simp add: Let_def)
qed simp

lemma Forget_keeps: "opKeeps (Forget taker) L (fst (forget taker L))"
  unfolding forget_def by (rule forgetLoop_keeps) simp

lemma filter_same_length: "length (filter P xs) = length xs \<Longrightarrow> filter P xs = xs"
  by (metis filter_True length_filter_less less_irrefl)

lemma toldOne_step:
  assumes "p_source p = Some source" and "p_audience p = Some a"
  shows "entryStep (mayLose (Told source takers)) fin u p (retireIfHeard (toldOne takers a p))"
  using assms by (intro entryStep_retireIfHeard) (auto simp: toldOne_def pendingFor_def pkey_def)

lemma toldOne_same:
  assumes "p_audience p = Some a" and "length (the (p_audience (toldOne takers a p))) = length a"
  shows "entryStep lose fin u p [toldOne takers a p]"
proof -
  have "filter (\<lambda>t. t \<notin> set takers \<or> t \<in> set (p_heardBy p)) a = a"
    using assms by (intro filter_same_length) (simp add: toldOne_def)
  then have "toldOne takers a p = p\<lparr>p_told := setUnion (p_told p) takers\<rparr>"
    using assms(1) by (simp add: toldOne_def)
  then show ?thesis by (simp add: entryStep_one wfEntry_def complete_def pendingFor_def split: option.splits)
qed

lemma Told_keeps: "opKeeps (Told source takers) L (fst (told source takers L))"
proof -
  let ?isIt = "\<lambda>q. p_source q = Some source"
  consider "fst (told source takers L) = L"
    | p a where "takers \<noteq> []" "find ?isIt (l_pending L) = Some p" "p_audience p = Some a"
  proof (cases "takers = [] \<or> find ?isIt (l_pending L) = None")
    case True
    then show thesis by (intro that(1)) (auto simp: told_def Let_def)
  next
    case False
    then obtain p where p: "takers \<noteq> []" "find ?isIt (l_pending L) = Some p" by auto
    then show thesis by (cases "p_audience p") (auto simp: told_def Let_def intro: that)
  qed
  then show ?thesis
  proof cases
    case (2 p a)
    have src: "p_source p = Some source" using 2(2) by (rule find_Some_in(2))
    define chg where "chg = (if length (the (p_audience (toldOne takers a p))) = length a
        \<and> length (p_told (toldOne takers a p)) = length (p_told p)
      then [toldOne takers a p] else retireIfHeard (toldOne takers a p))"
    have "entryStep (mayLose (Told source takers)) fin u p chg" for fin u
      using toldOne_step [OF src 2(3)] toldOne_same [OF 2(3)] by (simp add: chg_def)
    moreover have "fst (told source takers L) = L\<lparr>l_pending := replFirst ?isIt (\<lambda>_. chg) (l_pending L)\<rparr>"
      using 2 by (simp add: told_def chg_def Let_def)
    ultimately show ?thesis using 2(2)
      by (intro ledgerStep_replFirst [where P = ?isIt and f = "\<lambda>_. chg"]) simp_all
  qed simp
qed

lemma Retire_keeps: "opKeeps (Retire machine) L (fst (retire machine L))"
proof -
  have "entryStep (mayLose (Retire machine)) (mayDrop (Retire machine)) (unhears (Retire machine)) p
      (if retires machine p then [] else [p])" for p
    by (auto simp: entryStep_Nil retires_def isWorkspace_def pkey_def split: LedgerBody.splits)
  moreover have "filter (\<lambda>p. \<not> retires machine p) ps = concat (map (\<lambda>p. if retires machine p then [] else [p]) ps)" for ps
    by (induction ps) auto
  ultimately show ?thesis
    by (intro ledgerStep_concat [where f = "\<lambda>p. if retires machine p then [] else [p]"])
       (simp_all add: retire_def Let_def)
qed

lemma release_frame [frame_simps]:
  "l_pending (release ids taker L) = l_pending L" "l_seen (release ids taker L) = l_seen L"
  "l_minted (release ids taker L) = l_minted L"
  by (induction ids arbitrary: L; simp add: release_def releaseOne_def Let_def)+

lemma Release_keeps: "opKeeps (Release ids taker) L (release ids taker L)"
  by (rule ledgerStep_same) (simp_all add: frame_simps)

lemma Admitted_keeps: "opKeeps (Admitted ws taker slot c since) L (fst (admitted ws taker slot c since L))"
  by (rule ledgerStep_same) (auto simp: admitted_def Let_def split: option.splits)

lemma Restart_keeps: "opKeeps Restart L (newLedger (Some (state L)) (l_minted L))"
  by (rule ledgerStep_same) (auto simp: newLedger_def state_def)

text \<open>A push: one new entry, with the generator's next id, that someone is still to hear and whose source is
  not pending for the same address.\<close>

definition pushes :: "(nat \<Rightarrow> ident) \<Rightarrow> NoticeLedger \<Rightarrow> NoticeLedger \<Rightarrow> bool" where
  "pushes newId L L' \<longleftrightarrow> (\<exists>e. l_pending L' = l_pending L @ [e] \<and> p_id e = newId (l_minted L) \<and> wfEntry e
     \<and> (\<forall>s. p_source e = Some s \<longrightarrow> s \<in> set (l_seen L') \<and> (\<forall>p\<in>set (l_pending L). \<not> (p_source p = Some s \<and> p_to p = p_to e))))
     \<and> l_minted L' = Suc (l_minted L) \<and> set (l_seen L) \<subseteq> set (l_seen L')"

lemma wfLedger_pushes: "wfLedger newId L \<Longrightarrow> inj newId \<Longrightarrow> pushes newId L L' \<Longrightarrow> wfLedger newId L'"
  by (auto simp: pushes_def intro: wfLedger_push)

lemma pushesI:
  "l_pending L' = l_pending L @ [e] \<Longrightarrow> p_id e = newId (l_minted L) \<Longrightarrow> wfEntry e \<Longrightarrow> l_minted L' = Suc (l_minted L) \<Longrightarrow>
   set (l_seen L) \<subseteq> set (l_seen L') \<Longrightarrow>
   (\<And>s. p_source e = Some s \<Longrightarrow> s \<in> set (l_seen L') \<and> (\<forall>p\<in>set (l_pending L). \<not> (p_source p = Some s \<and> p_to p = p_to e))) \<Longrightarrow>
   pushes newId L L'"
  by (auto simp: pushes_def)

lemma wfEntry_plain: "\<not> isWorkspace e \<Longrightarrow> p_audience e = None \<Longrightarrow> wfEntry e"
  by (simp add: wfEntry_def complete_def)

lemma wfEntry_workspace:
  "isWorkspace e \<Longrightarrow> p_audience e = Some a \<Longrightarrow> p_heardBy e = [] \<Longrightarrow> a \<noteq> [] \<or> (\<exists>r\<in>set (p_retry e). \<not> r_retried r) \<Longrightarrow> wfEntry e"
  by (cases a) (auto simp: wfEntry_def complete_def)

lemma Steer_pushes: "pushes newId L (fst (steer newId m slot L))"
  by (rule pushesI) (auto simp: steer_def Let_def intro!: wfEntry_plain simp: isWorkspace_def)

lemma wfEntry_grown:
  assumes "wfEntry p" and "p_audience p \<noteq> None"
    and "set (case p_audience p of None \<Rightarrow> [] | Some a \<Rightarrow> a) \<subseteq> set b" and "set (p_retry p) \<subseteq> set rs"
  shows "wfEntry (p\<lparr>p_audience := Some b, p_retry := rs\<rparr>)"
  using assms by (auto simp: wfEntry_def complete_def split: option.splits)

lemma twin_step:
  assumes "isTwin L notice to tw"
    and "case o_retry opts of None \<Rightarrow> True | Some r \<Rightarrow> \<not> r_retried r"
    and "wfEntry tw" and "noticeScope notice = WorkspaceScope"
  shows "entryStep lose fin u tw [tw\<lparr>p_audience := Some (setUnion (case p_audience tw of None \<Rightarrow> [] | Some x \<Rightarrow> x) a),
      p_retry := (if c then p_retry tw @ [r] else p_retry tw)\<rparr>]"
proof -
  have "isWorkspace tw" using assms(1,4) by (simp add: isTwin_def sameAs_def isWorkspace_def)
  then obtain x where x: "p_audience tw = Some x" using assms(3) by (auto simp: wfEntry_def)
  have "wfEntry (tw\<lparr>p_audience := Some (setUnion x a), p_retry := (if c then p_retry tw @ [r] else p_retry tw)\<rparr>)"
    using assms(3) x by (intro wfEntry_grown) auto
  then show ?thesis using x by (auto simp: entryStep_one pendingFor_def)
qed

lemma raiseNew_push:
  assumes "case o_retry opts of None \<Rightarrow> True | Some r \<Rightarrow> \<not> r_retried r"
    and "\<And>s. source = Some s \<Longrightarrow> s \<in> set (l_seen L) \<and> (\<forall>p\<in>set (l_pending L). p_source p \<noteq> Some s)"
    and "source = None \<Longrightarrow> find (isTwin L notice to) (l_pending L) = None"
  shows "fst (raiseNew newId notice to source opts changed L) = L
    \<or> pushes newId L (fst (raiseNew newId notice to source opts changed L))"
proof -
  define ws where "ws = (noticeScope notice = WorkspaceScope)"
  define aud where "aud = (if ws then Some (audienceOf L to opts) else None)"
  define e where "e = \<lparr>p_id = newId (l_minted L), p_notice = NoticeBody notice, p_to = to, p_source = source,
     p_audience = aud, p_retry = (case o_retry opts of None \<Rightarrow> [] | Some r \<Rightarrow> [r]),
     p_heardBy = [], p_told = (if ws then o_told opts else [])\<rparr>"
  have eq: "fst (raiseNew newId notice to source opts changed L) =
      (if aud = Some [] \<and> o_retry opts = None then L
       else L\<lparr>l_minted := Suc (l_minted L), l_pending := l_pending L @ [e]\<rparr>)"
    using assms(3) by (cases source) (simp_all add: raiseNew_def Let_def e_def aud_def ws_def)
  have "wfEntry e" if "\<not> (aud = Some [] \<and> o_retry opts = None)"
  proof (cases ws)
    case False
    then show ?thesis by (intro wfEntry_plain) (simp_all add: e_def isWorkspace_def aud_def ws_def)
  next
    case True
    then show ?thesis using that assms(1)
      by (intro wfEntry_workspace [where a = "audienceOf L to opts"])
         (auto simp: e_def isWorkspace_def aud_def ws_def split: option.splits)
  qed
  then have "pushes newId L (fst (raiseNew newId notice to source opts changed L))"
    if "\<not> (aud = Some [] \<and> o_retry opts = None)"
    using that assms(2) by (intro pushesI [where e = e]) (auto simp: eq, simp_all add: e_def)
  then show ?thesis using eq by auto
qed

lemma raiseNew_twin:
  assumes "find (isTwin L notice to) (l_pending L) = Some tw" and "wfEntry tw"
    and "case o_retry opts of None \<Rightarrow> True | Some r \<Rightarrow> \<not> r_retried r"
  shows "ledgerStep lose fin u L (fst (raiseNew newId notice to None opts changed L))"
proof -
  define change :: "PendingNotice \<Rightarrow> PendingNotice" where "change = (\<lambda>p. p\<lparr>
    p_audience := Some (setUnion (case p_audience tw of None \<Rightarrow> [] | Some x \<Rightarrow> x) (audienceOf L to opts)),
    p_retry := (if case o_retry opts of None \<Rightarrow> False | Some r \<Rightarrow> \<not> (\<exists>x\<in>set (p_retry tw). r_slot x = r_slot r)
                then p_retry p @ [the (o_retry opts)] else p_retry p)\<rparr>)"
  have "entryStep lose fin u tw [change tw]" if "noticeScope notice = WorkspaceScope"
    unfolding change_def using that find_Some_in(2) [OF assms(1)] assms(2,3) by (intro twin_step) simp_all
  moreover have "fst (raiseNew newId notice to None opts changed L) =
      (if noticeScope notice = WorkspaceScope
       then L\<lparr>l_pending := updFirst (isTwin L notice to) change (l_pending L)\<rparr> else L)"
    unfolding raiseNew_def Let_def change_def assms(1) by simp
  ultimately show ?thesis
    using assms(1) by (cases "noticeScope notice = WorkspaceScope") (auto simp: updFirst_repl intro: ledgerStep_replFirst)
qed

lemma raiseNew_step:
  assumes "case o_retry opts of None \<Rightarrow> True | Some r \<Rightarrow> \<not> r_retried r"
    and "\<And>s. source = Some s \<Longrightarrow> s \<in> set (l_seen L) \<and> (\<forall>p\<in>set (l_pending L). p_source p \<noteq> Some s)"
    and "\<forall>p\<in>set (l_pending L). wfEntry p"
  shows "ledgerStep lose fin False L (fst (raiseNew newId notice to source opts changed L))
    \<or> pushes newId L (fst (raiseNew newId notice to source opts changed L))"
proof (cases "source = None \<and> find (isTwin L notice to) (l_pending L) \<noteq> None")
  case True
  then obtain tw where tw: "source = None" "find (isTwin L notice to) (l_pending L) = Some tw" by auto
  then have "wfEntry tw" using find_Some_in(1) [OF tw(2)] assms(3) by blast
  then show ?thesis unfolding tw(1) using raiseNew_twin [OF tw(2)] assms(1) by blast
next
  case False
  then have none: "source = None \<Longrightarrow> find (isTwin L notice to) (l_pending L) = None" by simp
  have "fst (raiseNew newId notice to source opts changed L) = L
    \<or> pushes newId L (fst (raiseNew newId notice to source opts changed L))"
    using assms(1,2) none by (rule raiseNew_push)
  then show ?thesis by auto
qed

text \<open>A step or a push after operations that only extend what was seen.\<close>

lemma step_seen:
  assumes "ledgerStep lose fin u M N \<or> pushes newId M N"
    and "l_pending M = l_pending L" "l_minted M = l_minted L" "set (l_seen L) \<subseteq> set (l_seen M)"
  shows "ledgerStep lose fin u L N \<or> pushes newId L N"
proof -
  have "ledgerStep lose fin u L M" using assms(2-4) by (intro ledgerStep_same)
  moreover have "pushes newId L N" if "pushes newId M N"
    using that assms(2-4) by (auto simp: pushes_def)
  ultimately show ?thesis using assms(1) by (blast intro: ledgerStep_trans)
qed

lemma addRetry_step:
  assumes "case retry of None \<Rightarrow> True | Some r \<Rightarrow> \<not> r_retried r" and "source \<in> set (l_seen L)"
  shows "ledgerStep lose fin False L (fst (addRetry newId notice to source retry L))
    \<or> pushes newId L (fst (addRetry newId notice to source retry L))"
proof -
  let ?isIt = "\<lambda>p. p_source p = Some source \<and> p_to p = to"
  consider "fst (addRetry newId notice to source retry L) = L"
    | r where "retry = Some r" "noticeScope notice = WorkspaceScope" "retryMark source (r_slot r) \<notin> set (l_retriesSeen L)"
  proof (cases "\<exists>r. retry = Some r \<and> noticeScope notice = WorkspaceScope \<and> retryMark source (r_slot r) \<notin> set (l_retriesSeen L)")
    case False
    then have "fst (addRetry newId notice to source retry L) = L"
      by (auto simp: addRetry_def Let_def split: option.splits)
    then show thesis by (rule that(1))
  qed (use that(2) in blast)
  then show ?thesis
  proof cases
    case (2 r)
    show ?thesis
    proof (cases "find ?isIt (l_pending L)")
      case None
      then have "pushes newId L (fst (addRetry newId notice to source retry L))"
        using 2 assms
        by (intro pushesI) (auto simp: addRetry_def Let_def find_None_iff isWorkspace_def intro!: wfEntry_workspace)
      then show ?thesis ..
    next
      case (Some p)
      have "entryStep lose fin False p [p\<lparr>p_retry := p_retry p @ [r]\<rparr>]" for p
        by (auto simp: entryStep_one pendingFor_def wfEntry_def complete_def split: option.splits)
      then have "ledgerStep lose fin False L (fst (addRetry newId notice to source retry L))"
        using 2 Some by (intro ledgerStep_replFirst [where P = ?isIt and f = "\<lambda>p. [p\<lparr>p_retry := p_retry p @ [r]\<rparr>]"])
          (auto simp: addRetry_def Let_def updFirst_repl)
      then show ?thesis ..
    qed
  qed simp
qed

lemma Raise_step:
  assumes "okOp (Raise notice to source older opts)" and "wfLedger newId L"
  shows "ledgerStep lose fin False L (fst (raise newId notice to source older opts L))
    \<or> pushes newId L (fst (raise newId notice to source older opts L))"
proof -
  define L1 where "L1 = L\<lparr>l_seen := fold setAdd older (l_seen L)\<rparr>"
  define c where "c = (\<exists>s\<in>set older. s \<notin> set (l_seen L))"
  have L1: "l_pending L1 = l_pending L" "l_minted L1 = l_minted L" "set (l_seen L) \<subseteq> set (l_seen L1)"
    by (simp_all add: L1_def)
  have retry: "case o_retry opts of None \<Rightarrow> True | Some r \<Rightarrow> \<not> r_retried r" using assms(1) by simp
  have entries: "\<forall>p\<in>set (l_pending L). wfEntry p" using assms(2) by (simp add: wfLedger_def)
  have seen: "s \<in> set (l_seen L)" if "p \<in> set (l_pending L)" "p_source p = Some s" for p s
    using assms(2) that by (force simp: wfLedger_def wfKeys_def pkey_def)
  show ?thesis
  proof (cases source)
    case None
    have "ledgerStep lose fin False L1 (fst (raiseNew newId notice to None opts c L1))
        \<or> pushes newId L1 (fst (raiseNew newId notice to None opts c L1))"
      by (rule raiseNew_step) (use retry entries L1 in simp_all)
    then show ?thesis using step_seen [OF _ L1] None by (simp add: raise_def Let_def L1_def c_def)
  next
    case (Some s)
    show ?thesis
    proof (cases "s \<in> set (l_seen L1)")
      case True
      have "ledgerStep lose fin False L1 (fst (addRetry newId notice to s (o_retry opts) L1))
          \<or> pushes newId L1 (fst (addRetry newId notice to s (o_retry opts) L1))"
        by (rule addRetry_step) (use retry True in simp_all)
      moreover have "fst (raise newId notice to source older opts L) = fst (addRetry newId notice to s (o_retry opts) L1)"
        using True Some by (simp add: raise_def Let_def L1_def split: prod.splits)
      ultimately show ?thesis using step_seen [OF _ L1] by simp
    next
      case False
      define L2 where "L2 = L1\<lparr>l_seen := setAdd s (l_seen L1),
         l_retriesSeen := (case o_retry opts of None \<Rightarrow> l_retriesSeen L1
                        | Some r \<Rightarrow> setAdd (retryMark s (r_slot r)) (l_retriesSeen L1))\<rparr>"
      have L2: "l_pending L2 = l_pending L" "l_minted L2 = l_minted L" "set (l_seen L) \<subseteq> set (l_seen L2)"
          "s \<in> set (l_seen L2)" using L1 by (auto simp: L2_def)
      have "\<forall>p\<in>set (l_pending L2). p_source p \<noteq> Some s"
        using False seen L1(3) L2(1) by (metis subsetD)
      then have "ledgerStep lose fin False L2 (fst (raiseNew newId notice to (Some s) opts True L2))
          \<or> pushes newId L2 (fst (raiseNew newId notice to (Some s) opts True L2))"
        by (intro raiseNew_step) (use retry entries L2 in simp_all)
      moreover have "fst (raise newId notice to source older opts L) = fst (raiseNew newId notice to (Some s) opts True L2)"
        using False unfolding L2_def L1_def Some raise_def Let_def by simp
      ultimately show ?thesis using step_seen [OF _ L2(1-3)] by simp
    qed
  qed
qed

lemma entryStep_pendAgain: "isWorkspace p \<Longrightarrow> entryStep lose fin True p [pendAgain taker p]"
  by (auto simp: entryStep_one pendAgain_def pendingFor_def wfEntry_def complete_def split: option.splits)

lemma ledgerStep_unhear: "ledgerStep lose fin False L M \<Longrightarrow> ledgerStep lose fin True L M"
proof -
  have "entryStep lose fin True p qs" if "entryStep lose fin False p qs" for p qs
    using that entryStep_shape [OF that] by (auto simp: entryStep_Nil entryStep_one)
  then show "ledgerStep lose fin False L M \<Longrightarrow> ledgerStep lose fin True L M"
    by (auto simp: ledgerStep_def intro: rewr_mono)
qed

lemma restoreGone_step:
  assumes "wfLedger newId L"
    and "\<And>s. source = Some s \<Longrightarrow> \<forall>p\<in>set (l_pending L). \<not> (p_source p = Some s \<and> p_to p = to)"
  shows "ledgerStep lose fin True L (fst (restoreGone newId notice to source taker L))
    \<or> pushes newId L (fst (restoreGone newId notice to source taker L))"
proof -
  define L1 where "L1 = (case source of None \<Rightarrow> L | Some s \<Rightarrow> L\<lparr>l_seen := setAdd s (l_seen L)\<rparr>)"
  define push where "push aud = L1\<lparr>l_minted := Suc (l_minted L), l_pending := l_pending L @
      [\<lparr>p_id = newId (l_minted L), p_notice = NoticeBody notice, p_to = to, p_source = source,
        p_audience = aud, p_retry = [], p_heardBy = [], p_told = []\<rparr>]\<rparr>" for aud
  have L1: "l_pending L1 = l_pending L" "l_minted L1 = l_minted L" "set (l_seen L) \<subseteq> set (l_seen L1)"
      "\<And>s. source = Some s \<Longrightarrow> s \<in> set (l_seen L1)"
    by (auto simp: L1_def split: option.splits)
  have push: "pushes newId L (push aud)"
    if "aud = (if noticeScope notice = WorkspaceScope then Some [t] else None)" for aud t
    using L1 assms(2) that unfolding push_def
    by (intro pushesI) (auto simp: wfEntry_def complete_def isWorkspace_def split: if_splits)
  show ?thesis
  proof (cases "noticeScope notice = WorkspaceScope")
    case True
    have "fst (restoreGone newId notice to source taker L) = (case taker of None \<Rightarrow> L1 | Some t \<Rightarrow> push (Some [t]))"
      using True by (simp add: restoreGone_def Let_def L1_def push_def split: option.splits)
    then show ?thesis using push [of "Some [t]" t for t] True L1 by (auto intro: ledgerStep_same split: option.splits)
  next
    case False
    show ?thesis
    proof (cases source)
      case None
      then show ?thesis using False Raise_step [OF _ assms(1), of notice to None "[]" "\<lparr>o_retry = None, o_told = [], o_at = None\<rparr>"]
        by (auto simp: restoreGone_def Let_def intro: ledgerStep_unhear)
    next
      case (Some s)
      then have "fst (restoreGone newId notice to source taker L) = push None"
        using False by (simp add: restoreGone_def Let_def L1_def push_def)
      then show ?thesis using push [of None] False by simp
    qed
  qed
qed

lemma updLast_rewr:
  assumes "\<And>x. R x [x]" and "\<And>p. p \<in> set xs \<Longrightarrow> P p \<Longrightarrow> R p [f p]"
  shows "rewr R xs (updLast P f xs)"
proof -
  have "rewr R (rev zs) (rev (updFirst P f zs))" if "set zs \<subseteq> set xs" for zs
    using that
  proof (induction zs)
    case (Cons z zs)
    then show ?case using assms rewr_refl [of R, OF assms(1)] by (auto intro!: rewr_snoc)
  qed simp
  from this [of "rev xs"] show ?thesis by (simp add: updLast_def)
qed

lemma restore_found:
  "ledgerStep lose fin True L (L\<lparr>l_pending := updFirst P (pendAgain t) (l_pending L)\<rparr>)"
  if "find P (l_pending L) = Some p" "isWorkspace p" for P
  using that by (intro ledgerStep_replFirst [where P = P and f = "\<lambda>p. [pendAgain t p]"])
    (auto simp: updFirst_repl entryStep_pendAgain)

lemma Restore_step:
  assumes "wfLedger newId L"
  shows "ledgerStep lose fin True L (fst (restore newId body to source taker L))
    \<or> pushes newId L (fst (restore newId body to source taker L))"
proof (cases body)
  case (SteeringBody m)
  have "pushes newId L (fst (restoreSteering newId m to L)) \<or> fst (restoreSteering newId m to L) = L"
    by (auto simp: restoreSteering_def Let_def isWorkspace_def intro!: wfEntry_plain pushesI)
  then show ?thesis using SteeringBody by (auto simp: restore_def)
next
  case (NoticeBody notice)
  show ?thesis
  proof (cases source)
    case (Some s)
    let ?isIt = "\<lambda>p. p_source p = Some s \<and> p_to p = to"
    show ?thesis
    proof (cases "find ?isIt (l_pending L)")
      case None
      then have "fst (restore newId body to source taker L) = fst (restoreGone newId notice to source taker L)"
        using NoticeBody Some by (simp add: restore_def Let_def)
      moreover have "\<forall>p\<in>set (l_pending L). \<not> (p_source p = Some s' \<and> p_to p = to)" if "source = Some s'" for s'
        using None Some that by (auto simp: find_None_iff)
      ultimately show ?thesis using restoreGone_step [OF assms, of source to] by simp
    next
      case (Some p)
      then show ?thesis using NoticeBody \<open>source = Some s\<close> restore_found [OF Some]
        by (auto simp: restore_def Let_def split: option.splits)
    qed
  next
    case None
    let ?same = "\<lambda>t. L\<lparr>l_pending := updLast (sameAs notice to) (pendAgain t) (l_pending L)\<rparr>"
    have gone: "ledgerStep lose fin True L (fst (restoreGone newId notice to None taker L))
        \<or> pushes newId L (fst (restoreGone newId notice to None taker L))" for taker
      by (rule restoreGone_step [OF assms]) simp
    have again: "ledgerStep lose fin True L (?same t)" if "noticeScope notice = WorkspaceScope" for t
      using that updLast_rewr [of "entryStep lose fin True" "l_pending L" "sameAs notice to" "pendAgain t"]
      by (auto simp: ledgerStep_def sameAs_def isWorkspace_def entryStep_pendAgain)
    show ?thesis using gone again None NoticeBody
      by (auto simp: restore_def Let_def split: option.splits scope.splits)
  qed
qed

text \<open>The two shapes of a step, for every operation.\<close>

lemma applyOp_step:
  assumes "wfLedger newId L" and "okOp op"
  shows "opKeeps op L (applyOp newId op L) \<or> pushes newId L (applyOp newId op L)"
proof (cases op)
  case (Raise n to source older opts)
  then show ?thesis using Raise_step assms by simp
next
  case (Restore b to source taker)
  then show ?thesis using Restore_step [OF assms(1)] by simp
qed (simp_all only: applyOp.simps Steer_pushes Take_keeps Delivered_keeps Acknowledge_keeps Ended_keeps Forget_keeps
       Told_keeps Retire_keeps Release_keeps Admitted_keeps Restart_keeps simp_thms)

lemma wfLedger_applyOp [inv_intros]:
  "wfLedger newId L \<Longrightarrow> inj newId \<Longrightarrow> okOp op \<Longrightarrow> wfLedger newId (applyOp newId op L)"
  using applyOp_step wfLedger_ledgerStep wfLedger_pushes by blast

section \<open>Histories\<close>

inductive ledgerReach :: "(nat \<Rightarrow> ident) \<Rightarrow> NoticeLedger \<Rightarrow> bool" for newId where
  ledgerReach_new: "ledgerReach newId (newLedger None 0)"
| ledgerReach_op: "ledgerReach newId L \<Longrightarrow> okOp op \<Longrightarrow> ledgerReach newId (applyOp newId op L)"

lemma wfLedger_reach:
  assumes "ledgerReach newId L" and "inj newId"
  shows "wfLedger newId L"
  using assms(1)
proof (induction rule: ledgerReach.induct)
  case ledgerReach_new
  then show ?case by (simp add: newLedger_def wfLedger_def wfKeys_def)
qed (use assms(2) in \<open>auto intro: inv_intros\<close>)

lemma ledgerReach_fold: "ledgerReach newId L \<Longrightarrow> (\<forall>op\<in>set ops. okOp op) \<Longrightarrow> ledgerReach newId (fold (applyOp newId) ops L)"
  by (induction ops arbitrary: L) (auto intro: ledgerReach.intros)

lemma applyOp_seen: "wfLedger newId L \<Longrightarrow> okOp op \<Longrightarrow> set (l_seen L) \<subseteq> set (l_seen (applyOp newId op L))"
  using applyOp_step [of newId L op] by (auto simp: ledgerStep_def pushes_def)

lemma wfLedger_source_once:
  assumes "wfLedger newId L" and "p \<in> set (l_pending L)" and "q \<in> set (l_pending L)"
    and "p_source p = Some s" and "p_source q = Some s" and "p_to p = p_to q"
  shows "p = q"
proof -
  have d: "distinct (map srcKey (filter hasSource (map pkey (l_pending L))))"
    and i: "distinct (map fst (map pkey (l_pending L)))"
    using assms(1) by (simp_all add: wfLedger_def wfKeys_def)
  have "pkey p \<in> set (filter hasSource (map pkey (l_pending L)))" "pkey q \<in> set (filter hasSource (map pkey (l_pending L)))"
      "srcKey (pkey p) = srcKey (pkey q)"
    using assms(2-6) by (simp_all add: hasSource_def srcKey_def) (simp_all add: pkey_def)
  then have "pkey p = pkey q"
    using inj_onD [OF conjunct2 [OF iffD1 [OF distinct_map d]], of "pkey p" "pkey q"] by blast
  then show ?thesis
    using assms(2,3) inj_onD [OF conjunct2 [OF iffD1 [OF distinct_map i [unfolded map_map]]], of p q] by simp
qed

lemma wfLedger_id_once:
  assumes "wfLedger newId L" and "p \<in> set (l_pending L)" and "q \<in> set (l_pending L)" and "p_id p = p_id q"
  shows "p = q"
proof -
  have i: "distinct (map (fst \<circ> pkey) (l_pending L))"
    using assms(1) by (simp add: wfLedger_def wfKeys_def)
  show ?thesis using assms(2-4) inj_onD [OF conjunct2 [OF iffD1 [OF distinct_map i]], of p q] by (simp add: pkey_def)
qed

text \<open>Concrete values for the witnesses.\<close>

definition exampleId :: "nat \<Rightarrow> ident" where "exampleId n = replicate n (CHR ''a'')"

definition noOptions :: RaiseOptions where "noOptions = \<lparr>o_retry = None, o_told = [], o_at = None\<rparr>"

definition exampleKill :: Notice where "exampleKill = MemoryLimitNotice (Some ''node'') None None"

definition exampleOps :: "LedgerOp list" where
  "exampleOps = [Admitted ''ws'' ''t1'' ''s'' True None, Admitted ''ws'' ''t2'' ''s'' True None,
     Raise exampleKill ''ws'' (Some ''kill-1'') [] noOptions]"

definition exampleLedger :: NoticeLedger where
  "exampleLedger = fold (applyOp exampleId) exampleOps (newLedger None 0)"

definition exampleScope :: "ident \<Rightarrow> NoticeScope" where
  "exampleScope taker = \<lparr>sc_conversation = Some taker, sc_workspace = Some ''ws'', sc_taker = None, sc_slot = Some ''s'',
     sc_turn = True, sc_only = None, sc_except = None, sc_exceptPrefix = None\<rparr>"

lemma inj_exampleId: "inj exampleId"
  by (rule injI) (metis exampleId_def length_replicate)

lemma exampleLedger_reach: "ledgerReach exampleId exampleLedger"
  unfolding exampleLedger_def
  by (rule ledgerReach_fold) (simp_all add: ledgerReach_new exampleOps_def noOptions_def)

definition exampleEntry :: PendingNotice where
  "exampleEntry = \<lparr>p_id = [], p_notice = NoticeBody exampleKill, p_to = ''ws'', p_source = Some ''kill-1'',
     p_audience = Some [''t1'', ''t2''], p_retry = [], p_heardBy = [], p_told = []\<rparr>"

lemma exampleLedger_pending: "l_pending exampleLedger = [exampleEntry]"
  unfolding exampleLedger_def exampleOps_def exampleEntry_def by code_simp

lemma exampleLedger_reserved: "l_reserved exampleLedger = []"
  unfolding exampleLedger_def exampleOps_def by code_simp

text \<open>The parts of \<^verbatim>\<open>take\<close>.\<close>

lemma reserveAll_reserved:
  "set (l_reserved (reserveAll sc tk ps L)) = set (l_reserved L) \<union> (\<lambda>p. reservation p tk) ` set ps"
  by (induction ps arbitrary: L) (auto simp: Let_def)

lemma retryToldOne_idem: "q \<in> set (retryToldOne sc tk p) \<Longrightarrow> retryToldOne sc tk q = [q]"
  by (auto simp: retryToldOne_def Let_def retireIfHeard_def split: option.splits if_splits)

lemma concat_map_singleton: "(\<And>x. x \<in> set xs \<Longrightarrow> f x = [x]) \<Longrightarrow> concat (map f xs) = xs"
  by (induction xs) auto

lemma retryTold_idem: "concat (map (retryToldOne sc tk) (l_pending (retryTold sc tk L))) = l_pending (retryTold sc tk L)"
  by (rule concat_map_singleton) (auto simp: retryTold_def intro: retryToldOne_idem)

lemma retryTold_id: "concat (map (retryToldOne sc tk) (l_pending L)) = l_pending L \<Longrightarrow> retryTold sc tk L = L"
  by (simp add: retryTold_def)

lemma release_reserved:
  assumes "\<And>p q. p \<in> set (l_pending L) \<Longrightarrow> q \<in> set (l_pending L) \<Longrightarrow> p_id p = p_id q \<Longrightarrow> p = q"
    and "set ps \<subseteq> set (l_pending L)"
  shows "set (l_reserved (release (map p_id ps) tk L)) = set (l_reserved L) - (\<lambda>p. reservation p tk) ` set ps"
  using assms
proof (induction ps arbitrary: L)
  case (Cons p ps)
  let ?L1 = "releaseOne tk (p_id p) L"
  have p: "p \<in> set (l_pending L)" using Cons.prems(2) by simp
  then obtain q where q: "find (\<lambda>q. p_id q = p_id p) (l_pending L) = Some q"
    using find_SomeI [of p "l_pending L" "\<lambda>q. p_id q = p_id p"] by blast
  have "q = p" using find_Some_in(1) [OF q] p find_Some_in(2) [OF q] by (rule Cons.prems(1))
  then have "l_reserved ?L1 = setDelete (reservation p tk) (l_reserved L)"
    by (simp add: releaseOne_def Let_def q)
  then have one: "set (l_reserved ?L1) = set (l_reserved L) - {reservation p tk}" by simp
  have pend: "l_pending ?L1 = l_pending L" by (simp add: releaseOne_def Let_def)
  have "set (l_reserved (release (map p_id ps) tk ?L1)) = set (l_reserved ?L1) - (\<lambda>p. reservation p tk) ` set ps"
    by (rule Cons.IH) (use Cons.prems in \<open>simp_all add: pend\<close>)
  moreover have "release (map p_id (p # ps)) tk L = release (map p_id ps) tk ?L1"
    by (simp add: release_def)
  ultimately show ?case using one by auto
qed (simp add: release_def)

lemma take_same:
  assumes "l_pending L' = l_pending L" and "retryTold sc (takerOf sc) L' = L'"
    and "retryTold sc (takerOf sc) L = L"
    and "\<And>p. p \<in> set (l_pending L) \<Longrightarrow> eligible L' sc (takerOf sc) p = eligible L sc (takerOf sc) p"
  shows "snd (take_notices sc L') = snd (take_notices sc L)"
proof -
  have "filter (eligible L' sc (takerOf sc)) (l_pending L') = filter (eligible L sc (takerOf sc)) (l_pending L)"
    using assms(1,4) by (simp cong: filter_cong)
  then show ?thesis by (simp add: take_notices_def Let_def assms(2,3))
qed

lemma take_after_retryTold: "take_notices sc (retryTold sc (takerOf sc) L) = take_notices sc L"
  using retryTold_id [OF retryTold_idem] by (simp add: take_notices_def Let_def)

lemma eligible_reserved:
  "(reservation p tk \<in> set (l_reserved L') \<longleftrightarrow> reservation p tk \<in> set (l_reserved L)) \<Longrightarrow> eligible L' sc tk p = eligible L sc tk p"
  by (simp add: eligible_def)

text \<open>A notice that a taker heard, or that is gone.\<close>

definition heardOrGone :: "ident \<Rightarrow> ident \<Rightarrow> NoticeLedger \<Rightarrow> bool" where
  "heardOrGone nid t L \<longleftrightarrow> (\<forall>p\<in>set (l_pending L). p_id p = nid \<longrightarrow> isWorkspace p \<and> t \<in> set (p_heardBy p))"

lemma heardOrGone_ledgerStep:
  assumes "ledgerStep lose fin False L L'" and "heardOrGone nid t L"
  shows "heardOrGone nid t L'"
  unfolding heardOrGone_def
proof (intro ballI impI)
  fix q assume q: "q \<in> set (l_pending L')" "p_id q = nid"
  have "rewr (entryStep lose fin False) (l_pending L) (l_pending L')" using assms(1) by (simp add: ledgerStep_def)
  then obtain p zs where p: "p \<in> set (l_pending L)" "q \<in> set zs" "entryStep lose fin False p zs"
    using rewr_in [OF _ q(1)] by blast
  then have "zs = [q]" using entryStep_shape [OF p(3)] by auto
  then have step: "pkey q = pkey p" "set (p_heardBy p) \<subseteq> set (p_heardBy q)" using p(3) by (simp_all add: entryStep_one)
  then have "p_id p = nid" "isWorkspace q = isWorkspace p" using q(2) isWorkspace_pkey [OF step(1)] by (simp_all add: pkey_def)
  then show "isWorkspace q \<and> t \<in> set (p_heardBy q)" using assms(2) p(1) step(2) by (auto simp: heardOrGone_def)
qed

lemma minted_ledgerStep: "ledgerStep lose fin u L L' \<Longrightarrow> l_minted L' = l_minted L"
  by (simp add: ledgerStep_def)

lemma heardOrGone_applyOp:
  assumes "wfLedger newId L" and "inj newId" and "okOp op" and "\<not> unhears op"
    and "heardOrGone nid t L" and "nid \<in> newId ` {..<l_minted L}"
  shows "heardOrGone nid t (applyOp newId op L) \<and> nid \<in> newId ` {..<l_minted (applyOp newId op L)}"
  using applyOp_step [OF assms(1,3)]
proof
  assume "opKeeps op L (applyOp newId op L)"
  then show ?thesis using assms(4,5,6) heardOrGone_ledgerStep minted_ledgerStep by (metis (full_types))
next
  assume push: "pushes newId L (applyOp newId op L)"
  then obtain e where "l_pending (applyOp newId op L) = l_pending L @ [e]" "p_id e = newId (l_minted L)"
    by (auto simp: pushes_def)
  moreover have "newId (l_minted L) \<noteq> nid" using assms(2,6) by (auto dest: injD)
  moreover have "l_minted (applyOp newId op L) = Suc (l_minted L)" using push by (simp add: pushes_def)
  ultimately show ?thesis using assms(5,6) by (auto simp: heardOrGone_def lessThan_Suc)
qed

lemma heardOrGone_fold:
  assumes "wfLedger newId L" and "inj newId" and "\<forall>op\<in>set ops. okOp op \<and> \<not> unhears op"
    and "heardOrGone nid t L" and "nid \<in> newId ` {..<l_minted L}"
  shows "heardOrGone nid t (fold (applyOp newId) ops L)"
  using assms
proof (induction ops arbitrary: L)
  case (Cons op ops)
  then have "heardOrGone nid t (applyOp newId op L) \<and> nid \<in> newId ` {..<l_minted (applyOp newId op L)}"
    by (intro heardOrGone_applyOp) simp_all
  then show ?case using Cons by (simp add: wfLedger_applyOp)
qed simp

lemma deliverOne_pending:
  assumes "find (\<lambda>p. p_id p = nid) (l_pending L) = Some p"
  shows "l_pending (deliverOne (Some t) nid L) = delFirst (\<lambda>q. p_id q = nid) (l_pending L)
    \<or> (\<exists>p'. isWorkspace p' \<and> t \<in> set (p_heardBy p')
          \<and> l_pending (deliverOne (Some t) nid L) = updFirst (\<lambda>q. p_id q = nid) (\<lambda>_. p') (l_pending L))"
proof (cases "isWorkspace p")
  case False
  then show ?thesis using assms by (simp add: deliverOne_def Let_def)
next
  case True
  define p' where "p' = p\<lparr>p_retry := (case l_asRetry L (reservation p (Some t)) of None \<Rightarrow> p_retry p
        | Some slot \<Rightarrow> map (\<lambda>r. if r_slot r = slot then r\<lparr>r_retried := True\<rparr> else r) (p_retry p)),
      p_heardBy := (if t \<in> set (p_heardBy p) then p_heardBy p else p_heardBy p @ [t])\<rparr>"
  have "l_pending (deliverOne (Some t) nid L) = (if complete p' then delFirst (\<lambda>q. p_id q = nid) (l_pending L)
      else updFirst (\<lambda>q. p_id q = nid) (\<lambda>_. p') (l_pending L))"
    using assms True by (simp add: deliverOne_def Let_def p'_def)
  moreover have "isWorkspace p'" "t \<in> set (p_heardBy p')" using True by (simp_all add: p'_def)
  ultimately show ?thesis by (cases "complete p'") auto
qed

lemma heardOrGone_deliverOne:
  assumes "distinct (map p_id (l_pending L))"
  shows "heardOrGone nid t (deliverOne (Some t) nid L)"
proof (cases "find (\<lambda>p. p_id p = nid) (l_pending L)")
  case None
  then have "l_pending (deliverOne (Some t) nid L) = l_pending L" by (simp add: deliverOne_def)
  then show ?thesis using None by (auto simp: heardOrGone_def find_None_iff)
next
  case (Some p)
  have del: "p_id q \<noteq> nid" if "distinct (map p_id ps)" "q \<in> set (delFirst (\<lambda>q. p_id q = nid) ps)" for q ps
    using that by (induction ps) (auto simp: image_iff split: if_splits)
  have upd: "q = p' \<or> p_id q \<noteq> nid" if "distinct (map p_id ps)" "q \<in> set (updFirst (\<lambda>q. p_id q = nid) (\<lambda>_. p') ps)" for p' q ps
    using that by (induction ps) (auto simp: image_iff split: if_splits)
  show ?thesis using deliverOne_pending [OF Some, of t] del [OF assms] upd [OF assms]
    unfolding heardOrGone_def by metis
qed

lemma heardOrGone_ineligible:
  "heardOrGone nid t L \<Longrightarrow> p \<in> set (l_pending L) \<Longrightarrow> p_id p = nid \<Longrightarrow> \<not> eligible L' sc (Some t) p"
  by (auto simp: heardOrGone_def eligible_def isWorkspace_def)

text \<open>What was seen stays seen.\<close>

lemma fold_applyOp_seen:
  assumes "wfLedger newId L" and "inj newId" and "\<forall>op\<in>set ops. okOp op"
  shows "set (l_seen L) \<subseteq> set (l_seen (fold (applyOp newId) ops L))"
  using assms
proof (induction ops arbitrary: L)
  case (Cons op ops)
  then have "set (l_seen (applyOp newId op L)) \<subseteq> set (l_seen (fold (applyOp newId) ops (applyOp newId op L)))"
    by (simp add: wfLedger_applyOp)
  then show ?case using applyOp_seen [OF Cons.prems(1), of op] Cons.prems(3) by auto
qed simp

lemma raiseNew_seen [simp]: "l_seen (fst (raiseNew newId n to source opts c L)) = l_seen L"
  by (auto simp: raiseNew_def Let_def split: option.splits)

lemma addRetry_seen [simp]: "l_seen (fst (addRetry newId n to source retry L)) = l_seen L"
  by (auto simp: addRetry_def Let_def split: option.splits)

lemma raise_seen: "s \<in> set (l_seen (fst (raise newId n to (Some s) older opts L)))"
proof (cases "s \<in> set (fold setAdd older (l_seen L))")
  case True
  then have "fst (raise newId n to (Some s) older opts L) =
      fst (addRetry newId n to s (o_retry opts) (L\<lparr>l_seen := fold setAdd older (l_seen L)\<rparr>))"
    by (simp add: raise_def Let_def split: prod.splits)
  then show ?thesis using True by simp
next
  case False
  then show ?thesis by (simp add: raise_def Let_def del: set_fold_setAdd)
qed

text \<open>The bounded record of Steering messages.\<close>

lemma trimLoop_held: "filter (\<lambda>r. s_outcome r = Held) (trimLoop n rs) = filter (\<lambda>r. s_outcome r = Held) rs"
  by (induction n rs rule: trimLoop.induct) auto

lemma trimLoop_settled:
  "filter (\<lambda>r. s_outcome r \<noteq> Held) (trimLoop n rs) = drop n (filter (\<lambda>r. s_outcome r \<noteq> Held) rs)"
  by (induction n rs rule: trimLoop.induct) auto

lemma length_filter_split: "length xs = length (filter P xs) + length (filter (\<lambda>x. \<not> P x) xs)"
  by (simp add: sum_length_filter_compl)

lemma setOutcome_retired:
  assumes "r \<in> set rs" and "recordOf r m slot"
  shows "\<exists>r'\<in>set (setOutcome m slot NotDelivered rs). s_outcome r' = NotDelivered \<and> recordOf r' m slot"
  using assms by (induction rs) (auto simp: setOutcome_def recordOf_def)

lemma outcomeOf_retired:
  assumes "\<exists>r\<in>set rs. s_outcome r = NotDelivered \<and> recordOf r m slot"
  shows "\<exists>r\<in>set (outcomeOf NotDelivered p rs). s_outcome r = NotDelivered \<and> recordOf r m slot"
proof (cases "p_notice p")
  case (SteeringBody m')
  have "\<exists>r'\<in>set (setOutcome m' to NotDelivered rs). s_outcome r' = NotDelivered \<and> recordOf r' m slot" for to
    using assms by (induction rs) (auto simp: setOutcome_def recordOf_def)
  then show ?thesis using SteeringBody by simp
qed (use assms in simp)

lemma outcomeOf_records:
  "\<exists>r\<in>set rs. recordOf r m slot \<Longrightarrow> \<exists>r\<in>set (outcomeOf oc p rs). recordOf r m slot"
proof (cases "p_notice p")
  case (SteeringBody m')
  assume "\<exists>r\<in>set rs. recordOf r m slot"
  then have "\<exists>r\<in>set (setOutcome m' to oc rs). recordOf r m slot" for to
    by (induction rs) (auto simp: setOutcome_def recordOf_def)
  then show ?thesis using SteeringBody by simp
qed simp

lemma fold_outcomeOf_retired:
  assumes "\<exists>r\<in>set rs. recordOf r m slot" and "p \<in> set ps" and "p_notice p = SteeringBody m" and "p_to p = slot"
  shows "\<exists>r\<in>set (fold (outcomeOf NotDelivered) ps rs). s_outcome r = NotDelivered \<and> recordOf r m slot"
  using assms(1,2)
proof (induction ps arbitrary: rs)
  case (Cons q ps)
  have keep: "\<exists>r\<in>set (fold (outcomeOf NotDelivered) ps rs). s_outcome r = NotDelivered \<and> recordOf r m slot"
    if "\<exists>r\<in>set rs. s_outcome r = NotDelivered \<and> recordOf r m slot" for rs
    using that outcomeOf_retired by (induction ps arbitrary: rs) (auto simp del: outcomeOf.simps)
  show ?case
  proof (cases "q = p")
    case True
    then have "\<exists>r\<in>set (outcomeOf NotDelivered q rs). s_outcome r = NotDelivered \<and> recordOf r m slot"
      using Cons.prems(1) setOutcome_retired assms(3,4) by auto
    then show ?thesis using keep by (simp del: outcomeOf.simps)
  next
    case False
    then show ?thesis using Cons.IH [OF outcomeOf_records [OF Cons.prems(1)]] Cons.prems(2) by (simp del: outcomeOf.simps)
  qed
qed simp

section \<open>Properties\<close>

text \<open>C3. In every ledger a run can reach, the pending notices have distinct ids; one event (a source) is at
  most one pending notice for an address, and was recorded as seen; an entry has an audience exactly when its
  body is addressed to a Workspace, and someone is still to hear it (an entry that everybody heard is gone).\<close>

theorem ledger_reach_well_formed:
  assumes "inj newId" and "ledgerReach newId L" and "p \<in> set (l_pending L)" and "q \<in> set (l_pending L)"
  shows "(p_id p = p_id q \<longrightarrow> p = q)
    \<and> (p_source p \<noteq> None \<and> p_source p = p_source q \<and> p_to p = p_to q \<longrightarrow> p = q)
    \<and> (\<forall>s. p_source p = Some s \<longrightarrow> s \<in> set (l_seen L))
    \<and> (isWorkspace p \<longleftrightarrow> p_audience p \<noteq> None) \<and> \<not> complete p"
proof -
  have wf: "wfLedger newId L" using assms(1,2) by (rule wfLedger_reach [rotated])
  have "wfEntry p" using wf assms(3) by (simp add: wfLedger_def)
  moreover have "\<forall>s. p_source p = Some s \<longrightarrow> s \<in> set (l_seen L)"
    using wf assms(3) by (force simp: wfLedger_def wfKeys_def pkey_def)
  moreover have "p_source p \<noteq> None \<and> p_source p = p_source q \<and> p_to p = p_to q \<longrightarrow> p = q"
    using wfLedger_source_once [OF wf assms(3,4)] by auto
  moreover have "p_id p = p_id q \<longrightarrow> p = q" using wfLedger_id_once [OF wf assms(3,4)] by blast
  ultimately show ?thesis by (simp add: wfEntry_def)
qed

theorem ledger_reach_well_formed_witness:
  "exampleEntry \<in> set (l_pending exampleLedger) \<and> \<not> complete exampleEntry \<and> ''kill-1'' \<in> set (l_seen exampleLedger)"
  using ledger_reach_well_formed [OF inj_exampleId exampleLedger_reach, of exampleEntry exampleEntry]
  by (simp add: exampleLedger_pending exampleEntry_def)

text \<open>C1. No notice is lost: while a conversation \<open>t\<close> is still to hear a pending Workspace notice, every operation
  leaves it pending for \<open>t\<close>, except one that delivers it to \<open>t\<close> (\<^verbatim>\<open>delivered\<close>, \<^verbatim>\<open>acknowledge\<close>), that says \<open>t\<close> was told
  (\<^verbatim>\<open>told\<close>), or that ends \<open>t\<close>'s part in that Workspace (\<^verbatim>\<open>ended\<close>, \<^verbatim>\<open>forget\<close>). A restart of the host is one of the
  operations.\<close>

theorem notice_not_lost:
  assumes "inj newId" and "ledgerReach newId L" and "okOp op"
    and "p \<in> set (l_pending L)" and "isWorkspace p" and "pendingFor t p"
    and "\<not> mayLose op (p_id p, p_notice p, p_to p, p_source p) t"
  shows "\<exists>q\<in>set (l_pending (applyOp newId op L)). p_id q = p_id p \<and> p_notice q = p_notice p \<and> p_to q = p_to p
    \<and> p_source q = p_source p \<and> pendingFor t q"
proof -
  have wf: "wfLedger newId L" using assms(1,2) by (rule wfLedger_reach [rotated])
  have lose: "\<not> mayLose op (pkey p) t" using assms(7) by (simp add: pkey_def)
  from applyOp_step [OF wf assms(3)] show ?thesis
  proof
    assume "pushes newId L (applyOp newId op L)"
    then show ?thesis using assms(4,6) by (auto simp: pushes_def)
  next
    assume "opKeeps op L (applyOp newId op L)"
    then obtain zs where zs: "set zs \<subseteq> set (l_pending (applyOp newId op L))"
        "entryStep (mayLose op) (mayDrop op) (unhears op) p zs"
      using assms(4) rewr_out unfolding ledgerStep_def by metis
    then have "zs \<noteq> []" using assms(5,6) lose by (auto simp: entryStep_Nil)
    then obtain q where "zs = [q]" using entryStep_shape [OF zs(2)] by auto
    then have "q \<in> set (l_pending (applyOp newId op L))" "pkey q = pkey p" "pendingFor t q"
      using zs assms(6) lose by (auto simp: entryStep_one)
    then show ?thesis by (auto simp: pkey_def)
  qed
qed

theorem notice_not_lost_witness:
  "\<exists>q\<in>set (l_pending (applyOp exampleId (Delivered [[]] (Some ''t1'')) exampleLedger)). p_id q = [] \<and> pendingFor ''t2'' q"
  using notice_not_lost [OF inj_exampleId exampleLedger_reach, of "Delivered [[]] (Some ''t1'')" exampleEntry "''t2''"]
  by (auto simp: exampleLedger_pending exampleEntry_def isWorkspace_def exampleKill_def pendingFor_def)

text \<open>C2. What a conversation heard it does not hear again: once \<^verbatim>\<open>delivered\<close> ran for a notice and a taker, no
  sequence of operations makes \<^verbatim>\<open>take\<close> hand that notice to that taker again, unless it holds a \<^verbatim>\<open>restore\<close>, the one
  operation that takes a hearing back.\<close>

theorem delivered_never_again:
  assumes "inj newId" and "ledgerReach newId L" and "p \<in> set (l_pending L)"
    and "\<forall>op\<in>set ops. okOp op \<and> \<not> unhears op" and "takerOf sc = Some t"
  shows "p_id p \<notin> set (t_ids (snd (take_notices sc (fold (applyOp newId) ops (delivered [p_id p] (Some t) L)))))"
proof -
  let ?L1 = "delivered [p_id p] (Some t) L"
  have wf: "wfLedger newId L" using assms(1,2) by (rule wfLedger_reach [rotated])
  have keys: "distinct (map (fst \<circ> pkey) (l_pending L))" "fst ` pkey ` set (l_pending L) \<subseteq> newId ` {..<l_minted L}"
    using wf by (simp_all add: wfLedger_def wfKeys_def)
  have "fst \<circ> pkey = p_id" by (auto simp: pkey_def)
  then have h1: "heardOrGone (p_id p) t ?L1"
    using keys(1) by (simp add: delivered_def heardOrGone_deliverOne)
  have "p_id p \<in> newId ` {..<l_minted L}" using keys(2) assms(3) by (force simp: pkey_def)
  moreover have "l_minted ?L1 = l_minted L" using Delivered_keeps by (rule minted_ledgerStep)
  moreover have "wfLedger newId ?L1" using wfLedger_applyOp [OF wf assms(1), of "Delivered [p_id p] (Some t)"] by simp
  ultimately have "heardOrGone (p_id p) t (fold (applyOp newId) ops ?L1)"
    using heardOrGone_fold [OF _ assms(1,4) h1] by simp
  then have "heardOrGone (p_id p) t (retryTold sc (Some t) (fold (applyOp newId) ops ?L1))"
    by (rule heardOrGone_ledgerStep [OF retryTold_keeps])
  then show ?thesis using heardOrGone_ineligible by (auto simp: take_notices_def Let_def assms(5))
qed

theorem delivered_never_again_witness:
  "[] \<notin> set (t_ids (snd (take_notices (exampleScope ''t1'')
      (fold (applyOp exampleId) [Restart] (delivered [[]] (Some ''t1'') exampleLedger)))))
   \<and> [] \<in> set (t_ids (snd (take_notices (exampleScope ''t1'') exampleLedger)))"
  using delivered_never_again [OF inj_exampleId exampleLedger_reach, of exampleEntry "[Restart]" "exampleScope ''t1''" "''t1''"]
  by (simp add: exampleLedger_pending exampleEntry_def takerOf_def exampleScope_def take_notices_def Let_def retryTold_def
      retryToldOne_def eligible_def isWorkspace_def exampleKill_def reservation_def exampleLedger_reserved)

text \<open>A notice goes to one Turn at a time: a second \<^verbatim>\<open>take\<close> in the same scope, before the first one is delivered
  or released, takes nothing and leaves the ledger as it is.\<close>

theorem take_twice:
  "take_notices sc (fst (take_notices sc L)) = (fst (take_notices sc L), \<lparr>t_ids = [], t_notices = [], t_raised = []\<rparr>)"
proof -
  define tk where "tk = takerOf sc"
  define L1 where "L1 = retryTold sc tk L"
  define taken where "taken = filter (eligible L1 sc tk) (l_pending L1)"
  define L2 where "L2 = reserveAll sc tk taken L1"
  have L2: "fst (take_notices sc L) = L2" by (simp add: take_notices_def Let_def tk_def L1_def taken_def L2_def)
  have pend: "l_pending L2 = l_pending L1" by (simp add: L2_def reserveAll_frame)
  have told: "retryTold sc tk L2 = L2"
    by (rule retryTold_id) (use retryTold_idem [of sc tk L] in \<open>simp add: pend L1_def\<close>)
  have "\<not> eligible L2 sc tk p" if "p \<in> set (l_pending L1)" for p
  proof (cases "eligible L1 sc tk p")
    case True
    then have "reservation p tk \<in> set (l_reserved L2)" using that by (simp add: L2_def reserveAll_reserved taken_def)
    then show ?thesis by (simp add: eligible_def)
  next
    case False
    have "set (l_reserved L1) \<subseteq> set (l_reserved L2)" by (auto simp: L2_def reserveAll_reserved)
    then show ?thesis using False by (auto simp: eligible_def)
  qed
  then have "filter (eligible L2 sc tk) (l_pending L2) = []" by (simp add: pend filter_empty_conv)
  then show ?thesis unfolding L2 take_notices_def [of sc L2] Let_def tk_def [symmetric] told by simp
qed

text \<open>A Turn that did not happen gives its notices back: \<^verbatim>\<open>release\<close> of what \<^verbatim>\<open>take\<close> handed out makes the next \<^verbatim>\<open>take\<close>
  in the scope hand out the same notices, in the same order.\<close>

theorem release_undoes_take:
  assumes "inj newId" and "ledgerReach newId L"
  shows "snd (take_notices sc (release (t_ids (snd (take_notices sc L))) (takerOf sc) (fst (take_notices sc L))))
    = snd (take_notices sc L)"
proof -
  define tk where "tk = takerOf sc"
  define L1 where "L1 = retryTold sc tk L"
  define taken where "taken = filter (eligible L1 sc tk) (l_pending L1)"
  define L2 where "L2 = reserveAll sc tk taken L1"
  define L3 where "L3 = release (map p_id taken) tk L2"
  have wf: "wfLedger newId L1"
    using wfLedger_ledgerStep [OF wfLedger_reach [OF assms(2,1)] retryTold_keeps] by (simp add: L1_def)
  have pend: "l_pending L2 = l_pending L1" "l_pending L3 = l_pending L1" by (simp_all add: L2_def L3_def frame_simps)
  have res: "set (l_reserved L3) = (set (l_reserved L1) \<union> (\<lambda>p. reservation p tk) ` set taken) - (\<lambda>p. reservation p tk) ` set taken"
    unfolding L3_def by (subst release_reserved)
      (auto simp: pend L2_def reserveAll_reserved taken_def frame_simps intro: wfLedger_id_once [OF wf])
  have "reservation p tk \<in> set (l_reserved L3) \<longleftrightarrow> reservation p tk \<in> set (l_reserved L1)" for p
    unfolding res by (auto simp: taken_def eligible_def)
  then have "snd (take_notices sc L3) = snd (take_notices sc L1)"
    using retryTold_id [OF retryTold_idem, of sc tk L] pend retryTold_idem [of sc tk L]
    by (intro take_same eligible_reserved) (simp_all add: tk_def [symmetric] L1_def retryTold_id)
  moreover have "take_notices sc L1 = take_notices sc L" by (simp add: L1_def tk_def take_after_retryTold)
  moreover have "release (t_ids (snd (take_notices sc L))) (takerOf sc) (fst (take_notices sc L)) = L3"
    by (simp add: take_notices_def Let_def L3_def L2_def taken_def L1_def tk_def)
  ultimately show ?thesis by simp
qed

theorem release_undoes_take_witness:
  "snd (take_notices (exampleScope ''t1'') (release (t_ids (snd (take_notices (exampleScope ''t1'') exampleLedger)))
      (takerOf (exampleScope ''t1'')) (fst (take_notices (exampleScope ''t1'') exampleLedger))))
    = snd (take_notices (exampleScope ''t1'') exampleLedger)"
  using inj_exampleId exampleLedger_reach by (rule release_undoes_take)

text \<open>One event is one notice: after a notice is raised for a source, and whatever happens next, raising the same
  source again (with no Turn to retry) changes nothing.\<close>

theorem raise_once:
  assumes "inj newId" and "ledgerReach newId L" and "okOp (Raise n to (Some s) older opts)"
    and "\<forall>op\<in>set ops. okOp op" and "o_retry opts' = None"
    and "L' = fold (applyOp newId) ops (applyOp newId (Raise n to (Some s) older opts) L)"
  shows "raise newId n' to' (Some s) [] opts' L' = (L', False)"
proof -
  have wf: "wfLedger newId (applyOp newId (Raise n to (Some s) older opts) L)"
    using wfLedger_applyOp [OF wfLedger_reach [OF assms(2,1)] assms(1,3)] .
  have "s \<in> set (l_seen L')" using fold_applyOp_seen [OF wf assms(1,4)] raise_seen assms(6) by auto
  then show ?thesis using assms(5) by (simp add: raise_def Let_def addRetry_def)
qed

theorem raise_once_witness:
  "raise exampleId exampleKill ''ws'' (Some ''kill-2'') [] noOptions
      (fold (applyOp exampleId) [Restart] (applyOp exampleId (Raise exampleKill ''ws'' (Some ''kill-2'') [] noOptions) exampleLedger))
    = (fold (applyOp exampleId) [Restart] (applyOp exampleId (Raise exampleKill ''ws'' (Some ''kill-2'') [] noOptions) exampleLedger), False)"
  by (rule raise_once [OF inj_exampleId exampleLedger_reach _ _ _ refl]) (simp_all add: noOptions_def)

text \<open>The record of Steering messages is bounded and keeps what matters: \<^verbatim>\<open>steer\<close> never drops the record of a message
  that is still held, it drops the oldest settled ones first and only as many as there are too many, and leaves
  at most 100 records unless every one of them is held.\<close>

theorem steer_bounded_record:
  fixes newId m slot L
  defines "rs' \<equiv> l_steering (fst (steer newId m slot L))"
  shows "filter (\<lambda>r. s_outcome r = Held) rs' = filter (\<lambda>r. s_outcome r = Held) (l_steering L) @
      [\<lparr>s_id = newId (l_minted L), s_agent = slot, s_author = m_author m, s_text = m_text m, s_at = m_at m, s_outcome = Held\<rparr>]
    \<and> filter (\<lambda>r. s_outcome r \<noteq> Held) rs'
        = drop (Suc (length (l_steering L)) - 100) (filter (\<lambda>r. s_outcome r \<noteq> Held) (l_steering L))
    \<and> (length rs' \<le> 100 \<or> filter (\<lambda>r. s_outcome r \<noteq> Held) rs' = [])"
proof -
  define new where "new = \<lparr>s_id = newId (l_minted L), s_agent = slot, s_author = m_author m, s_text = m_text m,
    s_at = m_at m, s_outcome = Held\<rparr>"
  have rs': "rs' = trimLoop (Suc (length (l_steering L)) - 100) (l_steering L @ [new])"
    by (simp add: rs'_def steer_def Let_def trimRecord_def new_def STEERING_RECORD_MAX_def)
  have new: "s_outcome new = Held" by (simp add: new_def)
  have held: "filter (\<lambda>r. s_outcome r = Held) rs' = filter (\<lambda>r. s_outcome r = Held) (l_steering L) @ [new]"
    by (simp add: rs' trimLoop_held new)
  have settled: "filter (\<lambda>r. s_outcome r \<noteq> Held) rs'
      = drop (Suc (length (l_steering L)) - 100) (filter (\<lambda>r. s_outcome r \<noteq> Held) (l_steering L))"
    by (simp add: rs' trimLoop_settled new)
  have "filter (\<lambda>r. s_outcome r \<noteq> Held) rs' = []" if "100 < length rs'"
  proof (rule ccontr)
    assume "filter (\<lambda>r. s_outcome r \<noteq> Held) rs' \<noteq> []"
    then have "Suc (length (l_steering L)) - 100 < length (filter (\<lambda>r. s_outcome r \<noteq> Held) (l_steering L))"
      unfolding settled by auto
    moreover have "length rs' = length (filter (\<lambda>r. s_outcome r = Held) rs') + length (filter (\<lambda>r. s_outcome r \<noteq> Held) rs')"
      by (rule length_filter_split)
    moreover have "length (l_steering L) = length (filter (\<lambda>r. s_outcome r = Held) (l_steering L))
        + length (filter (\<lambda>r. s_outcome r \<noteq> Held) (l_steering L))" by (rule length_filter_split)
    ultimately show False using that unfolding held settled by simp
  qed
  then have "length rs' \<le> 100 \<or> filter (\<lambda>r. s_outcome r \<noteq> Held) rs' = []" by linarith
  then show ?thesis using held settled unfolding new_def by blast
qed

text \<open>A Steering message that was retired is not brought back: when \<^verbatim>\<open>retire\<close> takes a pending message of a Machine (or of
  every Machine), no later \<^verbatim>\<open>take\<close> hands it out, its record says that it was not delivered, and a \<^verbatim>\<open>restore\<close> of it
  changes nothing.\<close>

theorem retired_not_restored:
  assumes "p \<in> set (l_pending L)" and "p_notice p = SteeringBody m" and "p_to p = slot" and "retires machine p"
    and "r \<in> set (l_steering L)" and "recordOf r m slot"
  shows "p \<notin> set (l_pending (fst (retire machine L)))
    \<and> (\<exists>r'\<in>set (l_steering (fst (retire machine L))). recordOf r' m slot \<and> s_outcome r' = NotDelivered)
    \<and> restore newId (SteeringBody m) slot source taker (fst (retire machine L)) = (fst (retire machine L), False)"
proof -
  have "\<exists>r\<in>set (fold (outcomeOf NotDelivered) (filter (retires machine) (l_pending L)) (l_steering L)).
      s_outcome r = NotDelivered \<and> recordOf r m slot"
    using assms by (intro fold_outcomeOf_retired [of _ _ _ p]) auto
  then have rec: "\<exists>r\<in>set (l_steering (fst (retire machine L))). s_outcome r = NotDelivered \<and> recordOf r m slot"
    by (simp add: retire_def Let_def)
  then have "retired m slot (fst (retire machine L))" by (simp add: retired_def)
  then show ?thesis using rec assms(4) by (auto simp: restore_def restoreSteering_def retire_def Let_def)
qed

definition exampleMessage :: SteeringMessage where
  "exampleMessage = \<lparr>m_text = ''stop'', m_author = MachineAuthor None, m_at = ''2024''\<rparr>"

theorem retired_not_restored_witness:
  "restore exampleId (SteeringBody exampleMessage) ''main/a'' None None
      (fst (retire (Some ''main'') (fst (steer exampleId exampleMessage ''main/a'' (newLedger None 0)))))
    = (fst (retire (Some ''main'') (fst (steer exampleId exampleMessage ''main/a'' (newLedger None 0)))), False)"
  using retired_not_restored [of
      "\<lparr>p_id = [], p_notice = SteeringBody exampleMessage, p_to = ''main/a'', p_source = None,
        p_audience = None, p_retry = [], p_heardBy = [], p_told = []\<rparr>"
      "fst (steer exampleId exampleMessage ''main/a'' (newLedger None 0))" exampleMessage "''main/a''" "Some ''main''"
      "\<lparr>s_id = [], s_agent = ''main/a'', s_author = MachineAuthor None, s_text = ''stop'', s_at = ''2024'', s_outcome = Held\<rparr>"]
  by (simp add: steer_def Let_def newLedger_def exampleId_def retires_def slotMachine_def exampleMessage_def recordOf_def
      trimRecord_def STEERING_RECORD_MAX_def)

text \<open>A restart of the host loses no notice: the ledger built from the saved state has the same pending notices, members,
  record and seen sources, and whatever a Turn had taken but not yet heard is handed out again.\<close>

theorem restart_hands_out_again:
  fixes sc L newId
  defines "L' \<equiv> applyOp newId Restart (fst (take_notices sc L))"
  shows "l_pending L' = l_pending (fst (take_notices sc L)) \<and> l_members L' = l_members (fst (take_notices sc L))
    \<and> l_steering L' = l_steering (fst (take_notices sc L)) \<and> set (l_seen L') = set (l_seen (fst (take_notices sc L)))
    \<and> set (t_ids (snd (take_notices sc L))) \<subseteq> set (t_ids (snd (take_notices sc L')))"
proof -
  define tk where "tk = takerOf sc"
  define L1 where "L1 = retryTold sc tk L"
  have pend: "l_pending L' = l_pending L1" "l_reserved L' = []"
    by (simp_all add: L'_def newLedger_def state_def take_notices_def Let_def frame_simps L1_def tk_def)
  have "retryTold sc tk L' = L'"
    by (rule retryTold_id) (use retryTold_idem [of sc tk L] in \<open>simp add: pend L1_def\<close>)
  then have ids: "t_ids (snd (take_notices sc L')) = map p_id (filter (eligible L' sc tk) (l_pending L1))"
    by (simp add: take_notices_def Let_def pend tk_def [symmetric])
  have "eligible L' sc tk p" if "eligible L1 sc tk p" for p using that by (auto simp: eligible_def pend)
  then have "set (t_ids (snd (take_notices sc L))) \<subseteq> set (t_ids (snd (take_notices sc L')))"
    unfolding ids by (auto simp: take_notices_def Let_def tk_def L1_def)
  then show ?thesis by (simp add: L'_def newLedger_def state_def)
qed

end
