(* ===== verification/Json_Text.thy ===== *)
theory Json_Text
  imports Truncate
begin

text \<open>
  The JSON text of a string and of a property: the part of \<^verbatim>\<open>JSON.stringify\<close> that the sizes of kept entries and the estimates of a
  context count.
\<close>

section \<open>Strings and properties\<close>

definition hexDigit :: "nat \<Rightarrow> 16 word" where
  "hexDigit n = of_nat (if n < 10 then 48 + n else 87 + n)"

definition hex4 :: "16 word \<Rightarrow> jsstr" where
  "hex4 c = [hexDigit (unat c div 4096), hexDigit (unat c div 256 mod 16), hexDigit (unat c div 16 mod 16), hexDigit (unat c mod 16)]"

text \<open>One code unit that is not half of a pair: the short escapes, \<^verbatim>\<open>\u\<close> for the other control units and for an
  unpaired surrogate (well-formed \<^verbatim>\<open>JSON.stringify\<close>), and the unit itself otherwise.\<close>

definition jsonUnit :: "16 word \<Rightarrow> jsstr" where
  "jsonUnit c =
     (if c = 0x22 then [0x5c, 0x22] else if c = 0x5c then [0x5c, 0x5c]
      else if c = 8 then [0x5c, 0x62] else if c = 9 then [0x5c, 0x74] else if c = 10 then [0x5c, 0x6e]
      else if c = 12 then [0x5c, 0x66] else if c = 13 then [0x5c, 0x72]
      else if c < 0x20 \<or> is_high c \<or> is_low c then 0x5c # 0x75 # hex4 c
      else [c])"

fun jsonChars :: "jsstr \<Rightarrow> jsstr" where
  "jsonChars [] = []"
| "jsonChars [c] = jsonUnit c"
| "jsonChars (c # d # cs) = (if is_high c \<and> is_low d then c # d # jsonChars cs else jsonUnit c @ jsonChars (d # cs))"

definition jsonString :: "jsstr \<Rightarrow> jsstr" where
  "jsonString s = [0x22] @ jsonChars s @ [0x22]"

definition jsonField :: "string \<Rightarrow> jsstr \<Rightarrow> jsstr" where
  "jsonField name val = jsonString (js name) @ [0x3a] @ val"

text \<open>\<^verbatim>\<open>xs.join(sep)\<close>.\<close>

fun joinWith :: "jsstr \<Rightarrow> jsstr list \<Rightarrow> jsstr" where
  "joinWith sep [] = []"
| "joinWith sep [x] = x"
| "joinWith sep (x # xs) = x @ sep @ joinWith sep xs"

section \<open>UTF-8 lengths\<close>

lemma utf8_append_le: "utf8ByteLength (xs @ ys) \<le> utf8ByteLength xs + utf8ByteLength ys"
proof (induction xs rule: utf8ByteLength.induct)
  case (2 c)
  show ?case
  proof (cases ys)
    case (Cons d ds)
    have "2 \<le> utf8ByteLength (d # ds) + 1 \<and> (is_low d \<longrightarrow> 3 + utf8ByteLength ds \<le> utf8ByteLength (d # ds))"
    proof (cases ds)
      case (Cons x xs)
      have "is_low d \<Longrightarrow> \<not> is_high d" by (rule is_low_not_high)
      moreover have "is_low d \<Longrightarrow> unitBytes d = 3" by (simp add: unitBytes_low)
      ultimately show ?thesis using Cons by (auto simp: unitBytes_def)
    qed (auto simp: unitBytes_low, simp add: unitBytes_def)
    then show ?thesis using Cons unitBytes_high [of c] by auto
  qed simp
qed (auto split: if_splits)

lemma utf8_le_3: "utf8ByteLength s \<le> 3 * length s"
  by (induction s rule: utf8ByteLength.induct) (auto simp: unitBytes_def)

lemma utf8_ascii: "(\<forall>c\<in>set s. c \<le> 0x7f) \<Longrightarrow> utf8ByteLength s = length s"
proof (induction s rule: utf8ByteLength.induct)
  case (3 c d cs)
  then have "\<not> is_high c" by (simp add: is_high_unat word_le_nat_alt)
  then show ?case using 3 by (simp add: unitBytes_def)
qed (simp_all add: unitBytes_def)

lemma ascii_of_nat: "n \<le> 127 \<Longrightarrow> (of_nat n :: 16 word) \<le> 0x7f"
  by (simp add: word_le_nat_alt unat_of_nat)

lemma hexDigit_ascii: "n < 16 \<Longrightarrow> hexDigit n \<le> 0x7f"
  unfolding hexDigit_def by (rule ascii_of_nat) auto

lemma hex4_ascii: "\<forall>c\<in>set (hex4 d). c \<le> 0x7f"
proof -
  have "unat d div 4096 < 16" using unsigned_less [where 'a = nat, of d] by (simp add: less_mult_imp_div_less)
  then show ?thesis by (simp add: hex4_def hexDigit_ascii)
qed

lemma utf8_jsonUnit: "utf8ByteLength (jsonUnit c) \<le> 6"
proof -
  have "utf8ByteLength (0x5c # 0x75 # hex4 c) = 6" using hex4_ascii [of c] by (subst utf8_ascii) (auto simp: hex4_def)
  moreover have "utf8ByteLength [a, b] \<le> 6" for a b using utf8_le_3 [of "[a, b]"] by simp
  moreover have "utf8ByteLength [c] \<le> 6" using utf8_le_3 [of "[c]"] by simp
  ultimately show ?thesis by (simp add: jsonUnit_def del: utf8ByteLength.simps)
qed

lemma utf8_jsonChars: "utf8ByteLength (jsonChars s) \<le> 6 * length s"
proof (induction s rule: jsonChars.induct)
  case (3 c d cs)
  show ?case
  proof (cases "is_high c \<and> is_low d")
    case False
    then show ?thesis using 3 utf8_append_le [of "jsonUnit c" "jsonChars (d # cs)"] utf8_jsonUnit [of c] by (simp, linarith)
  qed (use 3 in simp)
qed (simp_all add: utf8_jsonUnit)

lemma utf8_Cons_le: "utf8ByteLength (c # s) \<le> 3 + utf8ByteLength s"
  using utf8_append_le [of "[c]" s] utf8_le_3 [of "[c]"] by simp

lemma utf8_jsonString: "utf8ByteLength (jsonString s) \<le> 6 * length s + 6"
  using utf8_append_le [of "[0x22] @ jsonChars s" "[0x22]"] utf8_append_le [of "[0x22]" "jsonChars s"] utf8_jsonChars [of s]
    utf8_le_3 [of "[0x22]"] by (simp add: jsonString_def)

lemma utf8_jsonField: "utf8ByteLength (jsonField name val) \<le> 6 * length name + 9 + utf8ByteLength val"
  using utf8_append_le [of "jsonString (js name)" "[0x3a] @ val"] utf8_append_le [of "[0x3a]" val] utf8_jsonString [of "js name"]
    utf8_le_3 [of "[0x3a]"] by (simp add: jsonField_def js_def)

end
