(* ===== verification/Conversations.thy ===== *)
theory Conversations
  imports Json_Text "HOL-Library.List_Lexorder" "HOL-Library.Char_ord" "HOL-Library.Product_Lexorder"
begin

text \<open>
  The kept conversations, \<^verbatim>\<open>packages/orchestrator/src/conversations.ts\<close>: the class \<^verbatim>\<open>ConversationStore\<close> (the
  two tables, \<^verbatim>\<open>append\<close> with its cap and its markers, the reads, the sweeps), the space guard and the
  removal of orphans.

  A table is the list of its rows in the order of insertion; a query with \<^verbatim>\<open>ORDER BY\<close> sorts. A statement that
  meets a primary key or a unique index fails, and the transaction around it leaves the tables as they were.
  The entry column holds the JSON text of the entry, and \<^verbatim>\<open>JSON.parse\<close> gives the entry back, so the model's
  column holds the entry; its size is the UTF-8 length of the text that \<^verbatim>\<open>JSON.stringify\<close> writes, below. The
  pragmas, the vacuum and the listeners' set are not modelled: \<open>append_entries\<close> answers the entries that the listeners
  of the conversation hear.
\<close>

section \<open>The tables\<close>

record ConversationEntry =
  c_id :: jsstr
  c_seq :: int
  c_at :: jsstr
  c_agent :: jsstr
  c_kind :: jsstr
  c_text :: jsstr

record SentEntry =
  e_id :: jsstr
  e_seq :: int
  e_at :: jsstr
  e_kind :: jsstr
  e_text :: jsstr

definition entryJson :: "ConversationEntry \<Rightarrow> jsstr" where
  "entryJson e = [0x7b] @ jsonField ''id'' (jsonString (c_id e)) @ [0x2c] @ jsonField ''seq'' (js (decimalInt (c_seq e)))
     @ [0x2c] @ jsonField ''at'' (jsonString (c_at e)) @ [0x2c] @ jsonField ''agent'' (jsonString (c_agent e))
     @ [0x2c] @ jsonField ''kind'' (jsonString (c_kind e)) @ [0x2c] @ jsonField ''text'' (jsonString (c_text e)) @ [0x7d]"

definition entrySize :: "ConversationEntry \<Rightarrow> nat" where
  "entrySize e = utf8ByteLength (entryJson e)"

record ConversationRow =
  cr_run_id :: ident
  cr_agent :: jsstr
  cr_bytes :: nat
  cr_cut :: bool
  cr_swept :: "string option"
  cr_created_at :: jsstr
  cr_updated_at :: jsstr

record EntryRow =
  er_instance :: ident
  er_seq :: int
  er_id :: jsstr
  er_entry :: ConversationEntry

record ConversationStore =
  cs_conversations :: "(ident \<times> ConversationRow) list"
  cs_entries :: "EntryRow list"
  cs_full :: bool
  cs_capBytes :: nat

record KeptConversation =
  k_agent :: jsstr
  k_instanceId :: ident
  k_bytes :: nat
  k_cut :: bool
  k_swept :: "string option"

record AppendResult =
  a_kept :: nat
  a_cut :: bool

datatype StoreError = ConstraintFailed

definition SWEPT_NO_SPACE :: string where "SWEPT_NO_SPACE = ''no space''"
definition CONVERSATION_CAP_BYTES :: nat where "CONVERSATION_CAP_BYTES = 8 * 1024 * 1024"
definition CUT_KIND :: string where "CUT_KIND = ''cut''"

definition newStore :: "nat option \<Rightarrow> ConversationStore" where
  "newStore capBytes = \<lparr>cs_conversations = [], cs_entries = [], cs_full = False,
     cs_capBytes = (case capBytes of None \<Rightarrow> CONVERSATION_CAP_BYTES | Some n \<Rightarrow> n)\<rparr>"

definition rowOf :: "ident \<Rightarrow> ConversationStore \<Rightarrow> ConversationRow option" where
  "rowOf instanceId S = map_of (cs_conversations S) instanceId"

section \<open>Appending\<close>

definition rowsOf :: "ident \<Rightarrow> EntryRow list \<Rightarrow> EntryRow list" where
  "rowsOf instanceId rows = filter (\<lambda>r. er_instance r = instanceId) rows"

definition hasId :: "ident \<Rightarrow> jsstr \<Rightarrow> EntryRow list \<Rightarrow> bool" where
  "hasId instanceId eid rows \<longleftrightarrow> (\<exists>r\<in>set (rowsOf instanceId rows). er_id r = eid)"

definition hasSeq :: "ident \<Rightarrow> int \<Rightarrow> EntryRow list \<Rightarrow> bool" where
  "hasSeq instanceId s rows \<longleftrightarrow> (\<exists>r\<in>set (rowsOf instanceId rows). er_seq r = s)"

text \<open>\<^verbatim>\<open>SELECT MAX(seq)\<close> with \<^verbatim>\<open>?? 0\<close>.\<close>

definition lastSeq :: "ident \<Rightarrow> EntryRow list \<Rightarrow> int" where
  "lastSeq instanceId rows =
     (case map er_seq (rowsOf instanceId rows) of [] \<Rightarrow> 0 | s # ss \<Rightarrow> fold max ss s)"

definition insertRow :: "EntryRow \<Rightarrow> EntryRow list \<Rightarrow> EntryRow list option" where
  "insertRow r rows =
     (if hasSeq (er_instance r) (er_seq r) rows \<or> hasId (er_instance r) (er_id r) rows then None else Some (rows @ [r]))"

definition capText :: "nat \<Rightarrow> string" where
  "capText bytes = (if bytes mod (1024 * 1024) = 0 then decimal (bytes div (1024 * 1024)) @ '' MiB'' else decimal bytes @ '' bytes'')"

definition cutMarker :: "bool \<Rightarrow> nat \<Rightarrow> jsstr \<Rightarrow> jsstr \<Rightarrow> int \<Rightarrow> ConversationEntry" where
  "cutMarker full cap now agent s =
     \<lparr>c_id = js (CUT_KIND @ ''-'' @ decimalInt s), c_seq = s, c_at = now, c_agent = agent, c_kind = js CUT_KIND,
      c_text = js (if full
        then ''the Orchestrator keeps no more of this conversation: its state volume is full (ADR-0065)''
        else ''the Orchestrator keeps no more of this conversation: it is at its cap of '' @ capText cap @ '' (ADR-0023)'')\<rparr>"

definition seqFor :: "ident \<Rightarrow> SentEntry \<Rightarrow> EntryRow list \<Rightarrow> int" where
  "seqFor instanceId e rows = (if hasSeq instanceId (e_seq e) rows then lastSeq instanceId rows + 1 else e_seq e)"

definition entryOf :: "jsstr \<Rightarrow> SentEntry \<Rightarrow> int \<Rightarrow> ConversationEntry" where
  "entryOf agent e s = \<lparr>c_id = e_id e, c_seq = s, c_at = e_at e, c_agent = agent, c_kind = e_kind e, c_text = e_text e\<rparr>"

definition entryRow :: "ident \<Rightarrow> ConversationEntry \<Rightarrow> EntryRow" where
  "entryRow instanceId e = \<lparr>er_instance = instanceId, er_seq = c_seq e, er_id = c_id e, er_entry = e\<rparr>"

record AppendState =
  as_rows :: "EntryRow list"
  as_bytes :: nat
  as_cut :: bool
  as_added :: "ConversationEntry list"
  as_kept :: nat

fun appendLoop :: "bool \<Rightarrow> nat \<Rightarrow> jsstr \<Rightarrow> ident \<Rightarrow> jsstr \<Rightarrow> SentEntry list \<Rightarrow> AppendState \<Rightarrow> AppendState option" where
  "appendLoop full cap now instanceId agent [] a = Some a"
| "appendLoop full cap now instanceId agent (e # es) a =
     (if hasId instanceId (e_id e) (as_rows a) then appendLoop full cap now instanceId agent es a
      else let s = seqFor instanceId e (as_rows a);
               entry = entryOf agent e s;
               size = entrySize entry
           in if full \<or> as_bytes a + size > cap
              then let marker = cutMarker full cap now agent s in
                   (case insertRow (entryRow instanceId marker) (as_rows a) of
                      None \<Rightarrow> None
                    | Some rows \<Rightarrow> Some (a\<lparr>as_rows := rows, as_added := as_added a @ [marker], as_cut := True\<rparr>))
              else (case insertRow (entryRow instanceId entry) (as_rows a) of
                      None \<Rightarrow> None
                    | Some rows \<Rightarrow> appendLoop full cap now instanceId agent es
                        (a\<lparr>as_rows := rows, as_added := as_added a @ [entry], as_kept := as_kept a + 1,
                           as_bytes := as_bytes a + size\<rparr>)))"

definition newRow :: "ident \<Rightarrow> jsstr \<Rightarrow> jsstr \<Rightarrow> ConversationRow" where
  "newRow runId agent now = \<lparr>cr_run_id = runId, cr_agent = agent, cr_bytes = 0, cr_cut = False, cr_swept = None,
     cr_created_at = now, cr_updated_at = now\<rparr>"

definition append_entries ::
  "jsstr \<Rightarrow> ident \<Rightarrow> ident \<Rightarrow> jsstr \<Rightarrow> SentEntry list \<Rightarrow> ConversationStore
   \<Rightarrow> StoreError + ConversationStore \<times> AppendResult \<times> ConversationEntry list" where
  "append_entries now runId instanceId agent sent S =
     (let r = (case rowOf instanceId S of None \<Rightarrow> newRow runId agent now | Some r \<Rightarrow> r)
      in if cr_cut r \<or> cr_swept r \<noteq> None then Inr (S, \<lparr>a_kept = 0, a_cut = cr_cut r\<rparr>, [])
         else case appendLoop (cs_full S) (cs_capBytes S) now instanceId agent (sort_key e_seq sent)
                \<lparr>as_rows = cs_entries S, as_bytes = cr_bytes r, as_cut = False, as_added = [], as_kept = 0\<rparr> of
           None \<Rightarrow> Inl ConstraintFailed
         | Some a \<Rightarrow>
             Inr (S\<lparr>cs_entries := as_rows a,
                    cs_conversations := mapSet instanceId
                      (r\<lparr>cr_bytes := as_bytes a, cr_cut := as_cut a, cr_updated_at := now\<rparr>) (cs_conversations S)\<rparr>,
                  \<lparr>a_kept = as_kept a, a_cut = as_cut a\<rparr>, as_added a))"

section \<open>Reads\<close>

definition list_conversations :: "ident \<Rightarrow> ConversationStore \<Rightarrow> KeptConversation list" where
  "list_conversations runId S = map (\<lambda>(i, r). \<lparr>k_agent = cr_agent r, k_instanceId = i, k_bytes = cr_bytes r, k_cut = cr_cut r,
        k_swept = (case cr_swept r of None \<Rightarrow> None | Some _ \<Rightarrow> Some SWEPT_NO_SPACE)\<rparr>)
     (sort_key (\<lambda>(i, r). (cr_created_at r, i)) (filter (\<lambda>(_, r). cr_run_id r = runId) (cs_conversations S)))"

definition conversation :: "ident \<Rightarrow> ident \<Rightarrow> ConversationStore \<Rightarrow> KeptConversation option" where
  "conversation runId instanceId S = find (\<lambda>c. k_instanceId c = instanceId) (list_conversations runId S)"

definition entries :: "ident \<Rightarrow> int \<Rightarrow> nat \<Rightarrow> ConversationStore \<Rightarrow> ConversationEntry list" where
  "entries instanceId after limit S =
     map er_entry (take limit (sort_key er_seq (filter (\<lambda>r. er_instance r = instanceId \<and> er_seq r > after) (cs_entries S))))"

definition sweptRuns :: "ident list \<Rightarrow> ConversationStore \<Rightarrow> ident list" where
  "sweptRuns ids S = fold setAdd
     (filter (\<lambda>runId. \<exists>(_, r)\<in>set (cs_conversations S). cr_run_id r = runId \<and> cr_swept r \<noteq> None) ids) []"

definition runIds :: "ConversationStore \<Rightarrow> ident list" where
  "runIds S = sort (remdups (map (cr_run_id \<circ> snd) (cs_conversations S)))"

text \<open>\<^verbatim>\<open>GROUP BY run_id ORDER BY MIN(created_at), run_id\<close> over the rows that are not swept.\<close>

definition firstCreated :: "ident \<Rightarrow> ConversationStore \<Rightarrow> jsstr" where
  "firstCreated runId S =
     Min (set (map (cr_created_at \<circ> snd) (filter (\<lambda>(_, r). cr_swept r = None \<and> cr_run_id r = runId) (cs_conversations S))))"

definition runsOldestFirst :: "ConversationStore \<Rightarrow> ident list" where
  "runsOldestFirst S = sort_key (\<lambda>runId. (firstCreated runId S, runId))
     (remdups (map (cr_run_id \<circ> snd) (filter (\<lambda>(_, r). cr_swept r = None) (cs_conversations S))))"

section \<open>Deletes\<close>

definition instancesOf :: "ident \<Rightarrow> ConversationStore \<Rightarrow> ident list" where
  "instancesOf runId S = map fst (filter (\<lambda>(_, r). cr_run_id r = runId) (cs_conversations S))"

definition deleteRun :: "ident \<Rightarrow> ConversationStore \<Rightarrow> ConversationStore" where
  "deleteRun runId S = S\<lparr>cs_entries := filter (\<lambda>r. er_instance r \<notin> set (instancesOf runId S)) (cs_entries S),
     cs_conversations := filter (\<lambda>(_, r). cr_run_id r \<noteq> runId) (cs_conversations S)\<rparr>"

definition deleteRuns :: "ident list \<Rightarrow> ConversationStore \<Rightarrow> ConversationStore" where
  "deleteRuns ids S = fold deleteRun ids S"

definition sweepForSpace :: "jsstr \<Rightarrow> ident \<Rightarrow> ConversationStore \<Rightarrow> ConversationStore" where
  "sweepForSpace now runId S = S\<lparr>cs_entries := filter (\<lambda>r. er_instance r \<notin> set (instancesOf runId S)) (cs_entries S),
     cs_conversations := map (\<lambda>(i, r). (i, if cr_run_id r = runId
        then r\<lparr>cr_swept := Some SWEPT_NO_SPACE, cr_bytes := 0, cr_updated_at := now\<rparr> else r)) (cs_conversations S)\<rparr>"

section \<open>The space guard\<close>

text \<open>The guard's port: \<open>used\<close> reads the size of the files, which depends on what the store holds; \<open>isLive\<close> asks
  the host; the size of the volume is \<open>None\<close> for \<^verbatim>\<open>Infinity\<close>. The bounds 0.8 and 0.95 are compared in integers:
  below \<open>2 ^ 50\<close> bytes the rounded product that the code compares with is on the same side of every integer.\<close>

definition aboveSweep :: "nat \<Rightarrow> nat option \<Rightarrow> bool" where
  "aboveSweep used capacity = (case capacity of None \<Rightarrow> False | Some c \<Rightarrow> 5 * used > 4 * c)"

definition belowSweep :: "nat \<Rightarrow> nat option \<Rightarrow> bool" where
  "belowSweep used capacity = (case capacity of None \<Rightarrow> True | Some c \<Rightarrow> 5 * used < 4 * c)"

definition aboveFull :: "nat \<Rightarrow> nat option \<Rightarrow> bool" where
  "aboveFull used capacity = (case capacity of None \<Rightarrow> False | Some c \<Rightarrow> 20 * used > 19 * c)"

fun guardLoop :: "jsstr \<Rightarrow> (ConversationStore \<Rightarrow> nat) \<Rightarrow> nat option \<Rightarrow> (ident \<Rightarrow> bool) \<Rightarrow> ident list
    \<Rightarrow> ConversationStore \<Rightarrow> nat \<Rightarrow> ident list \<Rightarrow> ConversationStore \<times> nat \<times> ident list" where
  "guardLoop now usedOf capacity isLive [] S used swept = (S, used, swept)"
| "guardLoop now usedOf capacity isLive (runId # rest) S used swept =
     (if belowSweep used capacity then (S, used, swept)
      else if isLive runId then guardLoop now usedOf capacity isLive rest S used swept
      else let S' = sweepForSpace now runId S
           in guardLoop now usedOf capacity isLive rest S' (usedOf S') (swept @ [runId]))"

definition guardSpace :: "jsstr \<Rightarrow> (ConversationStore \<Rightarrow> nat) \<Rightarrow> nat option \<Rightarrow> (ident \<Rightarrow> bool)
    \<Rightarrow> ConversationStore \<Rightarrow> ConversationStore \<times> ident list" where
  "guardSpace now usedOf capacity isLive S =
     (if capacity = Some 0 then (S, [])
      else case (if aboveSweep (usedOf S) capacity
                 then guardLoop now usedOf capacity isLive (runsOldestFirst S) S (usedOf S) []
                 else (S, usedOf S, [])) of
        (S', used, swept) \<Rightarrow> (S'\<lparr>cs_full := aboveFull used capacity\<rparr>, swept))"

text \<open>\<^verbatim>\<open>deleteOrphanConversations\<close>; \<open>findIdsByPrefix\<close> is the run store's.\<close>

definition orphansOf :: "(ident \<Rightarrow> nat \<Rightarrow> ident list) \<Rightarrow> ConversationStore \<Rightarrow> ident list" where
  "orphansOf findIdsByPrefix S =
     filter (\<lambda>runId. case findIdsByPrefix runId 1 of [] \<Rightarrow> True | first # _ \<Rightarrow> first \<noteq> runId) (runIds S)"

definition deleteOrphanConversations ::
  "(ident \<Rightarrow> nat \<Rightarrow> ident list) \<Rightarrow> ConversationStore \<Rightarrow> ConversationStore \<times> ident list" where
  "deleteOrphanConversations findIdsByPrefix S =
     (deleteRuns (orphansOf findIdsByPrefix S) S, orphansOf findIdsByPrefix S)"

section \<open>The rows of one conversation\<close>

lemma rowsOf_append [simp]: "rowsOf i (xs @ ys) = rowsOf i xs @ rowsOf i ys"
  by (simp add: rowsOf_def)

lemma rowsOf_entryRow: "rowsOf i (map (entryRow j) es) = (if i = j then map (entryRow j) es else [])"
  by (induction es) (auto simp: rowsOf_def entryRow_def)

lemma rowsOf_single: "rowsOf i [entryRow j e] = (if i = j then [entryRow j e] else [])"
  using rowsOf_entryRow [of i j "[e]"] by simp

lemma fold_max_start: "(s :: int) \<le> fold max ss s"
proof (induction ss arbitrary: s)
  case (Cons a ss)
  show ?case using Cons [of "max a s"] by simp
qed simp

lemma fold_max_ge: "(x :: int) \<in> set ss \<Longrightarrow> x \<le> fold max ss s"
proof (induction ss arbitrary: s)
  case (Cons a ss)
  then show ?case using fold_max_start [of "max a s" ss] by auto
qed simp

lemma lastSeq_ge: "r \<in> set (rowsOf i rows) \<Longrightarrow> er_seq r \<le> lastSeq i rows"
  using fold_max_ge fold_max_start by (cases "rowsOf i rows") (auto simp: lastSeq_def)

lemma seqFor_fresh: "\<not> hasSeq i (seqFor i e rows) rows"
proof -
  have "er_seq r \<noteq> lastSeq i rows + 1" if "r \<in> set (rowsOf i rows)" for r
    using lastSeq_ge [OF that] by simp
  then show ?thesis by (auto simp: seqFor_def hasSeq_def)
qed

definition wfRows :: "EntryRow list \<Rightarrow> bool" where
  "wfRows rows \<longleftrightarrow> distinct (map (\<lambda>r. (er_instance r, er_seq r)) rows) \<and> distinct (map (\<lambda>r. (er_instance r, er_id r)) rows)
     \<and> (\<forall>r\<in>set rows. r = entryRow (er_instance r) (er_entry r))"

lemma insertRow_Some: "insertRow r rows = Some rows' \<Longrightarrow> rows' = rows @ [r]"
  by (simp add: insertRow_def split: if_splits)

lemma wfRows_insert:
  assumes "wfRows rows" and "insertRow (entryRow i e) rows = Some rows'"
  shows "wfRows rows'"
proof -
  have "\<not> hasSeq i (c_seq e) rows" "\<not> hasId i (c_id e) rows"
    using assms(2) by (simp_all add: insertRow_def entryRow_def split: if_splits)
  then show ?thesis using assms(1) insertRow_Some [OF assms(2)]
    by (auto simp: wfRows_def hasSeq_def hasId_def rowsOf_def entryRow_def)
qed

lemma insertRow_entry:
  "\<not> hasId i (e_id e) rows \<Longrightarrow>
   insertRow (entryRow i (entryOf agent e (seqFor i e rows))) rows = Some (rows @ [entryRow i (entryOf agent e (seqFor i e rows))])"
  using seqFor_fresh [of i e rows] by (simp add: insertRow_def entryRow_def entryOf_def)

text \<open>What one batch does to the rows: it adds entries of the conversation, whole batches unless it is cut, and then
  one marker.\<close>

definition sizes :: "ConversationEntry list \<Rightarrow> nat" where
  "sizes es = sum_list (map entrySize es)"

lemma sizes_simps [simp]: "sizes [] = 0" "sizes (e # es) = entrySize e + sizes es" "sizes (xs @ ys) = sizes xs + sizes ys"
  by (simp_all add: sizes_def)

definition appended :: "ident \<Rightarrow> nat \<Rightarrow> SentEntry list \<Rightarrow> AppendState \<Rightarrow> AppendState \<Rightarrow> ConversationEntry list \<Rightarrow> ConversationEntry list \<Rightarrow> bool" where
  "appended i cap es a a' new markers \<longleftrightarrow>
     as_rows a' = as_rows a @ map (entryRow i) (new @ markers) \<and> as_added a' = as_added a @ new @ markers
     \<and> as_bytes a' = as_bytes a + sizes new \<and> as_kept a' = as_kept a + length new
     \<and> (as_bytes a \<le> cap \<longrightarrow> as_bytes a' \<le> cap) \<and> set (map c_id new) \<subseteq> set (map e_id es)
     \<and> (if as_cut a' then \<exists>m. markers = [m] \<and> c_kind m = js CUT_KIND
        else markers = [] \<and> (\<forall>e\<in>set es. hasId i (e_id e) (as_rows a')))"

lemma hasId_append [simp]: "hasId i x (xs @ ys) \<longleftrightarrow> hasId i x xs \<or> hasId i x ys"
  by (auto simp: hasId_def)

lemma hasId_entryRow: "hasId i x (map (entryRow i) es) \<longleftrightarrow> x \<in> c_id ` set es"
  by (auto simp: hasId_def rowsOf_entryRow entryRow_def)

lemma appendLoop_appended:
  assumes "appendLoop full cap now i agent es a = Some a'" and "\<not> as_cut a"
  shows "\<exists>new markers. appended i cap es a a' new markers"
  using assms
proof (induction es arbitrary: a)
  case Nil
  then have "appended i cap [] a a' [] []" by (simp add: appended_def)
  then show ?case by blast
next
  case (Cons e es)
  define s where "s = seqFor i e (as_rows a)"
  define entry where "entry = entryOf agent e s"
  consider (dup) "hasId i (e_id e) (as_rows a)"
    | (cut) "\<not> hasId i (e_id e) (as_rows a)" "full \<or> as_bytes a + entrySize entry > cap"
    | (keep) "\<not> hasId i (e_id e) (as_rows a)" "\<not> full" "as_bytes a + entrySize entry \<le> cap"
    by fastforce
  then show ?case
  proof cases
    case dup
    then obtain new markers where "appended i cap es a a' new markers"
      using Cons.IH [of a] Cons.prems by auto
    then have "appended i cap (e # es) a a' new markers" using dup by (auto simp: appended_def)
    then show ?thesis by blast
  next
    case cut
    define marker where "marker = cutMarker full cap now agent s"
    obtain rows where rows: "insertRow (entryRow i marker) (as_rows a) = Some rows"
        "a' = a\<lparr>as_rows := rows, as_added := as_added a @ [marker], as_cut := True\<rparr>"
      using Cons.prems(1) cut unfolding appendLoop.simps Let_def s_def [symmetric] entry_def [symmetric] marker_def [symmetric]
      by (auto split: option.splits)
    have "c_kind marker = js CUT_KIND" by (simp add: marker_def cutMarker_def)
    then have "appended i cap (e # es) a a' [] [marker]"
      using rows insertRow_Some [OF rows(1)] by (simp add: appended_def)
    then show ?thesis by blast
  next
    case keep
    let ?b = "a\<lparr>as_rows := as_rows a @ [entryRow i entry], as_added := as_added a @ [entry], as_kept := as_kept a + 1,
                as_bytes := as_bytes a + entrySize entry\<rparr>"
    have "appendLoop full cap now i agent es ?b = Some a'"
      using Cons.prems(1) keep insertRow_entry [OF keep(1), of agent]
      unfolding appendLoop.simps Let_def s_def [symmetric] entry_def [symmetric] by simp
    then obtain new markers where b: "appended i cap es ?b a' new markers"
      using Cons.IH [of ?b] Cons.prems(2) by auto
    have id: "c_id entry = e_id e" by (simp add: entry_def entryOf_def)
    then have "as_rows a' = as_rows a @ map (entryRow i) (entry # new @ markers)" using b by (simp add: appended_def)
    then have "hasId i (e_id e) (as_rows a')"
      using id hasId_append [of i "e_id e" "as_rows a"] hasId_entryRow [of i "e_id e" "entry # new @ markers"] by simp
    then have "appended i cap (e # es) a a' (entry # new) markers"
      using b id keep(3) by (auto simp: appended_def)
    then show ?thesis by blast
  qed
qed

lemma appendLoop_wfRows:
  "wfRows (as_rows a) \<Longrightarrow> appendLoop full cap now i agent es a = Some a' \<Longrightarrow> wfRows (as_rows a')"
proof (induction es arbitrary: a)
  case (Cons e es)
  then show ?case
    by (auto simp: Let_def split: if_splits option.splits dest: wfRows_insert)
       (metis (no_types, lifting) AppendState.ext_inject AppendState.surjective AppendState.update_convs wfRows_insert)+
qed simp

text \<open>Only a marker can meet a kept id: the code's ids are UUIDs, and no UUID is \<^verbatim>\<open>cut-<seq>\<close>.\<close>

definition plainId :: "jsstr \<Rightarrow> bool" where
  "plainId x \<longleftrightarrow> take 4 x \<noteq> js ''cut-''"

lemma cutMarker_not_plain: "\<not> plainId (c_id (cutMarker full cap now agent s))"
  by (simp add: plainId_def cutMarker_def CUT_KIND_def js_def)

lemma appendLoop_total:
  assumes "\<forall>r\<in>set (rowsOf i (as_rows a)). plainId (er_id r)" and "\<forall>e\<in>set es. plainId (e_id e)"
  shows "\<exists>a'. appendLoop full cap now i agent es a = Some a'"
  using assms
proof (induction es arbitrary: a)
  case (Cons e es)
  define s where "s = seqFor i e (as_rows a)"
  have "\<not> hasId i (c_id (cutMarker full cap now agent s)) (as_rows a)"
    using Cons.prems(1) cutMarker_not_plain by (auto simp: hasId_def)
  then have "insertRow (entryRow i (cutMarker full cap now agent s)) (as_rows a) \<noteq> None"
    using seqFor_fresh [of i e "as_rows a"] by (simp add: insertRow_def entryRow_def s_def cutMarker_def)
  moreover have "\<exists>a'. appendLoop full cap now i agent es (a\<lparr>as_rows := as_rows a @ [entryRow i (entryOf agent e s)],
      as_added := x, as_kept := y, as_bytes := z\<rparr>) = Some a'" for x y z
    using Cons.prems by (intro Cons.IH) (auto simp: rowsOf_single, auto simp: entryRow_def entryOf_def)
  ultimately show ?case using Cons insertRow_entry [of i e "as_rows a" agent]
    unfolding appendLoop.simps Let_def s_def [symmetric] by auto
qed simp

section \<open>The invariant of the store\<close>

text \<open>The bytes of a conversation are those of its entries, the marker of a cut apart; they are within the cap.\<close>

definition wfConversation :: "nat \<Rightarrow> ConversationRow \<Rightarrow> ConversationEntry list \<Rightarrow> bool" where
  "wfConversation cap r es \<longleftrightarrow> cr_bytes r \<le> cap \<and>
     (if cr_swept r \<noteq> None then es = [] \<and> cr_bytes r = 0
      else if cr_cut r then \<exists>kept m. es = kept @ [m] \<and> cr_bytes r = sizes kept \<and> c_kind m = js CUT_KIND
      else cr_bytes r = sizes es)"

definition entriesOf :: "ident \<Rightarrow> ConversationStore \<Rightarrow> ConversationEntry list" where
  "entriesOf i S = map er_entry (rowsOf i (cs_entries S))"

fun wfAt :: "nat \<Rightarrow> ConversationRow option \<Rightarrow> ConversationEntry list \<Rightarrow> bool" where
  "wfAt cap None es \<longleftrightarrow> es = []"
| "wfAt cap (Some r) es \<longleftrightarrow> wfConversation cap r es"

definition wfStore :: "ConversationStore \<Rightarrow> bool" where
  "wfStore S \<longleftrightarrow> distinct (map fst (cs_conversations S)) \<and> wfRows (cs_entries S)
     \<and> (\<forall>i. wfAt (cs_capBytes S) (rowOf i S) (entriesOf i S))"

lemma wfStoreD:
  assumes "wfStore S"
  shows "distinct (map fst (cs_conversations S))" "wfRows (cs_entries S)" "wfAt (cs_capBytes S) (rowOf i S) (entriesOf i S)"
  using assms by (simp_all add: wfStore_def)

inductive convStep :: "ConversationStore \<Rightarrow> ConversationStore \<Rightarrow> bool" where
  convAppend: "append_entries now runId i agent sent S = Inr (S', res, added) \<Longrightarrow> convStep S S'"
| convDelete: "convStep S (deleteRuns ids S)"
| convSweep: "convStep S (sweepForSpace now runId S)"
| convFull: "convStep S (S\<lparr>cs_full := b\<rparr>)"

inductive convReach :: "nat \<Rightarrow> ConversationStore \<Rightarrow> bool" for cap where
  convStart: "convReach cap (newStore (Some cap))"
| convNext: "convReach cap S \<Longrightarrow> convStep S S' \<Longrightarrow> convReach cap S'"

text \<open>The two branches of \<open>append_entries\<close> that answer.\<close>

definition openRow :: "jsstr \<Rightarrow> ident \<Rightarrow> ident \<Rightarrow> jsstr \<Rightarrow> ConversationStore \<Rightarrow> ConversationRow" where
  "openRow now runId i agent S = (case rowOf i S of None \<Rightarrow> newRow runId agent now | Some r \<Rightarrow> r)"

lemma append_entries_cases:
  assumes "append_entries now runId i agent sent S = Inr (S', res, added)"
  obtains (closed) "cr_cut (openRow now runId i agent S) \<or> cr_swept (openRow now runId i agent S) \<noteq> None"
      "S' = S" "added = []" "res = \<lparr>a_kept = 0, a_cut = cr_cut (openRow now runId i agent S)\<rparr>"
  | (kept) a new markers where "\<not> cr_cut (openRow now runId i agent S)" "cr_swept (openRow now runId i agent S) = None"
      "appended i (cs_capBytes S) (sort_key e_seq sent)
         \<lparr>as_rows = cs_entries S, as_bytes = cr_bytes (openRow now runId i agent S), as_cut = False, as_added = [], as_kept = 0\<rparr>
         a new markers"
      "wfRows (cs_entries S) \<Longrightarrow> wfRows (as_rows a)"
      "S' = S\<lparr>cs_entries := as_rows a, cs_conversations := mapSet i ((openRow now runId i agent S)
             \<lparr>cr_bytes := as_bytes a, cr_cut := as_cut a, cr_updated_at := now\<rparr>) (cs_conversations S)\<rparr>"
      "res = \<lparr>a_kept = as_kept a, a_cut = as_cut a\<rparr>" "added = as_added a"
proof (cases "cr_cut (openRow now runId i agent S) \<or> cr_swept (openRow now runId i agent S) \<noteq> None")
  case True
  then show thesis using assms by (intro closed) (auto simp: append_entries_def Let_def openRow_def)
next
  case False
  let ?a0 = "\<lparr>as_rows = cs_entries S, as_bytes = cr_bytes (openRow now runId i agent S), as_cut = False, as_added = [], as_kept = 0\<rparr>"
  obtain a where a: "appendLoop (cs_full S) (cs_capBytes S) now i agent (sort_key e_seq sent) ?a0 = Some a"
      "S' = S\<lparr>cs_entries := as_rows a, cs_conversations := mapSet i ((openRow now runId i agent S)
             \<lparr>cr_bytes := as_bytes a, cr_cut := as_cut a, cr_updated_at := now\<rparr>) (cs_conversations S)\<rparr>"
      "res = \<lparr>a_kept = as_kept a, a_cut = as_cut a\<rparr>" "added = as_added a"
    using assms False unfolding append_entries_def Let_def openRow_def [symmetric] by (auto split: option.splits)
  obtain new markers where "appended i (cs_capBytes S) (sort_key e_seq sent) ?a0 a new markers"
    using appendLoop_appended [OF a(1)] by auto
  moreover have "wfRows (cs_entries S) \<Longrightarrow> wfRows (as_rows a)" using appendLoop_wfRows [OF _ a(1)] by simp
  ultimately show thesis using kept [OF _ _ _ _ a(2-4)] False by blast
qed

lemma er_entry_entryRow [simp]: "er_entry (entryRow i e) = e" "er_instance (entryRow i e) = i"
    "er_id (entryRow i e) = c_id e" "er_seq (entryRow i e) = c_seq e"
  by (simp_all add: entryRow_def)

lemma map_er_entry [simp]: "map er_entry (map (entryRow i) es) = es"
  by (simp add: map_idI)

lemma wfStore_append:
  assumes "wfStore S" and "append_entries now runId i agent sent S = Inr (S', res, added)"
  shows "wfStore S'"
  using assms(2)
proof (cases rule: append_entries_cases)
  case (kept a new markers)
  let ?r = "openRow now runId i agent S"
  have rows: "as_rows a = cs_entries S @ map (entryRow i) (new @ markers)" using kept(3) by (simp add: appended_def)
  have wf: "wfConversation (cs_capBytes S) ?r (entriesOf i S)"
    using wfStoreD(3) [OF assms(1), of i] unfolding openRow_def
    by (cases "rowOf i S") (auto simp: wfConversation_def newRow_def)
  have mine: "entriesOf i S' = entriesOf i S @ new @ markers"
    by (simp add: entriesOf_def kept(5) rows rowsOf_entryRow del: map_append map_map) (simp add: map_append del: map_map)
  have "wfConversation (cs_capBytes S) (?r\<lparr>cr_bytes := as_bytes a, cr_cut := as_cut a, cr_updated_at := now\<rparr>) (entriesOf i S')"
    unfolding mine using wf kept(1-3) by (auto simp: wfConversation_def appended_def split: if_splits)
  moreover have "entriesOf j S' = entriesOf j S" if "j \<noteq> i" for j
    using that by (simp add: entriesOf_def kept(5) rows rowsOf_entryRow del: map_append)
  moreover have "rowOf j S' = (if j = i then Some (?r\<lparr>cr_bytes := as_bytes a, cr_cut := as_cut a, cr_updated_at := now\<rparr>) else rowOf j S)" for j
    by (simp add: rowOf_def kept(5))
  ultimately have "wfAt (cs_capBytes S) (rowOf j S') (entriesOf j S')" for j
    using wfStoreD(3) [OF assms(1), of j] by (cases "j = i") simp_all
  moreover have "cs_capBytes S' = cs_capBytes S" "wfRows (cs_entries S')" "distinct (map fst (cs_conversations S'))"
    using assms(1) kept(4) by (simp_all add: kept(5) wfStore_def distinct_mapSet)
  ultimately show ?thesis by (simp add: wfStore_def)
qed (use assms(1) in simp)

lemma wfRows_filter: "wfRows rows \<Longrightarrow> wfRows (filter P rows)"
  by (simp add: wfRows_def distinct_map_filter)

lemma instancesOf_iff:
  "distinct (map fst (cs_conversations S)) \<Longrightarrow> i \<in> set (instancesOf runId S) \<longleftrightarrow> (\<exists>r. rowOf i S = Some r \<and> cr_run_id r = runId)"
  by (force simp: instancesOf_def rowOf_def)

lemma entriesOf_filter:
  "cs_entries S' = filter (\<lambda>r. er_instance r \<notin> X) (cs_entries S) \<Longrightarrow> entriesOf i S' = (if i \<in> X then [] else entriesOf i S)"
  by (auto simp: entriesOf_def rowsOf_def filter_empty_conv intro!: arg_cong [of _ _ "map er_entry"] filter_cong)

lemma map_of_filter_snd:
  "distinct (map fst m) \<Longrightarrow> map_of (filter (\<lambda>(_, v). P v) m) k = (case map_of m k of None \<Rightarrow> None | Some v \<Rightarrow> if P v then Some v else None)"
proof (induction m)
  case (Cons kv m)
  obtain k' v where kv: "kv = (k', v)" by (cases kv)
  have "map_of m k' = None" using Cons.prems kv by (simp add: map_of_eq_None_iff)
  then show ?case using Cons kv by auto
qed simp

lemma rowOf_deleteRun:
  "distinct (map fst (cs_conversations S)) \<Longrightarrow>
   rowOf i (deleteRun runId S) = (case rowOf i S of None \<Rightarrow> None | Some r \<Rightarrow> if cr_run_id r \<noteq> runId then Some r else None)"
  by (simp add: rowOf_def deleteRun_def map_of_filter_snd)

lemma entriesOf_deleteRun: "entriesOf i (deleteRun runId S) = (if i \<in> set (instancesOf runId S) then [] else entriesOf i S)"
  by (rule entriesOf_filter) (simp add: deleteRun_def)

lemma map_of_map_snd: "map_of (map (\<lambda>(k, v). (k, f v)) m) k = map_option f (map_of m k)"
  by (induction m) auto

lemma rowOf_sweepForSpace: "rowOf i (sweepForSpace now runId S) = map_option (\<lambda>r. if cr_run_id r = runId
    then r\<lparr>cr_swept := Some SWEPT_NO_SPACE, cr_bytes := 0, cr_updated_at := now\<rparr> else r) (rowOf i S)"
  by (simp add: rowOf_def sweepForSpace_def map_of_map_snd)

lemma entriesOf_sweepForSpace: "entriesOf i (sweepForSpace now runId S) = (if i \<in> set (instancesOf runId S) then [] else entriesOf i S)"
  by (rule entriesOf_filter) (simp add: sweepForSpace_def)

lemma wfStore_deleteRun:
  assumes "wfStore S"
  shows "wfStore (deleteRun runId S)"
proof -
  note d = wfStoreD(1) [OF assms]
  have "wfAt (cs_capBytes S) (rowOf i (deleteRun runId S)) (entriesOf i (deleteRun runId S))" for i
    using wfStoreD(3) [OF assms, of i] instancesOf_iff [OF d, of i runId]
    by (cases "rowOf i S") (auto simp: rowOf_deleteRun [OF d] entriesOf_deleteRun)
  moreover have "cs_capBytes (deleteRun runId S) = cs_capBytes S" "wfRows (cs_entries (deleteRun runId S))"
      "distinct (map fst (cs_conversations (deleteRun runId S)))"
    using wfStoreD(2) [OF assms] d by (simp_all add: deleteRun_def wfRows_filter distinct_map_filter)
  ultimately show ?thesis by (simp add: wfStore_def)
qed

lemma wfStore_sweepForSpace:
  assumes "wfStore S"
  shows "wfStore (sweepForSpace now runId S)"
proof -
  note d = wfStoreD(1) [OF assms]
  have "wfAt (cs_capBytes S) (rowOf i (sweepForSpace now runId S)) (entriesOf i (sweepForSpace now runId S))" for i
    using wfStoreD(3) [OF assms, of i] instancesOf_iff [OF d, of i runId]
    by (cases "rowOf i S") (auto simp: rowOf_sweepForSpace entriesOf_sweepForSpace wfConversation_def)
  moreover have "map fst (cs_conversations (sweepForSpace now runId S)) = map fst (cs_conversations S)"
    by (simp add: sweepForSpace_def split_beta)
  moreover have "cs_capBytes (sweepForSpace now runId S) = cs_capBytes S" "wfRows (cs_entries (sweepForSpace now runId S))"
    using wfStoreD(2) [OF assms] by (simp_all add: sweepForSpace_def wfRows_filter)
  ultimately show ?thesis using d by (simp add: wfStore_def)
qed

lemma wfStore_deleteRuns: "wfStore S \<Longrightarrow> wfStore (deleteRuns ids S)"
  unfolding deleteRuns_def by (induction ids arbitrary: S) (auto intro: wfStore_deleteRun)

lemma wfStore_reach:
  assumes "convReach cap S"
  shows "wfStore S"
  using assms
proof (induction rule: convReach.induct)
  case convStart
  then show ?case by (simp add: newStore_def wfStore_def wfRows_def rowOf_def entriesOf_def rowsOf_def)
next
  case (convNext S S')
  from convNext.hyps(2) convNext.IH show ?case
  proof (cases rule: convStep.cases)
    case (convFull b)
    have "rowOf i S' = rowOf i S" "entriesOf i S' = entriesOf i S" for i by (simp_all add: convFull rowOf_def entriesOf_def)
    then show ?thesis using convNext.IH by (simp add: wfStore_def) (simp add: convFull)
  qed (use wfStore_append wfStore_deleteRuns wfStore_sweepForSpace in auto)
qed


section \<open>What an append does\<close>

lemma entriesOf_kept:
  assumes "as_rows a = cs_entries S @ map (entryRow i) new" and "cs_entries S' = as_rows a"
  shows "entriesOf j S' = (if j = i then entriesOf i S @ new else entriesOf j S)"
proof -
  have "map er_entry (rowsOf j (map (entryRow i) new)) = (if j = i then new else [])"
    by (simp add: rowsOf_entryRow del: map_map)
  then show ?thesis by (simp add: entriesOf_def assms)
qed

lemma wfRows_row:
  assumes "wfRows rows" and "r \<in> set rows"
  shows "er_id r = c_id (er_entry r)" and "er_seq r = c_seq (er_entry r)"
proof -
  have "r = entryRow (er_instance r) (er_entry r)" using assms by (simp add: wfRows_def)
  then show "er_id r = c_id (er_entry r)" "er_seq r = c_seq (er_entry r)" by (metis er_entry_entryRow)+
qed

lemma rowsOf_ids:
  assumes "wfRows (cs_entries S)"
  shows "map c_id (entriesOf i S) = map er_id (rowsOf i (cs_entries S))" "map c_seq (entriesOf i S) = map er_seq (rowsOf i (cs_entries S))"
  using wfRows_row [OF assms] by (simp_all add: entriesOf_def rowsOf_def)

lemma hasId_entriesOf:
  assumes "wfRows (cs_entries S)"
  shows "hasId i x (cs_entries S) \<longleftrightarrow> x \<in> c_id ` set (entriesOf i S)"
  using arg_cong [OF rowsOf_ids(1) [OF assms], of set] by (auto simp: hasId_def)

lemma rowsOf_wf_inj:
  assumes "wfRows rows"
  shows "distinct (map er_seq (rowsOf i rows))" "distinct (map er_id (rowsOf i rows))"
  using assms by (auto simp: wfRows_def rowsOf_def distinct_map inj_on_def distinct_filter)

lemma entriesOf_distinct:
  assumes "wfStore S"
  shows "distinct (map c_id (entriesOf i S))" "distinct (map c_seq (entriesOf i S))"
proof -
  show "distinct (map c_id (entriesOf i S))" "distinct (map c_seq (entriesOf i S))"
    unfolding rowsOf_ids [OF wfStoreD(2) [OF assms]] using rowsOf_wf_inj [OF wfStoreD(2) [OF assms]] by simp_all
qed

lemma appendLoop_dup: "(\<forall>e\<in>set es. hasId i (e_id e) (as_rows a)) \<Longrightarrow> appendLoop full cap now i agent es a = Some a"
  by (induction es) simp_all

lemma append_entries_spec:
  assumes "wfStore S" and "append_entries now runId i agent sent S = Inr (S', res, added)"
  shows "wfStore S'" and "entriesOf i S' = entriesOf i S @ added"
    and "j \<noteq> i \<Longrightarrow> entriesOf j S' = entriesOf j S \<and> rowOf j S' = rowOf j S"
    and "\<exists>r. rowOf i S' = Some r \<and> cr_cut r = a_cut res \<and> (cr_swept r = None \<and> \<not> cr_cut r \<longrightarrow> set (map e_id sent) \<subseteq> c_id ` set (entriesOf i S'))"
    and "a_kept res = length added - (if a_cut res \<and> added \<noteq> [] then 1 else 0)"
    and "cs_full S' = cs_full S"
proof -
  show wf: "wfStore S'" using assms by (rule wfStore_append)
  show "entriesOf i S' = entriesOf i S @ added"
    using assms(2)
  proof (cases rule: append_entries_cases)
    case (kept a new markers)
    then show ?thesis using entriesOf_kept [of a S i "new @ markers" S' i] by (simp add: appended_def)
  qed simp
  show "j \<noteq> i \<Longrightarrow> entriesOf j S' = entriesOf j S \<and> rowOf j S' = rowOf j S"
    using assms(2)
  proof (cases rule: append_entries_cases)
    case (kept a new markers)
    then show "j \<noteq> i \<Longrightarrow> ?thesis" using entriesOf_kept [of a S i "new @ markers" S' j] by (simp add: appended_def rowOf_def)
  qed simp
  show "\<exists>r. rowOf i S' = Some r \<and> cr_cut r = a_cut res \<and> (cr_swept r = None \<and> \<not> cr_cut r \<longrightarrow> set (map e_id sent) \<subseteq> c_id ` set (entriesOf i S'))"
    using assms(2)
  proof (cases rule: append_entries_cases)
    case closed
    then show ?thesis by (cases "rowOf i S") (auto simp: openRow_def newRow_def)
  next
    case (kept a new markers)
    have "\<not> as_cut a \<Longrightarrow> \<forall>e\<in>set sent. hasId i (e_id e) (cs_entries S')" using kept(3,5) by (auto simp: appended_def)
    then have "\<not> as_cut a \<Longrightarrow> set (map e_id sent) \<subseteq> c_id ` set (entriesOf i S')"
      unfolding hasId_entriesOf [OF wfStoreD(2) [OF wf]] by auto
    moreover have "rowOf i S' = Some ((openRow now runId i agent S)\<lparr>cr_bytes := as_bytes a, cr_cut := as_cut a, cr_updated_at := now\<rparr>)"
      by (simp add: kept(5) rowOf_def)
    ultimately show ?thesis using kept(6) by simp
  qed
  show "a_kept res = length added - (if a_cut res \<and> added \<noteq> [] then 1 else 0)"
    using assms(2) by (cases rule: append_entries_cases) (auto simp: appended_def)
  show "cs_full S' = cs_full S"
    using assms(2) by (cases rule: append_entries_cases) auto
qed

text \<open>Pages.\<close>

lemma sorted_filter_greater:
  assumes "sorted (map f xs)" and "distinct (map f xs)" and "n < length xs"
  shows "filter (\<lambda>x. f x > f (xs ! n)) xs = drop (Suc n) xs"
  using assms
proof (induction xs arbitrary: n)
  case (Cons x xs)
  have less: "f x < f y" if "y \<in> set xs" for y
    using Cons.prems(1,2) that by (metis (no_types, lifting) distinct.simps(2) image_eqI list.set_map list.simps(9) order_le_less sorted_simps(2))
  show ?case
  proof (cases n)
    case 0
    then show ?thesis using less by (simp add: filter_True)
  next
    case (Suc m)
    then have "m < length xs" using Cons.prems(3) by simp
    then have "\<not> f x > f (xs ! m)" using less [of "xs ! m"] by simp
    then show ?thesis using Suc Cons by simp
  qed
qed simp

text \<open>The guard.\<close>

lemma guardLoop_spec:
  assumes "guardLoop now usedOf capacity isLive runs S used swept = (T, used', swept')" and "used = usedOf S"
  shows "\<exists>gone. swept' = swept @ gone \<and> subseq gone runs \<and> (\<forall>r\<in>set gone. \<not> isLive r) \<and> used' = usedOf T
    \<and> T = fold (sweepForSpace now) gone S \<and> (belowSweep used' capacity \<or> (\<forall>r\<in>set runs. isLive r \<or> r \<in> set gone))"
  using assms
proof (induction runs arbitrary: S used swept)
  case Nil
  then show ?case by auto
next
  case (Cons runId runs)
  consider (below) "belowSweep used capacity" | (live) "\<not> belowSweep used capacity" "isLive runId"
    | (sweep) "\<not> belowSweep used capacity" "\<not> isLive runId" by blast
  then show ?case
  proof cases
    case below
    then show ?thesis using Cons.prems by (intro exI [of _ "[]"]) auto
  next
    case live
    then obtain gone where "swept' = swept @ gone \<and> subseq gone runs \<and> (\<forall>r\<in>set gone. \<not> isLive r) \<and> used' = usedOf T
        \<and> T = fold (sweepForSpace now) gone S \<and> (belowSweep used' capacity \<or> (\<forall>r\<in>set runs. isLive r \<or> r \<in> set gone))"
      using Cons.IH [of S used swept] Cons.prems by auto
    then show ?thesis using live by (intro exI [of _ gone]) auto
  next
    case sweep
    let ?S = "sweepForSpace now runId S"
    have "guardLoop now usedOf capacity isLive runs ?S (usedOf ?S) (swept @ [runId]) = (T, used', swept')"
      using Cons.prems(1) sweep by (simp add: Let_def)
    then obtain gone where "swept' = (swept @ [runId]) @ gone \<and> subseq gone runs \<and> (\<forall>r\<in>set gone. \<not> isLive r) \<and> used' = usedOf T
        \<and> T = fold (sweepForSpace now) gone ?S \<and> (belowSweep used' capacity \<or> (\<forall>r\<in>set runs. isLive r \<or> r \<in> set gone))"
      using Cons.IH [of ?S "usedOf ?S" "swept @ [runId]"] by blast
    then show ?thesis using sweep by (intro exI [of _ "runId # gone"]) auto
  qed
qed

lemma runsOldestFirst_set: "set (runsOldestFirst S) = {cr_run_id r |i r. (i, r) \<in> set (cs_conversations S) \<and> cr_swept r = None}"
  by (force simp: runsOldestFirst_def)

lemma sweep_runs: "set (runsOldestFirst (sweepForSpace now runId S)) = set (runsOldestFirst S) - {runId}"
  unfolding runsOldestFirst_set sweepForSpace_def by (auto simp: image_iff split: if_splits) force+

lemma fold_sweep_runs: "set (runsOldestFirst (fold (sweepForSpace now) ids S)) = set (runsOldestFirst S) - set ids"
  by (induction ids arbitrary: S) (auto simp: sweep_runs)

lemma fold_sweep_other:
  assumes "wfStore S" and "rowOf i S = Some r"
  shows "cr_run_id r \<notin> set ids \<Longrightarrow>
    rowOf i (fold (sweepForSpace now) ids S) = Some r \<and> entriesOf i (fold (sweepForSpace now) ids S) = entriesOf i S"
  using assms
proof (induction ids arbitrary: S)
  case (Cons runId ids)
  have "rowOf i (sweepForSpace now runId S) = Some r" "entriesOf i (sweepForSpace now runId S) = entriesOf i S"
    using Cons.prems instancesOf_iff [OF wfStoreD(1) [OF Cons.prems(2)], of i runId]
    by (simp_all add: rowOf_sweepForSpace entriesOf_sweepForSpace)
  then show ?case using Cons.IH [of "sweepForSpace now runId S"] Cons.prems by (simp add: wfStore_sweepForSpace)
qed simp

section \<open>Properties\<close>

text \<open>Concrete values for the witnesses.\<close>

definition exampleEntry :: "string \<Rightarrow> int \<Rightarrow> SentEntry" where
  "exampleEntry x s = \<lparr>e_id = js x, e_seq = s, e_at = js ''t'', e_kind = js ''say'', e_text = js ''hi''\<rparr>"

definition exampleStore :: ConversationStore where
  "exampleStore = newStore (Some 1000)"

lemma exampleStore_reach: "convReach 1000 exampleStore"
  unfolding exampleStore_def by (rule convStart)

lemma exampleStore_append:
  "\<exists>S' res added. append_entries (js ''now'') ''run'' ''conv'' (js ''agent'') [exampleEntry ''a'' 1, exampleEntry ''b'' 2] exampleStore
     = Inr (S', res, added) \<and> \<not> a_cut res"
proof -
  have "case append_entries (js ''now'') ''run'' ''conv'' (js ''agent'') [exampleEntry ''a'' 1, exampleEntry ''b'' 2] exampleStore of
      Inl _ \<Rightarrow> False | Inr (S', res, added) \<Rightarrow> \<not> a_cut res" by code_simp
  then show ?thesis by (auto split: sum.splits)
qed

text \<open>Keeping a batch is at-most-once and complete: in every store that can be reached, an append adds only to its own
  conversation, keeps what was there, never keeps an id or a seq twice, and, unless the conversation is cut or was
  swept, afterwards holds every entry of the batch.\<close>

theorem append_keeps_batch_once:
  assumes "convReach cap S" and "append_entries now runId i agent sent S = Inr (S', res, added)"
  shows "entriesOf i S' = entriesOf i S @ added
    \<and> distinct (map c_id (entriesOf i S')) \<and> distinct (map c_seq (entriesOf i S'))
    \<and> (\<forall>j. j \<noteq> i \<longrightarrow> entriesOf j S' = entriesOf j S)
    \<and> (a_cut res \<or> cr_swept (the (rowOf i S')) \<noteq> None \<or> (\<forall>e\<in>set sent. e_id e \<in> c_id ` set (entriesOf i S')))"
proof -
  have wf: "wfStore S" using assms(1) by (rule wfStore_reach)
  note spec = append_entries_spec [OF wf assms(2)]
  show ?thesis
    using spec(2,3,4) entriesOf_distinct [OF spec(1), of i] by auto
qed

theorem append_keeps_batch_once_witness:
  "\<exists>S' res added. append_entries (js ''now'') ''run'' ''conv'' (js ''agent'') [exampleEntry ''a'' 1, exampleEntry ''b'' 2] exampleStore
      = Inr (S', res, added) \<and> entriesOf ''conv'' S' = entriesOf ''conv'' exampleStore @ added"
  using exampleStore_append append_keeps_batch_once [OF exampleStore_reach] by blast

text \<open>A batch sent again adds nothing: a second append of the same entries keeps none, changes no conversation's entries,
  and answers the same cut.\<close>

theorem append_again_adds_nothing:
  assumes "convReach cap S" and "append_entries now runId i agent sent S = Inr (S', res, added)"
  shows "\<exists>S'' res'. append_entries now' runId' i agent' sent S' = Inr (S'', res', [])
    \<and> a_kept res' = 0 \<and> a_cut res' = a_cut res \<and> cs_entries S'' = cs_entries S'"
proof -
  have wf: "wfStore S" using assms(1) by (rule wfStore_reach)
  note spec = append_entries_spec [OF wf assms(2)]
  obtain r where r: "rowOf i S' = Some r" "cr_cut r = a_cut res"
      "cr_swept r = None \<and> \<not> cr_cut r \<longrightarrow> set (map e_id sent) \<subseteq> c_id ` set (entriesOf i S')"
    using spec(4) by blast
  show ?thesis
  proof (cases "cr_cut r \<or> cr_swept r \<noteq> None")
    case True
    then show ?thesis using r by (simp add: append_entries_def)
  next
    case False
    then have "\<forall>e\<in>set (sort_key e_seq sent). hasId i (e_id e) (cs_entries S')"
      using r(3) hasId_entriesOf [OF wfStoreD(2) [OF spec(1)], of i] by auto
    then show ?thesis using False r by (simp add: append_entries_def Let_def appendLoop_dup)
  qed
qed

theorem append_again_adds_nothing_witness:
  "\<exists>S' S'' res'. append_entries (js ''later'') ''run'' ''conv'' (js ''agent'') [exampleEntry ''a'' 1, exampleEntry ''b'' 2] S' = Inr (S'', res', [])
    \<and> cs_entries S'' = cs_entries S'"
  using exampleStore_append append_again_adds_nothing [OF exampleStore_reach, where runId' = "''run''" and now' = "js ''later''"
      and agent' = "js ''agent''"] by blast



text \<open>An append does not fail: the transaction can only meet a kept row with the id \<^verbatim>\<open>cut-<seq>\<close> of a marker, so it
  answers whenever the kept and the sent ids of the conversation are none of these (the Harness's are UUIDs), and
  unless it cuts the conversation the ids stay so.\<close>

theorem append_answers:
  assumes "wfStore S" and "\<forall>c\<in>set (entriesOf i S). plainId (c_id c)" and "\<forall>e\<in>set sent. plainId (e_id e)"
  shows "\<exists>S' res added. append_entries now runId i agent sent S = Inr (S', res, added)
    \<and> (a_cut res \<or> (\<forall>c\<in>set (entriesOf i S'). plainId (c_id c)))"
proof -
  have "set (map er_id (rowsOf i (cs_entries S))) \<subseteq> Collect plainId"
    using assms(2) unfolding rowsOf_ids(1) [OF wfStoreD(2) [OF assms(1)], symmetric] by auto
  then have plain: "\<forall>r\<in>set (rowsOf i (cs_entries S)). plainId (er_id r)" by auto
  have "\<exists>a'. appendLoop (cs_full S) (cs_capBytes S) now i agent (sort_key e_seq sent) a = Some a'"
    if "as_rows a = cs_entries S" for a
    using appendLoop_total [of i a] plain assms(3) that by simp
  then have "\<exists>S' res added. append_entries now runId i agent sent S = Inr (S', res, added)"
    by (simp add: append_entries_def Let_def) (metis (no_types, lifting) AppendState.select_convs(1) option.simps(5))
  then obtain S' res added where ap: "append_entries now runId i agent sent S = Inr (S', res, added)" by blast
  then have "a_cut res \<or> (\<forall>c\<in>set (entriesOf i S'). plainId (c_id c))"
  proof (cases rule: append_entries_cases)
    case (kept a new markers)
    then have new: "as_cut a \<or> (markers = [] \<and> c_id ` set new \<subseteq> e_id ` set sent)" "res = \<lparr>a_kept = as_kept a, a_cut = as_cut a\<rparr>"
      by (auto simp: appended_def split: if_splits)
    have "entriesOf i S' = entriesOf i S @ new @ markers"
      using kept(3,5) entriesOf_kept [of a S i "new @ markers" S' i] by (simp add: appended_def)
    then show ?thesis using new assms(2,3) by auto
  qed (use assms(2) in simp)
  then show ?thesis using ap by blast
qed

theorem append_answers_witness:
  "\<exists>S' res added. append_entries (js ''now'') ''run'' ''conv'' (js ''agent'') [exampleEntry ''a'' 1] exampleStore = Inr (S', res, added)"
proof -
  have "plainId (e_id (exampleEntry ''a'' 1))" by code_simp
  moreover have "entriesOf ''conv'' exampleStore = []" by code_simp
  ultimately show ?thesis
    using append_answers [OF wfStore_reach [OF exampleStore_reach], of "''conv''" "[exampleEntry ''a'' 1]" "js ''now''" "''run''"
      "js ''agent''"] by auto
qed

text \<open>Reading in pages loses and repeats nothing: a page after \<open>after\<close> followed by the page after its last seq is the
  page of both sizes.\<close>

theorem entries_pages:
  assumes "convReach cap S" and "entries i after n S \<noteq> []"
  shows "entries i after n S @ entries i (c_seq (last (entries i after n S))) m S = entries i after (n + m) S"
proof -
  define xs where "xs = sort_key er_seq (filter (\<lambda>r. er_instance r = i \<and> er_seq r > after) (cs_entries S))"
  define k where "k = min n (length xs) - 1"
  have wf: "wfRows (cs_entries S)" using wfStore_reach [OF assms(1)] by (rule wfStoreD)
  have page: "entries i after l S = map er_entry (take l xs)" for l by (simp add: entries_def xs_def)
  then have k: "k < length xs" "take n xs = take (Suc k) xs" "take (n + m) xs = take n xs @ take m (drop (Suc k) xs)"
    using assms(2) by (auto simp: k_def take_add min_def)
  have "set xs \<subseteq> set (rowsOf i (cs_entries S))" "distinct xs"
    using wf by (auto simp: xs_def rowsOf_def wfRows_def distinct_map)
  then have d: "distinct (map er_seq xs)"
    using rowsOf_wf_inj(1) [OF wf, of i] by (auto simp: distinct_map intro: inj_on_subset)
  have last: "last (entries i after n S) = er_entry (xs ! k)"
    using k(1) by (simp add: page k(2) take_Suc_conv_app_nth)
  moreover have "xs ! k \<in> set xs" using k(1) by simp
  then have "er_seq (xs ! k) > after" "er_seq (xs ! k) = c_seq (er_entry (xs ! k))"
    using wfRows_row(2) [OF wf] by (auto simp: xs_def)
  ultimately have seq: "c_seq (last (entries i after n S)) = er_seq (xs ! k)" "er_seq (xs ! k) > after" by simp_all
  have "filter (\<lambda>r. er_instance r = i \<and> er_seq r > er_seq (xs ! k)) (cs_entries S)
      = filter (\<lambda>r. er_seq r > er_seq (xs ! k)) (filter (\<lambda>r. er_instance r = i \<and> er_seq r > after) (cs_entries S))"
    using seq(2) by (auto intro: filter_cong)
  then have "sort_key er_seq (filter (\<lambda>r. er_instance r = i \<and> er_seq r > er_seq (xs ! k)) (cs_entries S))
      = filter (\<lambda>r. er_seq r > er_seq (xs ! k)) xs"
    unfolding xs_def by (simp only: filter_sort)
  then have "entries i (c_seq (last (entries i after n S))) m S = map er_entry (take m (filter (\<lambda>r. er_seq r > er_seq (xs ! k)) xs))"
    unfolding seq(1) by (simp add: entries_def)
  also have "\<dots> = map er_entry (take m (drop (Suc k) xs))"
    using sorted_filter_greater [OF _ d k(1)] by (simp add: xs_def)
  finally show ?thesis by (simp add: page k(3))
qed

theorem entries_pages_witness:
  "\<exists>S. entries ''conv'' 0 1 S @ entries ''conv'' (c_seq (last (entries ''conv'' 0 1 S))) 1 S = entries ''conv'' 0 2 S \<and> entries ''conv'' 0 1 S \<noteq> []"
proof -
  obtain S' res added where a: "append_entries (js ''now'') ''run'' ''conv'' (js ''agent'') [exampleEntry ''a'' 1, exampleEntry ''b'' 2]
      exampleStore = Inr (S', res, added)" using exampleStore_append by blast
  then have reach: "convReach 1000 S'" using exampleStore_reach by (blast intro: convNext convAppend)
  have "case append_entries (js ''now'') ''run'' ''conv'' (js ''agent'') [exampleEntry ''a'' 1, exampleEntry ''b'' 2] exampleStore of
      Inl _ \<Rightarrow> False | Inr (S', res, added) \<Rightarrow> entries ''conv'' 0 1 S' \<noteq> []" by code_simp
  then have "entries ''conv'' 0 1 S' \<noteq> []" by (simp add: a)
  then show ?thesis using entries_pages [OF reach, of "''conv''" 0 1 1] by (auto simp: numeral_2_eq_2)
qed

text \<open>One pass of the space guard never touches the conversations of a live run; it sweeps ended runs only, the oldest first;
  when the volume was above 80% it ends below 80% or with only live runs' conversations left; and it sets the store
  full exactly when the files still take more than 95%.\<close>

theorem guardSpace_sweeps_ended_runs:
  assumes "wfStore S" and "capacity \<noteq> Some 0" and "\<And>T b. usedOf (T\<lparr>cs_full := b\<rparr>) = usedOf T"
    and "guardSpace now usedOf capacity isLive S = (S', swept)"
  shows "subseq swept (runsOldestFirst S) \<and> (\<forall>runId\<in>set swept. \<not> isLive runId)
    \<and> (\<forall>i r. rowOf i S = Some r \<and> isLive (cr_run_id r) \<longrightarrow> rowOf i S' = Some r \<and> entriesOf i S' = entriesOf i S)
    \<and> (aboveSweep (usedOf S) capacity \<longrightarrow> belowSweep (usedOf S') capacity \<or> (\<forall>runId\<in>set (runsOldestFirst S'). isLive runId))
    \<and> (cs_full S' \<longleftrightarrow> aboveFull (usedOf S') capacity)"
proof -
  obtain T used where T: "S' = T\<lparr>cs_full := aboveFull used capacity\<rparr>"
      "(if aboveSweep (usedOf S) capacity then guardLoop now usedOf capacity isLive (runsOldestFirst S) S (usedOf S) []
        else (S, usedOf S, [])) = (T, used, swept)"
    using assms(2,4) by (auto simp: guardSpace_def split: prod.splits)
  define runs where "runs = (if aboveSweep (usedOf S) capacity then runsOldestFirst S else [])"
  have loop: "guardLoop now usedOf capacity isLive runs S (usedOf S) [] = (T, used, swept)"
    using T(2) by (auto simp: runs_def split: if_splits)
  have sub: "subseq swept runs" "\<forall>runId\<in>set swept. \<not> isLive runId" "used = usedOf T" "T = fold (sweepForSpace now) swept S"
      "belowSweep used capacity \<or> (\<forall>runId\<in>set runs. isLive runId \<or> runId \<in> set swept)"
    using guardLoop_spec [OF loop refl] by auto
  have used: "usedOf S' = used" by (simp add: T(1) assms(3) sub(3))
  have same: "rowOf i S' = rowOf i T" "entriesOf i S' = entriesOf i T" for i by (simp_all add: T(1) rowOf_def entriesOf_def)
  have live: "rowOf i S' = Some r \<and> entriesOf i S' = entriesOf i S" if "rowOf i S = Some r" "isLive (cr_run_id r)" for i r
    using fold_sweep_other [OF assms(1) that(1), of swept now] sub(2) that(2) same by (auto simp: sub(4))
  have "isLive runId" if "aboveSweep (usedOf S) capacity" "\<not> belowSweep used capacity" "runId \<in> set (runsOldestFirst S')" for runId
  proof -
    have "runId \<in> set (runsOldestFirst T)" using that(3) by (simp add: T(1) runsOldestFirst_set)
    then have "runId \<in> set (runsOldestFirst S)" "runId \<notin> set swept"
      unfolding sub(4) using fold_sweep_runs by (metis DiffD1, metis DiffD2)
    then show ?thesis using sub(5) that(1,2) by (auto simp: runs_def)
  qed
  moreover have "subseq runs (runsOldestFirst S)" by (simp add: runs_def)
  then have "subseq swept (runsOldestFirst S)" using sub(1) by (rule subseq_order.trans [rotated])
  ultimately show ?thesis using live sub(2) used by (auto simp: T(1))
qed

theorem guardSpace_sweeps_ended_runs_witness:
  "\<exists>S' swept. guardSpace (js ''t'') (\<lambda>S. 1 + length (cs_entries S)) (Some 1) (\<lambda>_. False) exampleStore = (S', swept) \<and> cs_full S'"
proof -
  obtain S' swept where g: "guardSpace (js ''t'') (\<lambda>S. 1 + length (cs_entries S)) (Some 1) (\<lambda>_. False) exampleStore = (S', swept)"
    by (metis surj_pair)
  have "cs_full S' \<longleftrightarrow> aboveFull (1 + length (cs_entries S')) (Some 1)"
    using guardSpace_sweeps_ended_runs [OF wfStore_reach [OF exampleStore_reach] _ _ g] by simp
  then show ?thesis using g by (auto simp: aboveFull_def)
qed

end
