(* ===== verification/Keeper.thy ===== *)
theory Keeper
  imports Conversations
begin

text \<open>
  The sender of a kept conversation, \<^verbatim>\<open>packages/harness/src/keep.ts\<close> (class \<^verbatim>\<open>ConversationKeeper\<close>), as a state machine:
  one definition per method, and one for each thing that happens to it from outside (the timer fires, the send in
  flight is answered). A send in flight is the batch that it carries. What the keeper has on disk (the record folder's
  \<^verbatim>\<open>entries.jsonl\<close> and \<^verbatim>\<open>keep.json\<close>) is part of its state, since a restart reads it back; a write to it succeeds here (a failed append of an entry is the record's fault handler,
  a failed write of \<^verbatim>\<open>keep.json\<close> only makes a restart send more again).

  The interface to the Orchestrator is the locale \<open>entry_sink\<close>: what the sender needs of the store for every entry to
  be kept exactly once. \<open>ConversationStore\<close> provides it.
\<close>

section \<open>Entries\<close>

type_synonym KeptEntry = SentEntry

definition keptJson :: "KeptEntry \<Rightarrow> jsstr" where
  "keptJson e = [0x7b] @ jsonField ''id'' (jsonString (e_id e)) @ [0x2c] @ jsonField ''seq'' (js (decimalInt (e_seq e)))
     @ [0x2c] @ jsonField ''at'' (jsonString (e_at e)) @ [0x2c] @ jsonField ''kind'' (jsonString (e_kind e))
     @ [0x2c] @ jsonField ''text'' (jsonString (e_text e)) @ [0x7d]"

definition keptSize :: "KeptEntry \<Rightarrow> nat" where
  "keptSize e = utf8ByteLength (keptJson e)"

datatype KeepAnswer = Kept | Again | Refused | CutOff

definition BATCH_BYTES :: nat where "BATCH_BYTES = 512 * 1024"
definition INTERVAL_MS :: nat where "INTERVAL_MS = 1000"
definition MAX_BACKOFF_MS :: nat where "MAX_BACKOFF_MS = 30000"
definition CLOSED_TRIES :: int where "CLOSED_TRIES = 3"
definition ENTRY_CHARS :: nat where "ENTRY_CHARS = 64 * 1024"

definition boundEntryText :: "jsstr \<Rightarrow> jsstr" where
  "boundEntryText txt =
     (if length txt \<le> ENTRY_CHARS then txt
      else let half = ENTRY_CHARS div 2
           in take half txt @ [0x2026] @ js ('' ['' @ decimal (length txt - 2 * half) @ '' characters cut] '') @ [0x2026]
              @ drop (length txt - half) txt)"

text \<open>The match of \<^verbatim>\<open>/^\[([^\]\n]+)\] ?/\<close>: the label, and what follows the match.\<close>

definition labelOf :: "jsstr \<Rightarrow> (jsstr \<times> jsstr) option" where
  "labelOf body =
     (case body of [] \<Rightarrow> None
      | c # rest \<Rightarrow>
        if c \<noteq> 0x5b then None
        else let l = takeWhile (\<lambda>x. x \<noteq> 0x5d \<and> x \<noteq> newline) rest
             in case drop (length l) rest of
                  d # after \<Rightarrow> if l = [] \<or> d \<noteq> 0x5d then None
                               else Some (l, case after of x # xs \<Rightarrow> if x = 0x20 then xs else after | [] \<Rightarrow> after)
                | [] \<Rightarrow> None)"

definition newEntry :: "jsstr \<Rightarrow> jsstr \<Rightarrow> int \<Rightarrow> jsstr \<Rightarrow> KeptEntry" where
  "newEntry uuid at s body =
     \<lparr>e_id = uuid, e_seq = s, e_at = at,
      e_kind = (case labelOf body of Some (l, _) \<Rightarrow> l | None \<Rightarrow> js ''line''),
      e_text = boundEntryText (case labelOf body of Some (_, after) \<Rightarrow> after | None \<Rightarrow> body)\<rparr>"

section \<open>The keeper\<close>

record ConversationKeeper =
  kp_hasSend :: bool
  kp_intervalMs :: nat
  kp_maxBackoffMs :: nat
  kp_pending :: "KeptEntry list"
  kp_nextSeq :: int
  kp_sent :: int
  kp_slot :: jsstr
  kp_timer :: "nat option"
  kp_inFlight :: "KeptEntry list option"
  kp_failures :: nat
  kp_closedTries :: "int option"
  kp_refusedSaid :: bool
  kp_cutDone :: bool
  kp_record :: "KeptEntry list option"
  kp_state :: "(int \<times> jsstr) option"

definition schedule :: "nat \<Rightarrow> ConversationKeeper \<Rightarrow> ConversationKeeper" where
  "schedule ms k =
     (if kp_timer k \<noteq> None \<or> kp_inFlight k \<noteq> None \<or> \<not> kp_hasSend k then k else k\<lparr>kp_timer := Some ms\<rparr>)"

fun batchLoop :: "KeptEntry list \<Rightarrow> KeptEntry list \<Rightarrow> nat \<Rightarrow> KeptEntry list" where
  "batchLoop [] batch bytes = batch"
| "batchLoop (e # es) batch bytes =
     (if batch \<noteq> [] \<and> bytes + keptSize e > BATCH_BYTES then batch
      else batchLoop es (batch @ [e]) (bytes + keptSize e))"

definition batchOf :: "KeptEntry list \<Rightarrow> KeptEntry list" where
  "batchOf pending = batchLoop pending [] 0"

definition start :: "ConversationKeeper \<Rightarrow> ConversationKeeper" where
  "start k =
     (if kp_inFlight k \<noteq> None \<or> \<not> kp_hasSend k \<or> kp_pending k = [] \<or> kp_slot k = [] then k
      else if (case kp_closedTries k of None \<Rightarrow> False | Some n \<Rightarrow> n \<le> 0) then k
      else k\<lparr>kp_inFlight := Some (batchOf (kp_pending k))\<rparr>)"

definition kick :: "ConversationKeeper \<Rightarrow> ConversationKeeper" where
  "kick k = start (k\<lparr>kp_timer := None\<rparr>)"

text \<open>The timer's callback.\<close>

definition timerFires :: "ConversationKeeper \<Rightarrow> ConversationKeeper" where
  "timerFires k = (case kp_timer k of None \<Rightarrow> k | Some _ \<Rightarrow> start (k\<lparr>kp_timer := None\<rparr>))"

definition close :: "ConversationKeeper \<Rightarrow> ConversationKeeper" where
  "close k = kick (k\<lparr>kp_closedTries := (case kp_closedTries k of None \<Rightarrow> Some CLOSED_TRIES | Some n \<Rightarrow> Some n)\<rparr>)"

definition keeper_done :: "ConversationKeeper \<Rightarrow> bool" where
  "keeper_done k \<longleftrightarrow> \<not> kp_hasSend k \<or>
     (case kp_closedTries k of None \<Rightarrow> False | Some n \<Rightarrow> kp_pending k = [] \<or> n \<le> 0)"

definition writeState :: "ConversationKeeper \<Rightarrow> ConversationKeeper" where
  "writeState k =
     (if kp_record k = None \<or> kp_closedTries k \<noteq> None then k else k\<lparr>kp_state := Some (kp_sent k, kp_slot k)\<rparr>)"

definition setSlot :: "jsstr \<Rightarrow> ConversationKeeper \<Rightarrow> ConversationKeeper" where
  "setSlot slot k = (if slot = kp_slot k then k else writeState (k\<lparr>kp_slot := slot\<rparr>))"

definition add :: "jsstr \<Rightarrow> jsstr \<Rightarrow> jsstr \<Rightarrow> ConversationKeeper \<Rightarrow> ConversationKeeper" where
  "add uuid at body k =
     (let entry = newEntry uuid at (kp_nextSeq k) body;
          k1 = k\<lparr>kp_nextSeq := kp_nextSeq k + 1, kp_record := map_option (\<lambda>r. r @ [entry]) (kp_record k)\<rparr>
      in if kp_cutDone k1 then k1
         else schedule (kp_intervalMs k1) (k1\<lparr>kp_pending := kp_pending k1 @ [entry]\<rparr>))"

text \<open>\<^verbatim>\<open>sendOne\<close> after its \<^verbatim>\<open>await\<close>, on the batch that was sent.\<close>

definition takeAnswer :: "KeepAnswer \<Rightarrow> KeptEntry list \<Rightarrow> ConversationKeeper \<Rightarrow> ConversationKeeper" where
  "takeAnswer answer batch k =
     (if answer = Again
      then k\<lparr>kp_failures := kp_failures k + 1, kp_closedTries := map_option (\<lambda>n. n - 1) (kp_closedTries k)\<rparr>
      else writeState (k\<lparr>kp_refusedSaid := kp_refusedSaid k \<or> answer = Refused, kp_failures := 0,
             kp_pending := (if answer = CutOff then [] else drop (length batch) (kp_pending k)),
             kp_cutDone := kp_cutDone k \<or> answer = CutOff,
             kp_sent := max (kp_sent k) (e_seq (last batch))\<rparr>))"

text \<open>The \<^verbatim>\<open>finally\<close> of \<^verbatim>\<open>start\<close>.\<close>

definition afterSend :: "ConversationKeeper \<Rightarrow> ConversationKeeper" where
  "afterSend k =
     (let k1 = k\<lparr>kp_inFlight := None\<rparr>
      in if kp_pending k1 = [] then k1
         else if kp_failures k1 = 0 then start k1
         else schedule (min (kp_maxBackoffMs k1) (kp_intervalMs k1 * 2 ^ (kp_failures k1 - 1))) k1)"

definition answered :: "KeepAnswer \<Rightarrow> ConversationKeeper \<Rightarrow> ConversationKeeper" where
  "answered answer k = (case kp_inFlight k of None \<Rightarrow> k | Some batch \<Rightarrow> afterSend (takeAnswer answer batch k))"

text \<open>The constructor: \<open>recorded\<close> is what \<^verbatim>\<open>readEntries\<close> gives (\<open>None\<close> without a folder), \<open>saved\<close> what \<^verbatim>\<open>readState\<close> gives.\<close>

definition newKeeper :: "bool \<Rightarrow> nat \<Rightarrow> nat \<Rightarrow> KeptEntry list option \<Rightarrow> (int \<times> jsstr) option \<Rightarrow> int \<Rightarrow> ConversationKeeper" where
  "newKeeper hasSend interval backoff recorded saved now =
     (let rs = (case recorded of None \<Rightarrow> [] | Some rs \<Rightarrow> rs);
          sent = (if rs = [] then - 1 else case saved of None \<Rightarrow> - 1 | Some (s, _) \<Rightarrow> s);
          pending = (if rs = [] then [] else filter (\<lambda>e. e_seq e > sent) rs);
          k = \<lparr>kp_hasSend = hasSend, kp_intervalMs = interval, kp_maxBackoffMs = backoff, kp_pending = pending,
               kp_nextSeq = (if rs = [] then now * 1000 else e_seq (last rs) + 1), kp_sent = sent,
               kp_slot = (case saved of None \<Rightarrow> [] | Some (_, slot) \<Rightarrow> slot), kp_timer = None, kp_inFlight = None,
               kp_failures = 0, kp_closedTries = None, kp_refusedSaid = False, kp_cutDone = False,
               kp_record = recorded, kp_state = saved\<rparr>
      in if pending = [] then k else schedule 0 k)"

text \<open>\<^verbatim>\<open>keepSendOver\<close>: what an HTTP answer comes to. \<open>None\<close> is a fetch that threw.\<close>

record HttpAnswer =
  h_status :: nat
  h_unreachable :: bool
  h_cut :: bool

definition keepSendOver :: "HttpAnswer option \<Rightarrow> KeepAnswer" where
  "keepSendOver res =
     (case res of None \<Rightarrow> Again
      | Some r \<Rightarrow>
        if 200 \<le> h_status r \<and> h_status r \<le> 299 \<and> \<not> h_unreachable r then (if h_cut r then CutOff else Kept)
        else if h_unreachable r then Again
        else if h_status r \<ge> 500 \<or> h_status r \<in> {408, 409, 425, 429} then Again
        else Refused)"

section \<open>The sender and its sink\<close>





lemma batchLoop_prefix: "\<exists>us vs. es = us @ vs \<and> batchLoop es batch bytes = batch @ us \<and> (es \<noteq> [] \<and> batch = [] \<longrightarrow> us \<noteq> [])"
proof (induction es batch bytes rule: batchLoop.induct)
  case (2 e es batch bytes)
  show ?case
  proof (cases "batch \<noteq> [] \<and> bytes + keptSize e > BATCH_BYTES")
    case True
    then show ?thesis by (intro exI [of _ "[]"] exI [of _ "e # es"]) simp
  next
    case False
    then obtain us vs where "es = us @ vs" "batchLoop es (batch @ [e]) (bytes + keptSize e) = (batch @ [e]) @ us"
      using 2 by blast
    then show ?thesis using False by (intro exI [of _ "e # us"] exI [of _ vs]) simp
  qed
qed simp

lemma batchOf_prefix: "prefix (batchOf es) es" "es \<noteq> [] \<Longrightarrow> batchOf es \<noteq> []"
  using batchLoop_prefix [of es "[]" 0] by (auto simp: batchOf_def intro: prefixI)

















section \<open>The conversation store as a sink\<close>













section \<open>Sending ends\<close>

text \<open>What happens to a keeper, in one list of events.\<close>

datatype KeeperEvent = EAdd jsstr jsstr jsstr | EKick | EClose | ESlot jsstr | ETimer | EAnswer KeepAnswer

fun applyEvent :: "KeeperEvent \<Rightarrow> ConversationKeeper \<Rightarrow> ConversationKeeper" where
  "applyEvent (EAdd uuid at body) k = add uuid at body k"
| "applyEvent EKick k = kick k"
| "applyEvent EClose k = close k"
| "applyEvent (ESlot slot) k = setSlot slot k"
| "applyEvent ETimer k = timerFires k"
| "applyEvent (EAnswer answer) k = answered answer k"

text \<open>The sends that fail along the events.\<close>

fun failedSends :: "KeeperEvent list \<Rightarrow> ConversationKeeper \<Rightarrow> nat" where
  "failedSends [] k = 0"
| "failedSends (ev # evs) k =
     (if ev = EAnswer Again \<and> kp_inFlight k \<noteq> None then 1 else 0) + failedSends evs (applyEvent ev k)"

definition closedWith :: "int \<Rightarrow> ConversationKeeper \<Rightarrow> bool" where
  "closedWith n k \<longleftrightarrow> kp_closedTries k = Some n \<and> 0 \<le> n \<and> (kp_inFlight k \<noteq> None \<longrightarrow> 0 < n)"

lemma closedWith_start: "closedWith n k \<Longrightarrow> closedWith n (start k)"
  by (auto simp: closedWith_def start_def)

lemma closedWith_schedule: "closedWith n k \<Longrightarrow> closedWith n (schedule ms k)"
  by (auto simp: closedWith_def schedule_def)

lemma closedWith_afterSend: "closedWith n (k\<lparr>kp_inFlight := None\<rparr>) \<Longrightarrow> closedWith n (afterSend k)"
  by (simp add: afterSend_def Let_def closedWith_start closedWith_schedule)

lemma closedWith_event:
  assumes "closedWith n k" and "\<not> (ev = EAnswer Again \<and> kp_inFlight k \<noteq> None)"
  shows "closedWith n (applyEvent ev k)"
proof (cases ev)
  case (EAnswer answer)
  have "closedWith n (afterSend (takeAnswer answer batch k))" if "kp_inFlight k = Some batch" for batch
    by (rule closedWith_afterSend) (use assms that EAnswer in \<open>auto simp: takeAnswer_def writeState_def closedWith_def\<close>)
  then show ?thesis using assms(1) EAnswer by (auto simp: answered_def split: option.splits)
qed (use assms in \<open>auto simp: closedWith_def add_def Let_def schedule_def kick_def close_def start_def setSlot_def writeState_def
      timerFires_def split: option.splits\<close>)

lemma closedWith_again:
  assumes "closedWith n k" and "kp_inFlight k \<noteq> None"
  shows "closedWith (n - 1) (answered Again k) \<and> 0 < n"
proof -
  obtain batch where b: "kp_inFlight k = Some batch" using assms(2) by auto
  then have n: "0 < n" "kp_closedTries k = Some n" using assms(1) by (auto simp: closedWith_def)
  have "closedWith (n - 1) (afterSend (takeAnswer Again batch k))"
    using n unfolding afterSend_def Let_def by (simp add: takeAnswer_def closedWith_def schedule_def)
  then show ?thesis using n b by (simp add: answered_def)
qed

lemma failedSends_bound: "closedWith n k \<Longrightarrow> int (failedSends evs k) \<le> n"
proof (induction evs arbitrary: k n)
  case Nil
  then show ?case by (simp add: closedWith_def)
next
  case (Cons ev evs)
  show ?case
  proof (cases "ev = EAnswer Again \<and> kp_inFlight k \<noteq> None")
    case True
    then have "int (failedSends evs (answered Again k)) \<le> n - 1" using Cons closedWith_again by blast
    then show ?thesis using True by simp
  next
    case False
    then have "int (failedSends evs (applyEvent ev k)) \<le> n" using Cons closedWith_event by blast
    then show ?thesis using False by auto
  qed
qed

text \<open>A send that is answered \<^verbatim>\<open>kept\<close> is followed by the next, until nothing is pending.\<close>

definition sending :: "ConversationKeeper \<Rightarrow> bool" where
  "sending k \<longleftrightarrow> kp_hasSend k \<and> kp_slot k \<noteq> [] \<and> (case kp_closedTries k of None \<Rightarrow> True | Some n \<Rightarrow> 0 < n)
     \<and> kp_inFlight k = (if kp_pending k = [] then None else Some (batchOf (kp_pending k)))"

lemma sending_answered:
  assumes "sending k"
  shows "sending (answered Kept k)"
    and "kp_pending k \<noteq> [] \<Longrightarrow> length (kp_pending (answered Kept k)) < length (kp_pending k)"
proof -
  have "sending (answered Kept k) \<and> (kp_pending k \<noteq> [] \<longrightarrow> length (kp_pending (answered Kept k)) < length (kp_pending k))"
  proof (cases "kp_pending k = []")
    case True
    then show ?thesis using assms by (simp add: sending_def answered_def)
  next
    case False
    define batch where "batch = batchOf (kp_pending k)"
    define k1 where "k1 = (takeAnswer Kept batch k)\<lparr>kp_inFlight := None\<rparr>"
    have k1: "kp_pending k1 = drop (length batch) (kp_pending k)" "kp_failures k1 = 0" "kp_inFlight k1 = None"
        "kp_hasSend k1" "kp_slot k1 \<noteq> []" "case kp_closedTries k1 of None \<Rightarrow> True | Some n \<Rightarrow> 0 < n"
      using assms by (auto simp: k1_def takeAnswer_def writeState_def sending_def)
    have "batch \<noteq> []" using False batchOf_prefix(2) by (simp add: batch_def)
    then have less: "length (kp_pending k1) < length (kp_pending k)" using False by (simp add: k1(1))
    have "answered Kept k = afterSend (takeAnswer Kept batch k)"
      using assms False by (simp add: answered_def sending_def batch_def)
    also have "\<dots> = (if kp_pending k1 = [] then k1 else start k1)"
      using k1(2) by (simp add: afterSend_def Let_def k1_def [symmetric])
    finally show ?thesis using k1 less by (auto simp: sending_def start_def split: option.splits)
  qed
  then show "sending (answered Kept k)" "kp_pending k \<noteq> [] \<Longrightarrow> length (kp_pending (answered Kept k)) < length (kp_pending k)"
    by blast+
qed

lemma sending_drains: "sending k \<Longrightarrow> length (kp_pending k) \<le> n \<Longrightarrow> sending ((answered Kept ^^ n) k) \<and> kp_pending ((answered Kept ^^ n) k) = []"
proof (induction n arbitrary: k)
  case (Suc n)
  have "length (kp_pending (answered Kept k)) \<le> n"
  proof (cases "kp_pending k = []")
    case True
    then have "answered Kept k = k" using Suc.prems(1) by (simp add: sending_def answered_def)
    then show ?thesis using True by simp
  next
    case False
    then show ?thesis using sending_answered(2) [OF Suc.prems(1)] Suc.prems(2) by simp
  qed
  then show ?case using Suc.IH [OF sending_answered(1) [OF Suc.prems(1)]] by (simp add: funpow_Suc_right del: funpow.simps)
qed simp

section \<open>Sizes\<close>

lemma batchLoop_size:
  assumes "bytes = sum_list (map keptSize batch)" and "length batch = 1 \<or> bytes \<le> BATCH_BYTES"
  shows "\<exists>rest. batch @ es = batchLoop es batch bytes @ rest
    \<and> (length (batchLoop es batch bytes) = 1 \<or> sum_list (map keptSize (batchLoop es batch bytes)) \<le> BATCH_BYTES)
    \<and> (rest = [] \<or> sum_list (map keptSize (batchLoop es batch bytes @ [hd rest])) > BATCH_BYTES)"
  using assms
proof (induction es arbitrary: batch bytes)
  case (Cons e es)
  show ?case
  proof (cases "batch \<noteq> [] \<and> bytes + keptSize e > BATCH_BYTES")
    case True
    then show ?thesis using Cons.prems by (intro exI [of _ "e # es"]) auto
  next
    case False
    have "length (batch @ [e]) = 1 \<or> bytes + keptSize e \<le> BATCH_BYTES" using False by auto
    moreover have "bytes + keptSize e = sum_list (map keptSize (batch @ [e]))" using Cons.prems(1) by simp
    ultimately obtain rest where "(batch @ [e]) @ es = batchLoop es (batch @ [e]) (bytes + keptSize e) @ rest
        \<and> (length (batchLoop es (batch @ [e]) (bytes + keptSize e)) = 1
           \<or> sum_list (map keptSize (batchLoop es (batch @ [e]) (bytes + keptSize e))) \<le> BATCH_BYTES)
        \<and> (rest = [] \<or> sum_list (map keptSize (batchLoop es (batch @ [e]) (bytes + keptSize e) @ [hd rest])) > BATCH_BYTES)"
      using Cons.IH by blast
    then show ?thesis using False by auto
  qed
qed simp

lemma keptSize_le:
  assumes "0 \<le> e_seq e" and "e_seq e < 10 ^ 16"
  shows "keptSize e \<le> 6 * (length (e_id e) + length (e_at e) + length (e_kind e) + length (e_text e)) + 300"
proof -
  have dec: "length (decimalInt (e_seq e)) \<le> 16"
    using assms decimal_length [of "nat (e_seq e)" 15] by (simp add: decimalInt_def nat_less_iff)
  define fields where "fields = [[0x7b], jsonField ''id'' (jsonString (e_id e)), [0x2c], jsonField ''seq'' (js (decimalInt (e_seq e))),
     [0x2c], jsonField ''at'' (jsonString (e_at e)), [0x2c], jsonField ''kind'' (jsonString (e_kind e)),
     [0x2c], jsonField ''text'' (jsonString (e_text e)), [0x7d]]"
  have "utf8ByteLength (concat xss) \<le> sum_list (map utf8ByteLength xss)" for xss
  proof (induction xss)
    case (Cons xs xss)
    then show ?case using utf8_append_le [of xs "concat xss"] by simp
  qed simp
  from this [of fields] have "keptSize e \<le> sum_list (map utf8ByteLength fields)"
    by (simp add: fields_def keptSize_def keptJson_def)
  also have "\<dots> \<le> 6 * (length (e_id e) + length (e_at e) + length (e_kind e) + length (e_text e)) + 300"
    unfolding fields_def
    using utf8_jsonField [of "''id''" "jsonString (e_id e)"] utf8_jsonString [of "e_id e"]
      utf8_jsonField [of "''seq''" "js (decimalInt (e_seq e))"] utf8_le_3 [of "js (decimalInt (e_seq e))"] dec
      utf8_jsonField [of "''at''" "jsonString (e_at e)"] utf8_jsonString [of "e_at e"]
      utf8_jsonField [of "''kind''" "jsonString (e_kind e)"] utf8_jsonString [of "e_kind e"]
      utf8_jsonField [of "''text''" "jsonString (e_text e)"] utf8_jsonString [of "e_text e"]
    by (simp add: js_def unitBytes_def)
  finally show ?thesis .
qed

lemma boundEntryText_length: "length (boundEntryText s) \<le> ENTRY_CHARS + 40 + length (decimal (length s - ENTRY_CHARS))"
  by (auto simp: boundEntryText_def ENTRY_CHARS_def Let_def js_def)

lemma labelOf_length:
  assumes "labelOf body = Some (l, after)"
  shows "length after \<le> length body"
proof -
  obtain c rest where body: "body = c # rest" using assms by (auto simp: labelOf_def split: list.splits)
  define n where "n = length (takeWhile (\<lambda>x. x \<noteq> 0x5d \<and> x \<noteq> newline) rest)"
  obtain d ds where ds: "drop n rest = d # ds" "after = (case ds of x # xs \<Rightarrow> if x = 0x20 then xs else ds | [] \<Rightarrow> ds)"
    using assms unfolding body labelOf_def Let_def list.case n_def [symmetric]
    by (cases "drop n rest") (auto split: if_splits)
  then have "length after \<le> length ds" by (cases ds) auto
  moreover have "length (drop n rest) = Suc (length ds)" using ds(1) by simp
  ultimately have "length after \<le> length rest" by simp
  then show ?thesis using body by simp
qed


section \<open>Properties\<close>


definition exampleKept :: KeptEntry where
  "exampleKept = \<lparr>e_id = js ''a'', e_seq = 1000, e_at = js ''t'', e_kind = js ''line'', e_text = []\<rparr>"

lemma newEntry_example: "newEntry (js ''a'') (js ''t'') 1000 [] = exampleKept"
  by (simp add: newEntry_def labelOf_def boundEntryText_def exampleKept_def)

definition exampleKeeper :: ConversationKeeper where
  "exampleKeeper = kick (add (js ''a'') (js ''t'') [] (setSlot (js ''s'') (newKeeper True 1 1 (Some []) None 1)))"

lemma exampleKeeper_fields:
  "kp_inFlight exampleKeeper = Some [exampleKept]" "kp_pending exampleKeeper = [exampleKept]" "kp_hasSend exampleKeeper"
  "kp_slot exampleKeeper \<noteq> []" "kp_closedTries exampleKeeper = None" "kp_pending (answered Kept exampleKeeper) = []"
proof -
  have "js ''s'' \<noteq> []" by (simp add: js_def)
  then show "kp_inFlight exampleKeeper = Some [exampleKept]" "kp_pending exampleKeeper = [exampleKept]" "kp_hasSend exampleKeeper"
    "kp_slot exampleKeeper \<noteq> []" "kp_closedTries exampleKeeper = None" "kp_pending (answered Kept exampleKeeper) = []"
    by (simp_all add: exampleKeeper_def kick_def start_def add_def setSlot_def writeState_def newKeeper_def Let_def schedule_def
        newEntry_example batchOf_def answered_def takeAnswer_def afterSend_def)
qed




text \<open>C6. The sender drains: once it sends, and each send is answered \<^verbatim>\<open>kept\<close>, one send follows another until nothing is
  pending, with at most as many sends as there were entries.\<close>

theorem keeper_drains:
  assumes "kp_hasSend k" and "kp_slot k \<noteq> []" and "kp_inFlight k = None" and "kp_closedTries k = None"
  shows "kp_pending ((answered Kept ^^ length (kp_pending k)) (kick k)) = []
    \<and> kp_inFlight ((answered Kept ^^ length (kp_pending k)) (kick k)) = None"
proof -
  have "sending (kick k)" using assms by (simp add: sending_def kick_def start_def)
  moreover have "kp_pending (kick k) = kp_pending k" by (simp add: kick_def start_def split: option.splits)
  ultimately show ?thesis using sending_drains [of "kick k" "length (kp_pending k)"] by (auto simp: sending_def)
qed

theorem keeper_drains_witness:
  "kp_pending ((answered Kept ^^ 1) (kick (exampleKeeper\<lparr>kp_inFlight := None\<rparr>))) = []"
  using keeper_drains [of "exampleKeeper\<lparr>kp_inFlight := None\<rparr>"] by (simp add: exampleKeeper_fields)

text \<open>A closed keeper gives up: from \<^verbatim>\<open>close\<close> on, whatever happens, at most three more sends fail.\<close>

theorem closed_keeper_gives_up:
  assumes "kp_closedTries k = None"
  shows "failedSends evs (close k) \<le> 3"
proof -
  have "closedWith 3 (close k)"
    using assms by (simp add: close_def kick_def closedWith_def start_def CLOSED_TRIES_def)
  then show ?thesis using failedSends_bound [of 3 "close k" evs] by simp
qed

theorem closed_keeper_gives_up_witness:
  "failedSends [EAnswer Again, ETimer, EAnswer Again, ETimer, EAnswer Again, ETimer, EAnswer Again] (close exampleKeeper) \<le> 3"
  by (rule closed_keeper_gives_up) (rule exampleKeeper_fields)

text \<open>A batch is within what the Orchestrator takes: it is the longest run of the first pending entries within 512 KiB
  of JSON, or one entry; and one entry that \<^verbatim>\<open>add\<close> makes, whatever its text, is below 4 MiB (when its label and its
  stamp are short and its text is below \<open>10 ^ 9\<close> units).\<close>

theorem batch_within_limit:
  assumes "e = newEntry uuid at s body" and "length uuid \<le> 36" and "length at \<le> 30" and "length (e_kind e) \<le> 1000"
    and "length body \<le> 10 ^ 9" and "0 \<le> s" and "s < 10 ^ 16"
  shows "keptSize e < 4 * 1024 * 1024
    \<and> (\<exists>rest. pending = batchOf pending @ rest
        \<and> (length (batchOf pending) = 1 \<or> sum_list (map keptSize (batchOf pending)) \<le> 512 * 1024)
        \<and> (rest = [] \<or> sum_list (map keptSize (batchOf pending @ [hd rest])) > 512 * 1024))"
proof -
  define tx where "tx = (case labelOf body of Some (_, after) \<Rightarrow> after | None \<Rightarrow> body)"
  have "length tx \<le> length body"
    using labelOf_length [of body] by (auto simp: tx_def split: option.splits)
  then have "length tx - ENTRY_CHARS < 10 ^ Suc 9" using assms(5) by simp
  then have "length (decimal (length tx - ENTRY_CHARS)) \<le> 10" using decimal_length by fastforce
  then have "length (e_text e) \<le> 65536 + 50"
    using boundEntryText_length [of tx] by (simp add: assms(1) newEntry_def tx_def ENTRY_CHARS_def)
  moreover have "keptSize e \<le> 6 * (length (e_id e) + length (e_at e) + length (e_kind e) + length (e_text e)) + 300"
    by (rule keptSize_le) (use assms in \<open>simp_all add: newEntry_def\<close>)
  moreover have "length (e_id e) \<le> 36" "length (e_at e) \<le> 30" using assms by (simp_all add: newEntry_def)
  ultimately have "keptSize e < 4 * 1024 * 1024" using assms(4) by simp
  moreover have "\<exists>rest. [] @ pending = batchLoop pending [] 0 @ rest
    \<and> (length (batchLoop pending [] 0) = 1 \<or> sum_list (map keptSize (batchLoop pending [] 0)) \<le> BATCH_BYTES)
    \<and> (rest = [] \<or> sum_list (map keptSize (batchLoop pending [] 0 @ [hd rest])) > BATCH_BYTES)"
    by (rule batchLoop_size) simp_all
  ultimately show ?thesis by (simp add: batchOf_def BATCH_BYTES_def)
qed

theorem batch_within_limit_witness:
  "keptSize exampleKept < 4 * 1024 * 1024"
  using batch_within_limit [OF newEntry_example [symmetric]] by (simp add: exampleKept_def js_def)

end
