(* ===== verification/Json_Values.thy ===== *)
theory Json_Values
  imports Complex_Main
begin

text \<open>
  JSON values, as the Orchestrator keeps them in blobs and compares them in schemas. An object is its properties in order; a number
  is a rational, which every finite double is.
\<close>

datatype Json = JNull | JBool bool | JNum rat | JStr string | JArr "Json list" | JObj "(string \<times> Json) list"

text \<open>A property of a value that may not be an object: \<^verbatim>\<open>undefined\<close> is \<open>None\<close>.\<close>

fun field :: "string \<Rightarrow> Json \<Rightarrow> Json option" where
  "field k (JObj kvs) = map_of kvs k"
| "field k _ = None"

fun textOf :: "Json option \<Rightarrow> string option" where
  "textOf (Some (JStr s)) = Some s"
| "textOf _ = None"

fun fieldOf :: "string \<Rightarrow> Json option \<Rightarrow> Json option" where
  "fieldOf k None = None"
| "fieldOf k (Some v) = field k v"

text \<open>A property is smaller than its object: the recursion of every walk over values.\<close>

lemma field_size [termination_simp]: "field k v = Some u \<Longrightarrow> size u < size v"
proof (cases v)
  case (JObj kvs)
  moreover assume "field k v = Some u"
  ultimately have "(k, u) \<in> set kvs" by (simp add: map_of_SomeD)
  then have "size u < size_list (size_prod (\<lambda>_. 0) size) kvs" by (induction kvs) auto
  then show ?thesis using JObj by simp
qed auto

lemma member_size [termination_simp]: "(k, u) \<in> set kvs \<Longrightarrow> size u < size (JObj kvs)"
  by (induction kvs) auto

lemma element_size [termination_simp]: "u \<in> set vs \<Longrightarrow> size u < size (JArr vs)"
  by (induction vs) auto

end
