(* ===== verification/Snapshot_Store.thy ===== *)
theory Snapshot_Store
  imports Conversations Json_Values
begin

text \<open>
  The run store, \<^verbatim>\<open>packages/orchestrator/src/snapshot-store.ts\<close> (class \<^verbatim>\<open>SqliteSnapshotStore\<close>): the rows of the runs with
  the columns that \<^verbatim>\<open>save\<close> copies out of a blob, the hook log, the heads of the standing Workflows and the kept Machines.

  A table is the list of its rows in \<^verbatim>\<open>rowid\<close> order. A blob is a JSON value; the \<^verbatim>\<open>snapshot\<close> column holds its text, which
  parses unless an older store wrote something else. \<open>None\<close> is SQL's \<^verbatim>\<open>NULL\<close>: a comparison with it selects no row. The
  time of a write is a parameter. The pragmas, the indexes and the \<^verbatim>\<open>ALTER TABLE\<close>s of \<^verbatim>\<open>init\<close> are not modelled; its two
  migrations of rows are.
\<close>

section \<open>Rows\<close>

datatype SnapText = Parses Json | NotJson

record RowSummary =
  su_startedBy :: "Json option"
  su_assembly :: "string option"
  su_dispatchedBy :: "Json option"
  su_failure :: "string option"
  su_fault :: "string option"

record SnapRow =
  sr_run_id :: ident
  sr_status :: string
  sr_snapshot :: "SnapText option"
  sr_reason :: "string option"
  sr_updated_at :: "string option"
  sr_dispatch_effect :: "string option"
  sr_dispatch_workflow :: "string option"
  sr_workflow :: "string option"
  sr_started_at :: "string option"
  sr_summary :: "RowSummary option"
  sr_listed_at :: "string option"
  sr_machine_key :: "string option"

datatype HookKind = Pending | Delivered | Seen | HoldFull | NoLiveRun | Handshake | PayloadRefused | Unreadable | TooLarge | FollowUp

record HookLogLine =
  hl_hook :: ident
  hl_at :: string
  hl_kind :: HookKind
  hl_status :: int
  hl_delivery :: "string option"
  hl_digest :: "string option"
  hl_key :: "string option"
  hl_detail :: "Json option"

datatype PauseReason = PausedByCancel | PausedByErrors | PausedByBound

record StandingHead =
  sh_workflow :: ident
  sh_run :: ident
  sh_since :: string
  sh_streak :: int
  sh_paused :: "PauseReason option"

record SnapshotStore =
  ss_rows :: "SnapRow list"
  ss_hooks :: "(nat \<times> HookLogLine) list"
  ss_lastHook :: nat
  ss_standing :: "StandingHead list"
  ss_machines :: "(string \<times> Json) list"

record StoredSnapshot =
  sn_runId :: ident
  sn_status :: string
  sn_snapshot :: "Json option"
  sn_reason :: "string option"
  sn_startedAt :: "string option"

record EndedQuery =
  q_statuses :: "string list option"
  q_workflows :: "string list option"
  q_workflow :: "string option"
  q_since :: "string option"
  q_after :: "(string \<times> ident) option"
  q_limit :: nat

record EndedRow =
  en_runId :: ident
  en_workflow :: string
  en_status :: string
  en_reason :: "string option"
  en_startedAt :: string
  en_endedAt :: "string option"
  en_startedBy :: "Json option"
  en_assembly :: "string option"
  en_dispatchedBy :: "Json option"

definition emptySnapshots :: SnapshotStore where
  "emptySnapshots = \<lparr>ss_rows = [], ss_hooks = [], ss_lastHook = 0, ss_standing = [], ss_machines = []\<rparr>"

section \<open>What a blob says\<close>

definition summaryOf :: "Json \<Rightarrow> RowSummary" where
  "summaryOf blob = \<lparr>su_startedBy = field ''startedBy'' blob, su_assembly = textOf (field ''assembly'' blob),
     su_dispatchedBy = field ''dispatchedBy'' blob,
     su_failure = textOf (fieldOf ''reason'' (field ''failure'' blob)), su_fault = textOf (field ''fault'' blob)\<rparr>"

definition listingOf :: "Json \<Rightarrow> string \<Rightarrow> string option \<times> string \<times> RowSummary" where
  "listingOf blob fallback =
     (textOf (field ''workflow'' blob),
      (case textOf (field ''startedAt'' blob) of None \<Rightarrow> fallback | Some s \<Rightarrow> s),
      summaryOf blob)"

definition dispatchEffectOf :: "Json \<Rightarrow> string option" where
  "dispatchEffectOf blob =
     (case textOf (fieldOf ''key'' (field ''dispatchedBy'' blob)) of
        Some key \<Rightarrow> Some key
      | None \<Rightarrow> textOf (fieldOf ''effect'' (field ''dispatchedBy'' blob)))"

definition hasStartedAt :: "Json \<Rightarrow> bool" where
  "hasStartedAt blob \<longleftrightarrow> textOf (field ''startedAt'' blob) \<noteq> None"

definition dispatchWorkflowOf :: "Json \<Rightarrow> string option" where
  "dispatchWorkflowOf blob = textOf (field ''workflow'' blob)"

text \<open>A text that does not parse makes \<^verbatim>\<open>JSON.parse\<close> throw, and with it the whole read.\<close>

datatype ReadError = SyntaxError

definition storedOf :: "SnapRow \<Rightarrow> ReadError + StoredSnapshot" where
  "storedOf r =
     (let stored = \<lparr>sn_runId = sr_run_id r, sn_status = sr_status r, sn_snapshot = None,
        sn_reason = sr_reason r, sn_startedAt = sr_started_at r\<rparr>
      in case sr_snapshot r of
           None \<Rightarrow> Inr stored
         | Some NotJson \<Rightarrow> Inl SyntaxError
         | Some (Parses blob) \<Rightarrow> Inr (stored\<lparr>sn_snapshot := Some blob\<rparr>))"

fun storedAll :: "SnapRow list \<Rightarrow> ReadError + StoredSnapshot list" where
  "storedAll [] = Inr []"
| "storedAll (r # rs) =
     (case storedOf r of
        Inl e \<Rightarrow> Inl e
      | Inr s \<Rightarrow> (case storedAll rs of Inl e \<Rightarrow> Inl e | Inr ss \<Rightarrow> Inr (s # ss)))"

section \<open>Migrations\<close>

definition fillDispatchRow :: "SnapRow \<Rightarrow> SnapRow" where
  "fillDispatchRow r =
     (if sr_dispatch_effect r = None then r
      else case sr_snapshot r of
        Some (Parses blob) \<Rightarrow> r\<lparr>sr_dispatch_workflow := dispatchWorkflowOf blob\<rparr>
      | _ \<Rightarrow> r)"

definition fillDispatchWorkflow :: "SnapshotStore \<Rightarrow> SnapshotStore" where
  "fillDispatchWorkflow S = S\<lparr>ss_rows := map fillDispatchRow (ss_rows S)\<rparr>"

definition fillListingRow :: "string \<Rightarrow> SnapRow \<Rightarrow> SnapRow" where
  "fillListingRow now r =
     (case sr_snapshot r of
        Some (Parses blob) \<Rightarrow>
          if sr_listed_at r = sr_updated_at r then r
          else (case listingOf blob (case sr_updated_at r of None \<Rightarrow> now | Some u \<Rightarrow> u) of (wfl, st, su) \<Rightarrow>
            r\<lparr>sr_workflow := wfl,
              sr_started_at := (if hasStartedAt blob then Some st
                                else case sr_started_at r of None \<Rightarrow> Some st | Some s \<Rightarrow> Some s),
              sr_summary := Some su, sr_listed_at := sr_updated_at r\<rparr>)
      | _ \<Rightarrow> r)"

definition fillListing :: "string \<Rightarrow> SnapshotStore \<Rightarrow> SnapshotStore" where
  "fillListing now S = S\<lparr>ss_rows := map (fillListingRow now) (ss_rows S)\<rparr>"

text \<open>A boot over the volume: \<open>hasWorkflowColumn\<close> says whether a store with the \<^verbatim>\<open>dispatch_workflow\<close> column wrote it.\<close>

definition init_store :: "bool \<Rightarrow> string \<Rightarrow> SnapshotStore \<Rightarrow> SnapshotStore" where
  "init_store hasWorkflowColumn now S = fillListing now (if hasWorkflowColumn then S else fillDispatchWorkflow S)"

section \<open>Reads\<close>

definition findRow :: "ident \<Rightarrow> SnapshotStore \<Rightarrow> SnapRow option" where
  "findRow runId S = find (\<lambda>r. sr_run_id r = runId) (ss_rows S)"

definition load :: "ident \<Rightarrow> SnapshotStore \<Rightarrow> ReadError + StoredSnapshot option" where
  "load runId S =
     (case findRow runId S of
        None \<Rightarrow> Inr None
      | Some r \<Rightarrow> (case storedOf r of Inl e \<Rightarrow> Inl e | Inr s \<Rightarrow> Inr (Some s)))"

definition live :: "SnapshotStore \<Rightarrow> ReadError + StoredSnapshot list" where
  "live S = storedAll (filter (\<lambda>r. sr_status r = ''live'') (ss_rows S))"

definition assemblyOf :: "SnapRow \<Rightarrow> string option" where
  "assemblyOf r = (case sr_snapshot r of Some (Parses blob) \<Rightarrow> textOf (field ''assembly'' blob) | _ \<Rightarrow> None)"

definition holdAssembly :: "SnapRow \<Rightarrow> (string \<times> ident list) list \<Rightarrow> (string \<times> ident list) list" where
  "holdAssembly r held =
     (case assemblyOf r of None \<Rightarrow> held
      | Some a \<Rightarrow> mapSet a ((case map_of held a of None \<Rightarrow> [] | Some ids \<Rightarrow> ids) @ [sr_run_id r]) held)"

definition liveAssemblies :: "SnapshotStore \<Rightarrow> (string \<times> ident list) list" where
  "liveAssemblies S = fold holdAssembly (filter (\<lambda>r. sr_status r = ''live'') (ss_rows S)) []"

text \<open>The code points of a text, which SQLite's \<^verbatim>\<open>BINARY\<close> collation compares, and the range scan up to the sentinel.\<close>

definition codes :: "string \<Rightarrow> int list" where
  "codes s = map (\<lambda>c. int (of_char c)) s"

definition inPrefixRange :: "string \<Rightarrow> string \<Rightarrow> bool" where
  "inPrefixRange prefix' x \<longleftrightarrow> codes x \<ge> codes prefix' \<and> codes x < codes prefix' @ [0x10FFFF]"

definition findIdsByPrefix :: "SnapshotStore \<Rightarrow> string \<Rightarrow> nat \<Rightarrow> ident list" where
  "findIdsByPrefix S prefix' limit = take limit (sort (filter (inPrefixRange prefix') (map sr_run_id (ss_rows S))))"


section \<open>Writes\<close>

definition saveRow :: "string \<Rightarrow> ident \<Rightarrow> Json \<Rightarrow> string \<Rightarrow> SnapRow option \<Rightarrow> SnapRow" where
  "saveRow now runId snapshot status old =
     (case listingOf snapshot now of (wfl, st, su) \<Rightarrow>
       \<lparr>sr_run_id = runId, sr_status = status, sr_snapshot = Some (Parses snapshot), sr_reason = None,
        sr_updated_at = Some now, sr_dispatch_effect = dispatchEffectOf snapshot,
        sr_dispatch_workflow = dispatchWorkflowOf snapshot, sr_workflow = wfl,
        sr_started_at = (case old of None \<Rightarrow> Some st
          | Some r \<Rightarrow> if hasStartedAt snapshot then Some st
                      else case sr_started_at r of None \<Rightarrow> Some st | Some s \<Rightarrow> Some s),
        sr_summary = Some su, sr_listed_at = Some now,
        sr_machine_key = (case old of None \<Rightarrow> None | Some r \<Rightarrow> sr_machine_key r)\<rparr>)"

text \<open>\<^verbatim>\<open>INSERT \<dots> ON CONFLICT(run_id) DO UPDATE\<close>: the row that is there changes in its place, or a new one comes last.\<close>

definition upsert :: "ident \<Rightarrow> (SnapRow option \<Rightarrow> SnapRow) \<Rightarrow> SnapRow list \<Rightarrow> SnapRow list" where
  "upsert runId f rows =
     (if find (\<lambda>r. sr_run_id r = runId) rows = None then rows @ [f None]
      else updFirst (\<lambda>r. sr_run_id r = runId) (\<lambda>r. f (Some r)) rows)"

definition save :: "string \<Rightarrow> ident \<Rightarrow> Json \<Rightarrow> string \<Rightarrow> SnapshotStore \<Rightarrow> SnapshotStore" where
  "save now runId snapshot status S = S\<lparr>ss_rows := upsert runId (saveRow now runId snapshot status) (ss_rows S)\<rparr>"

definition lostRow :: "string \<Rightarrow> ident \<Rightarrow> string \<Rightarrow> SnapRow option \<Rightarrow> SnapRow" where
  "lostRow now runId reason old =
     (case old of
        None \<Rightarrow> \<lparr>sr_run_id = runId, sr_status = ''lost'', sr_snapshot = None, sr_reason = Some reason,
           sr_updated_at = Some now, sr_dispatch_effect = None, sr_dispatch_workflow = None, sr_workflow = None,
           sr_started_at = None, sr_summary = None, sr_listed_at = None, sr_machine_key = None\<rparr>
      | Some r \<Rightarrow> r\<lparr>sr_status := ''lost'', sr_reason := Some reason, sr_updated_at := Some now,
           sr_listed_at := (if sr_listed_at r = sr_updated_at r then Some now else sr_listed_at r)\<rparr>)"

definition markLost :: "string \<Rightarrow> ident \<Rightarrow> string \<Rightarrow> SnapshotStore \<Rightarrow> SnapshotStore" where
  "markLost now runId reason S = S\<lparr>ss_rows := upsert runId (lostRow now runId reason) (ss_rows S)\<rparr>"

definition markDrifted :: "string \<Rightarrow> ident \<Rightarrow> string \<Rightarrow> SnapshotStore \<Rightarrow> SnapshotStore" where
  "markDrifted now runId reason S = S\<lparr>ss_rows := map (\<lambda>r. if sr_run_id r = runId
     then r\<lparr>sr_status := ''drifted'', sr_reason := Some reason, sr_updated_at := Some now,
            sr_listed_at := (if sr_listed_at r = sr_updated_at r then Some now else sr_listed_at r)\<rparr>
     else r) (ss_rows S)\<rparr>"

section \<open>Listing\<close>

text \<open>A Workflow that the names open: itself, or the Chart wrapper before its first \<^verbatim>\<open>/\<close>.\<close>

definition workflowIn :: "string list \<Rightarrow> string \<Rightarrow> bool" where
  "workflowIn names wfl \<longleftrightarrow> wfl \<in> set names \<or> (CHR ''/'' \<in> set wfl \<and> takeWhile (\<lambda>c. c \<noteq> CHR ''/'') wfl \<in> set names)"

definition selects :: "(string \<Rightarrow> bool) \<Rightarrow> EndedQuery \<Rightarrow> SnapRow \<Rightarrow> bool" where
  "selects status q r \<longleftrightarrow> status (sr_status r)
     \<and> (case q_statuses q of None \<Rightarrow> True | Some ss \<Rightarrow> sr_status r \<in> set ss)
     \<and> (case (sr_workflow r, sr_started_at r) of
          (Some wfl, Some st) \<Rightarrow>
            (case q_workflows q of None \<Rightarrow> True | Some ns \<Rightarrow> workflowIn ns wfl)
            \<and> (case q_workflow q of None \<Rightarrow> True | Some w \<Rightarrow> wfl = w)
            \<and> (case q_since q of None \<Rightarrow> True | Some s \<Rightarrow> st \<ge> s)
            \<and> (case q_after q of None \<Rightarrow> True | Some (s, i) \<Rightarrow> st < s \<or> (st = s \<and> sr_run_id r < i))
        | _ \<Rightarrow> False)"

definition orderKey :: "SnapRow \<Rightarrow> string \<times> ident" where
  "orderKey r = (case sr_started_at r of None \<Rightarrow> [] | Some s \<Rightarrow> s, sr_run_id r)"

definition endedRowOf :: "SnapRow \<Rightarrow> EndedRow" where
  "endedRowOf r =
     (let su = (case sr_summary r of None \<Rightarrow> \<lparr>su_startedBy = None, su_assembly = None, su_dispatchedBy = None, su_failure = None, su_fault = None\<rparr>
                | Some s \<Rightarrow> s)
      in \<lparr>en_runId = sr_run_id r, en_workflow = the (sr_workflow r), en_status = sr_status r,
          en_reason = (case sr_reason r of Some x \<Rightarrow> Some x | None \<Rightarrow> (case su_failure su of Some x \<Rightarrow> Some x | None \<Rightarrow> su_fault su)),
          en_startedAt = the (sr_started_at r), en_endedAt = sr_updated_at r,
          en_startedBy = su_startedBy su, en_assembly = su_assembly su, en_dispatchedBy = su_dispatchedBy su\<rparr>)"

definition listRows :: "(string \<Rightarrow> bool) \<Rightarrow> EndedQuery \<Rightarrow> SnapshotStore \<Rightarrow> EndedRow list" where
  "listRows status q S =
     (if q_statuses q = Some [] \<or> q_workflows q = Some [] then []
      else map endedRowOf (take (q_limit q) (rev (sort_key orderKey (filter (selects status q) (ss_rows S))))))"

definition ended :: "EndedQuery \<Rightarrow> SnapshotStore \<Rightarrow> EndedRow list" where
  "ended q S = listRows (\<lambda>s. s \<noteq> ''live'') q S"

definition liveRows :: "EndedQuery \<Rightarrow> SnapshotStore \<Rightarrow> EndedRow list" where
  "liveRows q S = listRows (\<lambda>s. s = ''live'') (q\<lparr>q_statuses := None\<rparr>) S"

section \<open>The sweep\<close>

definition swept :: "string \<Rightarrow> SnapshotStore \<Rightarrow> SnapRow \<Rightarrow> bool" where
  "swept olderThan S r \<longleftrightarrow> sr_status r \<noteq> ''live''
     \<and> (case sr_updated_at r of None \<Rightarrow> False | Some u \<Rightarrow> u < olderThan)
     \<and> sr_run_id r \<notin> sh_run ` set (ss_standing S)"

definition sweep :: "string \<Rightarrow> SnapshotStore \<Rightarrow> SnapshotStore \<times> ident list" where
  "sweep olderThan S =
     (let gone = map sr_run_id (filter (swept olderThan S) (ss_rows S));
          rows = filter (\<lambda>r. \<not> swept olderThan S r) (ss_rows S)
      in (S\<lparr>ss_rows := rows,
            ss_hooks := filter (\<lambda>(_, l). \<not> hl_at l < olderThan) (ss_hooks S),
            ss_machines := (if gone = [] then ss_machines S
              else filter (\<lambda>(k, _). \<exists>r\<in>set rows. sr_machine_key r = Some k) (ss_machines S))\<rparr>, gone))"

section \<open>Kept Machines\<close>

definition keepMachine :: "ident \<Rightarrow> string \<Rightarrow> Json \<Rightarrow> SnapshotStore \<Rightarrow> SnapshotStore" where
  "keepMachine runId key doc S =
     S\<lparr>ss_machines := (if map_of (ss_machines S) key = None then ss_machines S @ [(key, doc)] else ss_machines S),
       ss_rows := map (\<lambda>r. if sr_run_id r = runId then r\<lparr>sr_machine_key := Some key\<rparr> else r) (ss_rows S)\<rparr>"

definition keptMachine :: "ident \<Rightarrow> SnapshotStore \<Rightarrow> (string \<times> Json) option" where
  "keptMachine runId S =
     (case findRow runId S of None \<Rightarrow> None
      | Some r \<Rightarrow> (case (sr_machine_key r, sr_workflow r) of
          (Some key, Some wfl) \<Rightarrow> (case map_of (ss_machines S) key of None \<Rightarrow> None
             | Some doc \<Rightarrow> if wfl = [] then None else Some (wfl, doc))
        | _ \<Rightarrow> None))"

section \<open>The hook log\<close>

definition CLAIMED_KINDS :: "HookKind list" where
  "CLAIMED_KINDS = [Pending, Delivered, Seen]"

definition claimed :: "ident \<Rightarrow> string \<Rightarrow> string \<Rightarrow> HookLogLine \<Rightarrow> bool" where
  "claimed hook delivery digest l \<longleftrightarrow> hl_hook l = hook
     \<and> (hl_delivery l = Some delivery \<or> hl_digest l = Some digest) \<and> hl_kind l \<in> set CLAIMED_KINDS"

definition claimHookDelivery :: "string \<Rightarrow> ident \<Rightarrow> string \<Rightarrow> string \<Rightarrow> SnapshotStore \<Rightarrow> SnapshotStore \<times> nat option" where
  "claimHookDelivery now hook delivery digest S =
     (if \<exists>(_, l)\<in>set (ss_hooks S). claimed hook delivery digest l then (S, None)
      else let n = Suc (ss_lastHook S);
               line = \<lparr>hl_hook = hook, hl_at = now, hl_kind = Pending, hl_status = 0, hl_delivery = Some delivery,
                       hl_digest = Some digest, hl_key = None, hl_detail = None\<rparr>
           in (S\<lparr>ss_hooks := ss_hooks S @ [(n, line)], ss_lastHook := n\<rparr>, Some n))"

definition writeHookLine :: "HookLogLine \<Rightarrow> nat option \<Rightarrow> SnapshotStore \<Rightarrow> SnapshotStore" where
  "writeHookLine line claim S =
     (case claim of
        Some n \<Rightarrow> S\<lparr>ss_hooks := map (\<lambda>(m, l). (m, if m = n then l\<lparr>hl_kind := hl_kind line, hl_status := hl_status line,
             hl_key := hl_key line, hl_detail := hl_detail line\<rparr> else l)) (ss_hooks S)\<rparr>
      | None \<Rightarrow> S\<lparr>ss_hooks := ss_hooks S @ [(Suc (ss_lastHook S), line)], ss_lastHook := Suc (ss_lastHook S)\<rparr>)"

definition hookLog :: "ident \<Rightarrow> nat \<Rightarrow> SnapshotStore \<Rightarrow> HookLogLine list" where
  "hookLog hook limit S =
     map snd (take limit (rev (sort_key fst (filter (\<lambda>(_, l). hl_hook l = hook) (ss_hooks S)))))"

section \<open>Standing heads\<close>

definition standingHeads :: "SnapshotStore \<Rightarrow> StandingHead list" where
  "standingHeads S = ss_standing S"

definition writeStanding :: "StandingHead \<Rightarrow> SnapshotStore \<Rightarrow> SnapshotStore" where
  "writeStanding head S =
     (if find (\<lambda>h. sh_workflow h = sh_workflow head) (ss_standing S) = None then S\<lparr>ss_standing := ss_standing S @ [head]\<rparr>
      else S\<lparr>ss_standing := updFirst (\<lambda>h. sh_workflow h = sh_workflow head) (\<lambda>_. head) (ss_standing S)\<rparr>)"

section \<open>The invariant\<close>

definition wfSnap :: "SnapshotStore \<Rightarrow> bool" where
  "wfSnap S \<longleftrightarrow> distinct (map sr_run_id (ss_rows S)) \<and> (\<forall>(n, _)\<in>set (ss_hooks S). n \<le> ss_lastHook S)
     \<and> distinct (map fst (ss_hooks S)) \<and> distinct (map sh_workflow (ss_standing S))"

datatype SnapOp =
    OpSave string ident Json string
  | OpLost string ident string
  | OpDrifted string ident string
  | OpSweep string
  | OpKeep ident string Json
  | OpClaim string ident string string
  | OpHookLine HookLogLine "nat option"
  | OpStanding StandingHead
  | OpInit bool string

fun applySnap :: "SnapOp \<Rightarrow> SnapshotStore \<Rightarrow> SnapshotStore" where
  "applySnap (OpSave now runId snapshot status) S = save now runId snapshot status S"
| "applySnap (OpLost now runId reason) S = markLost now runId reason S"
| "applySnap (OpDrifted now runId reason) S = markDrifted now runId reason S"
| "applySnap (OpSweep olderThan) S = fst (sweep olderThan S)"
| "applySnap (OpKeep runId key doc) S = keepMachine runId key doc S"
| "applySnap (OpClaim now hook delivery digest) S = fst (claimHookDelivery now hook delivery digest S)"
| "applySnap (OpHookLine line claim) S = writeHookLine line claim S"
| "applySnap (OpStanding head) S = writeStanding head S"
| "applySnap (OpInit col now) S = init_store col now S"

inductive snapReach :: "SnapshotStore \<Rightarrow> bool" where
  snapStart: "snapReach emptySnapshots"
| snapNext: "snapReach S \<Longrightarrow> snapReach (applySnap op S)"

lemma saveRow_id [simp]: "sr_run_id (saveRow now runId snapshot status old) = runId"
  by (simp add: saveRow_def split: prod.splits)

lemma lostRow_id [simp]: "old = None \<or> sr_run_id (the old) = runId \<Longrightarrow> sr_run_id (lostRow now runId reason old) = runId"
  by (cases old) (simp_all add: lostRow_def)

lemma fillDispatchRow_id [simp]: "sr_run_id (fillDispatchRow r) = sr_run_id r"
  by (simp add: fillDispatchRow_def split: option.splits SnapText.splits)

lemma fillListingRow_id [simp]: "sr_run_id (fillListingRow now r) = sr_run_id r"
  by (simp add: fillListingRow_def split: option.splits SnapText.splits prod.splits)

lemma upsert_ids:
  assumes "\<And>old. old = None \<or> sr_run_id (the old) = runId \<Longrightarrow> sr_run_id (f old) = runId"
  shows "map sr_run_id (upsert runId f rows) = map sr_run_id rows @ (if runId \<in> sr_run_id ` set rows then [] else [runId])"
proof (cases "find (\<lambda>r. sr_run_id r = runId) rows")
  case None
  then show ?thesis using assms by (auto simp: upsert_def find_None_iff)
next
  case (Some r)
  have "map sr_run_id (updFirst (\<lambda>r. sr_run_id r = runId) (\<lambda>r. f (Some r)) rows) = map sr_run_id rows"
    by (rule map_updFirst) (simp add: assms)
  then show ?thesis using Some find_Some_in [OF Some] by (auto simp: upsert_def)
qed

lemma find_updFirst:
  "find P (updFirst P f xs) = (case find P xs of None \<Rightarrow> None | Some x \<Rightarrow> if P (f x) then Some (f x) else find P (updFirst P f xs))"
  by (induction xs) (auto split: option.splits)

lemma find_updFirst_other:
  "(\<And>x. P x \<Longrightarrow> Q (f x) = Q x) \<Longrightarrow> (\<And>x. P x \<Longrightarrow> \<not> Q x) \<Longrightarrow> find Q (updFirst P f xs) = find Q xs"
  by (induction xs) auto

lemma find_upsert:
  assumes "\<And>old. old = None \<or> sr_run_id (the old) = runId \<Longrightarrow> sr_run_id (f old) = runId"
  shows "find (\<lambda>r. sr_run_id r = x) (upsert runId f rows) =
    (if x = runId then Some (f (find (\<lambda>r. sr_run_id r = runId) rows)) else find (\<lambda>r. sr_run_id r = x) rows)"
proof (cases "find (\<lambda>r. sr_run_id r = runId) rows")
  case None
  have "find (\<lambda>r. sr_run_id r = x) (rows @ [f None]) = (case find (\<lambda>r. sr_run_id r = x) rows of
      None \<Rightarrow> if runId = x then Some (f None) else None | Some r \<Rightarrow> Some r)"
    using assms [of None] by (induction rows) auto
  then show ?thesis using None by (auto simp: upsert_def split: option.splits)
next
  case (Some r)
  have id: "sr_run_id (f (Some r)) = runId" if "sr_run_id r = runId" for r using assms that by simp
  show ?thesis
  proof (cases "x = runId")
    case True
    then show ?thesis using Some id find_Some_in(2) [OF Some]
      by (simp add: upsert_def) (subst find_updFirst, simp)
  next
    case False
    then show ?thesis using Some by (simp add: upsert_def) (rule find_updFirst_other, auto simp: id)
  qed
qed

lemma wfSnap_apply [inv_intros]:
  assumes "wfSnap S"
  shows "wfSnap (applySnap op S)"
proof (cases op)
  case (OpSave now runId snapshot status)
  then show ?thesis using assms upsert_ids [of runId "saveRow now runId snapshot status" "ss_rows S"]
    by (auto simp: wfSnap_def save_def)
next
  case (OpLost now runId reason)
  then show ?thesis using assms upsert_ids [of runId "lostRow now runId reason" "ss_rows S"]
    by (auto simp: wfSnap_def markLost_def)
next
  case (OpDrifted now runId reason)
  have "map sr_run_id (ss_rows (markDrifted now runId reason S)) = map sr_run_id (ss_rows S)" by (simp add: markDrifted_def)
  then show ?thesis using assms OpDrifted by (simp add: wfSnap_def) (simp add: markDrifted_def)
next
  case (OpSweep olderThan)
  then show ?thesis using assms by (auto simp: wfSnap_def sweep_def Let_def distinct_map_filter)
next
  case (OpKeep runId key doc)
  have "map sr_run_id (ss_rows (keepMachine runId key doc S)) = map sr_run_id (ss_rows S)" by (simp add: keepMachine_def)
  then show ?thesis using assms OpKeep by (simp add: wfSnap_def) (simp add: keepMachine_def)
next
  case (OpClaim now hook delivery digest)
  then show ?thesis using assms by (force simp: wfSnap_def claimHookDelivery_def Let_def)
next
  case (OpHookLine line claim)
  then show ?thesis using assms by (cases claim) (force simp: wfSnap_def writeHookLine_def split_beta comp_def)+
next
  case (OpStanding head)
  have "map sh_workflow (updFirst (\<lambda>h. sh_workflow h = sh_workflow head) (\<lambda>_. head) hs) = map sh_workflow hs" for hs
    by (rule map_updFirst) simp
  then show ?thesis using assms OpStanding by (auto simp: wfSnap_def writeStanding_def find_None_iff)
next
  case (OpInit col now)
  have "map sr_run_id (ss_rows (init_store col now S)) = map sr_run_id (ss_rows S)"
    by (simp add: init_store_def fillListing_def fillDispatchWorkflow_def)
  then show ?thesis using assms OpInit by (simp add: wfSnap_def) (simp add: init_store_def fillListing_def fillDispatchWorkflow_def)
qed

lemma wfSnap_reach: "snapReach S \<Longrightarrow> wfSnap S"
proof (induction rule: snapReach.induct)
  case snapStart
  then show ?case by (simp add: wfSnap_def emptySnapshots_def)
qed (rule wfSnap_apply)

section \<open>The prefix search\<close>

lemma inPrefixRange_iff: "inPrefixRange p x \<longleftrightarrow> prefix p x"
proof (induction p arbitrary: x)
  case Nil
  have less: "int (of_char c) < 0x10FFFF" for c :: char
  proof -
    have "of_char c < (256 :: nat)" by simp
    then show ?thesis by linarith
  qed
  show ?case using less by (cases x) (simp_all add: inPrefixRange_def codes_def del: of_nat_of_char)
next
  case (Cons c p)
  show ?case
  proof (cases x)
    case (Cons d ds)
    have "int (of_char c) = int (of_char d) \<longleftrightarrow> c = d" by (metis of_nat_eq_iff of_char_eq_iff)
    then show ?thesis using Cons.IH [of ds] unfolding Cons inPrefixRange_def codes_def list.map append_Cons Cons_le_Cons Cons_less_Cons
      by (auto simp del: of_nat_of_char)
  qed (simp add: inPrefixRange_def codes_def)
qed

lemma prefix_le: "prefix p (x :: string) \<Longrightarrow> p \<le> x"
proof -
  have "p \<le> p @ zs" for zs by (induction p) simp_all
  then show "prefix p x \<Longrightarrow> p \<le> x" by (auto simp: prefix_def)
qed

lemma hd_sort_min: "p \<in> set xs \<Longrightarrow> (\<And>x. x \<in> set xs \<Longrightarrow> p \<le> x) \<Longrightarrow> \<exists>rest. sort xs = p # rest"
proof (cases "sort xs")
  case (Cons h rest)
  assume p: "p \<in> set xs" and min: "\<And>x. x \<in> set xs \<Longrightarrow> p \<le> x"
  have "h \<in> set xs" "p \<in> set (h # rest)" using Cons p by (metis list.set_intros(1) set_sort, metis set_sort)
  moreover have "sorted (h # rest)" using Cons by (metis sorted_sort)
  ultimately have "h \<le> p" "p \<le> h" using min by auto
  then show ?thesis using Cons by simp
qed (metis empty_iff list.set(1) set_sort)

text \<open>What a reader of the index relies on: the ids that it answers exist, and the first of the ids with the prefix of an
  existing id is the id itself.\<close>

locale run_index =
  fixes search :: "string \<Rightarrow> nat \<Rightarrow> ident list"
    and known :: "ident set"
  assumes search_known: "x \<in> set (search p n) \<Longrightarrow> x \<in> known"
    and search_self: "x \<in> known \<Longrightarrow> search x 1 = [x]"
begin

lemma orphans: "orphansOf search S = filter (\<lambda>runId. runId \<notin> known) (runIds S)"
proof -
  have "(case search x 1 of [] \<Rightarrow> True | first # _ \<Rightarrow> first \<noteq> x) \<longleftrightarrow> x \<notin> known" for x
  proof (cases "x \<in> known")
    case False
    then have "x \<notin> set (search x 1)" using search_known by blast
    then show ?thesis using False by (cases "search x 1") auto
  qed (use search_self [of x] in simp)
  then show ?thesis by (simp add: orphansOf_def)
qed

lemma deleteOrphans:
  assumes "wfStore S" and "deleteOrphanConversations search S = (S', gone)"
  shows "set gone = {cr_run_id r |i r. rowOf i S = Some r} - known"
    and "rowOf i S' = (case rowOf i S of None \<Rightarrow> None | Some r \<Rightarrow> if cr_run_id r \<in> known then Some r else None)"
proof -
  have gone: "gone = filter (\<lambda>runId. runId \<notin> known) (runIds S)" and S': "S' = deleteRuns gone S"
    using assms(2) orphans by (auto simp: deleteOrphanConversations_def)
  have runs: "set (runIds S) = {cr_run_id r |i r. rowOf i S = Some r}"
    using wfStoreD(1) [OF assms(1)] by (force simp: runIds_def rowOf_def)
  then show "set gone = {cr_run_id r |i r. rowOf i S = Some r} - known" by (auto simp: gone)
  have "rowOf i (deleteRuns ids T) = (case rowOf i T of None \<Rightarrow> None | Some r \<Rightarrow> if cr_run_id r \<notin> set ids then Some r else None)"
    if "wfStore T" for ids T
    using that
  proof (induction ids arbitrary: T)
    case (Cons x ids)
    then show ?case using rowOf_deleteRun [OF wfStoreD(1) [OF Cons.prems], of i x] wfStore_deleteRun [OF Cons.prems, of x]
      by (simp add: deleteRuns_def split: option.splits)
  qed (simp add: deleteRuns_def split: option.splits)
  from this [OF assms(1), of gone] show "rowOf i S' = (case rowOf i S of None \<Rightarrow> None | Some r \<Rightarrow> if cr_run_id r \<in> known then Some r else None)"
    using runs by (auto simp: S' gone split: option.splits)
qed

end

lemma findIdsByPrefix_spec:
  "findIdsByPrefix S p n = take n (sort (filter (prefix p) (map sr_run_id (ss_rows S))))"
  by (simp add: findIdsByPrefix_def inPrefixRange_iff cong: filter_cong)

interpretation runs: run_index "findIdsByPrefix S" "sr_run_id ` set (ss_rows S)"
proof
  show "x \<in> set (findIdsByPrefix S p n) \<Longrightarrow> x \<in> sr_run_id ` set (ss_rows S)" for x p n
    by (auto simp: findIdsByPrefix_spec dest!: in_set_takeD)
  show "x \<in> sr_run_id ` set (ss_rows S) \<Longrightarrow> findIdsByPrefix S x 1 = [x]" for x
    using hd_sort_min [of x "filter (prefix x) (map sr_run_id (ss_rows S))"] prefix_le
    by (fastforce simp: findIdsByPrefix_spec)
qed

section \<open>Lookups after writes\<close>

lemma findRow_save: "findRow x (save now runId snapshot status S) =
    (if x = runId then Some (saveRow now runId snapshot status (findRow runId S)) else findRow x S)"
  unfolding findRow_def save_def by (simp add: find_upsert)

lemma findRow_markLost: "findRow x (markLost now runId reason S) =
    (if x = runId then Some (lostRow now runId reason (findRow runId S)) else findRow x S)"
  unfolding findRow_def markLost_def by (simp add: find_upsert)

lemma find_map_same: "(\<And>x. P (f x) = P x) \<Longrightarrow> find P (map f xs) = map_option f (find P xs)"
  by (induction xs) auto

lemma findRow_markDrifted: "findRow x (markDrifted now runId reason S) = map_option (\<lambda>r. if sr_run_id r = runId
     then r\<lparr>sr_status := ''drifted'', sr_reason := Some reason, sr_updated_at := Some now,
            sr_listed_at := (if sr_listed_at r = sr_updated_at r then Some now else sr_listed_at r)\<rparr>
     else r) (findRow x S)"
  unfolding findRow_def markDrifted_def by (simp add: find_map_same)

lemma findRow_in: "findRow x S = Some r \<Longrightarrow> r \<in> set (ss_rows S) \<and> sr_run_id r = x"
  by (auto simp: findRow_def dest: find_Some_in)

lemma find_filter_keep: "find P xs = Some x \<Longrightarrow> Q x \<Longrightarrow> find P (filter Q xs) = Some x"
  by (induction xs) (auto split: if_splits)

lemma find_distinct:
  "distinct (map f xs) \<Longrightarrow> x \<in> set xs \<Longrightarrow> find (\<lambda>y. f y = f x) xs = Some x"
  by (induction xs) (auto simp: image_iff)

lemma findRow_sweep:
  "findRow x S = Some r \<Longrightarrow> \<not> swept olderThan S r \<Longrightarrow> findRow x (fst (sweep olderThan S)) = Some r"
  unfolding findRow_def sweep_def Let_def by (simp add: find_filter_keep)



lemma findRow_None: "findRow x S = None \<longleftrightarrow> x \<notin> sr_run_id ` set (ss_rows S)"
  by (auto simp: findRow_def find_None_iff)

lemma image_minus_known: "{f r |i r. Q i r} - K = {f r |i r. Q i r \<and> f r \<notin> K}"
  by blast

section \<open>Claims\<close>

text \<open>An operation that does not give the claim \<open>n\<close> back: not a sweep of old lines, and not a line that finishes it as one that
  does not count.\<close>

fun keepsClaim :: "nat \<Rightarrow> SnapOp \<Rightarrow> bool" where
  "keepsClaim n (OpSweep _) = False"
| "keepsClaim n (OpHookLine line (Some m)) = (m = n \<longrightarrow> hl_kind line \<in> set CLAIMED_KINDS)"
| "keepsClaim n _ = True"

definition holdsClaim :: "nat \<Rightarrow> ident \<Rightarrow> string \<Rightarrow> string \<Rightarrow> SnapshotStore \<Rightarrow> bool" where
  "holdsClaim n hook delivery digest S \<longleftrightarrow> (\<exists>l. (n, l) \<in> set (ss_hooks S) \<and> hl_hook l = hook \<and> hl_delivery l = Some delivery
     \<and> hl_digest l = Some digest \<and> hl_kind l \<in> set CLAIMED_KINDS)"

lemma holdsClaim_apply:
  assumes "holdsClaim n hook delivery digest S" and "keepsClaim n op"
  shows "holdsClaim n hook delivery digest (applySnap op S)"
proof (cases op)
  case (OpHookLine line claim)
  obtain l where l: "(n, l) \<in> set (ss_hooks S)" "hl_hook l = hook" "hl_delivery l = Some delivery" "hl_digest l = Some digest"
      "hl_kind l \<in> set CLAIMED_KINDS"
    using assms(1) by (auto simp: holdsClaim_def)
  show ?thesis
  proof (cases claim)
    case None
    then show ?thesis using l OpHookLine by (auto simp: holdsClaim_def writeHookLine_def)
  next
    case (Some m)
    let ?l = "if n = m then l\<lparr>hl_kind := hl_kind line, hl_status := hl_status line, hl_key := hl_key line, hl_detail := hl_detail line\<rparr> else l"
    have "(n, ?l) \<in> set (ss_hooks (writeHookLine line claim S))"
      using l(1) Some by (force simp: writeHookLine_def image_iff)
    then show ?thesis using l assms(2) OpHookLine Some unfolding holdsClaim_def applySnap.simps
      by (intro exI [of _ ?l]) auto
  qed
next
  case (OpClaim now hook' delivery' digest')
  then show ?thesis using assms(1) by (auto simp: holdsClaim_def claimHookDelivery_def Let_def)
qed (use assms in \<open>auto simp: holdsClaim_def save_def markLost_def markDrifted_def keepMachine_def writeStanding_def
      init_store_def fillListing_def fillDispatchWorkflow_def\<close>)

lemma holdsClaim_fold:
  "holdsClaim n hook delivery digest S \<Longrightarrow> \<forall>op\<in>set ops. keepsClaim n op \<Longrightarrow> holdsClaim n hook delivery digest (fold applySnap ops S)"
  by (induction ops arbitrary: S) (auto intro: holdsClaim_apply)

lemma holdsClaim_repeat:
  assumes "holdsClaim n hook delivery digest S" and "d = delivery \<or> g = digest"
  shows "claimHookDelivery now hook d g S = (S, None)"
proof -
  obtain l where "(n, l) \<in> set (ss_hooks S)" "claimed hook d g l"
    using assms by (auto simp: holdsClaim_def claimed_def)
  then show ?thesis by (auto simp: claimHookDelivery_def)
qed

lemma claim_new:
  assumes "claimHookDelivery now hook delivery digest S = (S1, Some n)"
  shows "\<And>m l. (m, l) \<in> set (ss_hooks S) \<Longrightarrow> \<not> claimed hook delivery digest l" and "n = Suc (ss_lastHook S)"
    and "ss_hooks S1 = ss_hooks S @ [(n, \<lparr>hl_hook = hook, hl_at = now, hl_kind = Pending, hl_status = 0, hl_delivery = Some delivery,
     hl_digest = Some digest, hl_key = None, hl_detail = None\<rparr>)]"
proof -
  have none: "\<not> (\<exists>(_, l)\<in>set (ss_hooks S). claimed hook delivery digest l)"
  proof
    assume "\<exists>(_, l)\<in>set (ss_hooks S). claimed hook delivery digest l"
    then have "claimHookDelivery now hook delivery digest S = (S, None)" by (simp add: claimHookDelivery_def)
    then show False using assms by simp
  qed
  then show "\<And>m l. (m, l) \<in> set (ss_hooks S) \<Longrightarrow> \<not> claimed hook delivery digest l" by blast
  have "claimHookDelivery now hook delivery digest S = (S\<lparr>ss_hooks := ss_hooks S @ [(Suc (ss_lastHook S),
      \<lparr>hl_hook = hook, hl_at = now, hl_kind = Pending, hl_status = 0, hl_delivery = Some delivery,
     hl_digest = Some digest, hl_key = None, hl_detail = None\<rparr>)], ss_lastHook := Suc (ss_lastHook S)\<rparr>, Some (Suc (ss_lastHook S)))"
    using none by (simp add: claimHookDelivery_def Let_def)
  then have S1: "S1 = S\<lparr>ss_hooks := ss_hooks S @ [(Suc (ss_lastHook S),
      \<lparr>hl_hook = hook, hl_at = now, hl_kind = Pending, hl_status = 0, hl_delivery = Some delivery,
     hl_digest = Some digest, hl_key = None, hl_detail = None\<rparr>)], ss_lastHook := Suc (ss_lastHook S)\<rparr>"
      and n: "n = Suc (ss_lastHook S)"
    using assms by simp_all
  show "n = Suc (ss_lastHook S)" by (rule n)
  show "ss_hooks S1 = ss_hooks S @ [(n, \<lparr>hl_hook = hook, hl_at = now, hl_kind = Pending, hl_status = 0, hl_delivery = Some delivery,
     hl_digest = Some digest, hl_key = None, hl_detail = None\<rparr>)]" by (simp add: S1 n)
qed

lemma claim_holds:
  assumes "claimHookDelivery now hook delivery digest S = (S1, Some n)"
  shows "holdsClaim n hook delivery digest S1"
  unfolding holdsClaim_def claim_new(3) [OF assms]
  by (rule exI [of _ "\<lparr>hl_hook = hook, hl_at = now, hl_kind = Pending, hl_status = 0, hl_delivery = Some delivery,
     hl_digest = Some digest, hl_key = None, hl_detail = None\<rparr>"]) (simp add: CLAIMED_KINDS_def)

lemma claim_released:
  assumes "wfSnap S" and "claimHookDelivery now hook delivery digest S = (S1, Some n)" and "hl_kind line \<notin> set CLAIMED_KINDS"
  shows "snd (claimHookDelivery now' hook delivery digest (writeHookLine line (Some n) S1)) \<noteq> None"
proof -
  note new = claim_new [OF assms(2)]
  have old: "m \<noteq> n" if "(m, l) \<in> set (ss_hooks S)" for m l
    using assms(1) that new(2) by (auto simp: wfSnap_def)
  have "\<not> claimed hook delivery digest l" if l: "(m, l) \<in> set (ss_hooks (writeHookLine line (Some n) S1))" for m l
  proof (cases "m = n")
    case True
    then have "hl_kind l = hl_kind line" using l by (auto simp: writeHookLine_def)
    then show ?thesis using assms(3) by (simp add: claimed_def)
  next
    case False
    then have "(m, l) \<in> set (ss_hooks S)" using l by (auto simp: writeHookLine_def new(3))
    then show ?thesis by (rule new(1))
  qed
  then have "\<not> (\<exists>(_, l)\<in>set (ss_hooks (writeHookLine line (Some n) S1)). claimed hook delivery digest l)" by blast
  then show ?thesis by (simp add: claimHookDelivery_def Let_def)
qed

section \<open>Properties\<close>

definition exampleBlob :: Json where
  "exampleBlob = JObj [(''workflow'', JStr ''w''), (''startedAt'', JStr ''2024''), (''dispatchedBy'', JObj [(''key'', JStr ''k'')])]"

definition exampleRuns :: SnapshotStore where
  "exampleRuns = save ''2024-01'' ''run-1'' exampleBlob ''live'' emptySnapshots"

lemma exampleRuns_reach: "snapReach exampleRuns"
  using snapNext [OF snapStart, of "OpSave ''2024-01'' ''run-1'' exampleBlob ''live''"] by (simp add: exampleRuns_def)

text \<open>What was saved is loaded back: after a save, the run's row has the blob, the status and no reason, its start is the
  blob's own or else the one that the row had, and every other run's row is as it was. A run marked lost or drifted reads as
  before but for its status and its reason; a run with no row is made lost, with no blob, and is not made drifted. A blob
  that does not parse fails the read before and after.\<close>

theorem save_load:
  "load runId (save now runId snapshot status S) = Inr (Some \<lparr>sn_runId = runId, sn_status = status, sn_snapshot = Some snapshot,
      sn_reason = None, sn_startedAt = Some (case textOf (field ''startedAt'' snapshot) of Some s \<Rightarrow> s
        | None \<Rightarrow> (case Option.bind (findRow runId S) sr_started_at of Some s \<Rightarrow> s | None \<Rightarrow> now))\<rparr>)
   \<and> load runId (markLost now runId reason S) = (case load runId S of
        Inl e \<Rightarrow> Inl e
      | Inr None \<Rightarrow> Inr (Some \<lparr>sn_runId = runId, sn_status = ''lost'', sn_snapshot = None, sn_reason = Some reason, sn_startedAt = None\<rparr>)
      | Inr (Some s) \<Rightarrow> Inr (Some (s\<lparr>sn_status := ''lost'', sn_reason := Some reason\<rparr>)))
   \<and> load runId (markDrifted now runId reason S) = (case load runId S of
        Inl e \<Rightarrow> Inl e
      | Inr None \<Rightarrow> Inr None
      | Inr (Some s) \<Rightarrow> Inr (Some (s\<lparr>sn_status := ''drifted'', sn_reason := Some reason\<rparr>)))
   \<and> (x = runId \<or> load x (save now runId snapshot status S) = load x S
        \<and> load x (markLost now runId reason S) = load x S \<and> load x (markDrifted now runId reason S) = load x S)"
proof -
  have saved: "load runId (save now runId snapshot status S) = Inr (Some \<lparr>sn_runId = runId, sn_status = status, sn_snapshot = Some snapshot,
      sn_reason = None, sn_startedAt = Some (case textOf (field ''startedAt'' snapshot) of Some s \<Rightarrow> s
        | None \<Rightarrow> (case Option.bind (findRow runId S) sr_started_at of Some s \<Rightarrow> s | None \<Rightarrow> now))\<rparr>)"
    by (auto simp: load_def findRow_save storedOf_def saveRow_def listingOf_def hasStartedAt_def Let_def split: option.splits)
  have lost: "load runId (markLost now runId reason S) = (case load runId S of
        Inl e \<Rightarrow> Inl e
      | Inr None \<Rightarrow> Inr (Some \<lparr>sn_runId = runId, sn_status = ''lost'', sn_snapshot = None, sn_reason = Some reason, sn_startedAt = None\<rparr>)
      | Inr (Some s) \<Rightarrow> Inr (Some (s\<lparr>sn_status := ''lost'', sn_reason := Some reason\<rparr>)))"
    by (simp add: load_def findRow_markLost storedOf_def lostRow_def Let_def split: option.splits SnapText.splits)
  have drifted: "load runId (markDrifted now runId reason S) = (case load runId S of
        Inl e \<Rightarrow> Inl e
      | Inr None \<Rightarrow> Inr None
      | Inr (Some s) \<Rightarrow> Inr (Some (s\<lparr>sn_status := ''drifted'', sn_reason := Some reason\<rparr>)))"
    by (auto simp: load_def findRow_markDrifted storedOf_def Let_def dest: findRow_in split: option.splits SnapText.splits)
  have other: "load x (save now runId snapshot status S) = load x S
        \<and> load x (markLost now runId reason S) = load x S \<and> load x (markDrifted now runId reason S) = load x S" if "x \<noteq> runId"
    using that by (auto simp: load_def findRow_save findRow_markLost findRow_markDrifted dest: findRow_in split: option.splits)
  show ?thesis using saved lost drifted other by blast
qed

text \<open>The sweep deletes exactly the rows that are not live, are older than the bound and that no standing head names;
  every other run's row, and the Machine kept for it, stay.\<close>

theorem sweep_spares_live_and_standing:
  assumes "snapReach S" and "sweep olderThan S = (S', gone)"
  shows "(\<forall>runId. runId \<in> set gone \<longleftrightarrow> (\<exists>r u. findRow runId S = Some r \<and> sr_status r \<noteq> ''live'' \<and> sr_updated_at r = Some u
            \<and> u < olderThan \<and> runId \<notin> sh_run ` set (ss_standing S)))
    \<and> (\<forall>runId r. findRow runId S = Some r \<and> runId \<notin> set gone \<longrightarrow>
         findRow runId S' = Some r \<and> keptMachine runId S' = keptMachine runId S)"
proof -
  have d: "distinct (map sr_run_id (ss_rows S))" using wfSnap_reach [OF assms(1)] by (simp add: wfSnap_def)
  have S': "S' = fst (sweep olderThan S)" by (simp add: assms(2))
  have "gone = snd (sweep olderThan S)" by (simp add: assms(2))
  then have gone: "set gone = sr_run_id ` {r \<in> set (ss_rows S). swept olderThan S r}" by (simp add: sweep_def Let_def)
  have row: "findRow (sr_run_id r) S = Some r" if "r \<in> set (ss_rows S)" for r
    unfolding findRow_def using d that by (rule find_distinct)
  have in_gone: "runId \<in> set gone \<longleftrightarrow> (\<exists>r. findRow runId S = Some r \<and> swept olderThan S r)" for runId
    using row findRow_in by (fastforce simp: gone)
  have "findRow runId S' = Some r \<and> keptMachine runId S' = keptMachine runId S"
    if r: "findRow runId S = Some r" "runId \<notin> set gone" for runId r
  proof -
    have "\<not> swept olderThan S r" using r in_gone by auto
    then have row': "findRow runId S' = Some r" using findRow_sweep r(1) by (simp add: S')
    moreover have "map_of (ss_machines S') k = map_of (ss_machines S) k" if "sr_machine_key r = Some k" for k
    proof -
      have keep: "\<exists>r\<in>set (ss_rows S'). sr_machine_key r = Some k" using findRow_in [OF row'] that by blast
      have "map_of (filter (\<lambda>(k, _). Q k) ms) k = map_of ms k" if "Q k" for Q and ms :: "(string \<times> Json) list"
        using that by (induction ms) auto
      then show ?thesis using keep by (simp add: S' sweep_def Let_def)
    qed
    ultimately show ?thesis using r(1) by (simp add: keptMachine_def split: option.splits)
  qed
  moreover have "swept olderThan S r \<longleftrightarrow> (\<exists>u. sr_status r \<noteq> ''live'' \<and> sr_updated_at r = Some u \<and> u < olderThan
      \<and> sr_run_id r \<notin> sh_run ` set (ss_standing S))" for r
    by (auto simp: swept_def split: option.splits)
  then have "(runId \<in> set gone) = (\<exists>r u. findRow runId S = Some r \<and> sr_status r \<noteq> ''live'' \<and> sr_updated_at r = Some u
      \<and> u < olderThan \<and> runId \<notin> sh_run ` set (ss_standing S))" for runId
    using in_gone [of runId] findRow_in [of runId S] by auto
  ultimately show ?thesis by blast
qed

theorem sweep_spares_live_and_standing_witness:
  "''run-1'' \<notin> set (snd (sweep ''2025'' exampleRuns)) \<and> findRow ''run-1'' (fst (sweep ''2025'' exampleRuns)) = findRow ''run-1'' exampleRuns"
proof -
  obtain S' gone where s: "sweep ''2025'' exampleRuns = (S', gone)" by (metis surj_pair)
  obtain r where r: "findRow ''run-1'' exampleRuns = Some r" "sr_status r = ''live''"
    by (simp add: exampleRuns_def findRow_save saveRow_def listingOf_def)
  then have "''run-1'' \<notin> set gone" using sweep_spares_live_and_standing [OF exampleRuns_reach s] by auto
  then show ?thesis using sweep_spares_live_and_standing [OF exampleRuns_reach s] r s by auto
qed



text \<open>The removal of orphans takes the conversations of the runs that the run store does not know, and no other: the prefix
  search with the run's own id finds that id first exactly when its row exists.\<close>

theorem orphan_conversations_deleted:
  assumes "wfStore C" and "deleteOrphanConversations (findIdsByPrefix S) C = (C', gone)"
  shows "set gone = {cr_run_id r |i r. rowOf i C = Some r \<and> findRow (cr_run_id r) S = None}
    \<and> (\<forall>i r. rowOf i C = Some r \<longrightarrow> rowOf i C' = (if findRow (cr_run_id r) S = None then None else Some r))"
  unfolding runs.deleteOrphans(1) [OF assms] runs.deleteOrphans(2) [OF assms] image_minus_known
  by (simp add: findRow_None)

theorem orphan_conversations_deleted_witness:
  "snd (deleteOrphanConversations (findIdsByPrefix exampleRuns) exampleStore) = []"
proof -
  obtain C' gone where g: "deleteOrphanConversations (findIdsByPrefix exampleRuns) exampleStore = (C', gone)" by (metis surj_pair)
  have "set gone = {cr_run_id r |i r. rowOf i exampleStore = Some r \<and> findRow (cr_run_id r) exampleRuns = None}"
    using orphan_conversations_deleted [OF wfStore_reach [OF exampleStore_reach] g] by blast
  then show ?thesis using g by (simp add: exampleStore_def newStore_def rowOf_def)
qed

text \<open>C25. A Hook's delivery runs the fan-in once: after a claim, a delivery of the same Hook with the same id or the same digest is
  a repeat, whatever is written in between, until the log is swept or the line is finished as one that does not count
  (a full hold, no live run); once it is, the delivery can be claimed again.\<close>

theorem hook_claimed_once:
  assumes "snapReach S" and "claimHookDelivery now hook delivery digest S = (S1, Some n)"
  shows "(\<forall>ops d g now'. (\<forall>op\<in>set ops. keepsClaim n op) \<and> (d = delivery \<or> g = digest) \<longrightarrow>
           claimHookDelivery now' hook d g (fold applySnap ops S1) = (fold applySnap ops S1, None))
    \<and> (\<forall>line. hl_kind line \<notin> set CLAIMED_KINDS \<longrightarrow>
           snd (claimHookDelivery now' hook delivery digest (writeHookLine line (Some n) S1)) \<noteq> None)"
proof (intro conjI allI impI)
  show "claimHookDelivery now' hook d g (fold applySnap ops S1) = (fold applySnap ops S1, None)"
    if "(\<forall>op\<in>set ops. keepsClaim n op) \<and> (d = delivery \<or> g = digest)" for ops d g now'
    using holdsClaim_repeat [OF holdsClaim_fold [OF claim_holds [OF assms(2)]]] that by simp
  show "snd (claimHookDelivery now' hook delivery digest (writeHookLine line (Some n) S1)) \<noteq> None"
    if "hl_kind line \<notin> set CLAIMED_KINDS" for line
    using claim_released [OF wfSnap_reach [OF assms(1)] assms(2) that] .
qed

theorem hook_claimed_once_witness:
  "claimHookDelivery ''t'' ''h'' ''other'' ''g'' (fst (claimHookDelivery ''t'' ''h'' ''d'' ''g'' exampleRuns))
    = (fst (claimHookDelivery ''t'' ''h'' ''d'' ''g'' exampleRuns), None)"
proof -
  have c: "claimHookDelivery ''t'' ''h'' ''d'' ''g'' exampleRuns
      = (fst (claimHookDelivery ''t'' ''h'' ''d'' ''g'' exampleRuns), Some 1)"
    by (simp add: claimHookDelivery_def exampleRuns_def save_def emptySnapshots_def Let_def)
  from conjunct1 [OF hook_claimed_once [OF exampleRuns_reach c]] have
    "claimHookDelivery ''t'' ''h'' ''other'' ''g'' (fold applySnap [] (fst (claimHookDelivery ''t'' ''h'' ''d'' ''g'' exampleRuns)))
      = (fold applySnap [] (fst (claimHookDelivery ''t'' ''h'' ''d'' ''g'' exampleRuns)), None)" by (metis empty_iff list.set(1))
  then show ?thesis by simp
qed

end
