(* ===== verification/Tokens.thy ===== *)
theory Tokens
  imports Snapshot_Store "HOL-Library.Word"
begin

text \<open>
  Who a request is, \<^verbatim>\<open>packages/orchestrator/src/tokens.ts\<close>, and the JWT issuers of \<^verbatim>\<open>callers.ts\<close>: the scopes of a
  Caller, the ordered seam of authenticators, the signed names of the pods, the digests of the named tokens, and the
  checks that a route makes of a principal.

  A text is the list of its characters, with codes below 256, which are the values of an HTTP header; \<^verbatim>\<open>Buffer.from\<close> is
  injective on such texts, so \<^verbatim>\<open>constantTimeEqual\<close> is equality. The hashes of \<^verbatim>\<open>node:crypto\<close> and the two functions of the
  package \<^verbatim>\<open>jose\<close> are parameters: \<open>hmac\<close> and \<open>sha256\<close> give the bytes of a digest, \<open>decodeJwt\<close> the payload of a text in the
  form of a JWT, and \<open>jwtVerify\<close> the payload that verified against the keys of an issuer, or the error. What a proof
  relies on is that an HMAC-SHA256 has 32 bytes.
\<close>

section \<open>Text\<close>

definition indexOf :: "char \<Rightarrow> string \<Rightarrow> int" where
  "indexOf c s = (if c \<in> set s then int (length (takeWhile (\<lambda>d. d \<noteq> c) s)) else -1)"

definition lastIndexOf :: "char \<Rightarrow> string \<Rightarrow> int" where
  "lastIndexOf c s = (if c \<in> set s then int (length s) - 1 - int (length (takeWhile (\<lambda>d. d \<noteq> c) (rev s))) else -1)"

text \<open>\<^verbatim>\<open>digest("base64url")\<close> and \<^verbatim>\<open>digest("hex")\<close>.\<close>

definition base64Digit :: "nat \<Rightarrow> char" where
  "base64Digit n =
     (if n < 26 then char_of (65 + n) else if n < 52 then char_of (71 + n) else if n < 62 then char_of (n - 4)
      else if n = 62 then CHR ''-'' else CHR ''_'')"

fun base64url :: "8 word list \<Rightarrow> string" where
  "base64url [] = []"
| "base64url [a] = [base64Digit (unat a div 4), base64Digit (unat a mod 4 * 16)]"
| "base64url [a, b] =
     [base64Digit (unat a div 4), base64Digit (unat a mod 4 * 16 + unat b div 16), base64Digit (unat b mod 16 * 4)]"
| "base64url (a # b # c # bytes) =
     [base64Digit (unat a div 4), base64Digit (unat a mod 4 * 16 + unat b div 16),
      base64Digit (unat b mod 16 * 4 + unat c div 64), base64Digit (unat c mod 64)] @ base64url bytes"

definition hexChar :: "nat \<Rightarrow> char" where
  "hexChar n = char_of (if n < 10 then 48 + n else 87 + n)"

definition hexOf :: "8 word list \<Rightarrow> string" where
  "hexOf bytes = concat (map (\<lambda>b. [hexChar (unat b div 16), hexChar (unat b mod 16)]) bytes)"

text \<open>\<^verbatim>\<open>JSON.stringify\<close> of a text.\<close>

definition jsonEscape :: "char \<Rightarrow> string" where
  "jsonEscape c =
     (let n = of_char c :: nat in
      if n = 34 then [CHR 0x5C, CHR 0x22]
      else if n = 92 then [CHR 0x5C, CHR 0x5C]
      else if n = 8 then [CHR 0x5C, CHR ''b''] else if n = 9 then [CHR 0x5C, CHR ''t'']
      else if n = 10 then [CHR 0x5C, CHR ''n''] else if n = 12 then [CHR 0x5C, CHR ''f'']
      else if n = 13 then [CHR 0x5C, CHR ''r'']
      else if n < 32 then CHR 0x5C # ''u00'' @ [hexChar (n div 16), hexChar (n mod 16)]
      else [c])"

definition jsonQuote :: "string \<Rightarrow> string" where
  "jsonQuote s = [CHR 0x22] @ concat (map jsonEscape s) @ [CHR 0x22]"

fun jsonItems :: "string list \<Rightarrow> string" where
  "jsonItems [] = []"
| "jsonItems [x] = x"
| "jsonItems (x # xs) = x @ '','' @ jsonItems xs"

definition jsonArray :: "string list \<Rightarrow> string" where
  "jsonArray xs = ''['' @ jsonItems xs @ '']''"

section \<open>Scopes\<close>

datatype GrantItem = WorkflowName string | GateGrant string "string list"

datatype AnswerGrant = All | Listed "GrantItem list"

datatype Scope = Start | Answer | Cancel | Read | Steer

definition SCOPES :: "Scope list" where
  "SCOPES = [Start, Answer, Cancel, Read, Steer]"

text \<open>The record of the scopes that a config or a Caller has: \<open>None\<close> is a scope that is absent.\<close>

record Scopes =
  may_start :: "AnswerGrant option"
  may_answer :: "AnswerGrant option"
  may_cancel :: "AnswerGrant option"
  may_read :: "AnswerGrant option"
  may_steer :: "AnswerGrant option"

fun mayOf :: "Scopes \<Rightarrow> Scope \<Rightarrow> AnswerGrant option" where
  "mayOf m Start = may_start m"
| "mayOf m Answer = may_answer m"
| "mayOf m Cancel = may_cancel m"
| "mayOf m Read = may_read m"
| "mayOf m Steer = may_steer m"

datatype Via = ViaToken | ViaJwt | ViaHook

record Caller =
  ca_via :: Via
  ca_name :: string
  ca_shown :: "string option"
  ca_may :: Scopes
  ca_onBehalfOf :: "string option"

definition CALLER_TOKEN_PREFIX :: string where
  "CALLER_TOKEN_PREFIX = ''jr2c_''"

definition EVERY_SCOPE :: Scopes where
  "EVERY_SCOPE = \<lparr>may_start = Some All, may_answer = Some All, may_cancel = Some All, may_read = Some All, may_steer = Some All\<rparr>"

definition instanceCaller :: Caller where
  "instanceCaller = \<lparr>ca_via = ViaToken, ca_name = ''instance'', ca_shown = None, ca_may = EVERY_SCOPE, ca_onBehalfOf = None\<rparr>"

definition isInstanceCaller :: "Caller \<Rightarrow> bool" where
  "isInstanceCaller c \<longleftrightarrow> ca_via c = ViaToken \<and> ca_name c = ''instance''"

definition nameOpens :: "string \<Rightarrow> string \<Rightarrow> bool" where
  "nameOpens name workflow \<longleftrightarrow>
     name = workflow \<or> (let slash = indexOf CHR ''/'' workflow in slash > 0 \<and> name = take (nat slash) workflow)"

fun itemWorkflow :: "GrantItem \<Rightarrow> string" where
  "itemWorkflow (WorkflowName w) = w"
| "itemWorkflow (GateGrant w gates) = w"

fun grantOpens :: "AnswerGrant option \<Rightarrow> string \<Rightarrow> bool" where
  "grantOpens None workflow = False"
| "grantOpens (Some All) workflow = True"
| "grantOpens (Some (Listed items)) workflow = list_ex (\<lambda>item. nameOpens (itemWorkflow item) workflow) items"

fun itemOpensGate :: "string \<Rightarrow> string \<Rightarrow> GrantItem \<Rightarrow> bool" where
  "itemOpensGate workflow gate (WorkflowName w) = nameOpens w workflow"
| "itemOpensGate workflow gate (GateGrant w gates) = (nameOpens w workflow \<and> gate \<in> set gates)"

fun grantOpensGate :: "AnswerGrant option \<Rightarrow> string \<Rightarrow> string \<Rightarrow> bool" where
  "grantOpensGate None workflow gate = False"
| "grantOpensGate (Some All) workflow gate = True"
| "grantOpensGate (Some (Listed items)) workflow gate = list_ex (itemOpensGate workflow gate) items"

definition callerMay :: "Caller \<Rightarrow> Scope \<Rightarrow> string \<Rightarrow> bool" where
  "callerMay c scope workflow = grantOpens (mayOf (ca_may c) scope) workflow"

definition callerMayAnswer :: "Caller \<Rightarrow> string \<Rightarrow> string \<Rightarrow> bool" where
  "callerMayAnswer c workflow gate = grantOpensGate (may_answer (ca_may c)) workflow gate"

definition callerHasScope :: "Caller \<Rightarrow> Scope \<Rightarrow> bool" where
  "callerHasScope c scope \<longleftrightarrow>
     (case mayOf (ca_may c) scope of None \<Rightarrow> False | Some All \<Rightarrow> True | Some (Listed items) \<Rightarrow> length items > 0)"

definition callerMayAny :: "Caller \<Rightarrow> string \<Rightarrow> bool" where
  "callerMayAny c workflow = list_ex (\<lambda>s. callerMay c s workflow) SCOPES"

section \<open>The authenticators of the seam\<close>

datatype CallerAnswer = Made Caller | Refused string | NotMine

definition constantTimeEqual :: "string \<Rightarrow> string \<Rightarrow> bool" where
  "constantTimeEqual a b \<longleftrightarrow> length a = length b \<and> list_all2 (=) a b"

definition instanceTokenAuthenticator :: "string \<Rightarrow> string \<Rightarrow> CallerAnswer" where
  "instanceTokenAuthenticator instanceToken bearer =
     (if constantTimeEqual bearer instanceToken then Made instanceCaller else NotMine)"

record NamedToken =
  nt_name :: string
  nt_digest :: string
  nt_may :: Scopes

definition callerTokenDigest :: "(string \<Rightarrow> 8 word list) \<Rightarrow> string \<Rightarrow> string" where
  "callerTokenDigest sha256 token = hexOf (sha256 token)"

definition mintCallerToken :: "8 word list \<Rightarrow> string" where
  "mintCallerToken random = CALLER_TOKEN_PREFIX @ base64url random"

text \<open>The loop over the entries does not stop at a match: the last entry with the digest is the one found.\<close>

definition foundToken :: "string \<Rightarrow> NamedToken list \<Rightarrow> NamedToken option" where
  "foundToken digest tokens = fold (\<lambda>entry found. if constantTimeEqual digest (nt_digest entry) then Some entry else found) tokens None"

definition namedTokenAuthenticator :: "(string \<Rightarrow> 8 word list) \<Rightarrow> NamedToken list \<Rightarrow> string \<Rightarrow> CallerAnswer" where
  "namedTokenAuthenticator sha256 tokens bearer =
     (if \<not> startsWith bearer CALLER_TOKEN_PREFIX then NotMine
      else case foundToken (callerTokenDigest sha256 bearer) tokens of
             None \<Rightarrow> Refused ''no named Caller token has this value''
           | Some entry \<Rightarrow> Made \<lparr>ca_via = ViaToken, ca_name = nt_name entry, ca_shown = None, ca_may = nt_may entry, ca_onBehalfOf = None\<rparr>)"

definition namedTokens :: "(string \<times> Scopes) list option \<Rightarrow> (string \<times> string) list \<Rightarrow> NamedToken list" where
  "namedTokens declared digests =
     concat (map (\<lambda>(name, may). case map_of digests name of
         None \<Rightarrow> []
       | Some digest \<Rightarrow> if digest = [] then [] else [\<lparr>nt_name = name, nt_digest = digest, nt_may = may\<rparr>])
       (case declared of None \<Rightarrow> [] | Some d \<Rightarrow> d))"

section \<open>The digests of the named tokens\<close>

text \<open>What a read of the mounted file finds: no file, a file that it cannot read, or a text, with what \<^verbatim>\<open>JSON.parse\<close> makes of it.\<close>

datatype DigestFile = NoFile | UnreadableFile | FileText string SnapText

record CallerDigests =
  cd_digests :: "(string \<times> string) list"
  cd_text :: "string option"

fun textFields :: "(string \<times> Json) list \<Rightarrow> (string \<times> string) list" where
  "textFields [] = []"
| "textFields ((k, JStr s) # kvs) = (k, s) # textFields kvs"
| "textFields (kv # kvs) = textFields kvs"

fun readDigests :: "DigestFile \<Rightarrow> CallerDigests \<Rightarrow> CallerDigests" where
  "readDigests NoFile d = \<lparr>cd_digests = [], cd_text = None\<rparr>"
| "readDigests (FileText raw (Parses (JObj kvs))) d = \<lparr>cd_digests = textFields kvs, cd_text = Some raw\<rparr>"
| "readDigests _ d = d"

definition watchCallerDigests :: "DigestFile list \<Rightarrow> CallerDigests" where
  "watchCallerDigests reads = fold readDigests reads \<lparr>cd_digests = [], cd_text = None\<rparr>"

text \<open>\<^verbatim>\<open>configMapDigest\<close> of \<^verbatim>\<open>mount-digest.ts\<close>, on the data as its key-value pairs (each key once), and \<^verbatim>\<open>loaded\<close>.\<close>

definition configMapDigest :: "(string \<Rightarrow> 8 word list) \<Rightarrow> (string \<times> string) list \<Rightarrow> string" where
  "configMapDigest sha256 kvs =
     take 16 (hexOf (sha256 (jsonArray (map (\<lambda>(k, v). jsonArray [jsonQuote k, jsonQuote v]) (sort_key fst kvs)))))"

definition loaded :: "(string \<Rightarrow> 8 word list) \<Rightarrow> string \<Rightarrow> CallerDigests \<Rightarrow> string option" where
  "loaded sha256 file d = map_option (\<lambda>t. configMapDigest sha256 [(file, t)]) (cd_text d)"

section \<open>Signed names\<close>

definition sign :: "('k \<Rightarrow> string \<Rightarrow> 8 word list) \<Rightarrow> 'k \<Rightarrow> string \<Rightarrow> string" where
  "sign hmac key v = base64url (hmac key v)"

definition sandboxToken :: "('k \<Rightarrow> string \<Rightarrow> 8 word list) \<Rightarrow> 'k \<Rightarrow> string \<Rightarrow> string" where
  "sandboxToken hmac key sandbox = sandbox @ ''.'' @ sign hmac key sandbox"

definition CONTROL_PREFIX :: string where
  "CONTROL_PREFIX = ''agent:''"

definition controlToken :: "('k \<Rightarrow> string \<Rightarrow> 8 word list) \<Rightarrow> 'k \<Rightarrow> string \<Rightarrow> string" where
  "controlToken hmac key pod = (let name = CONTROL_PREFIX @ pod in name @ ''.'' @ sign hmac key name)"

definition controlStandIn :: "('k \<Rightarrow> string \<Rightarrow> 8 word list) \<Rightarrow> 'k \<Rightarrow> string \<Rightarrow> string" where
  "controlStandIn hmac key pod = sign hmac key (''control-standin:'' @ pod)"

definition harnessToken :: "('k \<Rightarrow> string \<Rightarrow> 8 word list) \<Rightarrow> 'k \<Rightarrow> string \<Rightarrow> string" where
  "harnessToken hmac key placement = sign hmac key (''harness:'' @ placement)"

definition harnessTokenDigest :: "('k \<Rightarrow> string \<Rightarrow> 8 word list) \<Rightarrow> (string \<Rightarrow> 8 word list) \<Rightarrow> 'k \<Rightarrow> string \<Rightarrow> string" where
  "harnessTokenDigest hmac sha256 key placement = base64url (sha256 (harnessToken hmac key placement))"

definition effectorKey :: "('k \<Rightarrow> string \<Rightarrow> 8 word list) \<Rightarrow> 'k \<Rightarrow> string \<Rightarrow> string" where
  "effectorKey hmac key placement = sign hmac key (''effector:'' @ placement)"

definition mintInstanceToken :: "8 word list \<Rightarrow> string" where
  "mintInstanceToken random = base64url random"

text \<open>\<^verbatim>\<open>/^[a-z0-9]([-a-z0-9.]*[a-z0-9])?$/\<close>.\<close>

definition podEdge :: "char \<Rightarrow> bool" where
  "podEdge c \<longleftrightarrow> (CHR ''a'' \<le> c \<and> c \<le> CHR ''z'') \<or> (CHR ''0'' \<le> c \<and> c \<le> CHR ''9'')"

definition isPodName :: "string \<Rightarrow> bool" where
  "isPodName name \<longleftrightarrow> name \<noteq> [] \<and> podEdge (hd name) \<and> podEdge (last name)
     \<and> list_all (\<lambda>c. podEdge c \<or> c = CHR ''-'' \<or> c = CHR ''.'') name"

section \<open>The JWT issuers\<close>

text \<open>\<^verbatim>\<open>callers.ts\<close>. The scopes of the groups of a JWT, joined: \<open>itemKey\<close> is the text under which \<^verbatim>\<open>joinItems\<close> remembers an item.\<close>

definition itemKey :: "GrantItem \<Rightarrow> string" where
  "itemKey item = (case item of
       WorkflowName w \<Rightarrow> w
     | GateGrant w gates \<Rightarrow> jsonArray [jsonQuote w, jsonArray (map jsonQuote (sort gates))])"

fun joinLoop :: "string list \<Rightarrow> GrantItem list \<Rightarrow> GrantItem list" where
  "joinLoop seen [] = []"
| "joinLoop seen (item # items) =
     (if itemKey item \<in> set seen then joinLoop seen items else item # joinLoop (itemKey item # seen) items)"

definition joinItems :: "GrantItem list \<Rightarrow> GrantItem list \<Rightarrow> GrantItem list" where
  "joinItems a b = joinLoop [] (a @ b)"

fun joinGrant :: "AnswerGrant option \<Rightarrow> AnswerGrant option \<Rightarrow> AnswerGrant option" where
  "joinGrant joined None = joined"
| "joinGrant joined (Some All) = Some All"
| "joinGrant (Some All) (Some g) = Some All"
| "joinGrant None (Some (Listed items)) = Some (Listed (joinItems [] items))"
| "joinGrant (Some (Listed joined)) (Some (Listed items)) = Some (Listed (joinItems joined items))"

definition joinScope :: "Scopes list \<Rightarrow> Scope \<Rightarrow> AnswerGrant option" where
  "joinScope grants scope = fold (\<lambda>may joined. joinGrant joined (mayOf may scope)) grants None"

definition joinScopes :: "Scopes list \<Rightarrow> Scopes" where
  "joinScopes grants = \<lparr>may_start = joinScope grants Start, may_answer = joinScope grants Answer,
     may_cancel = joinScope grants Cancel, may_read = joinScope grants Read, may_steer = joinScope grants Steer\<rparr>"

record JwtIssuer =
  ji_issuer :: string
  ji_audience :: string
  ji_jwks :: "string option"
  ji_nameClaim :: "string option"
  ji_shownClaim :: "string option"
  ji_groupsClaim :: "string option"
  ji_groups :: "(string \<times> Scopes) list"

fun textItems :: "Json list \<Rightarrow> string list" where
  "textItems [] = []"
| "textItems (JStr s # vs) = s # textItems vs"
| "textItems (v # vs) = textItems vs"

fun valuesOf :: "Json option \<Rightarrow> string list" where
  "valuesOf (Some (JStr s)) = [s]"
| "valuesOf (Some (JArr vs)) = textItems vs"
| "valuesOf _ = []"

definition claimName :: "string option \<Rightarrow> string \<Rightarrow> string" where
  "claimName own usual = (case own of None \<Rightarrow> usual | Some c \<Rightarrow> c)"

definition jwtCaller :: "JwtIssuer \<Rightarrow> Json \<Rightarrow> CallerAnswer" where
  "jwtCaller issuer payload =
     (case textOf (field (claimName (ji_nameClaim issuer) ''sub'') payload) of
        None \<Rightarrow> Refused ''no claim names its Caller''
      | Some name \<Rightarrow>
          if name = [] then Refused ''no claim names its Caller''
          else Made \<lparr>ca_via = ViaJwt, ca_name = name,
            ca_shown = (case textOf (field (claimName (ji_shownClaim issuer) ''email'') payload) of
                None \<Rightarrow> None
              | Some shown \<Rightarrow> if shown \<noteq> [] \<and> shown \<noteq> name then Some shown else None),
            ca_may = joinScopes (List.map_filter (map_of (ji_groups issuer))
                (valuesOf (field (claimName (ji_groupsClaim issuer) ''groups'') payload))),
            ca_onBehalfOf = None\<rparr>)"

definition jwtAuthenticator ::
  "(string \<Rightarrow> Json option) \<Rightarrow> (JwtIssuer \<Rightarrow> string \<Rightarrow> string + Json) \<Rightarrow> JwtIssuer list \<Rightarrow> string \<Rightarrow> CallerAnswer" where
  "jwtAuthenticator decodeJwt jwtVerify issuers bearer =
     (if length (filter (\<lambda>c. c = CHR ''.'') bearer) \<noteq> 2 then NotMine
      else case decodeJwt bearer of
             None \<Rightarrow> NotMine
           | Some unverified \<Rightarrow>
             (case find (\<lambda>i. field ''iss'' unverified = Some (JStr (ji_issuer i))) issuers of
                None \<Rightarrow> NotMine
              | Some issuer \<Rightarrow>
                (case jwtVerify issuer bearer of
                   Inl err \<Rightarrow> Refused err
                 | Inr payload \<Rightarrow> jwtCaller issuer payload)))"

section \<open>The authenticator\<close>

datatype Principal = CallerPrincipal Caller | Publisher | SandboxPrincipal string | AgentPrincipal string string

record 'k AuthOptions =
  instanceToken :: string
  signingKey :: 'k
  publishToken :: "string option"
  namedTokensNow :: "NamedToken list option"
  callers :: "(string \<Rightarrow> CallerAnswer) list"

definition seamOf :: "(string \<Rightarrow> 8 word list) \<Rightarrow> 'k AuthOptions \<Rightarrow> (string \<Rightarrow> CallerAnswer) list" where
  "seamOf sha256 opts =
     [instanceTokenAuthenticator (instanceToken opts)]
     @ (case namedTokensNow opts of None \<Rightarrow> [] | Some tokens \<Rightarrow> [namedTokenAuthenticator sha256 tokens])
     @ callers opts"

fun callerSeam :: "(string \<Rightarrow> CallerAnswer) list \<Rightarrow> string \<Rightarrow> Principal option" where
  "callerSeam [] bearer = None"
| "callerSeam (authenticate # seam) bearer =
     (case authenticate bearer of
        NotMine \<Rightarrow> callerSeam seam bearer
      | Refused _ \<Rightarrow> None
      | Made c \<Rightarrow> Some (CallerPrincipal c))"

definition authenticatePrincipal ::
  "('k \<Rightarrow> string \<Rightarrow> 8 word list) \<Rightarrow> (string \<Rightarrow> 8 word list) \<Rightarrow> 'k AuthOptions \<Rightarrow> string option \<Rightarrow> string option \<Rightarrow> Principal option" where
  "authenticatePrincipal hmac sha256 opts bearer' slot' =
     (case bearer' of None \<Rightarrow> None
      | Some bearer \<Rightarrow>
        if bearer = [] then None
        else if (case publishToken opts of None \<Rightarrow> False | Some p \<Rightarrow> constantTimeEqual bearer p) then Some Publisher
        else let dot = lastIndexOf CHR ''.'' bearer; seam = seamOf sha256 opts in
          if dot \<le> 0 then callerSeam seam bearer
          else let name = take (nat dot) bearer in
            if \<not> constantTimeEqual (List.drop (nat dot + 1) bearer) (sign hmac (signingKey opts) name) then callerSeam seam bearer
            else if startsWith name CONTROL_PREFIX then
              (let pod = List.drop (length CONTROL_PREFIX) name in
               case slot' of
                 None \<Rightarrow> None
               | Some slot \<Rightarrow> if \<not> isPodName pod \<or> slot = [] then None else Some (AgentPrincipal pod slot))
            else if \<not> isPodName name then None
            else Some (SandboxPrincipal name))"

section \<open>What a principal may do\<close>

definition isInstancePrincipal :: "Principal \<Rightarrow> bool" where
  "isInstancePrincipal p \<longleftrightarrow> (case p of CallerPrincipal c \<Rightarrow> isInstanceCaller c | _ \<Rightarrow> False)"

definition mayDeliverToAgent :: "Principal \<Rightarrow> string option \<Rightarrow> string option \<Rightarrow> bool" where
  "mayDeliverToAgent p sandbox slot \<longleftrightarrow>
     isInstancePrincipal p \<or> (case p of AgentPrincipal pod s \<Rightarrow> sandbox = Some pod \<and> slot = Some s | _ \<Rightarrow> False)"

definition mayAskForSandbox :: "Principal \<Rightarrow> string \<Rightarrow> bool" where
  "mayAskForSandbox p sandbox \<longleftrightarrow>
     isInstancePrincipal p \<or> (case p of SandboxPrincipal s \<Rightarrow> s = sandbox | _ \<Rightarrow> False)"

section \<open>Text and signatures\<close>

lemma constantTimeEqual_iff [simp]: "constantTimeEqual a b \<longleftrightarrow> a = b"
  by (auto simp: constantTimeEqual_def list_all2_eq [symmetric])

lemma lastIndexOf_last: "c \<notin> set y \<Longrightarrow> lastIndexOf c (x @ c # y) = int (length x)"
proof -
  assume "c \<notin> set y"
  then have "takeWhile (\<lambda>d. d \<noteq> c) (rev (x @ c # y)) = rev y"
    using takeWhile_append_all [of "rev y" "\<lambda>d. d \<noteq> c" "c # rev x"] by auto
  then show ?thesis by (simp add: lastIndexOf_def)
qed

lemma lastIndexOf_pos:
  assumes "lastIndexOf c s > 0"
  shows "\<exists>x y. s = x @ c # y \<and> x \<noteq> [] \<and> c \<notin> set y \<and> nat (lastIndexOf c s) = length x"
proof -
  have "c \<in> set s" using assms by (auto simp: lastIndexOf_def split: if_splits)
  then obtain x y where s: "s = x @ c # y" "c \<notin> set y" by (meson split_list_last)
  then show ?thesis using assms lastIndexOf_last [of c y x] by auto
qed

lemma base64Digit_no_dot: "base64Digit n \<noteq> CHR ''.''"
proof -
  have "char_of (65 + n) \<noteq> CHR ''.''" if "n < 26"
  proof
    assume "char_of (65 + n) = CHR ''.''"
    then have "of_char (char_of (65 + n) :: char) = (46 :: nat)" by simp
    then show False using that by simp
  qed
  moreover have "char_of (71 + n) \<noteq> CHR ''.''" if "n < 52"
  proof
    assume "char_of (71 + n) = CHR ''.''"
    then have "of_char (char_of (71 + n) :: char) = (46 :: nat)" by simp
    then show False using that by simp
  qed
  moreover have "char_of (n - 4) \<noteq> CHR ''.''" if "52 \<le> n" "n < 62"
  proof
    assume "char_of (n - 4) = CHR ''.''"
    then have "of_char (char_of (n - 4) :: char) = (46 :: nat)" by simp
    then show False using that by simp
  qed
  ultimately show ?thesis by (simp add: base64Digit_def)
qed

lemma base64url_no_dot [simp]: "CHR ''.'' \<notin> set (base64url bytes)"
  by (induction bytes rule: base64url.induct) (simp_all add: base64Digit_no_dot [symmetric])

lemma sign_no_dot [simp]: "CHR ''.'' \<notin> set (sign hmac key v)"
  by (simp add: sign_def)

lemma length_base64url: "length (base64url bytes) = (4 * length bytes + 2) div 3"
  by (induction bytes rule: base64url.induct) simp_all

section \<open>Reading a signed name\<close>

abbreviation signedName :: "('k \<Rightarrow> string \<Rightarrow> 8 word list) \<Rightarrow> 'k \<Rightarrow> string \<Rightarrow> string" where
  "signedName hmac key name \<equiv> name @ ''.'' @ sign hmac key name"

lemma authenticate_signed:
  assumes "name \<noteq> []" and "publishToken opts \<noteq> Some (signedName hmac (signingKey opts) name)"
  shows "authenticatePrincipal hmac sha256 opts (Some (signedName hmac (signingKey opts) name)) slot' =
    (if startsWith name CONTROL_PREFIX then
       (let pod = List.drop (length CONTROL_PREFIX) name in
        case slot' of None \<Rightarrow> None
        | Some slot \<Rightarrow> if \<not> isPodName pod \<or> slot = [] then None else Some (AgentPrincipal pod slot))
     else if \<not> isPodName name then None else Some (SandboxPrincipal name))"
proof -
  have "lastIndexOf CHR ''.'' (signedName hmac (signingKey opts) name) = int (length name)"
    using lastIndexOf_last [of "CHR ''.''" "sign hmac (signingKey opts) name" name] by simp
  then show ?thesis using assms by (auto simp: authenticatePrincipal_def Let_def split: option.splits)
qed

text \<open>The bearers that the principals inside the Orchestrator do not claim go to the seam.\<close>

lemma authenticate_seam:
  assumes "b \<noteq> []" and "publishToken opts \<noteq> Some b" and "\<And>name. name \<noteq> [] \<Longrightarrow> b \<noteq> signedName hmac (signingKey opts) name"
  shows "authenticatePrincipal hmac sha256 opts (Some b) slot' = callerSeam (seamOf sha256 opts) b"
proof (cases "lastIndexOf CHR ''.'' b > 0")
  case True
  then obtain x y where b: "b = x @ CHR ''.'' # y" "x \<noteq> []" "nat (lastIndexOf CHR ''.'' b) = length x"
    using lastIndexOf_pos by blast
  then have "y \<noteq> sign hmac (signingKey opts) x" using assms(3) [of x] by auto
  then show ?thesis using assms True b
    by (auto simp: authenticatePrincipal_def Let_def simp del: nat_eq_iff split: option.splits)
qed (use assms in \<open>auto simp: authenticatePrincipal_def Let_def split: option.splits\<close>)

lemma callerSeam_caller: "callerSeam seam b = Some p \<Longrightarrow> \<exists>c. p = CallerPrincipal c"
  by (induction seam) (auto split: CallerAnswer.splits)

lemma startsWith_append [simp]: "startsWith (p @ s) p"
  by (simp add: startsWith_def)

lemma startsWithE: "startsWith s p \<Longrightarrow> s = p @ List.drop (length p) s"
  by (metis append_take_drop_id startsWith_def)

lemma isPodName_no_colon: "isPodName name \<Longrightarrow> CHR '':'' \<notin> set name"
  by (auto simp: isPodName_def list_all_iff podEdge_def)

lemma isPodName_not_control: "isPodName name \<Longrightarrow> \<not> startsWith name CONTROL_PREFIX"
proof
  assume "isPodName name" and "startsWith name CONTROL_PREFIX"
  then have "set CONTROL_PREFIX \<subseteq> set name" by (metis startsWithE set_append Un_upper1)
  then show False using isPodName_no_colon [OF \<open>isPodName name\<close>] by (simp add: CONTROL_PREFIX_def)
qed

lemma isPodName_nonempty: "isPodName name \<Longrightarrow> name \<noteq> []"
  by (simp add: isPodName_def)

text \<open>What a bearer that authenticates was.\<close>

lemma authenticate_cases:
  assumes "authenticatePrincipal hmac sha256 opts (Some b) slot' = Some p"
  shows "(p = Publisher \<and> publishToken opts = Some b)
    \<or> (\<exists>pod s. p = AgentPrincipal pod s \<and> slot' = Some s \<and> s \<noteq> [] \<and> isPodName pod \<and> b = controlToken hmac (signingKey opts) pod)
    \<or> (\<exists>pod. p = SandboxPrincipal pod \<and> isPodName pod \<and> b = sandboxToken hmac (signingKey opts) pod)
    \<or> (\<exists>c. p = CallerPrincipal c \<and> callerSeam (seamOf sha256 opts) b = Some p)"
proof (cases "publishToken opts = Some b \<or> b = []")
  case True
  then show ?thesis using assms by (auto simp: authenticatePrincipal_def split: if_splits)
next
  case unclaimed: False
  show ?thesis
  proof (cases "\<exists>name. name \<noteq> [] \<and> b = signedName hmac (signingKey opts) name")
    case True
    then obtain name where name: "name \<noteq> []" "b = signedName hmac (signingKey opts) name" by blast
    have read: "(if startsWith name CONTROL_PREFIX then
       (let pod = List.drop (length CONTROL_PREFIX) name in
        case slot' of None \<Rightarrow> None
        | Some slot \<Rightarrow> if \<not> isPodName pod \<or> slot = [] then None else Some (AgentPrincipal pod slot))
     else if \<not> isPodName name then None else Some (SandboxPrincipal name)) = Some p"
      using assms unclaimed name authenticate_signed [OF name(1), of opts hmac sha256 slot'] by simp
    show ?thesis
    proof (cases "startsWith name CONTROL_PREFIX")
      case True
      then show ?thesis using read name(2) startsWithE [OF True]
        by (auto simp: controlToken_def Let_def split: option.splits if_splits)
    next
      case False
      then show ?thesis using read name(2) by (auto simp: sandboxToken_def split: if_splits)
    qed
  next
    case False
    have "authenticatePrincipal hmac sha256 opts (Some b) slot' = callerSeam (seamOf sha256 opts) b"
      by (rule authenticate_seam) (use unclaimed False in auto)
    then have "callerSeam (seamOf sha256 opts) b = Some p" using assms by simp
    then show ?thesis using callerSeam_caller by blast
  qed
qed

section \<open>JSON texts are read one way\<close>

lemma hexChar_inj: "hexChar a = hexChar b \<Longrightarrow> a < 16 \<Longrightarrow> b < 16 \<Longrightarrow> a = b"
proof -
  assume h: "hexChar a = hexChar b" and lt: "a < 16" "b < 16"
  have "of_char (hexChar k) = (if k < 10 then 48 + k else 87 + k :: nat)" if "k < 16" for k
    using that by (simp add: hexChar_def)
  then have "(if a < 10 then 48 + a else 87 + a :: nat) = (if b < 10 then 48 + b else 87 + b)" using h lt by metis
  then show "a = b" using lt by (auto split: if_splits)
qed

lemma of_char_eq: "of_char c = (n :: nat) \<Longrightarrow> of_char d = n \<Longrightarrow> c = d"
  by (metis of_char_eq_iff)

definition shortEscape :: "nat \<Rightarrow> string" where
  "shortEscape n =
     (if n = 34 then [CHR 0x22] else if n = 92 then [CHR 0x5C]
      else if n = 8 then ''b'' else if n = 9 then ''t'' else if n = 10 then ''n'' else if n = 12 then ''f'' else if n = 13 then ''r''
      else ''u00'' @ [hexChar (n div 16), hexChar (n mod 16)])"

lemma jsonEscape_alt:
  "jsonEscape c = (let n = of_char c in
     if n = 34 \<or> n = 92 \<or> n < 32 then CHR 0x5C # shortEscape n else [c])"
  by (simp add: jsonEscape_def shortEscape_def Let_def)

lemma hexChar2_inj:
  assumes "hexChar (n div 16) = hexChar (m div 16)" and "hexChar (n mod 16) = hexChar (m mod 16)" and "n < 256" and "m < 256"
  shows "n = m"
proof -
  have "n div 16 = m div 16" using hexChar_inj [OF assms(1)] assms(3,4) by simp
  moreover have "n mod 16 = m mod 16" using hexChar_inj [OF assms(2)] by simp
  ultimately show ?thesis by (metis div_mult_mod_eq)
qed

lemma shortEscape_inj:
  assumes "shortEscape n @ x = shortEscape m @ y" and "n < 256" and "m < 256"
  shows "n = m \<and> x = y"
proof -
  have vals: "shortEscape 34 = [CHR 0x22]" "shortEscape 92 = [CHR 0x5C]" "shortEscape 8 = ''b''" "shortEscape 9 = ''t''"
    "shortEscape 10 = ''n''" "shortEscape 12 = ''f''" "shortEscape 13 = ''r''"
    by (simp_all add: shortEscape_def)
  have long: "shortEscape k = CHR ''u'' # ''00'' @ [hexChar (k div 16), hexChar (k mod 16)]" if "k \<notin> {34, 92, 8, 9, 10, 12, 13}" for k
    using that by (simp add: shortEscape_def)
  show ?thesis
  proof (cases "n \<in> {34, 92, 8, 9, 10, 12, 13}"; cases "m \<in> {34, 92, 8, 9, 10, 12, 13}")
    assume "n \<notin> {34, 92, 8, 9, 10, 12, 13}" "m \<notin> {34, 92, 8, 9, 10, 12, 13}"
    then show ?thesis using assms long [of n] long [of m] hexChar2_inj [of n m] by simp
  next
    assume n: "n \<notin> {34, 92, 8, 9, 10, 12, 13}" and "m \<in> {34, 92, 8, 9, 10, 12, 13}"
    then show ?thesis using assms(1) unfolding long [OF n] by (elim insertE) (simp_all add: vals)
  next
    assume "n \<in> {34, 92, 8, 9, 10, 12, 13}" and m: "m \<notin> {34, 92, 8, 9, 10, 12, 13}"
    then show ?thesis using assms(1) unfolding long [OF m] by (elim insertE) (simp_all add: vals)
  next
    assume "n \<in> {34, 92, 8, 9, 10, 12, 13}" and "m \<in> {34, 92, 8, 9, 10, 12, 13}"
    then show ?thesis using assms(1) by (elim insertE) (simp_all add: vals)
  qed
qed

lemma jsonEscape_inj:
  assumes "jsonEscape c @ x = jsonEscape d @ y"
  shows "c = d \<and> x = y"
proof -
  let ?special = "\<lambda>n :: nat. n = 34 \<or> n = 92 \<or> n < 32"
  have lt: "of_char e < (256 :: nat)" for e by simp
  have plain: "CHR 0x5C \<noteq> e" if "\<not> ?special (of_char e)" for e using that by auto
  show ?thesis
  proof (cases "?special (of_char c)"; cases "?special (of_char d)")
    assume "?special (of_char c)" and "?special (of_char d)"
    then have "shortEscape (of_char c) @ x = shortEscape (of_char d) @ y" using assms by (simp add: jsonEscape_alt Let_def)
    then show ?thesis using shortEscape_inj [OF _ lt lt] by (metis of_char_eq_iff)
  qed (use assms plain [of c] plain [of d] in \<open>simp_all add: jsonEscape_alt Let_def\<close>)
qed

lemma jsonEscape_start: "\<exists>k r. jsonEscape c = k # r \<and> k \<noteq> CHR 0x22"
proof (cases "of_char c = (34 :: nat)")
  case False
  then have "c \<noteq> CHR 0x22" by auto
  then show ?thesis by (simp add: jsonEscape_alt Let_def)
qed (simp add: jsonEscape_alt)

lemma escapes_inj:
  "concat (map jsonEscape s) @ CHR 0x22 # x = concat (map jsonEscape t) @ CHR 0x22 # y \<Longrightarrow> s = t \<and> x = y"
proof (induction s arbitrary: t)
  case Nil
  show ?case
  proof (cases t)
    case (Cons d ds)
    then show ?thesis using Nil jsonEscape_start [of d] by auto
  qed (use Nil in simp)
next
  case (Cons c cs)
  show ?case
  proof (cases t)
    case Nil
    then show ?thesis using Cons.prems jsonEscape_start [of c] by auto
  next
    case (Cons d ds)
    then have "jsonEscape c @ concat (map jsonEscape cs) @ CHR 0x22 # x = jsonEscape d @ concat (map jsonEscape ds) @ CHR 0x22 # y"
      using Cons.prems by simp
    from jsonEscape_inj [OF this] show ?thesis using Cons Cons.IH [of ds] by simp
  qed
qed

lemma jsonQuote_inj: "jsonQuote s @ x = jsonQuote t @ y \<Longrightarrow> s = t \<and> x = y"
  using escapes_inj [of s x t y] by (simp add: jsonQuote_def)

lemma jsonItems_Cons: "jsonItems (x # xs) = x @ (if xs = [] then [] else '','' @ jsonItems xs)"
  by (cases xs) simp_all

lemma jsonQuotes_inj:
  "jsonItems (map jsonQuote s) @ '']'' @ x = jsonItems (map jsonQuote t) @ '']'' @ y \<Longrightarrow> s = t"
proof (induction s arbitrary: t)
  case Nil
  then show ?case by (cases t) (simp_all add: jsonItems_Cons jsonQuote_def)
next
  case (Cons a as)
  show ?case
  proof (cases t)
    case Nil
    then show ?thesis using Cons.prems by (simp add: jsonItems_Cons jsonQuote_def)
  next
    case (Cons b bs)
    have "jsonQuote a @ (if as = [] then '']'' @ x else '','' @ jsonItems (map jsonQuote as) @ '']'' @ x)
        = jsonQuote b @ (if bs = [] then '']'' @ y else '','' @ jsonItems (map jsonQuote bs) @ '']'' @ y)"
      using Cons.prems Cons by (auto simp: jsonItems_Cons)
    from jsonQuote_inj [OF this] have "a = b" and
      "(if as = [] then '']'' @ x else '','' @ jsonItems (map jsonQuote as) @ '']'' @ x)
        = (if bs = [] then '']'' @ y else '','' @ jsonItems (map jsonQuote bs) @ '']'' @ y)" by auto
    then show ?thesis using Cons Cons.IH [of bs] by (auto split: if_splits)
  qed
qed

section \<open>Joined grants\<close>

lemma itemKey_gates:
  assumes "itemKey (GateGrant w gs) = itemKey (GateGrant v hs)"
  shows "w = v \<and> set gs = set hs"
proof -
  have "jsonQuote w @ '',['' @ jsonItems (map jsonQuote (sort gs)) @ '']'' @ '']'' = jsonQuote v @ '',['' @ jsonItems (map jsonQuote (sort hs)) @ '']'' @ '']''"
    using assms by (simp add: itemKey_def jsonArray_def)
  from jsonQuote_inj [OF this] have "w = v" and "sort gs = sort hs" using jsonQuotes_inj [of "sort gs" "'']''" "sort hs" "'']''"] by auto
  then show ?thesis by (metis set_sort)
qed

lemma itemKey_start: "startsWith (itemKey (GateGrant w gs)) ''[''"
  by (simp add: itemKey_def jsonArray_def startsWith_def)

text \<open>A bare name that does not read as the start of a JSON array: a Workflow's name never does.\<close>

fun plainItem :: "GrantItem \<Rightarrow> bool" where
  "plainItem (WorkflowName w) = (\<not> startsWith w ''['')"
| "plainItem (GateGrant w gates) = True"

fun plainGrant :: "AnswerGrant option \<Rightarrow> bool" where
  "plainGrant (Some (Listed items)) = list_all plainItem items"
| "plainGrant _ = True"

definition plainScopes :: "Scopes \<Rightarrow> bool" where
  "plainScopes m = list_all (\<lambda>s. plainGrant (mayOf m s)) SCOPES"

lemma itemKey_same:
  assumes "itemKey a = itemKey b" and "plainItem a" and "plainItem b"
  shows "itemWorkflow a = itemWorkflow b" and "itemOpensGate w g a = itemOpensGate w g b"
proof -
  have "itemWorkflow a = itemWorkflow b \<and> itemOpensGate w g a = itemOpensGate w g b"
  proof (cases a; cases b)
    fix u gs v hs assume "a = GateGrant u gs" "b = GateGrant v hs"
    then show ?thesis using itemKey_gates [of u gs v hs] assms(1) by auto
  next
    fix u v hs assume "a = WorkflowName u" "b = GateGrant v hs"
    then show ?thesis using assms itemKey_start [of v hs] by (simp add: itemKey_def)
  next
    fix u gs v assume "a = GateGrant u gs" "b = WorkflowName v"
    then show ?thesis using assms itemKey_start [of u gs] by (simp add: itemKey_def)
  qed (use assms in \<open>simp add: itemKey_def\<close>)
  then show "itemWorkflow a = itemWorkflow b" and "itemOpensGate w g a = itemOpensGate w g b" by auto
qed

text \<open>A predicate on items that the key decides.\<close>

definition keyed :: "(GrantItem \<Rightarrow> bool) \<Rightarrow> bool" where
  "keyed P \<longleftrightarrow> (\<forall>a b. itemKey a = itemKey b \<longrightarrow> plainItem a \<longrightarrow> plainItem b \<longrightarrow> P a = P b)"

fun opensBy :: "(GrantItem \<Rightarrow> bool) \<Rightarrow> AnswerGrant option \<Rightarrow> bool" where
  "opensBy P None = False"
| "opensBy P (Some All) = True"
| "opensBy P (Some (Listed items)) = list_ex P items"

lemma grantOpens_by: "grantOpens g w = opensBy (\<lambda>item. nameOpens (itemWorkflow item) w) g"
  by (cases "(g, w)" rule: grantOpens.cases) simp_all

lemma grantOpensGate_by: "grantOpensGate g w gate = opensBy (itemOpensGate w gate) g"
  by (cases "(g, w, gate)" rule: grantOpensGate.cases) simp_all

lemma keyed_opens: "keyed (\<lambda>item. nameOpens (itemWorkflow item) w)" "keyed (itemOpensGate w gate)"
  unfolding keyed_def using itemKey_same by metis+

lemma set_joinLoop: "set (joinLoop seen items) \<subseteq> set items"
  by (induction seen items rule: joinLoop.induct) auto

lemma joinLoop_ex:
  assumes "keyed P" and "list_all plainItem S" and "list_all plainItem items"
  shows "(list_ex P S \<or> list_ex P (joinLoop (map itemKey S) items)) \<longleftrightarrow> (list_ex P S \<or> list_ex P items)"
  using assms(2,3)
proof (induction items arbitrary: S)
  case (Cons item items)
  show ?case
  proof (cases "itemKey item \<in> itemKey ` set S")
    case True
    then obtain a where a: "a \<in> set S" "itemKey a = itemKey item" by auto
    have "plainItem a" and "plainItem item" using a(1) Cons.prems by (auto simp: list_all_iff)
    then have "P a = P item" using assms(1) a(2) unfolding keyed_def by blast
    then have "P item \<Longrightarrow> list_ex P S" using a(1) by (auto simp: list_ex_iff)
    then show ?thesis using True Cons.IH [of S] Cons.prems by auto
  next
    case False
    then show ?thesis using Cons.IH [of "item # S"] Cons.prems by auto
  qed
qed simp

lemma joinGrant_opens:
  assumes "keyed P" and "plainGrant j" and "plainGrant g"
  shows "opensBy P (joinGrant j g) \<longleftrightarrow> opensBy P j \<or> opensBy P g" and "plainGrant (joinGrant j g)"
proof -
  have ex: "list_ex P (joinItems as bs) \<longleftrightarrow> list_ex P as \<or> list_ex P bs" if "list_all plainItem as" "list_all plainItem bs" for as bs
    using joinLoop_ex [OF assms(1), of "[]" "as @ bs"] that by (simp add: joinItems_def)
  have pl: "list_all plainItem (joinItems as bs)" if "list_all plainItem as" "list_all plainItem bs" for as bs
    using that set_joinLoop [of "[]" "as @ bs"] by (auto simp: joinItems_def list_all_iff)
  show "opensBy P (joinGrant j g) \<longleftrightarrow> opensBy P j \<or> opensBy P g" and "plainGrant (joinGrant j g)"
    using assms(2,3) ex ex [of "[]"] pl pl [of "[]"] by (cases "(j, g)" rule: joinGrant.cases; simp; fail)+
qed

lemma mayOf_joinScopes [simp]: "mayOf (joinScopes grants) scope = joinScope grants scope"
  by (cases scope) (simp_all add: joinScopes_def)

lemma joinScope_opens:
  assumes "keyed P" and "list_all plainScopes grants"
  shows "opensBy P (joinScope grants scope) \<longleftrightarrow> (\<exists>m\<in>set grants. opensBy P (mayOf m scope))"
proof -
  have "opensBy P (fold (\<lambda>may joined. joinGrant joined (mayOf may scope)) grants j) \<longleftrightarrow> opensBy P j \<or> (\<exists>m\<in>set grants. opensBy P (mayOf m scope))"
    if "plainGrant j" for j
    using assms(2) that
  proof (induction grants arbitrary: j)
    case (Cons m ms)
    have "plainGrant (mayOf m scope)" using Cons.prems by (cases scope) (simp_all add: plainScopes_def SCOPES_def)
    then show ?case using joinGrant_opens [OF assms(1) Cons.prems(2), of "mayOf m scope"] Cons by auto
  qed simp
  then show ?thesis by (simp add: joinScope_def)
qed

lemma opensGate_opens: "grantOpensGate g w gate \<Longrightarrow> grantOpens g w"
proof -
  have "itemOpensGate w gate item \<Longrightarrow> nameOpens (itemWorkflow item) w" for item by (cases item) simp_all
  then show "grantOpensGate g w gate \<Longrightarrow> grantOpens g w"
    by (cases "(g, w, gate)" rule: grantOpensGate.cases) (auto simp: list_ex_iff)
qed

section \<open>The operator\<close>

lemma callerSeam_from: "callerSeam seam b = Some (CallerPrincipal c) \<Longrightarrow> \<exists>authenticate\<in>set seam. authenticate b = Made c"
  by (induction seam) (auto split: CallerAnswer.splits)

lemma jwtAuthenticator_via: "jwtAuthenticator decodeJwt jwtVerify issuers b = Made c \<Longrightarrow> ca_via c = ViaJwt"
  by (auto simp: jwtAuthenticator_def jwtCaller_def split: if_splits option.splits sum.splits)

lemma foundToken_fold:
  "fold (\<lambda>entry found. if constantTimeEqual digest (nt_digest entry) then Some entry else found) tokens f = Some e \<Longrightarrow>
     f = Some e \<or> e \<in> set tokens \<and> nt_digest e = digest"
  by (induction tokens arbitrary: f) (auto split: if_splits)

lemma foundToken_in: "foundToken digest tokens = Some e \<Longrightarrow> e \<in> set tokens \<and> nt_digest e = digest"
  using foundToken_fold [of digest tokens None e] by (simp add: foundToken_def)

lemma foundToken_None: "foundToken digest tokens = None \<longleftrightarrow> (\<forall>e\<in>set tokens. nt_digest e \<noteq> digest)"
proof -
  have "fold (\<lambda>entry found. if constantTimeEqual digest (nt_digest entry) then Some entry else found) tokens f = None \<longleftrightarrow>
      f = None \<and> (\<forall>e\<in>set tokens. nt_digest e \<noteq> digest)" for f
    by (induction tokens arbitrary: f) auto
  then show ?thesis by (simp add: foundToken_def)
qed

lemma set_namedTokens:
  "e \<in> set (namedTokens (Some declared) digests) \<longleftrightarrow>
     (nt_name e, nt_may e) \<in> set declared \<and> map_of digests (nt_name e) = Some (nt_digest e) \<and> nt_digest e \<noteq> []"
  by (cases e) (fastforce simp: namedTokens_def split: option.splits if_splits)

lemma foundToken_named:
  "foundToken digest (namedTokens (Some declared) digests) = None \<longleftrightarrow>
     (\<forall>name\<in>fst ` set declared. map_of digests name \<noteq> Some digest \<or> digest = [])"
proof -
  let ?tokens = "namedTokens (Some declared) digests"
  have "(\<exists>e\<in>set ?tokens. nt_digest e = digest) \<longleftrightarrow> (\<exists>(name, may)\<in>set declared. map_of digests name = Some digest \<and> digest \<noteq> [])"
  proof
    assume "\<exists>(name, may)\<in>set declared. map_of digests name = Some digest \<and> digest \<noteq> []"
    then obtain name may where "(name, may) \<in> set declared" "map_of digests name = Some digest" "digest \<noteq> []" by blast
    then show "\<exists>e\<in>set ?tokens. nt_digest e = digest"
      by (intro bexI [of _ "\<lparr>nt_name = name, nt_digest = digest, nt_may = may\<rparr>"]) (simp_all add: set_namedTokens)
  next
    assume "\<exists>e\<in>set ?tokens. nt_digest e = digest"
    then obtain e where e: "e \<in> set ?tokens" "nt_digest e = digest" by blast
    from e(1) [unfolded set_namedTokens] e(2) show "\<exists>(name, may)\<in>set declared. map_of digests name = Some digest \<and> digest \<noteq> []"
      by (intro bexI [of _ "(nt_name e, nt_may e)"]) simp_all
  qed
  then have "(\<forall>e\<in>set ?tokens. nt_digest e \<noteq> digest) \<longleftrightarrow> (\<forall>(name, may)\<in>set declared. map_of digests name \<noteq> Some digest \<or> digest = [])"
    by blast
  then show ?thesis by (simp add: foundToken_None split_beta)
qed

text \<open>What the seam relies on of the authenticators after the named tokens: none of them makes the Instance token's Caller.\<close>

locale caller_seam =
  fixes others :: "(string \<Rightarrow> CallerAnswer) list"
  assumes others_not_instance: "authenticate \<in> set others \<Longrightarrow> authenticate b = Made c \<Longrightarrow> \<not> isInstanceCaller c"
begin

lemma instance_alone:
  assumes "callerSeam (instanceTokenAuthenticator token # namedTokenAuthenticator sha256 tokens # others) b = Some (CallerPrincipal c)"
    and "\<forall>e\<in>set tokens. nt_name e \<noteq> ''instance''"
  shows "isInstanceCaller c \<longleftrightarrow> b = token"
proof (cases "b = token")
  case True
  then show ?thesis using assms(1) by (auto simp: instanceTokenAuthenticator_def instanceCaller_def isInstanceCaller_def)
next
  case False
  then have "callerSeam (namedTokenAuthenticator sha256 tokens # others) b = Some (CallerPrincipal c)"
    using assms(1) by (simp add: instanceTokenAuthenticator_def)
  from callerSeam_from [OF this] have "\<not> isInstanceCaller c"
    using others_not_instance assms(2)
    by (auto simp: namedTokenAuthenticator_def isInstanceCaller_def dest!: foundToken_in split: if_splits option.splits)
  then show ?thesis using False by simp
qed

end

interpretation jwt: caller_seam "[jwtAuthenticator decodeJwt jwtVerify issuers]"
  by unfold_locales (auto simp: isInstanceCaller_def dest: jwtAuthenticator_via)

section \<open>Properties\<close>

text \<open>The parameters of the examples: a digest of 32 bytes, the same for every text but for its first byte.\<close>

definition exampleHmac :: "nat \<Rightarrow> string \<Rightarrow> 8 word list" where
  "exampleHmac key v = of_nat (length v + key) # replicate 31 0"

definition exampleSha :: "string \<Rightarrow> 8 word list" where
  "exampleSha v = of_nat (length v) # replicate 31 0"

definition exampleAuth :: "nat AuthOptions" where
  "exampleAuth = \<lparr>instanceToken = ''secret'', signingKey = 7, publishToken = Some ''publish'',
     namedTokensNow = Some (namedTokens (Some [(''ci'', EVERY_SCOPE)]) [(''ci'', callerTokenDigest exampleSha ''jr2c_abc'')]),
     callers = [jwtAuthenticator (\<lambda>_. None) (\<lambda>_ _. Inl ''no keys'') []]\<rparr>"

text \<open>A pod's two tokens, minted again at any time, authenticate as that pod, each in its own domain: the fetch token as its
  Sandbox, whatever slot the request states, and the control token as the Agent of the slot that the request states; a control
  token with no slot is refused.\<close>

theorem pod_tokens_authenticate:
  assumes "isPodName pod"
    and "publishToken opts \<noteq> Some (sandboxToken hmac (signingKey opts) pod)"
    and "publishToken opts \<noteq> Some (controlToken hmac (signingKey opts) pod)"
  shows "authenticatePrincipal hmac sha256 opts (Some (sandboxToken hmac (signingKey opts) pod)) slot' = Some (SandboxPrincipal pod)
    \<and> authenticatePrincipal hmac sha256 opts (Some (controlToken hmac (signingKey opts) pod)) slot' =
        (case slot' of None \<Rightarrow> None | Some slot \<Rightarrow> if slot = [] then None else Some (AgentPrincipal pod slot))"
proof -
  have "CONTROL_PREFIX @ pod \<noteq> []" by (simp add: CONTROL_PREFIX_def)
  then show ?thesis
    using assms authenticate_signed [of pod opts hmac sha256 slot'] authenticate_signed [of "CONTROL_PREFIX @ pod" opts hmac sha256 slot']
      isPodName_nonempty isPodName_not_control
    by (auto simp: sandboxToken_def controlToken_def Let_def split: option.splits)
qed

theorem pod_tokens_authenticate_witness:
  "authenticatePrincipal exampleHmac exampleSha exampleAuth (Some (sandboxToken exampleHmac 7 ''pod-1'')) None = Some (SandboxPrincipal ''pod-1'')"
proof -
  have "isPodName ''pod-1''" by (simp add: isPodName_def podEdge_def)
  moreover have "publishToken exampleAuth \<noteq> Some (sandboxToken exampleHmac (signingKey exampleAuth) ''pod-1'')"
    "publishToken exampleAuth \<noteq> Some (controlToken exampleHmac (signingKey exampleAuth) ''pod-1'')"
    by (simp_all add: exampleAuth_def sandboxToken_def controlToken_def CONTROL_PREFIX_def)
  ultimately have "authenticatePrincipal exampleHmac exampleSha exampleAuth
      (Some (sandboxToken exampleHmac (signingKey exampleAuth) ''pod-1'')) None = Some (SandboxPrincipal ''pod-1'')"
    using pod_tokens_authenticate by blast
  then show ?thesis by (simp add: exampleAuth_def)
qed

text \<open>C26. The boundary of a Sandbox: unless it is the operator's, a bearer that may ask for a fetch of a Sandbox is exactly that
  Sandbox's fetch token, and a bearer that may speak on an Agent's routes is exactly the control token of the registration's
  pod with the registration's slot stated; no bearer may do both. Only the publish token makes the publisher, which may do
  neither.\<close>

theorem pod_reach:
  assumes "authenticatePrincipal hmac sha256 opts (Some b) slot' = Some p" and "\<not> isInstancePrincipal p"
  shows "(mayAskForSandbox p x \<longrightarrow> isPodName x \<and> b = sandboxToken hmac (signingKey opts) x)
    \<and> (mayDeliverToAgent p sandbox slot \<longrightarrow> slot = slot' \<and> slot \<noteq> None \<and>
         (\<exists>pod. sandbox = Some pod \<and> isPodName pod \<and> b = controlToken hmac (signingKey opts) pod))
    \<and> \<not> (mayAskForSandbox p x \<and> mayDeliverToAgent p sandbox slot)
    \<and> (p = Publisher \<longleftrightarrow> publishToken opts = Some b)
    \<and> (p = Publisher \<longrightarrow> \<not> mayAskForSandbox p x \<and> \<not> mayDeliverToAgent p sandbox slot)"
proof -
  have publish: "publishToken opts = Some b \<Longrightarrow> p = Publisher"
    using assms(1) by (auto simp: authenticatePrincipal_def split: if_splits)
  show ?thesis using authenticate_cases [OF assms(1)] publish assms(2)
    by (auto simp: mayAskForSandbox_def mayDeliverToAgent_def)
qed

theorem pod_reach_witness:
  "\<not> mayAskForSandbox (SandboxPrincipal ''pod-1'') ''pod-2'' \<and> \<not> mayDeliverToAgent (SandboxPrincipal ''pod-1'') (Some ''pod-1'') (Some ''s'')"
proof -
  have "signedName exampleHmac (signingKey exampleAuth) ''pod-1'' = sandboxToken exampleHmac 7 ''pod-1''"
    by (simp add: exampleAuth_def sandboxToken_def)
  moreover have "publishToken exampleAuth \<noteq> Some (signedName exampleHmac (signingKey exampleAuth) ''pod-1'')"
    by (simp add: exampleAuth_def)
  ultimately have a: "authenticatePrincipal exampleHmac exampleSha exampleAuth (Some (sandboxToken exampleHmac 7 ''pod-1'')) None
      = Some (SandboxPrincipal ''pod-1'')"
    using authenticate_signed [of "''pod-1''" exampleAuth exampleHmac exampleSha None]
    by (simp add: startsWith_def CONTROL_PREFIX_def isPodName_def podEdge_def)
  have "\<not> isInstancePrincipal (SandboxPrincipal ''pod-1'')" by (simp add: isInstancePrincipal_def)
  from pod_reach [OF a this, of "''pod-2''" "Some ''pod-1''" "Some ''s''"] show ?thesis
    by (simp add: sandboxToken_def)
qed

lemma authenticate_plain:
  "b \<noteq> [] \<Longrightarrow> publishToken opts \<noteq> Some b \<Longrightarrow> CHR ''.'' \<notin> set b \<Longrightarrow>
    authenticatePrincipal hmac sha256 opts (Some b) slot' = callerSeam (seamOf sha256 opts) b"
  by (rule authenticate_seam) auto

lemma seamOf_named:
  "namedTokensNow opts = Some tokens \<Longrightarrow> seamOf sha256 opts =
    instanceTokenAuthenticator (instanceToken opts) # namedTokenAuthenticator sha256 tokens # callers opts"
  by (simp add: seamOf_def)

text \<open>The operator is the holder of the Instance token alone: with the names of the config (which refuses a token called
  \<^verbatim>\<open>instance\<close>) and the JWT issuers in the seam, no named token and no JWT is ever the Instance principal, and the Instance
  token is, with every scope for every Workflow and Gate.\<close>

theorem operator_is_instance_token:
  assumes "namedTokensNow opts = Some (namedTokens (Some declared) digests)" and "''instance'' \<notin> fst ` set declared"
    and "callers opts = [jwtAuthenticator decodeJwt jwtVerify issuers]"
  shows "(\<forall>p. authenticatePrincipal hmac sha256 opts (Some b) slot' = Some p \<and> isInstancePrincipal p \<longrightarrow> b = instanceToken opts)
    \<and> (b = instanceToken opts \<and> b \<noteq> [] \<and> publishToken opts \<noteq> Some b \<and> CHR ''.'' \<notin> set b \<longrightarrow>
         authenticatePrincipal hmac sha256 opts (Some b) slot' = Some (CallerPrincipal instanceCaller))
    \<and> callerMay instanceCaller scope w \<and> callerMayAnswer instanceCaller w gate"
proof (intro conjI allI impI)
  fix p assume p: "authenticatePrincipal hmac sha256 opts (Some b) slot' = Some p \<and> isInstancePrincipal p"
  then obtain c where c: "isInstanceCaller c" "callerSeam (seamOf sha256 opts) b = Some (CallerPrincipal c)"
    using authenticate_cases [of hmac sha256 opts b slot' p] by (auto simp: isInstancePrincipal_def)
  have names: "\<forall>e\<in>set (namedTokens (Some declared) digests). nt_name e \<noteq> ''instance''"
    using assms(2) by (force simp: set_namedTokens)
  show "b = instanceToken opts"
    using jwt.instance_alone [OF c(2) [unfolded seamOf_named [OF assms(1)] assms(3)] names] c(1) by simp
next
  assume "b = instanceToken opts \<and> b \<noteq> [] \<and> publishToken opts \<noteq> Some b \<and> CHR ''.'' \<notin> set b"
  then show "authenticatePrincipal hmac sha256 opts (Some b) slot' = Some (CallerPrincipal instanceCaller)"
    using authenticate_plain [of b opts hmac sha256 slot'] by (auto simp: seamOf_named [OF assms(1)] instanceTokenAuthenticator_def)
next
  show "callerMay instanceCaller scope w" by (cases scope) (simp_all add: callerMay_def instanceCaller_def EVERY_SCOPE_def)
qed (simp add: callerMayAnswer_def instanceCaller_def EVERY_SCOPE_def)

theorem operator_is_instance_token_witness:
  "authenticatePrincipal exampleHmac exampleSha exampleAuth (Some ''secret'') None = Some (CallerPrincipal instanceCaller)"
proof -
  have n: "namedTokensNow exampleAuth = Some (namedTokens (Some [(''ci'', EVERY_SCOPE)]) [(''ci'', callerTokenDigest exampleSha ''jr2c_abc'')])"
    and c: "callers exampleAuth = [jwtAuthenticator (\<lambda>_. None) (\<lambda>_ _. Inl ''no keys'') []]"
    by (simp_all add: exampleAuth_def)
  have "''instance'' \<notin> fst ` set [(''ci'', EVERY_SCOPE)]" by simp
  moreover have "''secret'' = instanceToken exampleAuth \<and> ''secret'' \<noteq> [] \<and> publishToken exampleAuth \<noteq> Some ''secret'' \<and> CHR ''.'' \<notin> set ''secret''"
    by (simp add: exampleAuth_def)
  ultimately show ?thesis using operator_is_instance_token [OF n _ c, of exampleHmac exampleSha "''secret''" None] by blast
qed

text \<open>The first authenticator that claims a bearer decides: a bearer with the prefix of the named tokens is the Caller of a
  declared name whose digest it has, with the scopes that the config declares for that name, or it is refused; no
  authenticator after it is asked. A value made for a declared name authenticates, and a value whose digest no declared name
  has any more (it was rotated) is refused.\<close>

theorem named_token_decides:
  assumes "namedTokensNow opts = Some (namedTokens (Some declared) digests)" and "startsWith b CALLER_TOKEN_PREFIX"
    and "CHR ''.'' \<notin> set b" and "b \<noteq> instanceToken opts" and "publishToken opts \<noteq> Some b"
  shows "(\<forall>p. authenticatePrincipal hmac sha256 opts (Some b) slot' = Some p \<longrightarrow>
           (\<exists>name may. (name, may) \<in> set declared \<and> map_of digests name = Some (callerTokenDigest sha256 b)
              \<and> p = CallerPrincipal \<lparr>ca_via = ViaToken, ca_name = name, ca_shown = None, ca_may = may, ca_onBehalfOf = None\<rparr>))
    \<and> (authenticatePrincipal hmac sha256 opts (Some b) slot' = None \<longleftrightarrow>
         (\<forall>name\<in>fst ` set declared. map_of digests name \<noteq> Some (callerTokenDigest sha256 b) \<or> callerTokenDigest sha256 b = []))
    \<and> (\<forall>cs. authenticatePrincipal hmac sha256 (opts\<lparr>callers := cs\<rparr>) (Some b) slot' = authenticatePrincipal hmac sha256 opts (Some b) slot')"
proof -
  let ?tokens = "namedTokens (Some declared) digests"
  let ?digest = "callerTokenDigest sha256 b"
  have "b \<noteq> []" using assms(2) by (auto simp: startsWith_def CALLER_TOKEN_PREFIX_def)
  then have read: "authenticatePrincipal hmac sha256 (opts\<lparr>callers := cs\<rparr>) (Some b) slot' = (case foundToken ?digest ?tokens of None \<Rightarrow> None
      | Some e \<Rightarrow> Some (CallerPrincipal \<lparr>ca_via = ViaToken, ca_name = nt_name e, ca_shown = None, ca_may = nt_may e, ca_onBehalfOf = None\<rparr>))" for cs
    using assms(2-5) seamOf_named [of "opts\<lparr>callers := cs\<rparr>" ?tokens sha256] assms(1)
    by (simp add: authenticate_plain instanceTokenAuthenticator_def namedTokenAuthenticator_def split: option.splits)
  have own: "opts\<lparr>callers := callers opts\<rparr> = opts" by simp
  note here = read [of "callers opts", unfolded own]
  show ?thesis
  proof (intro conjI allI impI)
    fix p assume "authenticatePrincipal hmac sha256 opts (Some b) slot' = Some p"
    then show "\<exists>name may. (name, may) \<in> set declared \<and> map_of digests name = Some ?digest
        \<and> p = CallerPrincipal \<lparr>ca_via = ViaToken, ca_name = name, ca_shown = None, ca_may = may, ca_onBehalfOf = None\<rparr>"
      unfolding here using foundToken_in [of ?digest ?tokens]
      by (auto simp: set_namedTokens split: option.splits)
  qed (simp_all only: here read foundToken_named [symmetric] option.case_eq_if, simp_all)
qed

theorem named_token_decides_witness:
  "\<exists>p. authenticatePrincipal exampleHmac exampleSha exampleAuth (Some ''jr2c_abc'') None = Some p"
proof -
  have n: "namedTokensNow exampleAuth = Some (namedTokens (Some [(''ci'', EVERY_SCOPE)]) [(''ci'', callerTokenDigest exampleSha ''jr2c_abc'')])"
    by (simp add: exampleAuth_def)
  have h: "startsWith ''jr2c_abc'' CALLER_TOKEN_PREFIX" "CHR ''.'' \<notin> set ''jr2c_abc''" "''jr2c_abc'' \<noteq> instanceToken exampleAuth"
    "publishToken exampleAuth \<noteq> Some ''jr2c_abc''"
    by (simp_all add: startsWith_def CALLER_TOKEN_PREFIX_def exampleAuth_def)
  have "callerTokenDigest exampleSha ''jr2c_abc'' \<noteq> []" by (simp add: callerTokenDigest_def exampleSha_def hexOf_def)
  then have "authenticatePrincipal exampleHmac exampleSha exampleAuth (Some ''jr2c_abc'') None \<noteq> None"
    using named_token_decides [OF n h, of exampleHmac exampleSha None] by simp
  then show ?thesis by auto
qed

text \<open>A JWT's Caller has the joined scopes of its groups and no other: it verified for an issuer of the config, it may act on
  a Workflow in a scope exactly when one of the JWT's groups may, and it may answer a Gate exactly when one of them may, which
  implies the scope \<^verbatim>\<open>answer\<close> for the Gate's Workflow. (The config's bare Workflow names do not start with a bracket.)\<close>

theorem jwt_has_the_scopes_of_its_groups:
  assumes "jwtAuthenticator decodeJwt jwtVerify issuers b = Made c"
    and "\<forall>i\<in>set issuers. \<forall>(v, may)\<in>set (ji_groups i). plainScopes may"
  shows "\<exists>i\<in>set issuers. \<exists>payload. jwtVerify i b = Inr payload \<and> ca_via c = ViaJwt
    \<and> (\<forall>scope w. callerMay c scope w \<longleftrightarrow> (\<exists>v\<in>set (valuesOf (field (claimName (ji_groupsClaim i) ''groups'') payload)).
         \<exists>may. map_of (ji_groups i) v = Some may \<and> grantOpens (mayOf may scope) w))
    \<and> (\<forall>w gate. callerMayAnswer c w gate \<longleftrightarrow> (\<exists>v\<in>set (valuesOf (field (claimName (ji_groupsClaim i) ''groups'') payload)).
         \<exists>may. map_of (ji_groups i) v = Some may \<and> grantOpensGate (may_answer may) w gate))
    \<and> (\<forall>w gate. callerMayAnswer c w gate \<longrightarrow> callerMay c Answer w)"
proof -
  obtain i payload where i: "i \<in> set issuers" "jwtVerify i b = Inr payload" "jwtCaller i payload = Made c"
    using assms(1) by (auto simp: jwtAuthenticator_def dest!: find_Some_in(1) split: if_splits option.splits sum.splits)
  define vs where "vs = valuesOf (field (claimName (ji_groupsClaim i) ''groups'') payload)"
  define grants where "grants = List.map_filter (map_of (ji_groups i)) vs"
  have c: "ca_via c = ViaJwt" "ca_may c = joinScopes grants"
    using i(3) by (auto simp: jwtCaller_def grants_def vs_def split: option.splits if_splits)
  have g: "m \<in> set grants \<longleftrightarrow> (\<exists>v\<in>set vs. map_of (ji_groups i) v = Some m)" for m
    by (auto simp: grants_def List.map_filter_def image_iff)
  have plain: "list_all plainScopes grants"
    using assms(2) i(1) by (fastforce simp: list_all_iff g dest!: map_of_SomeD)
  have may: "callerMay c scope w \<longleftrightarrow> (\<exists>v\<in>set vs. \<exists>may. map_of (ji_groups i) v = Some may \<and> grantOpens (mayOf may scope) w)" for scope w
    unfolding callerMay_def c mayOf_joinScopes grantOpens_by joinScope_opens [OF keyed_opens(1) plain] using g by blast
  have answer: "callerMayAnswer c w gate \<longleftrightarrow> (\<exists>v\<in>set vs. \<exists>may. map_of (ji_groups i) v = Some may \<and> grantOpensGate (may_answer may) w gate)" for w gate
    using joinScope_opens [OF keyed_opens(2) plain, of w gate Answer] g
    by (simp add: callerMayAnswer_def c grantOpensGate_by mayOf_joinScopes [of grants Answer, simplified]) blast
  have "callerMayAnswer c w gate \<Longrightarrow> callerMay c Answer w" for w gate
    using opensGate_opens by (simp add: callerMayAnswer_def callerMay_def)
  then show ?thesis using i(1,2) c(1) may answer unfolding vs_def by blast
qed

definition exampleIssuer :: JwtIssuer where
  "exampleIssuer = \<lparr>ji_issuer = ''https://dex'', ji_audience = ''jr2'', ji_jwks = None, ji_nameClaim = None, ji_shownClaim = None,
     ji_groupsClaim = None, ji_groups = [(''ops'', EVERY_SCOPE)]\<rparr>"

definition examplePayload :: Json where
  "examplePayload = JObj [(''iss'', JStr ''https://dex''), (''sub'', JStr ''ann''), (''groups'', JArr [JStr ''ops''])]"

theorem jwt_has_the_scopes_of_its_groups_witness:
  "\<exists>c. jwtAuthenticator (\<lambda>_. Some examplePayload) (\<lambda>_ _. Inr examplePayload) [exampleIssuer] ''a.b.c'' = Made c
     \<and> callerMay c Start ''deploy''"
proof -
  define c where "c = \<lparr>ca_via = ViaJwt, ca_name = ''ann'', ca_shown = None, ca_may = joinScopes [EVERY_SCOPE], ca_onBehalfOf = None\<rparr>"
  have made: "jwtAuthenticator (\<lambda>_. Some examplePayload) (\<lambda>_ _. Inr examplePayload) [exampleIssuer] ''a.b.c'' = Made c"
    by (simp add: jwtAuthenticator_def jwtCaller_def examplePayload_def exampleIssuer_def claimName_def List.map_filter_def c_def)
  have "\<forall>i\<in>set [exampleIssuer]. \<forall>(v, may)\<in>set (ji_groups i). plainScopes may"
    by (simp add: exampleIssuer_def plainScopes_def SCOPES_def EVERY_SCOPE_def)
  from jwt_has_the_scopes_of_its_groups [OF made this] have "callerMay c Start ''deploy''"
    by (auto simp: exampleIssuer_def examplePayload_def claimName_def EVERY_SCOPE_def)
  then show ?thesis using made by blast
qed

end
