(* ===== verification/Run_List.thy ===== *)
theory Run_List
  imports Tokens
begin

text \<open>
  The run listing: \<^verbatim>\<open>packages/orchestrator/src/run-list.ts\<close> and, of \<^verbatim>\<open>run-host.ts\<close>, \<^verbatim>\<open>history\<close>, \<^verbatim>\<open>summaryOf\<close> and \<^verbatim>\<open>candidates\<close>,
  which join the registry of the runs that the process hosts with the rows of the run store.

  The registry is the list of its keys, each with the status that the host reads for it now (\<open>None\<close> when it has none). A
  cursor is the pair of the start and the id that its text encodes. The texts of the query (\<^verbatim>\<open>since\<close>, \<^verbatim>\<open>limit\<close>, the cursor's
  encoding) are not modelled: a \<open>RunListQuery\<close> is the query as it was read.
\<close>

section \<open>Statuses\<close>

definition ENDED_STATUSES :: "string list" where
  "ENDED_STATUSES = [''done'', ''failed'', ''error'', ''cancelled'', ''lost'', ''drifted'']"

definition LIVE_STATUS :: string where
  "LIVE_STATUS = ''active''"

definition isEndedStatus :: "string \<Rightarrow> bool" where
  "isEndedStatus word \<longleftrightarrow> word \<in> set ENDED_STATUSES"

definition shownOfRow :: "string \<Rightarrow> string" where
  "shownOfRow word = (if word = ''live'' then LIVE_STATUS else if isEndedStatus word then word else ''error'')"

text \<open>The words of \<^verbatim>\<open>status\<close>, split at the commas and trimmed: whether the live runs are listed, and which ended statuses; a
  word that jr2 does not list is the refusal.\<close>

fun statusWords :: "string list \<Rightarrow> bool \<times> string list \<Rightarrow> string + bool \<times> string list" where
  "statusWords [] (lv, es) = Inr (lv, es)"
| "statusWords (word # words) (lv, es) =
     (if word = ''live'' \<or> word = LIVE_STATUS then statusWords words (True, es)
      else if word = ''ended'' then statusWords words (lv, fold setAdd ENDED_STATUSES es)
      else if word = ''all'' then statusWords words (True, fold setAdd ENDED_STATUSES es)
      else if isEndedStatus word then statusWords words (lv, setAdd word es)
      else Inl word)"

section \<open>Summaries\<close>

record RunSummary =
  rl_runId :: ident
  rl_workflow :: string
  rl_status :: string
  rl_reason :: "string option"
  rl_startedBy :: "Json option"
  rl_startedAt :: string
  rl_endedAt :: "string option"
  rl_assembly :: "string option"
  rl_openGates :: nat
  rl_placing :: "string list option"
  rl_dispatchedBy :: "Json option"

record RunListQuery =
  rq_live :: bool
  rq_ended :: "string list option"
  rq_workflow :: "string option"
  rq_since :: "string option"
  rq_after :: "(string \<times> ident) option"
  rq_limit :: nat

record RunPage =
  pg_runs :: "RunSummary list"
  pg_next :: "(string \<times> ident) option"

definition newestFirst :: "RunSummary \<Rightarrow> RunSummary \<Rightarrow> int" where
  "newestFirst a b =
     (if rl_startedAt a \<noteq> rl_startedAt b then (if rl_startedAt a < rl_startedAt b then 1 else -1)
      else if rl_runId a < rl_runId b then 1 else if rl_runId a > rl_runId b then -1 else 0)"

text \<open>\<^verbatim>\<open>Array.prototype.sort\<close>, which is stable: each run goes in before the first that must not come before it.\<close>

fun insertBy :: "('a \<Rightarrow> 'a \<Rightarrow> int) \<Rightarrow> 'a \<Rightarrow> 'a list \<Rightarrow> 'a list" where
  "insertBy cmp x [] = [x]"
| "insertBy cmp x (y # ys) = (if cmp x y \<le> 0 then x # y # ys else y # insertBy cmp x ys)"

definition sortBy :: "('a \<Rightarrow> 'a \<Rightarrow> int) \<Rightarrow> 'a list \<Rightarrow> 'a list" where
  "sortBy cmp xs = foldr (insertBy cmp) xs []"

definition isAfter :: "string \<times> ident \<Rightarrow> string \<times> ident \<Rightarrow> bool" where
  "isAfter run after \<longleftrightarrow> fst run < fst after \<or> (fst run = fst after \<and> snd run < snd after)"

section \<open>Workspaces that wait for capacity\<close>

datatype PlacingChild = PlacingChild ident Json "PlacingChild list"

fun joinSlash :: "string list \<Rightarrow> string" where
  "joinSlash [] = []"
| "joinSlash [x] = x"
| "joinSlash (x # xs) = x @ ''/'' @ joinSlash xs"

fun placingIn :: "PlacingChild list \<Rightarrow> string list \<Rightarrow> string list" where
  "placingIn [] path = []"
| "placingIn (PlacingChild child v children # rest) path =
     (let here = path @ [child]
      in (if v = JStr ''placing'' then [joinSlash here] else []) @ placingIn children here) @ placingIn rest path"

definition placingOf :: "Json \<Rightarrow> PlacingChild list \<Rightarrow> string list" where
  "placingOf v children = (if v = JStr ''placing'' then [[]] else []) @ placingIn children []"

section \<open>The registry\<close>

record RunStatus =
  rs_runId :: ident
  rs_workflow :: string
  rs_status :: string
  rs_reason :: "string option"
  rs_fault :: "string option"
  rs_startedBy :: "Json option"
  rs_startedAt :: string
  rs_assembly :: "string option"
  rs_gates :: nat
  rs_value :: Json
  rs_children :: "PlacingChild list"
  rs_dispatchedBy :: "Json option"

type_synonym registry = "(ident \<times> RunStatus option) list"

definition list_runs :: "registry \<Rightarrow> RunStatus list" where
  "list_runs reg = List.map_filter snd reg"

definition summaryOfRun :: "RunStatus \<Rightarrow> RunSummary" where
  "summaryOfRun s =
     (let placing = placingOf (rs_value s) (rs_children s)
      in \<lparr>rl_runId = rs_runId s, rl_workflow = rs_workflow s, rl_status = rs_status s,
          rl_reason = (case rs_reason s of Some r \<Rightarrow> Some r | None \<Rightarrow> rs_fault s),
          rl_startedBy = rs_startedBy s, rl_startedAt = rs_startedAt s, rl_endedAt = None, rl_assembly = rs_assembly s,
          rl_openGates = rs_gates s, rl_placing = (if placing = [] then None else Some placing), rl_dispatchedBy = rs_dispatchedBy s\<rparr>)"

section \<open>A page of the listing\<close>

text \<open>The Workflows that a Caller may read: \<open>None\<close> is \<^verbatim>\<open>"all"\<close>, a list the names of its grant.\<close>

definition readableGrant :: "string list option \<Rightarrow> AnswerGrant option" where
  "readableGrant readable = Some (case readable of None \<Rightarrow> All | Some names \<Rightarrow> Listed (map WorkflowName names))"

definition listsLive :: "RunListQuery \<Rightarrow> string list option \<Rightarrow> RunStatus \<Rightarrow> bool" where
  "listsLive q readable s \<longleftrightarrow> rs_status s = LIVE_STATUS \<and> grantOpens (readableGrant readable) (rs_workflow s)
     \<and> (case rq_workflow q of None \<Rightarrow> True | Some w \<Rightarrow> rs_workflow s = w)
     \<and> (case rq_since q of None \<Rightarrow> True | Some t \<Rightarrow> rs_startedAt s \<ge> t)
     \<and> (case rq_after q of None \<Rightarrow> True | Some a \<Rightarrow> isAfter (rs_startedAt s, rs_runId s) a)"

definition liveHalf :: "RunListQuery \<Rightarrow> string list option \<Rightarrow> registry \<Rightarrow> RunSummary list" where
  "liveHalf q readable reg =
     (if rq_live q then map summaryOfRun (filter (listsLive q readable) (list_runs reg)) else [])"

definition storeQuery :: "RunListQuery \<Rightarrow> string list option \<Rightarrow> string list option \<Rightarrow> nat \<Rightarrow> EndedQuery" where
  "storeQuery q readable statuses limit = \<lparr>q_statuses = statuses, q_workflows = readable, q_workflow = rq_workflow q,
     q_since = rq_since q, q_after = rq_after q, q_limit = limit\<rparr>"

definition rowSummary :: "bool \<Rightarrow> EndedRow \<Rightarrow> RunSummary" where
  "rowSummary isEnded row = \<lparr>rl_runId = en_runId row, rl_workflow = en_workflow row,
     rl_status = (if isEnded then shownOfRow (en_status row) else LIVE_STATUS),
     rl_reason = (case en_reason row of Some r \<Rightarrow> Some r | None \<Rightarrow> if isEnded then None else Some ''waiting for restore''),
     rl_startedBy = en_startedBy row, rl_startedAt = en_startedAt row, rl_endedAt = (if isEnded then en_endedAt row else None),
     rl_assembly = en_assembly row, rl_openGates = 0, rl_placing = None, rl_dispatchedBy = en_dispatchedBy row\<rparr>"

definition waitingHalf :: "nat \<Rightarrow> RunListQuery \<Rightarrow> string list option \<Rightarrow> registry \<Rightarrow> SnapshotStore \<Rightarrow> RunSummary list" where
  "waitingHalf limit q readable reg S =
     (if rq_live q
      then map (rowSummary False) (filter (\<lambda>row. en_runId row \<notin> fst ` set reg) (liveRows (storeQuery q readable None limit) S))
      else [])"

definition endedHalf :: "nat \<Rightarrow> RunListQuery \<Rightarrow> string list option \<Rightarrow> SnapshotStore \<Rightarrow> RunSummary list" where
  "endedHalf limit q readable S =
     (case rq_ended q of None \<Rightarrow> []
      | Some statuses \<Rightarrow> map (rowSummary True) (ended (storeQuery q readable (Some statuses) limit) S))"

definition mergeHalves :: "RunSummary list \<Rightarrow> RunSummary list \<Rightarrow> RunSummary list" where
  "mergeHalves hosted stored = sortBy newestFirst (hosted @ filter (\<lambda>r. rl_runId r \<notin> rl_runId ` set hosted) stored)"

definition history :: "RunListQuery \<Rightarrow> string list option \<Rightarrow> registry \<Rightarrow> SnapshotStore \<Rightarrow> RunPage" where
  "history q readable reg S =
     (let merged = mergeHalves (liveHalf q readable reg)
            (waitingHalf (rq_limit q + 1 + length reg) q readable reg S @ endedHalf (rq_limit q + 1) q readable S);
          runs = take (rq_limit q) merged
      in \<lparr>pg_runs = runs,
          pg_next = (if length merged > rq_limit q \<and> runs \<noteq> [] then Some (rl_startedAt (last runs), rl_runId (last runs)) else None)\<rparr>)"

section \<open>Abbreviated run ids\<close>

definition candidates :: "registry \<Rightarrow> SnapshotStore \<Rightarrow> string \<Rightarrow> nat \<Rightarrow> ident list" where
  "candidates reg S prefix' limit =
     take limit (sort (setUnion (filter (\<lambda>i. startsWith i prefix') (map fst reg)) (findIdsByPrefix S prefix' limit)))"

section \<open>Lists in a strict order\<close>

lemma take_filter_same: "(\<And>x. x \<in> set (take n xs) \<Longrightarrow> P x) \<Longrightarrow> take n (filter P xs) = take n xs"
proof -
  assume "\<And>x. x \<in> set (take n xs) \<Longrightarrow> P x"
  then have f: "filter P (take n xs) = take n xs" by (simp add: filter_id_conv)
  show ?thesis
  proof (cases "n \<le> length xs")
    case True
    have "filter P xs = take n xs @ filter P (List.drop n xs)" using f by (metis append_take_drop_id filter_append)
    then show ?thesis using True by simp
  next
    case False
    then show ?thesis using f by simp
  qed
qed

text \<open>A list in a strict order \<open>R\<close> is determined by its elements, and what comes before an element is ahead of it.\<close>

lemma sorted_wrt_unique:
  assumes "\<And>x y. R x y \<Longrightarrow> \<not> R y x"
  shows "sorted_wrt R xs \<Longrightarrow> sorted_wrt R ys \<Longrightarrow> set xs = set ys \<Longrightarrow> xs = ys"
proof (induction xs arbitrary: ys)
  case (Cons x xs)
  then obtain y zs where ys: "ys = y # zs" by (cases ys) auto
  have irrefl: "\<not> R z z" for z using assms by blast
  have "x = y" using Cons.prems ys assms by (metis list.set_intros(1) set_ConsD sorted_wrt.simps(2))
  moreover have "x \<notin> set xs" "x \<notin> set zs" using Cons.prems ys irrefl calculation by auto
  ultimately have "set xs = set zs" using Cons.prems(3) ys by auto
  then show ?case using Cons ys \<open>x = y\<close> by simp
qed simp

lemma sorted_wrt_ahead:
  assumes "\<And>x y. R x y \<Longrightarrow> \<not> R y x" and "sorted_wrt R xs" and "i < length xs"
  shows "{y \<in> set xs. R y (xs ! i)} \<subseteq> set (take i xs)"
proof
  fix y assume y: "y \<in> {y \<in> set xs. R y (xs ! i)}"
  then obtain j where j: "j < length xs" "y = xs ! j" by (auto simp: in_set_conv_nth)
  have "j < i"
  proof (rule ccontr)
    assume "\<not> j < i"
    then consider "j = i" | "i < j" by linarith
    then show False
    proof cases
      case 1
      then show False using y j assms(1) by blast
    next
      case 2
      then have "R (xs ! i) (xs ! j)" using assms(2) j(1) by (simp add: sorted_wrt_nth_less)
      then show False using y j assms(1) by blast
    qed
  qed
  then show "y \<in> set (take i xs)" using j by (auto simp: in_set_conv_nth intro!: exI [of _ j])
qed

lemma take_of_selection:
  assumes asym: "\<And>x y. R x y \<Longrightarrow> \<not> R y x" and "sorted_wrt R xs" and "sorted_wrt R ys" and "set ys \<subseteq> set xs"
    and ahead: "\<And>x. x \<in> set xs - set ys \<Longrightarrow> n \<le> card {y \<in> set ys. R y x}"
  shows "take n ys = take n xs"
proof -
  have eq: "ys = filter (\<lambda>x. x \<in> set ys) xs"
  proof (rule sorted_wrt_unique [of R, OF asym])
    show "sorted_wrt R ys" by (rule assms(3))
    show "sorted_wrt R (filter (\<lambda>x. x \<in> set ys) xs)" using assms(2) by (rule sorted_wrt_filter)
    show "set ys = set (filter (\<lambda>x. x \<in> set ys) xs)" using assms(4) by auto
  qed
  have "x \<in> set ys" if xin: "x \<in> set (take n xs)" for x
  proof (rule ccontr)
    assume x: "x \<notin> set ys"
    obtain i where "i < length (take n xs)" "x = take n xs ! i" using xin by (metis in_set_conv_nth)
    then have i: "i < n" "i < length xs" "x = xs ! i" by simp_all
    have "{y \<in> set xs. R y x} \<subseteq> set (take i xs)" using sorted_wrt_ahead [of R, OF asym assms(2) i(2)] unfolding i(3) by blast
    then have "{y \<in> set ys. R y x} \<subseteq> set (take i xs)" using assms(4) by blast
    then have "card {y \<in> set ys. R y x} \<le> card (set (take i xs))" by (intro card_mono) auto
    also have "\<dots> \<le> i" by (rule order_trans [OF card_length]) simp
    finally have "card {y \<in> set ys. R y x} \<le> i" .
    moreover have "x \<in> set xs - set ys" using x i by simp
    ultimately show False using ahead [of x] i(1) by linarith
  qed
  then have "take n (filter (\<lambda>x. x \<in> set ys) xs) = take n xs" by (rule take_filter_same)
  with arg_cong [OF eq, of "take n"] show ?thesis by (rule trans)
qed

section \<open>The order of the listing\<close>

lemma set_insertBy [simp]: "set (insertBy cmp x ys) = insert x (set ys)"
  by (induction ys) auto

lemma length_insertBy [simp]: "length (insertBy cmp x ys) = Suc (length ys)"
  by (induction ys) auto

lemma set_sortBy [simp]: "set (sortBy cmp xs) = set xs"
  by (induction xs) (simp_all add: sortBy_def)

lemma length_sortBy [simp]: "length (sortBy cmp xs) = length xs"
  by (induction xs) (simp_all add: sortBy_def)

definition runKey :: "RunSummary \<Rightarrow> string \<times> ident" where
  "runKey r = (rl_startedAt r, rl_runId r)"

definition newer :: "RunSummary \<Rightarrow> RunSummary \<Rightarrow> bool" where
  "newer a b \<longleftrightarrow> runKey b < runKey a"

lemma newestFirst_le: "newestFirst a b \<le> 0 \<longleftrightarrow> runKey b \<le> runKey a"
  by (auto simp: newestFirst_def runKey_def less_eq_prod_def not_less)

lemma newer_asym: "newer a b \<Longrightarrow> \<not> newer b a"
  by (auto simp: newer_def)

lemma isAfter_less: "isAfter k a \<longleftrightarrow> k < a"
  by (cases k; cases a) (auto simp: isAfter_def less_prod_def)

lemma sorted_insertBy:
  "sorted_wrt (\<lambda>a b. runKey b \<le> runKey a) ys \<Longrightarrow> sorted_wrt (\<lambda>a b. runKey b \<le> runKey a) (insertBy newestFirst x ys)"
  by (induction ys) (auto simp: newestFirst_le)

lemma sorted_sortBy: "sorted_wrt (\<lambda>a b. runKey b \<le> runKey a) (sortBy newestFirst xs)"
  by (induction xs) (simp_all add: sortBy_def sorted_insertBy)

lemma newest_sortBy:
  assumes "distinct (map rl_runId xs)"
  shows "sorted_wrt newer (sortBy newestFirst xs)"
proof -
  have "distinct (sortBy newestFirst xs)"
    using assms by (metis card_distinct distinct_card distinct_map length_sortBy set_sortBy)
  then have d: "distinct (map runKey (sortBy newestFirst xs))"
    using assms by (auto simp: distinct_map inj_on_def runKey_def)
  have "sorted_wrt (\<lambda>a b. b < a) ks" if "sorted_wrt (\<lambda>a b. b \<le> a) ks" "distinct ks" for ks :: "(string \<times> ident) list"
    using that by (induction ks) (auto simp: order.strict_iff_order)
  from this [OF _ d] show ?thesis using sorted_sortBy [of xs] by (simp add: sorted_wrt_map newer_def [abs_def])
qed

section \<open>The halves of the listing\<close>

text \<open>The rows that the store selects, newest first: what \<open>listRows\<close> cuts at its limit.\<close>

definition storeRows :: "(string \<Rightarrow> bool) \<Rightarrow> EndedQuery \<Rightarrow> SnapshotStore \<Rightarrow> SnapRow list" where
  "storeRows status q S = (if q_statuses q = Some [] \<or> q_workflows q = Some [] then []
     else rev (sort_key orderKey (filter (selects status q) (ss_rows S))))"

lemma listRows_take: "listRows status q S = map endedRowOf (take (q_limit q) (storeRows status q S))"
  by (simp add: listRows_def storeRows_def)

lemma storeRows_limit: "storeRows status (storeQuery q readable statuses k) S = storeRows status (storeQuery q readable statuses m) S"
proof -
  have "selects status (storeQuery q readable statuses k) = selects status (storeQuery q readable statuses m)"
  proof
    fix r show "selects status (storeQuery q readable statuses k) r = selects status (storeQuery q readable statuses m) r"
      by (cases "sr_workflow r"; cases "sr_started_at r") (simp_all add: selects_def storeQuery_def)
  qed
  moreover have "q_statuses (storeQuery q readable statuses x) = statuses" "q_workflows (storeQuery q readable statuses x) = readable" for x
    by (simp_all add: storeQuery_def)
  ultimately show ?thesis by (simp add: storeRows_def)
qed

lemma set_storeRows:
  "r \<in> set (storeRows status q S) \<longleftrightarrow>
     r \<in> set (ss_rows S) \<and> selects status q r \<and> q_statuses q \<noteq> Some [] \<and> q_workflows q \<noteq> Some []"
  by (auto simp: storeRows_def)

lemma length_storeRows: "length (storeRows status q S) \<le> length (ss_rows S)"
  by (simp add: storeRows_def)

lemma sorted_storeRows: "sorted_wrt (\<lambda>a b. orderKey b \<le> orderKey a) (storeRows status q S)"
proof -
  have "sorted (map orderKey (sort_key orderKey xs))" for xs by simp
  then show ?thesis by (simp add: storeRows_def sorted_wrt_rev sorted_wrt_map)
qed

lemma distinct_storeRows:
  assumes "wfSnap S"
  shows "distinct (map sr_run_id (storeRows status q S))"
proof -
  have "distinct (map sr_run_id (filter P (ss_rows S)))" for P using assms by (simp add: wfSnap_def distinct_map_filter)
  then have "distinct (filter P (ss_rows S))" "inj_on sr_run_id (set (filter P (ss_rows S)))" for P by (auto simp: distinct_map)
  then show ?thesis unfolding storeRows_def by (simp add: distinct_map)
qed

lemma newest_storeRows:
  assumes "wfSnap S"
  shows "sorted_wrt (\<lambda>a b. orderKey b < orderKey a) (storeRows status q S)"
proof -
  let ?rows = "storeRows status q S"
  have "distinct (map snd (map orderKey ?rows))" using distinct_storeRows [OF assms] by (simp add: orderKey_def comp_def)
  then have d: "distinct (map orderKey ?rows)" using distinct_map by blast
  have "sorted_wrt (\<lambda>a b. b < a) ks" if "sorted_wrt (\<lambda>a b. b \<le> a) ks" "distinct ks" for ks :: "(string \<times> ident) list"
    using that by (induction ks) (auto simp: order.strict_iff_order)
  from this [OF _ d] show ?thesis using sorted_storeRows [of status q S] by (simp add: sorted_wrt_map)
qed

definition rowRun :: "bool \<Rightarrow> SnapRow \<Rightarrow> RunSummary" where
  "rowRun isEnded r = rowSummary isEnded (endedRowOf r)"

lemma rowRun_id [simp]: "rl_runId (rowRun e r) = sr_run_id r"
  by (simp add: rowRun_def rowSummary_def endedRowOf_def Let_def)

lemma runKey_rowRun: "selects status q r \<Longrightarrow> runKey (rowRun e r) = orderKey r"
  by (auto simp: rowRun_def runKey_def rowSummary_def endedRowOf_def orderKey_def selects_def Let_def split: option.splits)

lemma en_runId_endedRowOf [simp]: "en_runId (endedRowOf r) = sr_run_id r"
  by (simp add: endedRowOf_def Let_def)

abbreviation isLiveWord :: "string \<Rightarrow> bool" where "isLiveWord \<equiv> \<lambda>s. s = ''live''"
abbreviation isEndedWord :: "string \<Rightarrow> bool" where "isEndedWord \<equiv> \<lambda>s. s \<noteq> ''live''"

lemma waitingHalf_rows:
  "waitingHalf limit q readable reg S =
     (if rq_live q then map (rowRun False) (filter (\<lambda>r. sr_run_id r \<notin> fst ` set reg)
        (take limit (storeRows isLiveWord (storeQuery q readable None 0) S))) else [])"
proof -
  have q: "storeQuery q readable None limit\<lparr>q_statuses := None\<rparr> = storeQuery q readable None limit"
    "q_limit (storeQuery q readable None limit) = limit"
    by (simp_all add: storeQuery_def)
  show ?thesis unfolding waitingHalf_def liveRows_def listRows_take q
    using storeRows_limit [of isLiveWord q readable None limit S 0] by (simp add: filter_map comp_def rowRun_def)
qed

lemma endedHalf_rows:
  "endedHalf limit q readable S =
     (case rq_ended q of None \<Rightarrow> [] | Some statuses \<Rightarrow>
        map (rowRun True) (take limit (storeRows isEndedWord (storeQuery q readable (Some statuses) 0) S)))"
proof -
  have "q_limit (storeQuery q readable ss limit) = limit" for ss by (simp add: storeQuery_def)
  then show ?thesis unfolding endedHalf_def ended_def listRows_take rowRun_def
    using storeRows_limit [of isEndedWord q readable _ limit S 0] by (simp add: comp_def split: option.splits)
qed

section \<open>All the runs of a query\<close>

text \<open>The registry agrees with itself and with the store: each key is hosted once, under its own id, and the row of a run that
  the registry has as live does not say that the run ended (\<^verbatim>\<open>persist\<close> writes the terminal row and drops the run from the
  registry in one step).\<close>

definition hostsWell :: "registry \<Rightarrow> SnapshotStore \<Rightarrow> bool" where
  "hostsWell reg S \<longleftrightarrow> distinct (map fst reg)
     \<and> (\<forall>(i, s)\<in>set reg. case s of None \<Rightarrow> True
          | Some s \<Rightarrow> rs_runId s = i \<and> (rs_status s = LIVE_STATUS \<longrightarrow> (\<forall>r\<in>set (ss_rows S). sr_run_id r = i \<longrightarrow> sr_status r = ''live'')))"

text \<open>The listing without a page: every row that the store selects.\<close>

definition allRuns :: "RunListQuery \<Rightarrow> string list option \<Rightarrow> registry \<Rightarrow> SnapshotStore \<Rightarrow> RunSummary list" where
  "allRuns q readable reg S = mergeHalves (liveHalf q readable reg)
     (waitingHalf (length (ss_rows S)) q readable reg S @ endedHalf (length (ss_rows S)) q readable S)"

lemma list_runs_in: "s \<in> set (list_runs reg) \<longleftrightarrow> (\<exists>i. (i, Some s) \<in> set reg)"
  by (induction reg) (auto simp: list_runs_def List.map_filter_def image_iff)

lemma list_runs_map:
  "\<forall>p\<in>set reg. case snd p of None \<Rightarrow> True | Some s \<Rightarrow> rs_runId s = fst p \<Longrightarrow>
     map rs_runId (list_runs reg) = map fst (filter (\<lambda>p. snd p \<noteq> None) reg)"
proof (induction reg)
  case (Cons p reg)
  then show ?case by (cases "snd p") (simp_all add: list_runs_def List.map_filter_def)
qed (simp add: list_runs_def List.map_filter_def)

lemma list_runs_ids:
  assumes "hostsWell reg S"
  shows "distinct (map rs_runId (list_runs reg))" and "s \<in> set (list_runs reg) \<Longrightarrow> rs_runId s \<in> fst ` set reg"
proof -
  have "\<forall>p\<in>set reg. case snd p of None \<Rightarrow> True | Some s \<Rightarrow> rs_runId s = fst p"
    using assms unfolding hostsWell_def by (auto split: option.splits prod.splits)
  from list_runs_map [OF this] have ids: "map rs_runId (list_runs reg) = map fst (filter (\<lambda>p. snd p \<noteq> None) reg)" .
  then show "distinct (map rs_runId (list_runs reg))" using assms by (simp add: hostsWell_def distinct_map_filter)
  have "set (map rs_runId (list_runs reg)) \<subseteq> fst ` set reg" unfolding ids by auto
  then show "s \<in> set (list_runs reg) \<Longrightarrow> rs_runId s \<in> fst ` set reg" by auto
qed

lemma summaryOfRun_id [simp]: "rl_runId (summaryOfRun s) = rs_runId s" "rl_startedAt (summaryOfRun s) = rs_startedAt s"
  by (simp_all add: summaryOfRun_def Let_def)

lemma liveHalf_ids:
  assumes "hostsWell reg S"
  shows "distinct (map rl_runId (liveHalf q readable reg))" and "r \<in> set (liveHalf q readable reg) \<Longrightarrow> rl_runId r \<in> fst ` set reg"
    and "r \<in> set (liveHalf q readable reg) \<Longrightarrow> x \<in> set (ss_rows S) \<Longrightarrow> sr_run_id x = rl_runId r \<Longrightarrow> sr_status x = ''live''"
proof -
  have "map rl_runId (map summaryOfRun ss) = map rs_runId ss" for ss by simp
  then show "distinct (map rl_runId (liveHalf q readable reg))"
    using list_runs_ids(1) [OF assms] by (simp add: liveHalf_def distinct_map_filter del: map_map)
  show "r \<in> set (liveHalf q readable reg) \<Longrightarrow> rl_runId r \<in> fst ` set reg"
    using list_runs_ids(2) [OF assms] by (auto simp: liveHalf_def split: if_splits)
  show "r \<in> set (liveHalf q readable reg) \<Longrightarrow> x \<in> set (ss_rows S) \<Longrightarrow> sr_run_id x = rl_runId r \<Longrightarrow> sr_status x = ''live''"
    using assms by (fastforce simp: liveHalf_def listsLive_def list_runs_in hostsWell_def split: if_splits)
qed

lemma waitingHalf_in:
  assumes "r \<in> set (waitingHalf k q readable reg S)"
  shows "\<exists>x\<in>set (ss_rows S). r = rowRun False x \<and> sr_status x = ''live'' \<and> sr_run_id x \<notin> fst ` set reg"
  using assms by (auto simp: waitingHalf_rows set_storeRows selects_def dest!: in_set_takeD split: if_splits)

lemma endedHalf_in:
  assumes "r \<in> set (endedHalf k q readable S)"
  shows "\<exists>x\<in>set (ss_rows S). r = rowRun True x \<and> sr_status x \<noteq> ''live''"
  using assms by (auto simp: endedHalf_rows set_storeRows selects_def dest!: in_set_takeD split: option.splits)

lemma same_row: "wfSnap S \<Longrightarrow> x \<in> set (ss_rows S) \<Longrightarrow> y \<in> set (ss_rows S) \<Longrightarrow> sr_run_id x = sr_run_id y \<Longrightarrow> x = y"
  by (auto simp: wfSnap_def distinct_map inj_on_def)

lemma distinct_rows: "wfSnap S \<Longrightarrow> distinct (map sr_run_id (take k (storeRows st sq S)))"
  using distinct_storeRows [of S st sq] by (simp add: take_map [symmetric] distinct_take)

lemma halves_apart:
  assumes "wfSnap S" and "hostsWell reg S"
  shows "rl_runId ` set (liveHalf q readable reg) \<inter> rl_runId ` set (waitingHalf k q readable reg S) = {}"
    and "rl_runId ` set (liveHalf q readable reg) \<inter> rl_runId ` set (endedHalf m q readable S) = {}"
    and "rl_runId ` set (waitingHalf k q readable reg S) \<inter> rl_runId ` set (endedHalf m q readable S) = {}"
proof -
  let ?L = "liveHalf q readable reg" and ?W = "waitingHalf k q readable reg S" and ?E = "endedHalf m q readable S"
  have False if "a \<in> set ?L" "b \<in> set ?W" "rl_runId a = rl_runId b" for a b
  proof -
    obtain x where "b = rowRun False x" "sr_run_id x \<notin> fst ` set reg" using waitingHalf_in [OF \<open>b \<in> set ?W\<close>] by blast
    then show False using liveHalf_ids(2) [OF assms(2) \<open>a \<in> set ?L\<close>] \<open>rl_runId a = rl_runId b\<close> by simp
  qed
  then show "rl_runId ` set ?L \<inter> rl_runId ` set ?W = {}" by blast
  have False if "a \<in> set ?L" "b \<in> set ?E" "rl_runId a = rl_runId b" for a b
  proof -
    obtain y where y: "y \<in> set (ss_rows S)" "b = rowRun True y" "sr_status y \<noteq> ''live''" using endedHalf_in [OF \<open>b \<in> set ?E\<close>] by blast
    then show False using liveHalf_ids(3) [OF assms(2) \<open>a \<in> set ?L\<close> y(1)] \<open>rl_runId a = rl_runId b\<close> by simp
  qed
  then show "rl_runId ` set ?L \<inter> rl_runId ` set ?E = {}" by blast
  have False if "a \<in> set ?W" "b \<in> set ?E" "rl_runId a = rl_runId b" for a b
  proof -
    obtain x where x: "x \<in> set (ss_rows S)" "a = rowRun False x" "sr_status x = ''live''" using waitingHalf_in [OF \<open>a \<in> set ?W\<close>] by blast
    obtain y where y: "y \<in> set (ss_rows S)" "b = rowRun True y" "sr_status y \<noteq> ''live''" using endedHalf_in [OF \<open>b \<in> set ?E\<close>] by blast
    show False using same_row [OF assms(1) x(1) y(1)] x y \<open>rl_runId a = rl_runId b\<close> by simp
  qed
  then show "rl_runId ` set ?W \<inter> rl_runId ` set ?E = {}" by blast
qed

lemma halves:
  assumes "wfSnap S" and "hostsWell reg S"
  shows "distinct (map rl_runId (liveHalf q readable reg @ waitingHalf k q readable reg S @ endedHalf m q readable S))"
    and "mergeHalves (liveHalf q readable reg) (waitingHalf k q readable reg S @ endedHalf m q readable S)
      = sortBy newestFirst (liveHalf q readable reg @ waitingHalf k q readable reg S @ endedHalf m q readable S)"
proof -
  let ?L = "liveHalf q readable reg" and ?W = "waitingHalf k q readable reg S" and ?E = "endedHalf m q readable S"
  note apart = halves_apart(1) [OF assms, of q readable k] halves_apart(2) [OF assms, of q readable m]
    halves_apart(3) [OF assms, of k q readable m]
  have ids: "map rl_runId (map (rowRun e) xs) = map sr_run_id xs" for e xs by simp
  have dW: "distinct (map rl_runId ?W)"
    using distinct_rows [OF assms(1)] by (simp add: waitingHalf_rows ids distinct_map_filter del: map_map)
  have dE: "distinct (map rl_runId ?E)"
    using distinct_rows [OF assms(1)] by (simp add: endedHalf_rows ids del: map_map split: option.splits)
  show "distinct (map rl_runId (?L @ ?W @ ?E))"
    unfolding map_append distinct_append set_append set_map
    using liveHalf_ids(1) [OF assms(2), of q readable] dW dE apart by blast
  have "\<forall>r\<in>set (?W @ ?E). rl_runId r \<notin> rl_runId ` set ?L"
  proof
    fix r assume "r \<in> set (?W @ ?E)"
    then have "rl_runId r \<in> rl_runId ` set ?W \<union> rl_runId ` set ?E" by auto
    then show "rl_runId r \<notin> rl_runId ` set ?L" using apart by blast
  qed
  then have "filter (\<lambda>r. rl_runId r \<notin> rl_runId ` set ?L) (?W @ ?E) = ?W @ ?E" by (rule filter_True)
  then show "mergeHalves ?L (?W @ ?E) = sortBy newestFirst (?L @ ?W @ ?E)" by (simp add: mergeHalves_def)
qed

text \<open>A row past the cut of the store has as many listed rows ahead of it as the cut allows for.\<close>

lemma rows_ahead:
  assumes "wfSnap S" and r: "r \<in> set (storeRows st sq S)" "r \<notin> set (take k (storeRows st sq S))"
    and few: "card {x \<in> set (storeRows st sq S). \<not> Q x} \<le> m"
  shows "k - m \<le> card (rowRun e ` {x \<in> set (take k (storeRows st sq S)). Q x})"
    and "\<And>x. x \<in> set (take k (storeRows st sq S)) \<Longrightarrow> newer (rowRun e x) (rowRun e r)"
proof -
  let ?R = "storeRows st sq S"
  have split: "?R = take k ?R @ List.drop k ?R" by simp
  have rd: "r \<in> set (List.drop k ?R)" using r arg_cong [OF split, of set] unfolding set_append by blast
  then have len: "length (take k ?R) = k" by (cases "k \<le> length ?R") auto
  have d: "distinct (take k ?R)" using distinct_rows [OF assms(1)] distinct_map by blast
  have "card (set (take k ?R)) = k" using distinct_card [OF d] len by simp
  moreover have "card (set (take k ?R)) \<le> card {x \<in> set (take k ?R). Q x} + card {x \<in> set ?R. \<not> Q x}"
  proof -
    have "set (take k ?R) \<subseteq> {x \<in> set (take k ?R). Q x} \<union> {x \<in> set ?R. \<not> Q x}" using set_take_subset [of k ?R] by blast
    then have "card (set (take k ?R)) \<le> card ({x \<in> set (take k ?R). Q x} \<union> {x \<in> set ?R. \<not> Q x})" by (intro card_mono) simp_all
    also note card_Un_le
    finally show ?thesis .
  qed
  ultimately have "k - m \<le> card {x \<in> set (take k ?R). Q x}" using few by linarith
  moreover have "inj_on (rowRun e) {x \<in> set (take k ?R). Q x}"
  proof (rule inj_onI)
    fix x y assume "x \<in> {x \<in> set (take k ?R). Q x}" "y \<in> {x \<in> set (take k ?R). Q x}" and eq: "rowRun e x = rowRun e y"
    then have "x \<in> set (ss_rows S)" "y \<in> set (ss_rows S)" by (auto simp: set_storeRows dest!: in_set_takeD)
    moreover have "sr_run_id x = sr_run_id y" using eq by (metis rowRun_id)
    ultimately show "x = y" using same_row [OF assms(1)] by blast
  qed
  ultimately show "k - m \<le> card (rowRun e ` {x \<in> set (take k ?R). Q x})" by (simp add: card_image)
  fix x assume x: "x \<in> set (take k ?R)"
  have "sorted_wrt (\<lambda>a b. orderKey b < orderKey a) (take k ?R @ List.drop k ?R)" using newest_storeRows [OF assms(1), of st sq] by simp
  then have "orderKey r < orderKey x" using x rd by (simp only: sorted_wrt_append)
  moreover have "selects st sq r" "selects st sq x" using r x by (auto simp: set_storeRows dest!: in_set_takeD)
  ultimately show "newer (rowRun e x) (rowRun e r)" by (simp add: newer_def runKey_rowRun)
qed

lemma hosted_rows:
  assumes "wfSnap S"
  shows "card {x \<in> set (storeRows st sq S). \<not> sr_run_id x \<notin> fst ` set reg} \<le> length reg"
proof -
  let ?H = "{x \<in> set (storeRows st sq S). \<not> sr_run_id x \<notin> fst ` set reg}"
  have "inj_on sr_run_id ?H"
    using distinct_storeRows [OF assms, of st sq] by (auto simp: distinct_map inj_on_def)
  then have "card ?H = card (sr_run_id ` ?H)" by (simp add: card_image)
  also have "\<dots> \<le> card (fst ` set reg)" by (rule card_mono) auto
  also have "\<dots> \<le> length reg" by (meson List.finite_set card_image_le card_length order_trans)
  finally show ?thesis .
qed

lemma unbounded: "length (ss_rows S) \<le> k \<Longrightarrow> take k (storeRows st sq S) = storeRows st sq S"
  using length_storeRows [of st sq S] by simp

lemma waiting_cut:
  assumes "wfSnap S" and "x \<in> set (waitingHalf (length (ss_rows S)) q readable reg S)"
    and "x \<notin> set (waitingHalf (n + length reg) q readable reg S)"
  shows "n \<le> card {y \<in> set (waitingHalf (n + length reg) q readable reg S). newer y x}"
proof -
  let ?R = "storeRows isLiveWord (storeQuery q readable None 0) S" and ?k = "n + length reg"
  let ?Q = "\<lambda>r. sr_run_id r \<notin> fst ` set reg"
  have lv: "rq_live q" using assms(2) by (auto simp: waitingHalf_def split: if_splits)
  obtain r where r: "r \<in> set ?R" "?Q r" "x = rowRun False r"
    using assms(2) lv by (auto simp: waitingHalf_rows unbounded)
  have cut: "r \<notin> set (take ?k ?R)" using assms(3) r lv by (auto simp: waitingHalf_rows)
  note ahead = rows_ahead [OF assms(1) r(1) cut hosted_rows [OF assms(1), of isLiveWord "storeQuery q readable None 0" reg], where e = False]
  have "rowRun False ` {y \<in> set (take ?k ?R). ?Q y} \<subseteq> {y \<in> set (waitingHalf ?k q readable reg S). newer y x}"
    using ahead(2) lv by (auto simp: waitingHalf_rows r(3))
  then have "card (rowRun False ` {y \<in> set (take ?k ?R). ?Q y}) \<le> card {y \<in> set (waitingHalf ?k q readable reg S). newer y x}"
    by (intro card_mono) simp_all
  then show ?thesis using ahead(1) by simp
qed

lemma ended_cut:
  assumes "wfSnap S" and "x \<in> set (endedHalf (length (ss_rows S)) q readable S)" and "x \<notin> set (endedHalf n q readable S)"
  shows "n \<le> card {y \<in> set (endedHalf n q readable S). newer y x}"
proof -
  obtain ss where ss: "rq_ended q = Some ss" using assms(2) by (cases "rq_ended q") (auto simp: endedHalf_def)
  let ?R = "storeRows isEndedWord (storeQuery q readable (Some ss) 0) S"
  obtain r where r: "r \<in> set ?R" "x = rowRun True r" using assms(2) ss by (auto simp: endedHalf_rows unbounded)
  have cut: "r \<notin> set (take n ?R)" using assms(3) r ss by (auto simp: endedHalf_rows)
  have none: "card {y \<in> set ?R. \<not> True} \<le> 0" by simp
  note ahead = rows_ahead [OF assms(1) r(1) cut none, where e = True]
  have "rowRun True ` {y \<in> set (take n ?R). True} \<subseteq> {y \<in> set (endedHalf n q readable S). newer y x}"
    using ahead(2) ss by (auto simp: endedHalf_rows r(2))
  then have "card (rowRun True ` {y \<in> set (take n ?R). True}) \<le> card {y \<in> set (endedHalf n q readable S). newer y x}"
    by (intro card_mono) simp_all
  then show ?thesis using ahead(1) by simp
qed

lemma half_subset:
  "set (waitingHalf k q readable reg S) \<subseteq> set (waitingHalf (length (ss_rows S)) q readable reg S)"
  "set (endedHalf k q readable S) \<subseteq> set (endedHalf (length (ss_rows S)) q readable S)"
  by (auto simp: waitingHalf_rows endedHalf_rows unbounded dest: in_set_takeD split: option.splits)

lemma page_of_all:
  assumes "wfSnap S" and "hostsWell reg S"
  shows "take n (mergeHalves (liveHalf q readable reg) (waitingHalf (n + length reg) q readable reg S @ endedHalf n q readable S))
    = take n (allRuns q readable reg S)"
proof -
  let ?N = "length (ss_rows S)"
  let ?U = "liveHalf q readable reg @ waitingHalf ?N q readable reg S @ endedHalf ?N q readable S"
  let ?P = "liveHalf q readable reg @ waitingHalf (n + length reg) q readable reg S @ endedHalf n q readable S"
  have "take n (sortBy newestFirst ?P) = take n (sortBy newestFirst ?U)"
  proof (rule take_of_selection [of newer, OF newer_asym])
    show "sorted_wrt newer (sortBy newestFirst ?U)" "sorted_wrt newer (sortBy newestFirst ?P)"
      by (rule newest_sortBy, rule halves(1) [OF assms])+
    show "set (sortBy newestFirst ?P) \<subseteq> set (sortBy newestFirst ?U)" using half_subset by fastforce
    fix x assume x: "x \<in> set (sortBy newestFirst ?U) - set (sortBy newestFirst ?P)"
    have mono: "card {y \<in> A. newer y x} \<le> card {y \<in> set (sortBy newestFirst ?P). newer y x}" if "A \<subseteq> set ?P" for A
      using that by (intro card_mono) auto
    show "n \<le> card {y \<in> set (sortBy newestFirst ?P). newer y x}"
    proof (cases "x \<in> set (waitingHalf ?N q readable reg S)")
      case True
      then have "n \<le> card {y \<in> set (waitingHalf (n + length reg) q readable reg S). newer y x}"
        using x waiting_cut [OF assms(1)] by auto
      also note mono
      finally show ?thesis by auto
    next
      case False
      then have "n \<le> card {y \<in> set (endedHalf n q readable S). newer y x}" using x ended_cut [OF assms(1)] by auto
      also note mono
      finally show ?thesis by auto
    qed
  qed simp
  then show ?thesis by (simp add: allRuns_def halves(2) [OF assms])
qed

section \<open>Cursors\<close>

definition keyAfter :: "(string \<times> ident) option \<Rightarrow> string \<times> ident \<Rightarrow> bool" where
  "keyAfter a k \<longleftrightarrow> (case a of None \<Rightarrow> True | Some c \<Rightarrow> k < c)"

lemma selects_after:
  "selects st (storeQuery q readable ss 0) r \<longleftrightarrow>
     selects st (storeQuery (q\<lparr>rq_after := None\<rparr>) readable ss 0) r \<and> keyAfter (rq_after q) (orderKey r)"
  by (cases "sr_workflow r"; cases "sr_started_at r"; cases "rq_after q")
    (auto simp: selects_def storeQuery_def keyAfter_def orderKey_def less_prod_def)

lemma listsLive_after:
  "listsLive q readable s \<longleftrightarrow> listsLive (q\<lparr>rq_after := None\<rparr>) readable s \<and> keyAfter (rq_after q) (runKey (summaryOfRun s))"
  by (cases "rq_after q") (auto simp: listsLive_def keyAfter_def runKey_def isAfter_less)

lemma set_allRuns_after:
  "set (allRuns q readable reg S) = {r \<in> set (allRuns (q\<lparr>rq_after := None\<rparr>) readable reg S). keyAfter (rq_after q) (runKey r)}"
  if "wfSnap S" "hostsWell reg S"
proof -
  let ?q = "q\<lparr>rq_after := None\<rparr>" and ?N = "length (ss_rows S)"
  have "set (liveHalf q readable reg) = {r \<in> set (liveHalf ?q readable reg). keyAfter (rq_after q) (runKey r)}"
    using listsLive_after [of q readable] by (auto simp: liveHalf_def)
  moreover have "set (waitingHalf ?N q readable reg S) = {r \<in> set (waitingHalf ?N ?q readable reg S). keyAfter (rq_after q) (runKey r)}"
    using selects_after [of isLiveWord q readable None] runKey_rowRun [of isLiveWord _ _ False]
    by (auto simp: waitingHalf_rows unbounded set_storeRows storeQuery_def)
  moreover have "set (endedHalf ?N q readable S) = {r \<in> set (endedHalf ?N ?q readable S). keyAfter (rq_after q) (runKey r)}"
    using selects_after [of isEndedWord q readable] runKey_rowRun [of isEndedWord _ _ True]
    by (cases "rq_ended q") (auto simp: endedHalf_rows unbounded set_storeRows storeQuery_def)
  ultimately show ?thesis by (auto simp: allRuns_def halves(2) [OF that])
qed

lemma sorted_allRuns: "wfSnap S \<Longrightarrow> hostsWell reg S \<Longrightarrow> sorted_wrt newer (allRuns q readable reg S)"
  unfolding allRuns_def using halves newest_sortBy by metis

lemma last_least: "sorted_wrt newer xs \<Longrightarrow> r \<in> set xs \<Longrightarrow> \<not> runKey r < runKey (last xs)"
proof (induction xs)
  case (Cons x xs)
  show ?case
  proof (cases "xs = []")
    case False
    then have "runKey (last xs) < runKey x" using Cons.prems(1) last_in_set [of xs] by (auto simp: newer_def)
    then show ?thesis using False Cons by auto
  qed (use Cons.prems in simp)
qed simp

lemma allRuns_after_cursor:
  assumes "wfSnap S" and "hostsWell reg S" and "0 < n" and "n < length (allRuns q readable reg S)"
  shows "allRuns (q\<lparr>rq_after := Some (runKey (last (take n (allRuns q readable reg S))))\<rparr>) readable reg S
    = List.drop n (allRuns q readable reg S)"
proof -
  let ?A = "allRuns q readable reg S"
  let ?c = "runKey (last (take n ?A))"
  have sorted: "sorted_wrt newer (take n ?A @ List.drop n ?A)" using sorted_allRuns [OF assms(1,2), of q readable] by simp
  have last_in: "last (take n ?A) \<in> set (take n ?A)" using assms(3,4) by (intro last_in_set) auto
  have split: "set ?A = set (take n ?A) \<union> set (List.drop n ?A)"
    using arg_cong [OF append_take_drop_id [of n ?A], of set] by (simp only: set_append)
  have head: "\<not> runKey r < ?c" if "r \<in> set (take n ?A)" for r
    using last_least [of "take n ?A" r] sorted that by (simp only: sorted_wrt_append simp_thms)
  have tail: "runKey r < ?c" if "r \<in> set (List.drop n ?A)" for r
    using sorted last_in that unfolding sorted_wrt_append newer_def by blast
  have "keyAfter (rq_after q) ?c"
    using last_in split set_allRuns_after [OF assms(1,2), of q readable] by blast
  then have trans: "k < ?c \<Longrightarrow> keyAfter (rq_after q) k" for k by (auto simp: keyAfter_def split: option.splits)
  have "set (allRuns (q\<lparr>rq_after := Some d\<rparr>) readable reg S) =
      {r \<in> set (allRuns (q\<lparr>rq_after := None\<rparr>) readable reg S). runKey r < d}" for d
    using set_allRuns_after [OF assms(1,2), of "q\<lparr>rq_after := Some d\<rparr>" readable] by (simp add: keyAfter_def)
  then have "set (allRuns (q\<lparr>rq_after := Some ?c\<rparr>) readable reg S) = {r \<in> set ?A. runKey r < ?c}"
    using set_allRuns_after [OF assms(1,2), of q readable] trans by blast
  also have "\<dots> = set (List.drop n ?A)" using split head tail by blast
  finally have same: "set (allRuns (q\<lparr>rq_after := Some ?c\<rparr>) readable reg S) = set (List.drop n ?A)" .
  show ?thesis
  proof (rule sorted_wrt_unique [of newer, OF newer_asym _ _ same])
    show "sorted_wrt newer (allRuns (q\<lparr>rq_after := Some ?c\<rparr>) readable reg S)" by (rule sorted_allRuns [OF assms(1,2)])
    show "sorted_wrt newer (List.drop n ?A)" using sorted by (simp only: sorted_wrt_append simp_thms)
  qed
qed

section \<open>The grant and the store's filter\<close>

lemma take_indexOf: "CHR ''/'' \<in> set w \<Longrightarrow> take (nat (indexOf CHR ''/'' w)) w = takeWhile (\<lambda>c. c \<noteq> CHR ''/'') w"
  by (simp add: indexOf_def takeWhile_eq_take [symmetric])

lemma workflowIn_grantOpens:
  assumes "[] \<notin> set names"
  shows "workflowIn names w \<longleftrightarrow> grantOpens (readableGrant (Some names)) w"
proof -
  have "nameOpens name w \<longleftrightarrow> name = w \<or> CHR ''/'' \<in> set w \<and> name = takeWhile (\<lambda>c. c \<noteq> CHR ''/'') w" if "name \<noteq> []" for name
  proof (cases "CHR ''/'' \<in> set w")
    case True
    have "indexOf CHR ''/'' w > 0 \<longleftrightarrow> takeWhile (\<lambda>c. c \<noteq> CHR ''/'') w \<noteq> []" using True by (simp add: indexOf_def)
    then show ?thesis using True that take_indexOf [OF True] by (auto simp: nameOpens_def Let_def)
  qed (simp add: nameOpens_def indexOf_def)
  then have "(\<exists>name\<in>set names. nameOpens name w) \<longleftrightarrow>
      (\<exists>name\<in>set names. name = w \<or> CHR ''/'' \<in> set w \<and> name = takeWhile (\<lambda>c. c \<noteq> CHR ''/'') w)"
    using assms by (metis (no_types))
  then show ?thesis by (auto simp: workflowIn_def readableGrant_def list_ex_iff)
qed

section \<open>Properties\<close>

lemma history_page:
  assumes "wfSnap S" and "hostsWell reg S"
  shows "pg_runs (history q readable reg S) = take (rq_limit q) (allRuns q readable reg S)"
    and "pg_next (history q readable reg S) =
      (if length (allRuns q readable reg S) > rq_limit q \<and> rq_limit q > 0
       then Some (runKey (last (take (rq_limit q) (allRuns q readable reg S)))) else None)"
proof -
  let ?n = "rq_limit q"
  define merged where "merged = mergeHalves (liveHalf q readable reg)
    (waitingHalf (?n + 1 + length reg) q readable reg S @ endedHalf (?n + 1) q readable S)"
  have page: "take (?n + 1) merged = take (?n + 1) (allRuns q readable reg S)"
    unfolding merged_def by (rule page_of_all [OF assms])
  then have runs: "take ?n merged = take ?n (allRuns q readable reg S)" by (metis min.absorb1 le_add1 take_take)
  have hist: "history q readable reg S = \<lparr>pg_runs = take ?n merged, pg_next = (if length merged > ?n \<and> take ?n merged \<noteq> []
      then Some (rl_startedAt (last (take ?n merged)), rl_runId (last (take ?n merged))) else None)\<rparr>"
    unfolding history_def merged_def Let_def by (rule refl)
  have "length merged > ?n \<longleftrightarrow> length (allRuns q readable reg S) > ?n"
    using arg_cong [OF page, of length] by (simp add: min_def split: if_splits)
  then show "pg_runs (history q readable reg S) = take ?n (allRuns q readable reg S)"
    and "pg_next (history q readable reg S) = (if length (allRuns q readable reg S) > ?n \<and> ?n > 0
       then Some (runKey (last (take ?n (allRuns q readable reg S)))) else None)"
    unfolding hist runs by (auto simp: runKey_def)
qed

text \<open>C27. Pages of the run listing lose no run and show none twice: the runs of a page are the first of all the runs that the
  query lists, newest start first and each id once; there is a next page exactly when a run is left, and the query with its
  cursor lists exactly the runs that are left. The bounds that the host puts on the store's answers never cost a run.\<close>

theorem history_pages:
  assumes "snapReach S" and "hostsWell reg S" and "0 < rq_limit q"
  shows "pg_runs (history q readable reg S) = take (rq_limit q) (allRuns q readable reg S)
    \<and> sorted_wrt (\<lambda>a b. newestFirst a b < 0) (allRuns q readable reg S) \<and> distinct (map rl_runId (allRuns q readable reg S))
    \<and> (case pg_next (history q readable reg S) of
         None \<Rightarrow> length (allRuns q readable reg S) \<le> rq_limit q
       | Some cursor \<Rightarrow> rq_limit q < length (allRuns q readable reg S)
           \<and> allRuns (q\<lparr>rq_after := Some cursor\<rparr>) readable reg S = List.drop (rq_limit q) (allRuns q readable reg S))"
proof -
  note wf' = wfSnap_reach [OF assms(1)]
  have "(\<lambda>a b. newestFirst a b < 0) = newer"
    by (intro ext) (auto simp: newestFirst_def newer_def runKey_def less_prod_def)
  then have sorted: "sorted_wrt (\<lambda>a b. newestFirst a b < 0) (allRuns q readable reg S)"
    using sorted_allRuns [OF wf' assms(2), of q readable] by simp
  have "distinct (map rl_runId (allRuns q readable reg S))"
    unfolding allRuns_def halves(2) [OF wf' assms(2)]
    using halves(1) [OF wf' assms(2), of q readable "length (ss_rows S)" "length (ss_rows S)"]
    by (metis card_distinct distinct_card length_map length_sortBy set_map set_sortBy)
  then show ?thesis
    using sorted history_page [OF wf' assms(2), of q readable] allRuns_after_cursor [OF wf' assms(2,3), of q readable] assms(3) by auto
qed

definition exampleRegistry :: registry where
  "exampleRegistry = [(''run-1'', Some \<lparr>rs_runId = ''run-1'', rs_workflow = ''w'', rs_status = ''active'', rs_reason = None, rs_fault = None,
     rs_startedBy = None, rs_startedAt = ''2024'', rs_assembly = None, rs_gates = 0, rs_value = JStr ''idle'', rs_children = [],
     rs_dispatchedBy = None\<rparr>)]"

definition exampleQuery :: RunListQuery where
  "exampleQuery = \<lparr>rq_live = True, rq_ended = None, rq_workflow = None, rq_since = None, rq_after = None, rq_limit = 1\<rparr>"

lemma exampleRegistry_hosts: "hostsWell exampleRegistry exampleRuns"
  by (simp add: hostsWell_def exampleRegistry_def exampleRuns_def save_def upsert_def emptySnapshots_def saveRow_def listingOf_def)

theorem history_pages_witness:
  "pg_runs (history exampleQuery None exampleRegistry exampleRuns) = take 1 (allRuns exampleQuery None exampleRegistry exampleRuns)"
  using history_pages [OF exampleRuns_reach exampleRegistry_hosts, of exampleQuery None] by (simp add: exampleQuery_def)

text \<open>What a query lists of a run, whichever half it is in: the rule of the read routes, the Workflow, the start and the cursor.\<close>

definition admits :: "RunListQuery \<Rightarrow> string list option \<Rightarrow> string \<Rightarrow> string \<Rightarrow> ident \<Rightarrow> bool" where
  "admits q readable w st i \<longleftrightarrow> grantOpens (readableGrant readable) w \<and> (rq_workflow q = None \<or> rq_workflow q = Some w)
     \<and> (case rq_since q of None \<Rightarrow> True | Some t \<Rightarrow> t \<le> st) \<and> keyAfter (rq_after q) (st, i)"

definition admitsRow :: "RunListQuery \<Rightarrow> string list option \<Rightarrow> SnapRow \<Rightarrow> bool" where
  "admitsRow q readable r \<longleftrightarrow> (case (sr_workflow r, sr_started_at r) of
     (Some w, Some st) \<Rightarrow> admits q readable w st (sr_run_id r) | _ \<Rightarrow> False)"

lemma selects_admits:
  assumes "case readable of None \<Rightarrow> True | Some names \<Rightarrow> [] \<notin> set names"
  shows "selects st (storeQuery q readable ss 0) r \<and> readable \<noteq> Some [] \<longleftrightarrow>
    st (sr_status r) \<and> (case ss of None \<Rightarrow> True | Some words \<Rightarrow> sr_status r \<in> set words) \<and> admitsRow q readable r"
proof (cases "sr_workflow r"; cases "sr_started_at r")
  fix w t assume row: "sr_workflow r = Some w" "sr_started_at r = Some t"
  have grant: "(case readable of None \<Rightarrow> True | Some names \<Rightarrow> workflowIn names w) \<and> readable \<noteq> Some [] \<longleftrightarrow> grantOpens (readableGrant readable) w"
  proof (cases readable)
    case (Some names)
    then show ?thesis using assms workflowIn_grantOpens [of names w] by (auto simp: readableGrant_def)
  qed (simp add: readableGrant_def)
  have after: "(case rq_after q of None \<Rightarrow> True | Some (s, i) \<Rightarrow> t < s \<or> (t = s \<and> sr_run_id r < i)) \<longleftrightarrow> keyAfter (rq_after q) (t, sr_run_id r)"
    by (cases "rq_after q") (auto simp: keyAfter_def less_prod_def)
  have wflow: "(case rq_workflow q of None \<Rightarrow> True | Some v \<Rightarrow> w = v) \<longleftrightarrow> rq_workflow q = None \<or> rq_workflow q = Some w"
    by (cases "rq_workflow q") auto
  show ?thesis
    unfolding selects_def storeQuery_def admitsRow_def admits_def row
    by (simp add: grant [symmetric] after wflow) blast
qed (simp_all add: selects_def admitsRow_def)

lemma storeRows_admits:
  assumes "case readable of None \<Rightarrow> True | Some names \<Rightarrow> [] \<notin> set names"
  shows "r \<in> set (storeRows st (storeQuery q readable ss 0) S) \<longleftrightarrow>
    r \<in> set (ss_rows S) \<and> st (sr_status r) \<and> (case ss of None \<Rightarrow> True | Some words \<Rightarrow> sr_status r \<in> set words) \<and> admitsRow q readable r"
proof -
  have "q_statuses (storeQuery q readable ss 0) = ss" "q_workflows (storeQuery q readable ss 0) = readable" by (simp_all add: storeQuery_def)
  then have "r \<in> set (storeRows st (storeQuery q readable ss 0) S) \<longleftrightarrow>
      r \<in> set (ss_rows S) \<and> (selects st (storeQuery q readable ss 0) r \<and> readable \<noteq> Some []) \<and> ss \<noteq> Some []"
    by (auto simp: set_storeRows)
  then show ?thesis unfolding selects_admits [OF assms] by (auto split: option.splits)
qed

lemma listsLive_admits:
  "listsLive q readable s \<longleftrightarrow> rs_status s = LIVE_STATUS \<and> admits q readable (rs_workflow s) (rs_startedAt s) (rs_runId s)"
  by (cases "rq_workflow q"; cases "rq_after q") (auto simp: listsLive_def admits_def keyAfter_def isAfter_less)

lemma rowRun_workflow: "admitsRow q readable r \<Longrightarrow> grantOpens (readableGrant readable) (rl_workflow (rowRun e r))"
  by (auto simp: admitsRow_def admits_def rowRun_def rowSummary_def endedRowOf_def Let_def split: option.splits)

text \<open>C28. The registry's filter and the store's SQL are one rule: the listing holds exactly the hosted active runs, the live rows
  that the process does not host and the ended rows of the asked statuses that the query admits, where a run's Workflow is
  admitted by the rule of every read route. So no page shows a run of a Workflow that the Caller may not read. (The names of a
  grant are not empty.)\<close>

theorem listing_is_the_read_rule:
  assumes "snapReach S" and "hostsWell reg S" and "case readable of None \<Rightarrow> True | Some names \<Rightarrow> [] \<notin> set names"
  shows "set (allRuns q readable reg S) =
      {summaryOfRun s |s. rq_live q \<and> s \<in> set (list_runs reg) \<and> rs_status s = LIVE_STATUS
         \<and> admits q readable (rs_workflow s) (rs_startedAt s) (rs_runId s)}
    \<union> {rowRun False r |r. rq_live q \<and> r \<in> set (ss_rows S) \<and> sr_status r = ''live'' \<and> sr_run_id r \<notin> fst ` set reg \<and> admitsRow q readable r}
    \<union> {rowRun True r |r. r \<in> set (ss_rows S) \<and> sr_status r \<noteq> ''live'' \<and> sr_status r \<in> set (case rq_ended q of None \<Rightarrow> [] | Some ss \<Rightarrow> ss)
         \<and> admitsRow q readable r}
    \<and> (\<forall>r\<in>set (pg_runs (history q readable reg S)). grantOpens (readableGrant readable) (rl_workflow r))"
proof -
  note wf' = wfSnap_reach [OF assms(1)]
  have "set (liveHalf q readable reg) = {summaryOfRun s |s. rq_live q \<and> s \<in> set (list_runs reg) \<and> rs_status s = LIVE_STATUS
         \<and> admits q readable (rs_workflow s) (rs_startedAt s) (rs_runId s)}"
    by (auto simp: liveHalf_def listsLive_admits)
  moreover have "set (waitingHalf (length (ss_rows S)) q readable reg S) =
      {rowRun False r |r. rq_live q \<and> r \<in> set (ss_rows S) \<and> sr_status r = ''live'' \<and> sr_run_id r \<notin> fst ` set reg \<and> admitsRow q readable r}"
    by (auto simp: waitingHalf_rows unbounded storeRows_admits [OF assms(3)])
  moreover have "set (endedHalf (length (ss_rows S)) q readable S) =
      {rowRun True r |r. r \<in> set (ss_rows S) \<and> sr_status r \<noteq> ''live'' \<and> sr_status r \<in> set (case rq_ended q of None \<Rightarrow> [] | Some ss \<Rightarrow> ss)
         \<and> admitsRow q readable r}"
    by (cases "rq_ended q") (auto simp: endedHalf_rows unbounded storeRows_admits [OF assms(3)])
  ultimately have all: "set (allRuns q readable reg S) =
      {summaryOfRun s |s. rq_live q \<and> s \<in> set (list_runs reg) \<and> rs_status s = LIVE_STATUS
         \<and> admits q readable (rs_workflow s) (rs_startedAt s) (rs_runId s)}
    \<union> {rowRun False r |r. rq_live q \<and> r \<in> set (ss_rows S) \<and> sr_status r = ''live'' \<and> sr_run_id r \<notin> fst ` set reg \<and> admitsRow q readable r}
    \<union> {rowRun True r |r. r \<in> set (ss_rows S) \<and> sr_status r \<noteq> ''live'' \<and> sr_status r \<in> set (case rq_ended q of None \<Rightarrow> [] | Some ss \<Rightarrow> ss)
         \<and> admitsRow q readable r}"
    by (simp add: allRuns_def halves(2) [OF wf' assms(2)] Un_assoc)
  have "grantOpens (readableGrant readable) (rl_workflow r)" if "r \<in> set (allRuns q readable reg S)" for r
    using that rowRun_workflow unfolding all by (auto simp: admits_def summaryOfRun_def Let_def)
  then show ?thesis using all history_page(1) [OF wf' assms(2), of q readable] by (auto dest: in_set_takeD)
qed

theorem listing_is_the_read_rule_witness:
  "list_all (\<lambda>r. grantOpens (readableGrant (Some [''w''])) (rl_workflow r)) (pg_runs (history exampleQuery (Some [''w'']) exampleRegistry exampleRuns))"
  using listing_is_the_read_rule [OF exampleRuns_reach exampleRegistry_hosts, of "Some [''w'']" exampleQuery] by (simp add: list_all_iff)

lemma sort_distinct: "distinct xs \<Longrightarrow> sort xs = sorted_list_of_set (set xs)"
  by (simp add: sorted_list_of_set_sort_remdups distinct_remdups_id)

lemma distinct_setUnion: "distinct (setUnion xs ys)"
  by (simp add: setUnion_def)

text \<open>An abbreviated run id is looked up among all the ids that exist: the candidates are the first ids, in order, of the runs
  that the process hosts and of the rows that the store has, of any status, that start with the prefix. The bound on the
  store's answer never costs one.\<close>

theorem candidates_of_all_ids:
  assumes "snapReach S"
  shows "candidates reg S p n = take n (sorted_list_of_set {i \<in> fst ` set reg \<union> sr_run_id ` set (ss_rows S). prefix p i})"
proof -
  let ?A = "{i \<in> fst ` set reg. prefix p i}"
  define B where "B = sort (filter (prefix p) (map sr_run_id (ss_rows S)))"
  have setB: "set B = {i \<in> sr_run_id ` set (ss_rows S). prefix p i}" by (auto simp: B_def)
  have "distinct (filter (prefix p) (map sr_run_id (ss_rows S)))" using wfSnap_reach [OF assms] by (simp add: wfSnap_def)
  then have B: "distinct B" "sorted_wrt (<) B" by (auto simp: B_def strict_sorted_iff)
  have starts: "startsWith i p \<longleftrightarrow> prefix p i" for i by (auto simp: startsWith_def prefix_def dest: sym) (metis append_take_drop_id)
  have "candidates reg S p n = take n (sorted_list_of_set (?A \<union> set (take n B)))"
    unfolding candidates_def findIdsByPrefix_spec B_def [symmetric] starts
    by (subst sort_distinct [OF distinct_setUnion]) (auto intro!: arg_cong [of _ _ "\<lambda>X. take n (sorted_list_of_set X)"])
  also have "\<dots> = take n (sorted_list_of_set (?A \<union> set B))"
  proof (rule take_of_selection [of "(<)"])
    fix x assume x: "x \<in> set (sorted_list_of_set (?A \<union> set B)) - set (sorted_list_of_set (?A \<union> set (take n B)))"
    then have xB: "x \<in> set B" "x \<notin> set (take n B)" by auto
    then have rd: "x \<in> set (List.drop n B)" by (metis Un_iff append_take_drop_id set_append)
    have "sorted_wrt (<) (take n B @ List.drop n B)" using B(2) by simp
    then have "set (take n B) \<subseteq> {y \<in> set (sorted_list_of_set (?A \<union> set (take n B))). y < x}" using rd unfolding sorted_wrt_append by auto
    then have "card (set (take n B)) \<le> card {y \<in> set (sorted_list_of_set (?A \<union> set (take n B))). y < x}" by (intro card_mono) auto
    moreover have "card (set (take n B)) = n" using distinct_card [OF distinct_take [OF B(1)], of n] rd by (cases "n \<le> length B") auto
    ultimately show "n \<le> card {y \<in> set (sorted_list_of_set (?A \<union> set (take n B))). y < x}" by simp
  qed (auto dest: in_set_takeD)
  finally show ?thesis unfolding setB by (auto intro!: arg_cong [of _ _ "\<lambda>X. take n (sorted_list_of_set X)"])
qed

theorem candidates_of_all_ids_witness:
  "candidates exampleRegistry exampleRuns ''run'' 2 = take 2 (sorted_list_of_set {i \<in> fst ` set exampleRegistry \<union> sr_run_id ` set (ss_rows exampleRuns). prefix ''run'' i})"
  by (rule candidates_of_all_ids [OF exampleRuns_reach])

end
