(* ===== verification/Pool.thy ===== *)
theory Pool
  imports Snapshot_Store
begin

text \<open>
  The Pool, \<^verbatim>\<open>packages/orchestrator/src/pool.ts\<close>: the Machine that runs one worker for each item of a Source, at most
  \<^verbatim>\<open>cap\<close> at once.

  The Machine is a step function on its context and its state. One step is a macrostep of xstate: the transition that the
  event takes, then the eventless (\<^verbatim>\<open>always\<close>) transitions until none is enabled, those of the inner state before those of the
  root. \<open>p_children\<close> is the workers that are spawned and not stopped. What jr2 does not own is a parameter of the spec: the
  author's \<^verbatim>\<open>itemId\<close> and \<^verbatim>\<open>items\<close>, and the \<^verbatim>\<open>safeParse\<close> of the item schema. An event brings what an actor answered: \<^verbatim>\<open>next\<close>, \<^verbatim>\<open>read\<close>,
  the store's key check, a worker. The worker's input, the delays of \<^verbatim>\<open>pollEvery\<close> (the event \<open>PollDue\<close>) and the order that
  JavaScript gives to keys that read as integers are not modelled.
\<close>

section \<open>The spec\<close>

datatype Form = Pull | ReadSet | Push

record HookRef =
  hr_name :: string
  hr_delivery :: string
  hr_onBehalfOf :: "string option"

record Held =
  h_key :: string
  h_item :: "Json option"
  h_hook :: "HookRef option"

text \<open>\<open>ps_itemId\<close> gives the id, or the reason why it gives none (\<^verbatim>\<open>its itemId threw: ...\<close>, or \<^verbatim>\<open>its itemId gave no id\<close> when it is
  empty; an empty id from a pull Source's \<^verbatim>\<open>next\<close>, which the code does not refuse, is outside the model). \<open>ps_items\<close> is \<open>None\<close> when
  it throws or gives no array, and the \<open>Inl\<close> of \<open>ps_parse\<close> is the joined issues of the schema.\<close>

record PoolSpec =
  ps_form :: Form
  ps_runs :: bool
  ps_report :: bool
  ps_hold :: nat
  ps_itemId :: "Json \<Rightarrow> string + string"
  ps_items :: "Json \<Rightarrow> Json list option"
  ps_parse :: "Json option \<Rightarrow> string + Json"

datatype SourceShape = SourceShape bool bool bool

text \<open>The forms of a Source by which of \<^verbatim>\<open>next\<close>, \<^verbatim>\<open>read\<close> and \<^verbatim>\<open>item\<close> it has, and the refusal when it is not exactly one.\<close>

fun formOf :: "SourceShape \<Rightarrow> Form option" where
  "formOf (SourceShape True False False) = Some Pull"
| "formOf (SourceShape False True False) = Some ReadSet"
| "formOf (SourceShape False False True) = Some Push"
| "formOf _ = None"

section \<open>Settled workers\<close>

datatype DispatchOutput =
    DStarted string
  | DSettled string string
  | DRefused int "string list"
  | DUnreachable string
  | DUnknown "string option"

datatype Settled = ChildOutput Json | RunEnd "string option" string "string option"

fun joinSemi :: "string list \<Rightarrow> string" where
  "joinSemi [] = []"
| "joinSemi [x] = x"
| "joinSemi (x # xs) = x @ ''; '' @ joinSemi xs"

definition settledOfRun :: "DispatchOutput option \<Rightarrow> Settled" where
  "settledOfRun out = (case out of
       None \<Rightarrow> RunEnd None ''unknown'' None
     | Some (DSettled run status) \<Rightarrow> RunEnd (Some run) status None
     | Some (DStarted run) \<Rightarrow> RunEnd (Some run) ''started'' None
     | Some (DRefused status report) \<Rightarrow> RunEnd None ''start-refused'' (Some (decimalInt status @ '': '' @ joinSemi report))
     | Some (DUnreachable reason) \<Rightarrow> RunEnd None ''unreachable'' None
     | Some (DUnknown reason) \<Rightarrow> RunEnd None ''unknown'' reason)"

definition stillLive :: "DispatchOutput option \<Rightarrow> bool" where
  "stillLive out \<longleftrightarrow> (case out of Some (DSettled run status) \<Rightarrow> status = ''live'' | _ \<Rightarrow> False)"

fun namesNoRun :: "Settled \<Rightarrow> bool" where
  "namesNoRun (RunEnd None status reason) = True"
| "namesNoRun _ = False"

section \<open>The Machine's state\<close>

datatype PState = Discovering | Saturated | ReadFetch | ReadCheck | ReadClaiming | ReadDone | Parked
  | Failing | Drained | DeadlockedEnd | Errored

datatype Triage = TDrained | TDeadlocked

datatype PoolMark = MStarted string | MSettled string Settled | MCarryRefused string string

record Pool =
  p_state :: PState
  p_cap :: nat
  p_active :: "string list"
  p_items :: "(string \<times> Settled) list"
  p_failures :: "(string \<times> Json) list"
  p_status :: "Triage option"
  p_held :: "Held list"
  p_ready :: "Held list"
  p_claimed :: "(string \<times> Held) list"
  p_again :: "string list"
  p_latch :: bool
  p_taken :: nat
  p_carried :: "string list"
  p_children :: "string list"
  p_checking :: "(Json \<times> string list) option"
  p_marks :: "PoolMark list"

datatype WorkerOut = OfChild Json | OfRun "DispatchOutput option"

datatype PoolEvent =
    NextDone "Json option" nat
  | NextError
  | ReadAnswer Json
  | ReadError
  | CheckDone "string list"
  | CheckError
  | WorkerDone string WorkerOut
  | WorkerError string bool Json string
  | Carry Held
  | Hear
  | PollDue

definition markWhen :: "bool \<Rightarrow> PoolMark \<Rightarrow> Pool \<Rightarrow> Pool" where
  "markWhen c m p = (if c then p\<lparr>p_marks := p_marks p @ [m]\<rparr> else p)"

definition enterDiscovering :: "Pool \<Rightarrow> Pool" where
  "enterDiscovering p = p\<lparr>p_state := Discovering, p_latch := False\<rparr>"

definition enterReading :: "Pool \<Rightarrow> Pool" where
  "enterReading p = p\<lparr>p_state := ReadFetch, p_latch := False, p_ready := []\<rparr>"

definition inRead :: "Pool \<Rightarrow> bool" where
  "inRead p \<longleftrightarrow> p_state p \<in> {ReadFetch, ReadCheck, ReadClaiming}"

definition isOver :: "Pool \<Rightarrow> bool" where
  "isOver p \<longleftrightarrow> p_state p \<in> {Failing, Drained, DeadlockedEnd, Errored}"

section \<open>Claims: the eventless transitions\<close>

definition nextClaim :: "Pool \<Rightarrow> Held option" where
  "nextClaim p = (case p_ready p of h # _ \<Rightarrow> Some h | [] \<Rightarrow> (case p_held p of h # _ \<Rightarrow> Some h | [] \<Rightarrow> None))"

definition claim :: "PoolSpec \<Rightarrow> Held \<Rightarrow> Pool \<Rightarrow> Pool" where
  "claim spec h p0 =
     (let p = markWhen (ps_runs spec) (MStarted (h_key h)) p0
      in p\<lparr>p_children := p_children p @ [h_key h],
           p_active := p_active p @ [h_key h],
           p_ready := (if p_ready p \<noteq> [] then tl (p_ready p) else p_ready p),
           p_held := (if p_ready p \<noteq> [] then p_held p else tl (p_held p)),
           p_claimed := (if ps_runs spec then mapSet (h_key h) h (p_claimed p) else p_claimed p),
           p_taken := p_taken p + 1\<rparr>)"

definition spawnAgain :: "Pool \<Rightarrow> Pool" where
  "spawnAgain p = p\<lparr>p_children := p_children p @ [hd (p_again p)], p_again := tl (p_again p)\<rparr>"

definition rootAlways :: "PoolSpec \<Rightarrow> Pool \<Rightarrow> Pool option" where
  "rootAlways spec p =
     (if ps_form spec = Pull \<and> \<not> ps_runs spec then None
      else if ps_runs spec \<and> p_again p \<noteq> [] then Some (spawnAgain p)
      else case nextClaim p of
             None \<Rightarrow> None
           | Some h \<Rightarrow> if length (p_active p) < p_cap p then Some (claim spec h p) else None)"

text \<open>The end of an idle Pool of children: it fails the run when an item failed, unless it reports the failures.\<close>

definition idleEnd :: "PoolSpec \<Rightarrow> Triage \<Rightarrow> PState \<Rightarrow> Pool \<Rightarrow> Pool" where
  "idleEnd spec triage final p =
     (if \<not> ps_report spec \<and> p_failures p \<noteq> [] then p\<lparr>p_state := Failing, p_status := Some triage\<rparr>
      else p\<lparr>p_state := final, p_status := Some triage\<rparr>)"

fun innerAlways :: "PoolSpec \<Rightarrow> PState \<Rightarrow> Pool \<Rightarrow> Pool option" where
  "innerAlways spec Discovering p = (if length (p_active p) \<ge> p_cap p then Some (p\<lparr>p_state := Saturated\<rparr>) else None)"
| "innerAlways spec ReadClaiming p =
     (if p_ready p = [] \<or> length (p_active p) \<ge> p_cap p then Some (p\<lparr>p_state := ReadDone, p_ready := []\<rparr>) else None)"
| "innerAlways spec ReadDone p =
     Some (if p_latch p then enterReading p
           else if ps_runs spec \<or> p_active p \<noteq> [] then p\<lparr>p_state := Parked\<rparr>
           else idleEnd spec TDrained Drained p)"
| "innerAlways spec _ p = None"

definition alwaysStep :: "PoolSpec \<Rightarrow> Pool \<Rightarrow> Pool option" where
  "alwaysStep spec p =
     (if isOver p then None
      else case innerAlways spec (p_state p) p of Some p' \<Rightarrow> Some p' | None \<Rightarrow> rootAlways spec p)"

definition stateRank :: "PState \<Rightarrow> nat" where
  "stateRank s = (case s of ReadClaiming \<Rightarrow> 2 | ReadDone \<Rightarrow> 1 | Discovering \<Rightarrow> 1 | _ \<Rightarrow> 0)"

lemma alwaysStep_decreases:
  "alwaysStep spec p = Some p' \<Longrightarrow>
     length (p_again p') + length (p_ready p') + length (p_held p') + stateRank (p_state p')
     < length (p_again p) + length (p_ready p) + length (p_held p) + stateRank (p_state p)"
  by (cases "p_state p"; cases "p_ready p"; cases "p_held p"; cases "p_again p")
    (auto simp: alwaysStep_def isOver_def rootAlways_def nextClaim_def claim_def spawnAgain_def markWhen_def enterReading_def
      idleEnd_def stateRank_def Let_def split: if_splits)

function settleAlways :: "PoolSpec \<Rightarrow> Pool \<Rightarrow> Pool" where
  "settleAlways spec p = (case alwaysStep spec p of None \<Rightarrow> p | Some p' \<Rightarrow> settleAlways spec p')"
  by pat_completeness auto

termination settleAlways
  by (relation "measure (\<lambda>(spec, p). length (p_again p) + length (p_ready p) + length (p_held p) + stateRank (p_state p))")
    (auto dest: alwaysStep_decreases)

declare settleAlways.simps [simp del]

section \<open>Settling\<close>

definition free :: "string \<Rightarrow> Pool \<Rightarrow> Pool" where
  "free k p = p\<lparr>p_active := filter (\<lambda>a. a \<noteq> k) (p_active p), p_claimed := mapDelete k (p_claimed p),
     p_children := setDelete k (p_children p)\<rparr>"

text \<open>After a settle: a pull Source asks \<^verbatim>\<open>next\<close>, a read Source reads, or latches when it reads now; a push Source claims from
  its held items.\<close>

definition afterSettle :: "PoolSpec \<Rightarrow> Pool \<Rightarrow> Pool" where
  "afterSettle spec p =
     (if inRead p then p\<lparr>p_latch := True\<rparr>
      else case ps_form spec of Pull \<Rightarrow> enterDiscovering p | ReadSet \<Rightarrow> enterReading p | Push \<Rightarrow> p)"

definition outcomeOf :: "WorkerOut \<Rightarrow> Settled" where
  "outcomeOf out = (case out of OfChild v \<Rightarrow> ChildOutput v | OfRun d \<Rightarrow> settledOfRun d)"

definition workerDone :: "PoolSpec \<Rightarrow> string \<Rightarrow> WorkerOut \<Rightarrow> Pool \<Rightarrow> Pool" where
  "workerDone spec k out p =
     (if ps_runs spec \<and> k \<notin> set (p_active p) then p
      else if ps_runs spec \<and> (case out of OfRun d \<Rightarrow> stillLive d | OfChild _ \<Rightarrow> False)
           then p\<lparr>p_again := p_again p @ [k], p_children := setDelete k (p_children p)\<rparr>
      else let s = outcomeOf out; p1 = markWhen (ps_runs spec) (MSettled k s) p
           in afterSettle spec (free k (p1\<lparr>p_items := mapSet k s (p_items p1)\<rparr>)))"

definition workerError :: "PoolSpec \<Rightarrow> string \<Rightarrow> bool \<Rightarrow> Json \<Rightarrow> string \<Rightarrow> Pool \<Rightarrow> Pool" where
  "workerError spec k isFailure payload message p =
     (if k \<in> set (p_active p) \<and> (ps_runs spec \<or> isFailure)
      then if ps_runs spec
           then let p1 = markWhen True (MSettled k (RunEnd None ''dispatch-error'' (Some message))) p
                in afterSettle spec (free k (p1\<lparr>p_items := mapSet k (RunEnd None ''dispatch-error'' None) (p_items p1)\<rparr>))
           else afterSettle spec (free k (p\<lparr>p_failures := mapSet k payload (p_failures p)\<rparr>))
      else p\<lparr>p_state := Errored\<rparr>)"

section \<open>The read's key check\<close>

definition knownOf :: "PoolSpec \<Rightarrow> Pool \<Rightarrow> string list" where
  "knownOf spec p = p_active p @ map h_key (p_held p)
     @ (if ps_runs spec then map fst (filter (\<lambda>(_, v). namesNoRun v) (p_items p)) else map fst (p_items p) @ map fst (p_failures p))"

fun checkItems :: "PoolSpec \<Rightarrow> string list \<Rightarrow> string list \<Rightarrow> Json list \<Rightarrow> Held list" where
  "checkItems spec taken known [] = []"
| "checkItems spec taken known (item # rest) =
     (case ps_itemId spec item of
        Inl reason \<Rightarrow> checkItems spec taken known rest
      | Inr key \<Rightarrow>
          if key \<in> set known then checkItems spec taken known rest
          else if ps_runs spec \<and> key \<in> set taken then checkItems spec taken (key # known) rest
          else \<lparr>h_key = key, h_item = Some item, h_hook = None\<rparr> # checkItems spec taken (key # known) rest)"

section \<open>The transitions\<close>

definition nextDone :: "PoolSpec \<Rightarrow> Json option \<Rightarrow> nat \<Rightarrow> Pool \<Rightarrow> Pool" where
  "nextDone spec item' opened p =
     (case item' of
        Some item \<Rightarrow>
          (case ps_itemId spec item of
             Inl reason \<Rightarrow> p\<lparr>p_state := Errored\<rparr>
           | Inr k \<Rightarrow>
             let h = \<lparr>h_key = k, h_item = Some item, h_hook = None\<rparr>; p1 = markWhen (ps_runs spec) (MStarted k) p
             in enterDiscovering (p1\<lparr>p_taken := p_taken p1 + 1, p_active := p_active p1 @ [k],
                  p_claimed := (if ps_runs spec then mapSet k h (p_claimed p1) else p_claimed p1),
                  p_children := p_children p1 @ [k]\<rparr>))
      | None \<Rightarrow>
          if p_latch p then enterDiscovering p
          else if ps_runs spec \<or> p_active p \<noteq> [] then p\<lparr>p_state := Parked\<rparr>
          else idleEnd spec (if opened > 0 then TDeadlocked else TDrained) (if opened > 0 then DeadlockedEnd else Drained) p)"

text \<open>The answer of \<^verbatim>\<open>next\<close>: a claim with its count of open items, or the bare item, and \<open>None\<close> for a \<^verbatim>\<open>null\<close> item. Of the count
  only its being positive is read.\<close>

definition normalizeClaim :: "Json \<Rightarrow> Json option \<times> nat" where
  "normalizeClaim out =
     (let found = (case (field ''item'' out, field ''open'' out) of (Some item, Some (JNum n)) \<Rightarrow> (item, nat \<lceil>n\<rceil>) | _ \<Rightarrow> (out, 0))
      in (if fst found = JNull then None else Some (fst found), snd found))"

definition nextAnswered :: "Json \<Rightarrow> PoolEvent" where
  "nextAnswered out = (case normalizeClaim out of (item, opened) \<Rightarrow> NextDone item opened)"

definition carryGuard :: "PoolSpec \<Rightarrow> Held \<Rightarrow> Pool \<Rightarrow> bool" where
  "carryGuard spec h p \<longleftrightarrow> length (p_held p) < ps_hold spec \<and> h_key h \<notin> h_key ` set (p_held p) \<and> h_key h \<notin> set (p_active p)"

definition hearAgain :: "PoolSpec \<Rightarrow> Pool \<Rightarrow> Pool" where
  "hearAgain spec p = (case ps_form spec of Pull \<Rightarrow> enterDiscovering p | ReadSet \<Rightarrow> enterReading p | Push \<Rightarrow> p)"

fun transition :: "PoolSpec \<Rightarrow> PoolEvent \<Rightarrow> Pool \<Rightarrow> Pool" where
  "transition spec (NextDone item opened) p = (if p_state p = Discovering then nextDone spec item opened p else p)"
| "transition spec NextError p = (if p_state p = Discovering then p\<lparr>p_state := Errored\<rparr> else p)"
| "transition spec (ReadAnswer out) p =
     (if p_state p = ReadFetch then p\<lparr>p_state := ReadCheck, p_checking := Some (out, knownOf spec p)\<rparr> else p)"
| "transition spec ReadError p = (if p_state p = ReadFetch then p\<lparr>p_state := ReadDone\<rparr> else p)"
| "transition spec (CheckDone taken) p =
     (case p_checking p of
        Some (out, known) \<Rightarrow>
          if p_state p = ReadCheck then
            (case ps_items spec out of
               None \<Rightarrow> p\<lparr>p_state := ReadDone, p_checking := None\<rparr>
             | Some found \<Rightarrow> p\<lparr>p_state := ReadClaiming, p_checking := None, p_ready := checkItems spec taken known found\<rparr>)
          else p
      | None \<Rightarrow> p)"
| "transition spec CheckError p = (if p_state p = ReadCheck then p\<lparr>p_state := ReadDone, p_checking := None\<rparr> else p)"
| "transition spec (WorkerDone k out) p = (if k \<in> set (p_children p) then workerDone spec k out p else p)"
| "transition spec (WorkerError k isFailure payload message) p =
     (if k \<in> set (p_children p) then workerError spec k isFailure payload message p else p)"
| "transition spec (Carry h) p =
     (if ps_form spec = Push \<and> carryGuard spec h p then p\<lparr>p_held := p_held p @ [h]\<rparr> else p)"
| "transition spec Hear p =
     (if p_state p = Parked \<and> ps_form spec \<noteq> Push then hearAgain spec p else p\<lparr>p_latch := True\<rparr>)"
| "transition spec PollDue p = (if p_state p = Parked \<and> ps_form spec \<noteq> Push then hearAgain spec p else p)"

definition poolStep :: "PoolSpec \<Rightarrow> PoolEvent \<Rightarrow> Pool \<Rightarrow> Pool" where
  "poolStep spec ev p = (if isOver p then p else settleAlways spec (transition spec ev p))"

section \<open>The hand-over\<close>

record StandingCarry =
  sc_held :: "Held list"
  sc_active :: "Held list"


definition carriedClaims :: "Held list \<Rightarrow> (string \<times> Held) list" where
  "carriedClaims actives = fold (\<lambda>a m. if h_key a \<noteq> [] then mapSet (h_key a) a m else m) actives []"

text \<open>The held items of a hand-over: each parsed again, with the refusals; an item whose key is active or held already is dropped.\<close>

fun carriedHeld :: "PoolSpec \<Rightarrow> (string \<times> Held) list \<Rightarrow> Held list \<Rightarrow> Held list \<Rightarrow> Held list \<times> (string \<times> string) list" where
  "carriedHeld spec claims held [] = (held, [])"
| "carriedHeld spec claims held (h # hs) =
     (if ps_form spec \<noteq> Push
      then (case carriedHeld spec claims held hs of (held', refused) \<Rightarrow> (held', (h_key h, ''the Source is no longer a push Source, so it holds no item'') # refused))
      else case ps_parse spec (h_item h) of
             Inl issue \<Rightarrow> (case carriedHeld spec claims held hs of (held', refused) \<Rightarrow> (held', (h_key h, ''the item does not parse: '' @ issue) # refused))
           | Inr item \<Rightarrow>
               if h_key h \<in> fst ` set claims \<or> h_key h \<in> h_key ` set held then carriedHeld spec claims held hs
               else carriedHeld spec claims (held @ [h\<lparr>h_item := Some item\<rparr>]) hs)"

definition initPool :: "PoolSpec \<Rightarrow> nat \<Rightarrow> StandingCarry option \<Rightarrow> Pool" where
  "initPool spec cap handOver =
     (let given = (if ps_runs spec then handOver else None);
          claims = (case given of None \<Rightarrow> [] | Some c \<Rightarrow> carriedClaims (sc_active c));
          (held, refused) = (case given of None \<Rightarrow> ([], []) | Some c \<Rightarrow> carriedHeld spec claims [] (sc_held c))
      in settleAlways spec
           \<lparr>p_state = (case ps_form spec of Pull \<Rightarrow> Discovering | ReadSet \<Rightarrow> ReadFetch | Push \<Rightarrow> Parked),
            p_cap = cap, p_active = map fst claims, p_items = [], p_failures = [], p_status = None, p_held = held, p_ready = [],
            p_claimed = claims, p_again = map fst claims, p_latch = False, p_taken = 0, p_carried = map fst claims,
            p_children = [], p_checking = None, p_marks = map (\<lambda>(k, r). MCarryRefused k r) refused\<rparr>)"

section \<open>The seat on the Source's Gate\<close>

datatype Given = GaveSkip string | GaveReread | GaveCarry "Json option" | GaveOther | HandlerThrew string

datatype SourceHeard =
    VHeld string Json
  | VExisting string Json "ident option"
  | VHoldFull string Json
  | VReread
  | VSkipped string

text \<open>What the seat answers before it asks the store, or the key and the item that it asks for.\<close>

definition hearBefore :: "PoolSpec \<Rightarrow> Given option \<Rightarrow> Pool \<Rightarrow> Pool \<times> (SourceHeard + string \<times> Json)" where
  "hearBefore spec given p =
     (case given of
        None \<Rightarrow> (p, Inl (VSkipped ''no handler of the Source hears this kind and key''))
      | Some (HandlerThrew e) \<Rightarrow> (p, Inl (VSkipped (''its handler threw: '' @ e)))
      | Some (GaveSkip reason) \<Rightarrow> (p, Inl (VSkipped reason))
      | Some GaveOther \<Rightarrow> (p, Inl (VSkipped ''its handler gave neither carry(item), reread() nor skip(reason)''))
      | Some GaveReread \<Rightarrow>
          if ps_form spec = Push then (p, Inl (VSkipped ''its handler gave reread(), and a push Source cannot read again''))
          else if isOver p then (p, Inl (VSkipped ''the Pool's run has ended''))
          else (poolStep spec Hear p, Inl VReread)
      | Some (GaveCarry item) \<Rightarrow>
          if ps_form spec \<noteq> Push then (p, Inl (VSkipped ''its handler gave carry(item), and only a push Source holds items''))
          else case ps_parse spec item of
                 Inl issue \<Rightarrow> (p, Inl (VSkipped (''the carried item does not parse: '' @ issue)))
               | Inr parsed \<Rightarrow>
                 (case ps_itemId spec parsed of
                    Inl reason \<Rightarrow> (p, Inl (VSkipped reason))
                  | Inr key \<Rightarrow> if key \<in> h_key ` set (p_held p) then (p, Inl (VExisting key parsed None)) else (p, Inr (key, parsed))))"

text \<open>What the seat answers once the store did: \<open>found\<close> is the run of the callee that holds the key.\<close>

definition hearAfter :: "PoolSpec \<Rightarrow> HookRef \<Rightarrow> string \<Rightarrow> Json \<Rightarrow> ident option \<Rightarrow> Pool \<Rightarrow> Pool \<times> SourceHeard" where
  "hearAfter spec hook key item found p =
     (if found \<noteq> None then (p, VExisting key item found)
      else if key \<in> h_key ` set (p_held p) \<or> key \<in> set (p_active p) then (p, VExisting key item None)
      else if length (p_held p) \<ge> ps_hold spec then (p, VHoldFull key item)
      else if isOver p then (p, VSkipped ''the Pool's run has ended'')
      else let p' = poolStep spec (Carry \<lparr>h_key = key, h_item = Some item, h_hook = Some hook\<rparr>) p
           in (p', if key \<in> h_key ` set (p_held p') \<or> key \<in> set (p_active p') then VHeld key item
                   else VSkipped ''the Pool did not take the item''))"

section \<open>Reachable Pools\<close>

inductive poolReach :: "PoolSpec \<Rightarrow> nat \<Rightarrow> StandingCarry option \<Rightarrow> Pool \<Rightarrow> bool" for spec cap handOver where
  poolStart: "poolReach spec cap handOver (initPool spec cap handOver)"
| poolNext: "poolReach spec cap handOver p \<Longrightarrow> poolReach spec cap handOver (poolStep spec ev p)"

text \<open>What holds in every state between two microsteps.\<close>

definition checkCovers :: "string list \<Rightarrow> (Json \<times> string list) option \<Rightarrow> bool" where
  "checkCovers active checking \<longleftrightarrow> (case checking of None \<Rightarrow> False | Some (_, known) \<Rightarrow> set active \<subseteq> set known)"

definition poolInv :: "PoolSpec \<Rightarrow> nat \<Rightarrow> Pool \<Rightarrow> bool" where
  "poolInv spec bound p \<longleftrightarrow>
     distinct (p_active p) \<and> length (p_active p) \<le> max (p_cap p) (length (p_carried p))
   \<and> distinct (map h_key (p_held p)) \<and> h_key ` set (p_held p) \<inter> set (p_active p) = {} \<and> length (p_held p) \<le> bound
   \<and> distinct (map h_key (p_ready p)) \<and> h_key ` set (p_ready p) \<inter> set (p_active p) = {}
   \<and> distinct (p_again p) \<and> set (p_again p) \<subseteq> set (p_active p)
   \<and> distinct (p_children p) \<and> set (p_children p) = set (p_active p) - set (p_again p)
   \<and> (ps_form spec \<noteq> Push \<longrightarrow> p_held p = []) \<and> (p_ready p \<noteq> [] \<longrightarrow> p_state p = ReadClaiming \<and> ps_form spec = ReadSet)
   \<and> (\<not> ps_runs spec \<longrightarrow> p_again p = []) \<and> p_state p \<noteq> Discovering \<and> p_state p \<noteq> Saturated
   \<and> (ps_form spec = Push \<longrightarrow> p_state p = Parked \<or> p_state p = Errored)
   \<and> (p_state p = ReadCheck \<longrightarrow> checkCovers (p_active p) (p_checking p))"

lemma settleAlways_inv:
  assumes "\<And>p p'. I p \<Longrightarrow> alwaysStep spec p = Some p' \<Longrightarrow> I p'"
  shows "I p \<Longrightarrow> I (settleAlways spec p)"
  using assms
proof (induction spec p rule: settleAlways.induct)
  case (1 spec p)
  show ?case
  proof (cases "alwaysStep spec p")
    case (Some p')
    then have "I (settleAlways spec p')" using 1 by blast
    then show ?thesis using Some by (subst settleAlways.simps) simp
  qed (use 1 in \<open>subst settleAlways.simps, simp\<close>)
qed

lemma settleAlways_stable: "alwaysStep spec (settleAlways spec p) = None"
proof (induction spec p rule: settleAlways.induct)
  case (1 spec p)
  then show ?case by (subst settleAlways.simps) (auto split: option.splits)
qed

lemma poolInv_claim:
  assumes "poolInv spec b p" and "nextClaim p = Some h" and "length (p_active p) < p_cap p"
  shows "poolInv spec b (claim spec h p)"
proof (cases "p_ready p")
  case Nil
  then obtain hs where "p_held p = h # hs" using assms(2) by (auto simp: nextClaim_def split: list.splits)
  then show ?thesis using assms Nil unfolding poolInv_def checkCovers_def claim_def markWhen_def Let_def
    by (auto split: option.splits)
next
  case (Cons x xs)
  then have "p_ready p = h # xs" using assms(2) by (auto simp: nextClaim_def)
  then show ?thesis using assms unfolding poolInv_def checkCovers_def claim_def markWhen_def Let_def
    by (auto split: option.splits)
qed

lemma poolInv_alwaysStep:
  assumes "poolInv spec b p" and "alwaysStep spec p = Some p'" and "ps_form spec \<noteq> Pull"
  shows "poolInv spec b p'"
proof (cases "innerAlways spec (p_state p) p")
  case (Some q)
  then have "p' = q" using assms(2) by (auto simp: alwaysStep_def split: if_splits)
  then show ?thesis using Some assms(1) by (cases "p_state p") (auto simp: poolInv_def checkCovers_def enterReading_def idleEnd_def split: if_splits)
next
  case None
  then have root: "rootAlways spec p = Some p'" using assms(2) by (auto simp: alwaysStep_def split: if_splits)
  show ?thesis
  proof (cases "ps_runs spec \<and> p_again p \<noteq> []")
    case True
    then obtain k ks where "p_again p = k # ks" by (cases "p_again p") auto
    moreover have "p' = spawnAgain p" using root True assms(3) by (auto simp: rootAlways_def)
    ultimately show ?thesis using assms(1) by (auto simp: poolInv_def checkCovers_def spawnAgain_def split: option.splits)
  next
    case False
    then obtain h where "nextClaim p = Some h" "length (p_active p) < p_cap p" "p' = claim spec h p"
      using root assms(3) by (auto simp: rootAlways_def split: option.splits if_splits)
    then show ?thesis using poolInv_claim [OF assms(1)] by simp
  qed
qed

lemma checkItems_fresh:
  "distinct (map h_key (checkItems spec taken known found)) \<and> h_key ` set (checkItems spec taken known found) \<inter> set known = {}"
proof (induction spec taken known found rule: checkItems.induct)
  case (2 spec taken known item rest)
  then show ?case by (auto split: sum.splits)
qed simp

lemma poolInv_free:
  assumes "poolInv spec b p" and "k \<in> set (p_children p)"
  shows "poolInv spec b (free k p)"
  using assms unfolding poolInv_def checkCovers_def free_def setDelete_def
  by (auto split: option.splits intro: order_trans [OF length_filter_le])

lemma poolInv_afterSettle: "poolInv spec b p \<Longrightarrow> ps_form spec \<noteq> Pull \<Longrightarrow> \<not> isOver p \<Longrightarrow> poolInv spec b (afterSettle spec p)"
  by (auto simp: poolInv_def checkCovers_def afterSettle_def inRead_def enterReading_def isOver_def split: Form.splits option.splits)

lemma poolInv_frame [frame_simps]:
  "poolInv spec b (p\<lparr>p_items := x\<rparr>) = poolInv spec b p" "poolInv spec b (p\<lparr>p_failures := f\<rparr>) = poolInv spec b p"
  "poolInv spec b (p\<lparr>p_latch := l\<rparr>) = poolInv spec b p" "poolInv spec b (markWhen c m p) = poolInv spec b p"
  by (simp_all add: poolInv_def markWhen_def)

lemma settle_frame [frame_simps]:
  "p_children (markWhen c m p) = p_children p" "p_active (markWhen c m p) = p_active p" "p_state (markWhen c m p) = p_state p"
  "p_held (markWhen c m p) = p_held p" "isOver (markWhen c m p) = isOver p" "isOver (p\<lparr>p_items := x\<rparr>) = isOver p"
  "isOver (p\<lparr>p_failures := f\<rparr>) = isOver p" "isOver (free k p) = isOver p"
  by (simp_all add: markWhen_def isOver_def free_def)

lemma poolInv_errored: "poolInv spec b p \<Longrightarrow> ps_form spec = ReadSet \<or> ps_form spec = Push \<Longrightarrow> p_ready p = [] \<Longrightarrow> poolInv spec b (p\<lparr>p_state := Errored\<rparr>)"
  by (auto simp: poolInv_def checkCovers_def)

text \<open>Between two events a Pool is stable: nothing is left to claim for a free slot.\<close>

definition poolStable :: "PoolSpec \<Rightarrow> Pool \<Rightarrow> bool" where
  "poolStable spec p \<longleftrightarrow> alwaysStep spec p = None"

lemma stable_ready:
  assumes "poolInv spec b p" and "poolStable spec p" and "\<not> isOver p"
  shows "p_ready p = []" and "p_state p \<noteq> ReadClaiming \<and> p_state p \<noteq> ReadDone"
proof -
  show st: "p_state p \<noteq> ReadClaiming \<and> p_state p \<noteq> ReadDone"
  proof (intro conjI notI)
    assume c: "p_state p = ReadClaiming"
    then have "p_ready p \<noteq> [] \<and> length (p_active p) < p_cap p"
      using assms(2,3) by (auto simp: poolStable_def alwaysStep_def not_le split: if_splits)
    moreover then have "ps_form spec = ReadSet" using assms(1) by (auto simp: poolInv_def checkCovers_def)
    ultimately show False using assms(2,3) c
      by (cases "p_ready p") (auto simp: poolStable_def alwaysStep_def rootAlways_def nextClaim_def split: if_splits)
  qed (use assms(2,3) in \<open>simp add: poolStable_def alwaysStep_def\<close>)
  then show "p_ready p = []" using assms(1) by (auto simp: poolInv_def checkCovers_def)
qed

lemma poolInv_workers:
  assumes "poolInv spec b p" and "\<not> isOver p" and "ps_form spec \<noteq> Pull" and "p_ready p = []" and "k \<in> set (p_children p)"
  shows "poolInv spec b (workerDone spec k out p)" and "poolInv spec b (workerError spec k isF payload msg p)"
proof -
  have k: "k \<in> set (p_active p)" "k \<notin> set (p_again p)" using assms(1,5) by (auto simp: poolInv_def checkCovers_def)
  have "poolInv spec b (p\<lparr>p_again := p_again p @ [k], p_children := setDelete k (p_children p)\<rparr>)" if "ps_runs spec"
    using assms(1) k that unfolding poolInv_def checkCovers_def by (auto simp: setDelete_def split: option.splits)
  then show "poolInv spec b (workerDone spec k out p)"
    using assms k poolInv_afterSettle poolInv_free by (auto simp: workerDone_def Let_def frame_simps)
  have "ps_form spec = ReadSet \<or> ps_form spec = Push" using assms(3) by (cases "ps_form spec") auto
  then show "poolInv spec b (workerError spec k isF payload msg p)"
    using assms k poolInv_afterSettle poolInv_free poolInv_errored by (auto simp: workerError_def Let_def frame_simps)
qed

lemma poolInv_transition:
  assumes "poolInv spec b p" and "poolStable spec p" and "\<not> isOver p" and "ps_form spec \<noteq> Pull" and "ps_hold spec \<le> b"
  shows "poolInv spec b (transition spec ev p)"
proof -
  note ready = stable_ready [OF assms(1-3)]
  show ?thesis
  proof (cases ev)
    case (ReadAnswer out)
    have "set (p_active p) \<subseteq> set (knownOf spec p)" by (auto simp: knownOf_def)
    then show ?thesis using ReadAnswer assms(1) ready by (auto simp: poolInv_def checkCovers_def)
  next
    case (CheckDone taken)
    show ?thesis
    proof (cases "p_state p = ReadCheck")
      case True
      then obtain out known where c: "p_checking p = Some (out, known)" "set (p_active p) \<subseteq> set known" "ps_form spec = ReadSet"
        using assms(1,4) by (cases "ps_form spec") (auto simp: poolInv_def checkCovers_def split: option.splits)
      then show ?thesis using CheckDone True assms(1) checkItems_fresh [of spec taken known]
        by (auto simp: poolInv_def checkCovers_def split: option.splits)
    qed (use CheckDone assms(1) in \<open>auto split: option.splits\<close>)
  next
    case (Carry h)
    then show ?thesis using assms(1,5) by (auto simp: poolInv_def checkCovers_def carryGuard_def split: option.splits)
  next
    case (WorkerDone k out)
    then show ?thesis using poolInv_workers(1) [OF assms(1,3,4) ready(1)] assms(1) by simp
  next
    case (WorkerError k isF payload msg)
    then show ?thesis using poolInv_workers(2) [OF assms(1,3,4) ready(1)] assms(1) by simp
  qed (use assms(1,4) ready in \<open>auto simp: poolInv_def checkCovers_def hearAgain_def enterReading_def split: Form.splits option.splits\<close>)
qed

lemma poolStable_settle: "poolStable spec (settleAlways spec p)"
  by (simp add: poolStable_def settleAlways_stable)

lemma poolInv_step:
  assumes "poolInv spec b p" and "poolStable spec p" and "ps_form spec \<noteq> Pull" and "ps_hold spec \<le> b"
  shows "poolInv spec b (poolStep spec ev p) \<and> poolStable spec (poolStep spec ev p)"
  using assms poolInv_transition [OF assms(1,2) _ assms(3,4)] poolInv_alwaysStep [OF _ _ assms(3)]
    settleAlways_inv [of "poolInv spec b" spec "transition spec ev p"] poolStable_settle
  by (auto simp: poolStep_def)

section \<open>The start\<close>

lemma carriedClaims_keys:
  "distinct (map fst (carriedClaims as))" "fst ` set (carriedClaims as) = {h_key a |a. a \<in> set as \<and> h_key a \<noteq> []}"
  "length (carriedClaims as) \<le> length as"
proof -
  let ?f = "\<lambda>a m. if h_key a \<noteq> [] then mapSet (h_key a) a m else m"
  have len: "length (mapSet k v m) \<le> Suc (length m)" for k :: string and v :: Held and m by (induction k v m rule: mapSet.induct) auto
  have "distinct (map fst m) \<Longrightarrow> distinct (map fst (fold ?f as m))" for m
    by (induction as arbitrary: m) (simp_all add: distinct_mapSet)
  then show "distinct (map fst (carriedClaims as))" by (simp add: carriedClaims_def)
  have "fst ` set (fold ?f as m) = fst ` set m \<union> {h_key a |a. a \<in> set as \<and> h_key a \<noteq> []}" for m
    by (induction as arbitrary: m) auto
  then show "fst ` set (carriedClaims as) = {h_key a |a. a \<in> set as \<and> h_key a \<noteq> []}" by (simp add: carriedClaims_def)
  have "length (fold ?f as m) \<le> length m + length as" for m
  proof (induction as arbitrary: m)
    case (Cons a as)
    have "length (fold ?f as (?f a m)) \<le> length (?f a m) + length as" by (rule Cons.IH)
    also have "length (?f a m) \<le> Suc (length m)" using len by simp
    finally show ?case by simp
  qed simp
  from this [of "[]"] show "length (carriedClaims as) \<le> length as" by (simp add: carriedClaims_def)
qed

lemma carriedHeld_inv:
  assumes "carriedHeld spec claims held hs = (held', refused)" and "distinct (map h_key held)"
    and "h_key ` set held \<inter> fst ` set claims = {}"
  shows "distinct (map h_key held') \<and> h_key ` set held' \<inter> fst ` set claims = {} \<and> length held' \<le> length held + length hs
    \<and> (ps_form spec \<noteq> Push \<longrightarrow> held' = held)"
  using assms
proof (induction hs arbitrary: held refused)
  case (Cons h hs)
  have keep: ?case if "carriedHeld spec claims held hs = (held', refused')" for refused'
    using Cons.IH [OF that Cons.prems(2,3)] by simp
  show ?case
  proof (cases "ps_form spec = Push \<and> (\<exists>item. ps_parse spec (h_item h) = Inr item)
      \<and> \<not> (h_key h \<in> fst ` set claims \<or> h_key h \<in> h_key ` set held)")
    case False
    then obtain refused' where "carriedHeld spec claims held hs = (held', refused')"
      using Cons.prems(1) by (auto split: if_splits sum.splits prod.splits)
    then show ?thesis by (rule keep)
  next
    case True
    then obtain item where push: "ps_form spec = Push" and item: "ps_parse spec (h_item h) = Inr item"
      and new: "h_key h \<notin> fst ` set claims" "h_key h \<notin> h_key ` set held" by blast
    let ?held = "held @ [h\<lparr>h_item := Some item\<rparr>]"
    have "carriedHeld spec claims ?held hs = (held', refused)" using Cons.prems(1) push item new by simp
    moreover have "distinct (map h_key ?held)" "h_key ` set ?held \<inter> fst ` set claims = {}" using Cons.prems(2,3) new by auto
    ultimately show ?thesis using Cons.IH [of ?held refused] push by simp
  qed
qed simp

definition carriedCount :: "StandingCarry option \<Rightarrow> nat" where
  "carriedCount handOver = (case handOver of None \<Rightarrow> 0 | Some c \<Rightarrow> length (sc_active c))"

definition heldCount :: "StandingCarry option \<Rightarrow> nat" where
  "heldCount handOver = (case handOver of None \<Rightarrow> 0 | Some c \<Rightarrow> length (sc_held c))"

text \<open>The context of a Pool before its first eventless transition.\<close>

definition startPool :: "PoolSpec \<Rightarrow> nat \<Rightarrow> (string \<times> Held) list \<Rightarrow> Held list \<Rightarrow> (string \<times> string) list \<Rightarrow> Pool" where
  "startPool spec cap claims held refused =
     \<lparr>p_state = (case ps_form spec of Pull \<Rightarrow> Discovering | ReadSet \<Rightarrow> ReadFetch | Push \<Rightarrow> Parked),
      p_cap = cap, p_active = map fst claims, p_items = [], p_failures = [], p_status = None, p_held = held, p_ready = [],
      p_claimed = claims, p_again = map fst claims, p_latch = False, p_taken = 0, p_carried = map fst claims,
      p_children = [], p_checking = None, p_marks = map (\<lambda>(k, r). MCarryRefused k r) refused\<rparr>"

lemma initPool_cases:
  obtains (fresh) "initPool spec cap handOver = settleAlways spec (startPool spec cap [] [] [])" "\<not> ps_runs spec \<or> handOver = None"
  | (carried) c held refused where "ps_runs spec" "handOver = Some c"
      "carriedHeld spec (carriedClaims (sc_active c)) [] (sc_held c) = (held, refused)"
      "initPool spec cap handOver = settleAlways spec (startPool spec cap (carriedClaims (sc_active c)) held refused)"
proof (cases "ps_runs spec \<and> handOver \<noteq> None")
  case True
  then obtain c where c: "handOver = Some c" by auto
  obtain held refused where h: "carriedHeld spec (carriedClaims (sc_active c)) [] (sc_held c) = (held, refused)" by (metis surj_pair)
  show ?thesis by (rule carried [OF _ c h]) (use True c h in \<open>simp_all add: initPool_def startPool_def Let_def\<close>)
qed (rule fresh; auto simp: initPool_def startPool_def Let_def)

lemma poolInv_startPool:
  assumes "ps_form spec \<noteq> Pull" and "distinct (map fst claims)" and "distinct (map h_key held)"
    and "h_key ` set held \<inter> fst ` set claims = {}" and "length held \<le> b" and "ps_form spec \<noteq> Push \<longrightarrow> held = []"
    and "\<not> ps_runs spec \<longrightarrow> claims = []"
  shows "poolInv spec b (startPool spec cap claims held refused)"
  using assms by (cases "ps_form spec") (auto simp: poolInv_def startPool_def)

lemma poolInv_init:
  assumes "ps_form spec \<noteq> Pull" and "max (ps_hold spec) (heldCount handOver) \<le> b"
  shows "poolInv spec b (initPool spec cap handOver) \<and> poolStable spec (initPool spec cap handOver)"
proof -
  have settled: "poolInv spec b (settleAlways spec p) \<and> poolStable spec (settleAlways spec p)" if "poolInv spec b p" for p
    using that settleAlways_inv [of "poolInv spec b"] poolInv_alwaysStep [OF _ _ assms(1)] poolStable_settle by blast
  show ?thesis
  proof (cases rule: initPool_cases [of spec cap handOver])
    case fresh
    then show ?thesis using settled poolInv_startPool [OF assms(1), of "[]" "[]"] by simp
  next
    case (carried c held refused)
    have "length held \<le> b" using carriedHeld_inv [OF carried(3)] assms(2) carried(2) by (simp add: heldCount_def)
    then show ?thesis
      using carried settled poolInv_startPool [OF assms(1) carriedClaims_keys(1)] carriedHeld_inv [OF carried(3)] by simp
  qed
qed

lemma poolReach_inv:
  assumes "poolReach spec cap handOver p" and "ps_form spec \<noteq> Pull" and "max (ps_hold spec) (heldCount handOver) \<le> b"
  shows "poolInv spec b p \<and> poolStable spec p"
  using assms(1)
proof (induction rule: poolReach.induct)
  case poolStart
  then show ?case by (rule poolInv_init [OF assms(2,3)])
next
  case (poolNext p ev)
  then show ?case using poolInv_step [of spec b p ev] assms(2,3) by simp
qed

section \<open>The cap, for every form\<close>

definition withinCap :: "nat \<Rightarrow> string list \<Rightarrow> Pool \<Rightarrow> bool" where
  "withinCap cap carried p \<longleftrightarrow> p_cap p = cap \<and> p_carried p = carried \<and> length (p_active p) \<le> max cap (length carried)"

lemma withinCap_always: "withinCap cap carried p \<Longrightarrow> alwaysStep spec p = Some p' \<Longrightarrow> withinCap cap carried p'"
  by (cases "p_state p") (auto simp: withinCap_def alwaysStep_def rootAlways_def spawnAgain_def claim_def markWhen_def enterReading_def
      idleEnd_def Let_def split: if_splits option.splits)

lemma withinCap_frame [frame_simps]:
  "withinCap cap carried (markWhen c m p) = withinCap cap carried p" "withinCap cap carried (p\<lparr>p_items := x\<rparr>) = withinCap cap carried p"
  "withinCap cap carried (p\<lparr>p_failures := f\<rparr>) = withinCap cap carried p" "withinCap cap carried (p\<lparr>p_state := s\<rparr>) = withinCap cap carried p"
  "withinCap cap carried (afterSettle spec p) = withinCap cap carried p" "withinCap cap carried (enterDiscovering p) = withinCap cap carried p"
  "withinCap cap carried (hearAgain spec p) = withinCap cap carried p" "withinCap cap carried (idleEnd spec tr st p) = withinCap cap carried p"
  by (auto simp: withinCap_def markWhen_def afterSettle_def enterDiscovering_def enterReading_def hearAgain_def idleEnd_def split: Form.splits)

lemma withinCap_free: "withinCap cap carried p \<Longrightarrow> withinCap cap carried (free k p)"
  by (auto simp: withinCap_def free_def intro: order_trans [OF length_filter_le])

lemma withinCap_transition:
  assumes "withinCap cap carried p" and "poolStable spec p" and "\<not> isOver p"
  shows "withinCap cap carried (transition spec ev p)"
proof (cases ev)
  case (NextDone item opened)
  have "length (p_active p) < cap" if "p_state p = Discovering"
    using assms that by (auto simp: poolStable_def alwaysStep_def withinCap_def split: if_splits)
  then show ?thesis using NextDone assms(1)
    by (auto simp: nextDone_def frame_simps Let_def split: option.splits sum.splits) (auto simp: withinCap_def markWhen_def)
next
  case (WorkerDone k out)
  have "withinCap cap carried (p\<lparr>p_again := x, p_children := y\<rparr>) = withinCap cap carried p" for x y by (simp add: withinCap_def)
  then show ?thesis using WorkerDone assms(1) withinCap_free by (simp add: workerDone_def frame_simps Let_def)
next
  case (WorkerError k isF payload msg)
  then show ?thesis using assms(1) withinCap_free by (simp add: workerError_def frame_simps Let_def)
qed (use assms(1) in \<open>auto simp: frame_simps split: option.splits\<close>, (auto simp: withinCap_def split: option.splits)+)

lemma poolReach_cap:
  assumes "poolReach spec cap handOver p"
  shows "poolStable spec p \<and> (\<exists>carried. length carried \<le> carriedCount handOver \<and> withinCap cap carried p)"
  using assms
proof (induction rule: poolReach.induct)
  case poolStart
  have settled: "withinCap cap (map fst claims) (settleAlways spec (startPool spec cap claims held refused))" for claims held refused
    by (rule settleAlways_inv [of "withinCap cap (map fst claims)"]) (erule (1) withinCap_always, simp add: withinCap_def startPool_def)
  show ?case
  proof (cases rule: initPool_cases [of spec cap handOver])
    case fresh
    then show ?thesis using settled [of "[]"] poolStable_settle by (intro conjI exI [of _ "[]"]) auto
  next
    case (carried c held refused)
    then show ?thesis using settled [of "carriedClaims (sc_active c)" held refused] poolStable_settle carriedClaims_keys(3) [of "sc_active c"]
      by (intro conjI exI [of _ "map fst (carriedClaims (sc_active c))"]) (auto simp: carriedCount_def)
  qed
next
  case (poolNext p ev)
  then obtain carried where c: "length carried \<le> carriedCount handOver" "withinCap cap carried p" "poolStable spec p" by blast
  show ?case
  proof (cases "isOver p")
    case False
    have "withinCap cap carried (settleAlways spec (transition spec ev p))"
      by (rule settleAlways_inv [of "withinCap cap carried"], erule (1) withinCap_always) (rule withinCap_transition [OF c(2,3) False])
    then show ?thesis using False c(1) poolStable_settle by (auto simp: poolStep_def)
  qed (use c in \<open>auto simp: poolStep_def\<close>)
qed

section \<open>Properties\<close>

lemma stable_again:
  assumes "poolStable spec p" and "\<not> isOver p" and "poolInv spec b p"
  shows "p_again p = []"
proof (rule ccontr)
  assume again: "p_again p \<noteq> []"
  then have runs: "ps_runs spec" using assms(3) by (auto simp: poolInv_def)
  have "rootAlways spec p \<noteq> None" using again runs by (simp add: rootAlways_def)
  then show False using assms(1,2) by (auto simp: poolStable_def alwaysStep_def split: option.splits)
qed

definition exampleItemId :: "Json \<Rightarrow> string + string" where
  "exampleItemId item = (case textOf (field ''id'' item) of None \<Rightarrow> Inl ''no id'' | Some i \<Rightarrow> if i = [] then Inl ''no id'' else Inr i)"

definition exampleSpec :: PoolSpec where
  "exampleSpec = \<lparr>ps_form = Push, ps_runs = True, ps_report = False, ps_hold = 2, ps_itemId = exampleItemId, ps_items = \<lambda>_. None,
     ps_parse = (\<lambda>v. case v of None \<Rightarrow> Inl ''required'' | Some x \<Rightarrow> Inr x)\<rparr>"

definition exampleHeld :: "string \<Rightarrow> Held" where
  "exampleHeld k = \<lparr>h_key = k, h_item = Some (JObj [(''id'', JStr k)]), h_hook = None\<rparr>"

definition examplePool :: Pool where
  "examplePool = fold (poolStep exampleSpec) [Carry (exampleHeld ''a''), Carry (exampleHeld ''b'')] (initPool exampleSpec 1 None)"

lemma poolReach_fold: "poolReach spec cap handOver p \<Longrightarrow> poolReach spec cap handOver (fold (poolStep spec) evs p)"
  by (induction evs arbitrary: p) (auto intro: poolNext)

lemma examplePool_reach: "poolReach exampleSpec 1 None examplePool"
  unfolding examplePool_def by (rule poolReach_fold) (rule poolStart)

text \<open>C31. A Pool never runs more workers than its cap allows: in every reachable state, at most \<^verbatim>\<open>cap\<close> items are active (with a
  hand-over, at most the carried ones if those are more). For a read or a push Source, no id is active twice, each active id
  has exactly one live worker, and the held items are within \<^verbatim>\<open>hold\<close> (or within the ones that were carried), each key once
  and none of them active.\<close>

theorem pool_within_cap:
  assumes "poolReach spec cap handOver p"
  shows "length (p_active p) \<le> max cap (carriedCount handOver)
    \<and> (ps_form spec \<noteq> Pull \<longrightarrow> distinct (p_active p) \<and> distinct (p_children p) \<and> (isOver p \<or> set (p_children p) = set (p_active p))
        \<and> length (p_held p) \<le> max (ps_hold spec) (heldCount handOver)
        \<and> distinct (map h_key (p_held p)) \<and> h_key ` set (p_held p) \<inter> set (p_active p) = {})"
proof -
  have "length (p_active p) \<le> max cap (carriedCount handOver)" using poolReach_cap [OF assms] by (auto simp: withinCap_def)
  moreover have "distinct (p_active p) \<and> distinct (p_children p) \<and> (isOver p \<or> set (p_children p) = set (p_active p))
        \<and> length (p_held p) \<le> max (ps_hold spec) (heldCount handOver)
        \<and> distinct (map h_key (p_held p)) \<and> h_key ` set (p_held p) \<inter> set (p_active p) = {}" if "ps_form spec \<noteq> Pull"
  proof -
    have inv: "poolInv spec (max (ps_hold spec) (heldCount handOver)) p" "poolStable spec p"
      using poolReach_inv [OF assms that order_refl] by auto
    then show ?thesis using stable_again [OF inv(2) _ inv(1)] by (auto simp: poolInv_def)
  qed
  ultimately show ?thesis by blast
qed

theorem pool_within_cap_witness: "length (p_active examplePool) \<le> 1 \<and> length (p_held examplePool) \<le> 2"
  using pool_within_cap [OF examplePool_reach] by (simp add: carriedCount_def heldCount_def exampleSpec_def)

section \<open>The order of the held items\<close>

fun startedKeys :: "PoolMark list \<Rightarrow> string list" where
  "startedKeys [] = []"
| "startedKeys (MStarted k # ms) = k # startedKeys ms"
| "startedKeys (m # ms) = startedKeys ms"

lemma startedKeys_append [simp]: "startedKeys (ms @ ns) = startedKeys ms @ startedKeys ns"
  by (induction ms rule: startedKeys.induct) simp_all

text \<open>The keys that the Pool took, in order: those that it started, then those that it holds.\<close>

definition queued :: "Pool \<Rightarrow> string list" where
  "queued p = startedKeys (p_marks p) @ map h_key (p_held p)"


definition pushState :: "Pool \<Rightarrow> bool" where
  "pushState p \<longleftrightarrow> p_ready p = [] \<and> (p_state p = Parked \<or> p_state p = Errored)"




lemma queued_frame [frame_simps]:
  "ps_form spec = Push \<Longrightarrow> pushState p \<Longrightarrow> queued (afterSettle spec p) = queued p" "queued (free k p) = queued p"
  "queued (p\<lparr>p_items := x\<rparr>) = queued p" "queued (markWhen c (MSettled k s) p) = queued p"
  "queued (p\<lparr>p_state := st\<rparr>) = queued p" "pushState (free k p) = pushState p" "pushState (p\<lparr>p_items := x\<rparr>) = pushState p"
  "pushState (markWhen c m p) = pushState p" "ps_form spec = Push \<Longrightarrow> pushState p \<Longrightarrow> pushState (afterSettle spec p)"
  by (auto simp: queued_def afterSettle_def free_def markWhen_def inRead_def pushState_def)



fun settledKeys :: "PoolMark list \<Rightarrow> string list" where
  "settledKeys [] = []"
| "settledKeys (MSettled k s # ms) = k # settledKeys ms"
| "settledKeys (m # ms) = settledKeys ms"

lemma settledKeys_append [simp]: "settledKeys (ms @ ns) = settledKeys ms @ settledKeys ns"
  by (induction ms rule: settledKeys.induct) simp_all

text \<open>A started item is active, or its end is on the feed.\<close>

definition startedKept :: "Pool \<Rightarrow> bool" where
  "startedKept p \<longleftrightarrow> set (startedKeys (p_marks p)) \<subseteq> set (p_active p) \<union> set (settledKeys (p_marks p))"


lemma startedKept_frame [frame_simps]:
  "startedKept (afterSettle spec p) = startedKept p" "startedKept (p\<lparr>p_state := st\<rparr>) = startedKept p"
  "startedKept (enterDiscovering p) = startedKept p" "startedKept (hearAgain spec p) = startedKept p"
  "startedKept (idleEnd spec tr st p) = startedKept p" "startedKept (p\<lparr>p_again := x, p_children := y\<rparr>) = startedKept p"
  "startedKept (p\<lparr>p_latch := l\<rparr>) = startedKept p"
  by (auto simp: startedKept_def afterSettle_def enterDiscovering_def enterReading_def hearAgain_def idleEnd_def split: Form.splits)










section \<open>The hand-over to a new run\<close>









section \<open>The end of a Pool of children\<close>

definition triageOk :: "PoolSpec \<Rightarrow> Pool \<Rightarrow> bool" where
  "triageOk spec p \<longleftrightarrow>
     (p_state p = Drained \<longrightarrow> p_active p = [] \<and> p_status p = Some TDrained \<and> (ps_report spec \<or> p_failures p = []))
   \<and> (p_state p = DeadlockedEnd \<longrightarrow> p_active p = [] \<and> p_status p = Some TDeadlocked \<and> (ps_report spec \<or> p_failures p = []))
   \<and> (p_state p = Failing \<longrightarrow> p_active p = [] \<and> p_status p \<noteq> None \<and> \<not> ps_report spec \<and> p_failures p \<noteq> [])
   \<and> (p_state p = Parked \<longrightarrow> p_active p \<noteq> []) \<and> (p_state p = Saturated \<longrightarrow> p_cap p \<le> length (p_active p))"

lemma triageOk_always: "triageOk spec p \<Longrightarrow> \<not> ps_runs spec \<Longrightarrow> alwaysStep spec p = Some p' \<Longrightarrow> triageOk spec p'"
  by (cases "p_state p") (auto simp: triageOk_def alwaysStep_def isOver_def rootAlways_def claim_def markWhen_def enterReading_def
      idleEnd_def Let_def split: if_splits option.splits)

lemma triageOk_transition:
  assumes "triageOk spec p" and "\<not> ps_runs spec" and "ps_form spec \<noteq> Push" and "\<not> isOver p"
  shows "triageOk spec (transition spec ev p)"
proof -
  have settle: "triageOk spec (afterSettle spec q)" if "\<not> isOver q" for q
    using that assms(3) by (cases "ps_form spec")
      (auto simp: afterSettle_def triageOk_def inRead_def isOver_def enterDiscovering_def enterReading_def)
  show ?thesis
  proof (cases ev)
    case (NextDone item opened)
    then show ?thesis using assms
      by (auto simp: nextDone_def idleEnd_def enterDiscovering_def triageOk_def Let_def split: option.splits sum.splits if_splits)
  next
    case (WorkerDone k out)
    then show ?thesis using assms settle by (simp add: workerDone_def frame_simps Let_def)
  next
    case (WorkerError k isF payload msg)
    have "triageOk spec (p\<lparr>p_state := Errored\<rparr>)" by (simp add: triageOk_def)
    then show ?thesis using WorkerError assms settle by (simp add: workerError_def frame_simps Let_def)
  qed (use assms in \<open>auto simp: triageOk_def hearAgain_def enterDiscovering_def enterReading_def split: option.splits Form.splits\<close>)
qed

text \<open>The three-valued end of a Pool of children: it ends only when no worker is live, \<^verbatim>\<open>drained\<close> or \<^verbatim>\<open>deadlocked\<close> as its
  status says, or failing the run, which it does exactly when an item failed and the failures are not reported; and it waits
  only while a worker is live, so it is never an idle poll.\<close>

theorem pool_ends_idle:
  assumes "poolReach spec cap handOver p" and "\<not> ps_runs spec" and "ps_form spec \<noteq> Push"
  shows "(p_state p = Drained \<longrightarrow> p_active p = [] \<and> p_status p = Some TDrained \<and> (ps_report spec \<or> p_failures p = []))
    \<and> (p_state p = DeadlockedEnd \<longrightarrow> p_active p = [] \<and> p_status p = Some TDeadlocked \<and> (ps_report spec \<or> p_failures p = []))
    \<and> (p_state p = Failing \<longrightarrow> p_active p = [] \<and> p_status p \<noteq> None \<and> \<not> ps_report spec \<and> p_failures p \<noteq> [])
    \<and> (p_state p = Parked \<longrightarrow> p_active p \<noteq> []) \<and> (p_state p = Saturated \<longrightarrow> p_cap p \<le> length (p_active p))"
proof -
  have settled: "triageOk spec (settleAlways spec q)" if "triageOk spec q" for q
    using that settleAlways_inv [of "triageOk spec" spec] triageOk_always [OF _ assms(2)] by blast
  have "triageOk spec p" using assms(1)
  proof (induction rule: poolReach.induct)
    case poolStart
    have "triageOk spec (startPool spec cap claims held refused)" for claims held refused
      using assms(3) by (cases "ps_form spec") (auto simp: triageOk_def startPool_def)
    then show ?case using settled by (cases rule: initPool_cases [of spec cap handOver]) simp_all
  next
    case (poolNext p ev)
    then show ?case using settled triageOk_transition [OF _ assms(2,3)] by (auto simp: poolStep_def)
  qed
  then show ?thesis by (simp add: triageOk_def)
qed

theorem pool_ends_idle_witness:
  "p_state (poolStep (exampleSpec\<lparr>ps_form := Pull, ps_runs := False\<rparr>) (NextDone None 0) (initPool (exampleSpec\<lparr>ps_form := Pull, ps_runs := False\<rparr>) 1 None)) \<noteq> Parked"
proof -
  let ?spec = "exampleSpec\<lparr>ps_form := Pull, ps_runs := False\<rparr>"
  have start: "initPool ?spec 1 None = startPool ?spec 1 [] [] []"
    by (simp add: initPool_def startPool_def exampleSpec_def Let_def, subst settleAlways.simps)
      (simp add: alwaysStep_def isOver_def rootAlways_def)
  have reach: "poolReach ?spec 1 None (poolStep ?spec (NextDone None 0) (initPool ?spec 1 None))" by (rule poolNext [OF poolStart])
  have "p_active (poolStep ?spec (NextDone None 0) (initPool ?spec 1 None)) = []"
    unfolding start by (simp add: poolStep_def isOver_def startPool_def nextDone_def idleEnd_def exampleSpec_def, subst settleAlways.simps)
      (simp add: alwaysStep_def isOver_def)
  then show ?thesis using pool_ends_idle [OF reach] by (auto simp: exampleSpec_def)
qed

end
