(* ===== verification/File_Edit.thy ===== *)
theory File_Edit
  imports Truncate "HOL-Library.Multiset"
begin

text \<open>
  The \<^verbatim>\<open>edit\<close> Working tool, \<^verbatim>\<open>packages/harness/src/file-tools.ts\<close>: targeted replacements in one file, each matched against the
  original text, exactly or, when one of them is not found, in a view of the text with its quotes, dashes and spaces made plain.

  Texts are lists of UTF-16 code units, as in \<^verbatim>\<open>Truncate\<close>. \<^verbatim>\<open>String.prototype.normalize("NFKC")\<close> is the parameter \<open>nfkc\<close>: its tables are
  Unicode's. A throw of the code is the \<open>Inl\<close> of a sum, with the facts of its message; the reading and the writing of the file, and
  their errors, are outside.
\<close>

section \<open>Texts\<close>

abbreviation carriageReturn :: "16 word" where "carriageReturn \<equiv> 13"

text \<open>\<^verbatim>\<open>content.indexOf(pattern)\<close>, with \<open>None\<close> for -1.\<close>

fun indexOf :: "jsstr \<Rightarrow> jsstr \<Rightarrow> nat option" where
  "indexOf pat [] = (if pat = [] then Some 0 else None)"
| "indexOf pat (c # cs) = (if prefix pat (c # cs) then Some 0 else map_option Suc (indexOf pat cs))"

text \<open>\<^verbatim>\<open>text.replace(/\r\n/g, "\n").replace(/\r/g, "\n")\<close>.\<close>

fun replaceCrLf :: "jsstr \<Rightarrow> jsstr" where
  "replaceCrLf [] = []"
| "replaceCrLf [c] = [c]"
| "replaceCrLf (c # d # cs) =
     (if c = carriageReturn \<and> d = newline then newline # replaceCrLf cs else c # replaceCrLf (d # cs))"

definition normalizeToLF :: "jsstr \<Rightarrow> jsstr" where
  "normalizeToLF t = map (\<lambda>c. if c = carriageReturn then newline else c) (replaceCrLf t)"

datatype Ending = LF | CRLF

definition detectLineEnding :: "jsstr \<Rightarrow> Ending" where
  "detectLineEnding t =
     (case indexOf [newline] t of
        None \<Rightarrow> LF
      | Some lf \<Rightarrow> (case indexOf [carriageReturn, newline] t of None \<Rightarrow> LF | Some crlf \<Rightarrow> if crlf < lf then CRLF else LF))"

definition restoreLineEndings :: "jsstr \<Rightarrow> Ending \<Rightarrow> jsstr" where
  "restoreLineEndings t e =
     (if e = CRLF then concat (map (\<lambda>c. if c = newline then [carriageReturn, newline] else [c]) t) else t)"

definition stripBom :: "jsstr \<Rightarrow> jsstr \<times> jsstr" where
  "stripBom t = (case t of c # cs \<Rightarrow> if c = 0xfeff then ([c], cs) else ([], t) | [] \<Rightarrow> ([], t))"

section \<open>The fuzzy view\<close>

text \<open>The white space of \<^verbatim>\<open>trimEnd\<close>: ECMAScript's \<^verbatim>\<open>WhiteSpace\<close> and \<^verbatim>\<open>LineTerminator\<close>.\<close>

definition isTrimmed :: "16 word \<Rightarrow> bool" where
  "isTrimmed c \<longleftrightarrow> (9 \<le> c \<and> c \<le> 13) \<or> c = 32 \<or> c = 0xa0 \<or> c = 0x1680 \<or> (0x2000 \<le> c \<and> c \<le> 0x200a)
     \<or> c = 0x2028 \<or> c = 0x2029 \<or> c = 0x202f \<or> c = 0x205f \<or> c = 0x3000 \<or> c = 0xfeff"

definition trimEnd :: "jsstr \<Rightarrow> jsstr" where
  "trimEnd t = rev (dropWhile isTrimmed (rev t))"

definition plainUnit :: "16 word \<Rightarrow> 16 word" where
  "plainUnit c =
     (if 0x2018 \<le> c \<and> c \<le> 0x201b then 0x27
      else if 0x201c \<le> c \<and> c \<le> 0x201f then 0x22
      else if (0x2010 \<le> c \<and> c \<le> 0x2015) \<or> c = 0x2212 then 0x2d
      else if c = 0xa0 \<or> (0x2002 \<le> c \<and> c \<le> 0x200a) \<or> c = 0x202f \<or> c = 0x205f \<or> c = 0x3000 then 0x20
      else c)"

definition normalizeForFuzzyMatch :: "(jsstr \<Rightarrow> jsstr) \<Rightarrow> jsstr \<Rightarrow> jsstr" where
  "normalizeForFuzzyMatch nfkc t = map plainUnit (joinNewline (map trimEnd (splitNewline (nfkc t))))"

section \<open>Lines and replacements\<close>

text \<open>\<^verbatim>\<open>content.match(/[^\n]*\n|[^\n]+/g) ?? []\<close>.\<close>

fun splitLinesWithEndings :: "jsstr \<Rightarrow> jsstr list" where
  "splitLinesWithEndings [] = []"
| "splitLinesWithEndings (c # cs) =
     (if c = newline then [newline] # splitLinesWithEndings cs
      else (case splitLinesWithEndings cs of [] \<Rightarrow> [[c]] | l # ls \<Rightarrow> (c # l) # ls))"

type_synonym span = "nat \<times> nat"

fun spansFrom :: "nat \<Rightarrow> jsstr list \<Rightarrow> span list" where
  "spansFrom off [] = []"
| "spansFrom off (l # ls) = (off, off + length l) # spansFrom (off + length l) ls"

definition getLineSpans :: "jsstr \<Rightarrow> span list" where
  "getLineSpans t = spansFrom 0 (splitLinesWithEndings t)"

record Replacement =
  r_edit :: nat
  r_index :: nat
  r_length :: nat
  r_new :: jsstr

fun startLineOf :: "nat \<Rightarrow> span list \<Rightarrow> nat option" where
  "startLineOf p [] = None"
| "startLineOf p ((s, e) # ls) = (if s \<le> p \<and> p < e then Some 0 else map_option Suc (startLineOf p ls))"

fun endLineOf :: "nat \<Rightarrow> span list \<Rightarrow> nat option" where
  "endLineOf p [] = None"
| "endLineOf p ((s, e) # ls) = (if e < p then map_option Suc (endLineOf p ls) else Some 0)"

definition getReplacementLineRange :: "span list \<Rightarrow> Replacement \<Rightarrow> span option" where
  "getReplacementLineRange lines r =
     (case startLineOf (r_index r) lines of
        None \<Rightarrow> None
      | Some i \<Rightarrow> map_option (\<lambda>k. (i, Suc (i + k))) (endLineOf (r_index r + r_length r) (drop i lines)))"

definition replaceOne :: "nat \<Rightarrow> Replacement \<Rightarrow> jsstr \<Rightarrow> jsstr" where
  "replaceOne offset r t = take (r_index r - offset) t @ r_new r @ drop (r_index r + r_length r - offset) t"

definition applyReplacements :: "jsstr \<Rightarrow> Replacement list \<Rightarrow> nat \<Rightarrow> jsstr" where
  "applyReplacements t rs offset = foldr (replaceOne offset) rs t"

record Group =
  g_start :: nat
  g_end :: nat
  g_replacements :: "Replacement list"

definition addGroup :: "Replacement \<Rightarrow> span \<Rightarrow> Group list \<Rightarrow> Group list" where
  "addGroup r at groups =
     (if groups \<noteq> [] \<and> fst at < g_end (last groups)
      then butlast groups @ [(last groups)\<lparr>g_end := max (g_end (last groups)) (snd at),
             g_replacements := g_replacements (last groups) @ [r]\<rparr>]
      else groups @ [\<lparr>g_start = fst at, g_end = snd at, g_replacements = [r]\<rparr>])"

fun groupsOf :: "span list \<Rightarrow> Replacement list \<Rightarrow> Group list \<Rightarrow> Group list option" where
  "groupsOf lines [] groups = Some groups"
| "groupsOf lines (r # rs) groups =
     (case getReplacementLineRange lines r of None \<Rightarrow> None | Some at \<Rightarrow> groupsOf lines rs (addGroup r at groups))"

definition jsSlice :: "nat \<Rightarrow> nat \<Rightarrow> 'a list \<Rightarrow> 'a list" where
  "jsSlice i j xs = take (j - i) (drop i xs)"

definition groupText :: "jsstr \<Rightarrow> span list \<Rightarrow> Group \<Rightarrow> jsstr" where
  "groupText base lines g =
     (let from = fst (lines ! g_start g); upto' = snd (lines ! (g_end g - 1))
      in applyReplacements (jsSlice from upto' base) (g_replacements g) from)"

fun joinGroups :: "jsstr list \<Rightarrow> jsstr \<Rightarrow> span list \<Rightarrow> Group list \<Rightarrow> nat \<Rightarrow> jsstr" where
  "joinGroups originals base lines [] i = concat (drop i originals)"
| "joinGroups originals base lines (g # gs) i =
     concat (jsSlice i (g_start g) originals) @ groupText base lines g @ joinGroups originals base lines gs (g_end g)"

datatype EditError = NoEdits | EmptyOldText nat | NotFound nat | Duplicate nat int | Overlap nat nat | NoChange | OutsideBase | LineCount

definition applyReplacementsPreservingUnchangedLines :: "jsstr \<Rightarrow> jsstr \<Rightarrow> Replacement list \<Rightarrow> EditError + jsstr" where
  "applyReplacementsPreservingUnchangedLines original base rs =
     (let originals = splitLinesWithEndings original; lines = getLineSpans base
      in if length originals \<noteq> length lines then Inl LineCount
         else case groupsOf lines (sort_key r_index rs) [] of
                None \<Rightarrow> Inl OutsideBase
              | Some groups \<Rightarrow> Inr (joinGroups originals base lines groups 0))"

section \<open>Matches\<close>

record Match =
  m_index :: nat
  m_length :: nat
  m_fuzzy :: bool

definition fuzzyFindText :: "(jsstr \<Rightarrow> jsstr) \<Rightarrow> jsstr \<Rightarrow> jsstr \<Rightarrow> Match option" where
  "fuzzyFindText nfkc t old =
     (case indexOf old t of
        Some i \<Rightarrow> Some \<lparr>m_index = i, m_length = length old, m_fuzzy = False\<rparr>
      | None \<Rightarrow>
          (case indexOf (normalizeForFuzzyMatch nfkc old) (normalizeForFuzzyMatch nfkc t) of
             None \<Rightarrow> None
           | Some i \<Rightarrow> Some \<lparr>m_index = i, m_length = length (normalizeForFuzzyMatch nfkc old), m_fuzzy = True\<rparr>))"

text \<open>\<^verbatim>\<open>t.split(pattern).length - 1\<close>: the occurrences that a scan from the left meets, each after the end of the one before; with an
  empty pattern, \<^verbatim>\<open>split\<close> gives the code units.\<close>

lemma indexOf_bound: "indexOf pat t = Some i \<Longrightarrow> i + length pat \<le> length t"
  by (induction t arbitrary: i) (auto dest: prefix_length_le split: if_splits)

function splitCount :: "jsstr \<Rightarrow> jsstr \<Rightarrow> int" where
  "splitCount pat t =
     (if pat = [] then int (length t) - 1
      else case indexOf pat t of None \<Rightarrow> 0 | Some i \<Rightarrow> 1 + splitCount pat (drop (i + length pat) t))"
  by pat_completeness auto

termination splitCount
proof (relation "measure (\<lambda>(pat, t). length t)")
  fix pat t :: jsstr and i
  assume "pat \<noteq> []" and "indexOf pat t = Some i"
  then show "((pat, drop (i + length pat) t), pat, t) \<in> measure (\<lambda>(pat, t). length t)"
    using indexOf_bound [of pat t i] by (cases pat) auto
qed simp

declare splitCount.simps [simp del]

definition countOccurrences :: "(jsstr \<Rightarrow> jsstr) \<Rightarrow> jsstr \<Rightarrow> jsstr \<Rightarrow> int" where
  "countOccurrences nfkc t old = splitCount (normalizeForFuzzyMatch nfkc old) (normalizeForFuzzyMatch nfkc t)"

section \<open>The edits\<close>

record Edit =
  e_old :: jsstr
  e_new :: jsstr

definition normalizedEdit :: "Edit \<Rightarrow> Edit" where
  "normalizedEdit e = \<lparr>e_old = normalizeToLF (e_old e), e_new = normalizeToLF (e_new e)\<rparr>"

fun firstEmpty :: "nat \<Rightarrow> Edit list \<Rightarrow> nat option" where
  "firstEmpty i [] = None"
| "firstEmpty i (e # es) = (if e_old e = [] then Some i else firstEmpty (Suc i) es)"

fun matchEdits :: "(jsstr \<Rightarrow> jsstr) \<Rightarrow> jsstr \<Rightarrow> nat \<Rightarrow> Edit list \<Rightarrow> EditError + Replacement list" where
  "matchEdits nfkc base i [] = Inr []"
| "matchEdits nfkc base i (e # es) =
     (case fuzzyFindText nfkc base (e_old e) of
        None \<Rightarrow> Inl (NotFound i)
      | Some m \<Rightarrow>
          let n = countOccurrences nfkc base (e_old e) in
          if n > 1 then Inl (Duplicate i n)
          else case matchEdits nfkc base (Suc i) es of
                 Inl err \<Rightarrow> Inl err
               | Inr rs \<Rightarrow> Inr (\<lparr>r_edit = i, r_index = m_index m, r_length = m_length m, r_new = e_new e\<rparr> # rs))"

fun firstOverlap :: "Replacement list \<Rightarrow> (nat \<times> nat) option" where
  "firstOverlap (a # b # rs) =
     (if r_index a + r_length a > r_index b then Some (r_edit a, r_edit b) else firstOverlap (b # rs))"
| "firstOverlap _ = None"

definition usesFuzzy :: "(jsstr \<Rightarrow> jsstr) \<Rightarrow> jsstr \<Rightarrow> Edit list \<Rightarrow> bool" where
  "usesFuzzy nfkc t es \<longleftrightarrow> list_ex (\<lambda>e. case fuzzyFindText nfkc t (e_old e) of None \<Rightarrow> False | Some m \<Rightarrow> m_fuzzy m) es"

definition applyEditsToNormalizedContent :: "(jsstr \<Rightarrow> jsstr) \<Rightarrow> jsstr \<Rightarrow> Edit list \<Rightarrow> EditError + jsstr" where
  "applyEditsToNormalizedContent nfkc t edits =
     (let es = map normalizedEdit edits; fuzzy = usesFuzzy nfkc t es;
          base = (if fuzzy then normalizeForFuzzyMatch nfkc t else t)
      in case firstEmpty 0 es of
           Some i \<Rightarrow> Inl (EmptyOldText i)
         | None \<Rightarrow>
             (case matchEdits nfkc base 0 es of
                Inl err \<Rightarrow> Inl err
              | Inr matched \<Rightarrow>
                  let rs = sort_key r_index matched in
                  (case firstOverlap rs of
                     Some (a, b) \<Rightarrow> Inl (Overlap a b)
                   | None \<Rightarrow>
                       (case (if fuzzy then applyReplacementsPreservingUnchangedLines t base rs else Inr (applyReplacements base rs 0)) of
                          Inl err \<Rightarrow> Inl err
                        | Inr out \<Rightarrow> if t = out then Inl NoChange else Inr out))))"

text \<open>What \<^verbatim>\<open>edit\<close> writes for the text that it read.\<close>

definition editText :: "(jsstr \<Rightarrow> jsstr) \<Rightarrow> jsstr \<Rightarrow> Edit list \<Rightarrow> EditError + jsstr" where
  "editText nfkc raw edits =
     (if edits = [] then Inl NoEdits
      else case stripBom raw of (bom, t) \<Rightarrow>
        (case applyEditsToNormalizedContent nfkc (normalizeToLF t) edits of
           Inl err \<Rightarrow> Inl err
         | Inr out \<Rightarrow> Inr (bom @ restoreLineEndings out (detectLineEnding t))))"

text \<open>The message of each error, with the path as the model gave it.\<close>

definition editErrorText :: "string \<Rightarrow> nat \<Rightarrow> EditError \<Rightarrow> string" where
  "editErrorText path howMany err =
     (case err of
        NoEdits \<Rightarrow> ''Edit tool input is invalid. edits must contain at least one replacement.''
      | EmptyOldText i \<Rightarrow>
          if howMany = 1 then ''oldText must not be empty in '' @ path @ ''.''
          else ''edits['' @ decimal i @ ''].oldText must not be empty in '' @ path @ ''.''
      | NotFound i \<Rightarrow>
          if howMany = 1 then ''Could not find the exact text in '' @ path @ ''. The old text must match exactly including all whitespace and newlines.''
          else ''Could not find edits['' @ decimal i @ ''] in '' @ path @ ''. The oldText must match exactly including all whitespace and newlines.''
      | Duplicate i n \<Rightarrow>
          if howMany = 1 then ''Found '' @ decimal (nat n) @ '' occurrences of the text in '' @ path
            @ ''. The text must be unique. Please provide more context to make it unique.''
          else ''Found '' @ decimal (nat n) @ '' occurrences of edits['' @ decimal i @ ''] in '' @ path
            @ ''. Each oldText must be unique. Please provide more context to make it unique.''
      | Overlap i j \<Rightarrow> ''edits['' @ decimal i @ ''] and edits['' @ decimal j @ ''] overlap in '' @ path
          @ ''. Merge them into one edit or target disjoint regions.''
      | NoChange \<Rightarrow>
          if howMany = 1 then ''No changes made to '' @ path @ ''. The replacement produced identical content. This might indicate an ''
            @ ''issue with special characters or the text not existing as expected.''
          else ''No changes made to '' @ path @ ''. The replacements produced identical content.''
      | OutsideBase \<Rightarrow> ''Replacement range is outside the base content.''
      | LineCount \<Rightarrow> ''Cannot preserve unchanged lines because the base content has a different line howMany.'')"

section \<open>Replacements that stand apart\<close>

text \<open>Gaps with pieces between them: what an edit keeps, and what stands at each place.\<close>

fun weave :: "jsstr list \<Rightarrow> jsstr list \<Rightarrow> jsstr" where
  "weave (g # gs) (m # ms) = g @ m @ weave gs ms"
| "weave gs ms = concat gs"

fun apart :: "nat \<Rightarrow> Replacement list \<Rightarrow> nat \<Rightarrow> bool" where
  "apart p [] n \<longleftrightarrow> p \<le> n"
| "apart p (r # rs) n \<longleftrightarrow> p \<le> r_index r \<and> apart (r_index r + r_length r) rs n"

definition oldOf :: "jsstr \<Rightarrow> Replacement \<Rightarrow> jsstr" where
  "oldOf t r = take (r_length r) (drop (r_index r) t)"

lemma apart_bound: "apart p rs n \<Longrightarrow> p \<le> n"
  by (induction rs arbitrary: p) force+

lemma foldr_replace_apart:
  assumes "apart p rs (length t)"
  shows "\<exists>gaps. length gaps = Suc (length rs) \<and> drop p t = weave gaps (map (oldOf t) rs)
    \<and> foldr (replaceOne 0) rs t = take p t @ weave gaps (map r_new rs)"
  using assms
proof (induction rs arbitrary: p)
  case Nil
  then show ?case by (intro exI [of _ "[drop p t]"]) simp
next
  case (Cons r rs)
  let ?q = "r_index r + r_length r"
  obtain gaps where gaps: "length gaps = Suc (length rs)" "drop ?q t = weave gaps (map (oldOf t) rs)"
      "foldr (replaceOne 0) rs t = take ?q t @ weave gaps (map r_new rs)"
    using Cons.IH [of ?q] Cons.prems by auto
  have q: "?q \<le> length t" and p: "p \<le> r_index r" using Cons.prems apart_bound by auto
  let ?gap = "take (r_index r - p) (drop p t)"
  have "drop p t = ?gap @ drop (r_index r) t" using p by (metis append_take_drop_id drop_drop le_add_diff_inverse2)
  moreover have "drop (r_index r) t = oldOf t r @ drop ?q t" unfolding oldOf_def by (metis append_take_drop_id drop_drop add.commute)
  moreover have "take (r_index r) t = take p t @ ?gap" using p by (metis le_add_diff_inverse take_add)
  moreover have "replaceOne 0 r (take ?q t @ u) = take (r_index r) t @ r_new r @ u" for u
    using q by (simp add: replaceOne_def min_def)
  ultimately show ?case using gaps by (intro exI [of _ "?gap # gaps"]) simp
qed

lemma applyReplacements_apart:
  assumes "apart 0 rs (length t)"
  shows "\<exists>gaps. length gaps = Suc (length rs) \<and> t = weave gaps (map (oldOf t) rs)
    \<and> applyReplacements t rs 0 = weave gaps (map r_new rs)"
  using foldr_replace_apart [OF assms] by (simp add: applyReplacements_def)

lemma indexOf_found: "indexOf pat t = Some i \<Longrightarrow> take (length pat) (drop i t) = pat"
proof (induction t arbitrary: i)
  case (Cons c t)
  then show ?case by (auto simp: prefix_def split: if_splits)
qed (auto split: if_splits)

lemma firstOverlap_apart:
  assumes "firstOverlap rs = None" and "list_all (\<lambda>r. r_index r + r_length r \<le> n) rs"
    and "rs \<noteq> [] \<Longrightarrow> p \<le> r_index (hd rs)" and "rs = [] \<Longrightarrow> p \<le> n"
  shows "apart p rs n"
  using assms
proof (induction rs arbitrary: p rule: firstOverlap.induct)
  case (1 a b rs)
  then show ?case by (auto split: if_splits)
qed auto

lemma matchEdits_matched:
  assumes "matchEdits nfkc base i es = Inr rs"
  shows "map r_new rs = map e_new es
    \<and> list_all2 (\<lambda>e r. \<exists>m. fuzzyFindText nfkc base (e_old e) = Some m \<and> r_index r = m_index m \<and> r_length r = m_length m
         \<and> countOccurrences nfkc base (e_old e) \<le> 1) es rs"
  using assms
proof (induction es arbitrary: i rs)
  case (Cons e es)
  then obtain m rs' where m: "fuzzyFindText nfkc base (e_old e) = Some m" "countOccurrences nfkc base (e_old e) \<le> 1"
      "matchEdits nfkc base (Suc i) es = Inr rs'"
      "rs = \<lparr>r_edit = i, r_index = m_index m, r_length = m_length m, r_new = e_new e\<rparr> # rs'"
    by (auto simp: Let_def split: option.splits if_splits sum.splits)
  then show ?case using Cons.IH [OF m(3)] by auto
qed simp

text \<open>What an edit that succeeded went through.\<close>

lemma applyEdits_success:
  assumes "applyEditsToNormalizedContent nfkc t edits = Inr out"
  obtains base matched rs where
    "base = (if usesFuzzy nfkc t (map normalizedEdit edits) then normalizeForFuzzyMatch nfkc t else t)"
    "matchEdits nfkc base 0 (map normalizedEdit edits) = Inr matched" "rs = sort_key r_index matched" "firstOverlap rs = None"
    "(if usesFuzzy nfkc t (map normalizedEdit edits) then applyReplacementsPreservingUnchangedLines t base rs
      else Inr (applyReplacements base rs 0)) = Inr out"
    "out \<noteq> t" "firstEmpty 0 (map normalizedEdit edits) = None"
  using assms unfolding applyEditsToNormalizedContent_def Let_def
  by (simp split: option.splits sum.splits prod.splits if_splits)

lemma firstEmpty_None: "firstEmpty i es = None \<Longrightarrow> list_all (\<lambda>e. e_old e \<noteq> []) es"
  by (induction es arbitrary: i) (auto split: if_splits)

text \<open>A match in the text itself, when none of the edits needed the fuzzy view.\<close>

lemma matched_exactly:
  assumes "\<not> usesFuzzy nfkc t es" and "matchEdits nfkc t i es = Inr rs"
  shows "map (\<lambda>r. \<lparr>e_old = oldOf t r, e_new = r_new r\<rparr>) rs = es
    \<and> list_all (\<lambda>r. r_index r + r_length r \<le> length t) rs \<and> list_all (\<lambda>e. countOccurrences nfkc t (e_old e) \<le> 1) es"
  using assms
proof (induction es arbitrary: i rs)
  case (Cons e es)
  then obtain m rs' where m: "fuzzyFindText nfkc t (e_old e) = Some m" "countOccurrences nfkc t (e_old e) \<le> 1"
      "matchEdits nfkc t (Suc i) es = Inr rs'"
      "rs = \<lparr>r_edit = i, r_index = m_index m, r_length = m_length m, r_new = e_new e\<rparr> # rs'"
    by (auto simp: Let_def split: option.splits if_splits sum.splits)
  have "\<not> m_fuzzy m" using Cons.prems(1) m(1) by (auto simp: usesFuzzy_def)
  then have "indexOf (e_old e) t = Some (m_index m)" "m_length m = length (e_old e)"
    using m(1) by (auto simp: fuzzyFindText_def split: option.splits)
  then show ?case
    using Cons.IH [OF _ m(3)] Cons.prems(1) m indexOf_found indexOf_bound by (auto simp: usesFuzzy_def oldOf_def)
qed simp

lemma sort_apart:
  assumes "firstOverlap (sort_key r_index rs) = None" and "list_all (\<lambda>r. r_index r + r_length r \<le> n) rs"
  shows "apart 0 (sort_key r_index rs) n"
  using assms by (intro firstOverlap_apart) (simp_all add: list_all_iff)

text \<open>C32. An \<^verbatim>\<open>edit\<close> whose old texts all stand in the file changes exactly what it names: the file is gaps with the old texts between
  them, and the result is the same gaps with the new texts there, each edit once, whatever order the edits were given in. No
  edit has an empty old text or one that is found twice.\<close>

theorem edit_replaces_exactly:
  assumes "applyEditsToNormalizedContent nfkc t edits = Inr out" and "\<not> usesFuzzy nfkc t (map normalizedEdit edits)"
  shows "\<exists>es gaps. mset es = mset (map normalizedEdit edits) \<and> length gaps = Suc (length es)
    \<and> t = weave gaps (map e_old es) \<and> out = weave gaps (map e_new es) \<and> out \<noteq> t
    \<and> list_all (\<lambda>e. e_old e \<noteq> [] \<and> countOccurrences nfkc t (e_old e) \<le> 1) es"
proof -
  obtain base matched rs where e: "base = (if usesFuzzy nfkc t (map normalizedEdit edits) then normalizeForFuzzyMatch nfkc t else t)"
    "matchEdits nfkc base 0 (map normalizedEdit edits) = Inr matched" "rs = sort_key r_index matched" "firstOverlap rs = None"
    "(if usesFuzzy nfkc t (map normalizedEdit edits) then applyReplacementsPreservingUnchangedLines t base rs
      else Inr (applyReplacements base rs 0)) = Inr out"
    "out \<noteq> t" "firstEmpty 0 (map normalizedEdit edits) = None"
    by (rule applyEdits_success [OF assms(1)])
  let ?edit = "\<lambda>r. \<lparr>e_old = oldOf t r, e_new = r_new r\<rparr>"
  have base: "base = t" and out: "out = applyReplacements t rs 0" using e(1,5) assms(2) by simp_all
  note m = matched_exactly [OF assms(2) e(2) [unfolded base]]
  have "apart 0 rs (length t)" unfolding e(3) using e(3,4) m by (intro sort_apart) simp_all
  then obtain gaps where gaps: "length gaps = Suc (length rs)" "t = weave gaps (map (oldOf t) rs)"
      "applyReplacements t rs 0 = weave gaps (map r_new rs)" using applyReplacements_apart by metis
  have es: "mset (map ?edit rs) = mset (map normalizedEdit edits)" using m e(3) by (metis mset_map mset_sort)
  have "list_all (\<lambda>e. e_old e \<noteq> [] \<and> countOccurrences nfkc t (e_old e) \<le> 1) (map normalizedEdit edits)"
    using m firstEmpty_None [OF e(7)] by (simp add: list_all_iff)
  then have "list_all (\<lambda>e. e_old e \<noteq> [] \<and> countOccurrences nfkc t (e_old e) \<le> 1) (map ?edit rs)"
    using mset_eq_setD [OF es] unfolding list_all_iff by blast
  then show ?thesis using es gaps e(6) out by (intro exI [of _ "map ?edit rs"] exI [of _ gaps]) (simp add: comp_def)
qed

lemmas edit_eval = applyEditsToNormalizedContent_def usesFuzzy_def fuzzyFindText_def countOccurrences_def normalizedEdit_def normalizeToLF_def
  normalizeForFuzzyMatch_def trimEnd_def isTrimmed_def plainUnit_def splitCount.simps applyReplacements_def replaceOne_def Let_def

theorem edit_replaces_exactly_witness:
  "\<exists>(es :: Edit list) gaps. length gaps = Suc (length es) \<and> [97, 98, 10, 99] = weave gaps (map e_old es)
    \<and> [120, 98, 10, 121, 121] = weave gaps (map e_new es)"
proof -
  let ?es = "[\<lparr>e_old = [99], e_new = [121, 121]\<rparr>, \<lparr>e_old = [97], e_new = [120]\<rparr>]"
  have "applyEditsToNormalizedContent (\<lambda>x. x) [97, 98, 10, 99] ?es = Inr [120, 98, 10, 121, 121]"
    and "\<not> usesFuzzy (\<lambda>x. x) [97, 98, 10, 99] (map normalizedEdit ?es)" by (simp_all add: edit_eval)
  from edit_replaces_exactly [OF this] show ?thesis by blast
qed

text \<open>The count of occurrences is of those that do not overlap: an old text that overlaps itself in the file counts as unique, and the
  first of its two places is replaced.\<close>

lemma overlapping_occurrences_count_once:
  "applyEditsToNormalizedContent (\<lambda>x. x) [97, 97, 97] [\<lparr>e_old = [97, 97], e_new = [98]\<rparr>] = Inr [98, 97]"
  by (simp add: edit_eval)

section \<open>Groups of lines\<close>

lemma concat_splitLinesWithEndings [simp]: "concat (splitLinesWithEndings t) = t"
  by (induction t) (auto split: list.splits)

lemma length_spansFrom [simp]: "length (spansFrom off ls) = length ls"
  by (induction ls arbitrary: off) auto

lemma spansFrom_nth:
  "i < length ls \<Longrightarrow> spansFrom off ls ! i = (off + length (concat (take i ls)), off + length (concat (take (Suc i) ls)))"
  by (induction ls arbitrary: off i) (auto simp: nth_Cons split: nat.splits)

lemma length_concat_take_mono: "i \<le> j \<Longrightarrow> length (concat (take i ls)) \<le> length (concat (take j ls))"
  by (metis append_take_drop_id concat_append le_add1 length_append min.absorb1 take_take)

lemma slice_concat:
  assumes "i \<le> j" and "j \<le> length ls"
  shows "jsSlice (length (concat (take i ls))) (length (concat (take j ls))) (concat ls) = concat (jsSlice i j ls)"
proof -
  have ls: "ls = take i ls @ jsSlice i j ls @ drop j ls"
    unfolding jsSlice_def by (metis append_take_drop_id assms(1) drop_drop le_add_diff_inverse2)
  have "take j ls = take i ls @ jsSlice i j ls" unfolding jsSlice_def by (metis assms(1) le_add_diff_inverse take_add)
  then have "length (concat (take j ls)) - length (concat (take i ls)) = length (concat (jsSlice i j ls))" by simp
  moreover have "concat ls = concat (take i ls) @ concat (jsSlice i j ls) @ concat (drop j ls)" using arg_cong [OF ls, of concat] by simp
  ultimately show ?thesis unfolding jsSlice_def [of "length _"] by simp
qed

lemma startLineOf_Some:
  "startLineOf p lines = Some i \<Longrightarrow> i < length lines \<and> fst (lines ! i) \<le> p \<and> p < snd (lines ! i)"
  by (induction lines arbitrary: i rule: startLineOf.induct [of _ p]) (auto split: if_splits)

lemma endLineOf_Some: "endLineOf p lines = Some i \<Longrightarrow> i < length lines \<and> p \<le> snd (lines ! i)"
  by (induction lines arbitrary: i rule: endLineOf.induct [of _ p]) (auto split: if_splits)

lemma lineRange_Some:
  assumes "getReplacementLineRange lines r = Some (i, j)"
  shows "i < j \<and> j \<le> length lines \<and> fst (lines ! i) \<le> r_index r \<and> r_index r < snd (lines ! i)
    \<and> r_index r + r_length r \<le> snd (lines ! (j - 1))"
  using assms startLineOf_Some [of "r_index r" lines] endLineOf_Some [of "r_index r + r_length r" "drop i lines"]
  by (auto simp: getReplacementLineRange_def split: option.splits)

definition touched :: "span list \<Rightarrow> Replacement list \<Rightarrow> nat \<Rightarrow> bool" where
  "touched lines rs k \<longleftrightarrow> list_ex (\<lambda>r. case getReplacementLineRange lines r of None \<Rightarrow> False | Some (i, j) \<Rightarrow> i \<le> k \<and> k < j) rs"

text \<open>A group as the loop builds it: its lines are touched, and its replacements lie within its lines.\<close>

definition groupOk :: "span list \<Rightarrow> Replacement list \<Rightarrow> Group \<Rightarrow> bool" where
  "groupOk lines rs g \<longleftrightarrow> g_start g < g_end g \<and> g_end g \<le> length lines \<and> g_replacements g \<noteq> []
     \<and> (\<forall>k\<in>{g_start g..<g_end g}. touched lines rs k)
     \<and> (\<forall>r\<in>set (g_replacements g). fst (lines ! g_start g) \<le> r_index r \<and> r_index r + r_length r \<le> snd (lines ! (g_end g - 1)))"

fun groupsFrom :: "nat \<Rightarrow> Group list \<Rightarrow> bool" where
  "groupsFrom i [] \<longleftrightarrow> True"
| "groupsFrom i (g # gs) \<longleftrightarrow> i \<le> g_start g \<and> groupsFrom (g_end g) gs"

lemma groupsFrom_snoc: "groupsFrom i (gs @ [g]) \<longleftrightarrow> groupsFrom i gs \<and> (if gs = [] then i else g_end (last gs)) \<le> g_start g"
  by (induction gs arbitrary: i) auto

lemma spans_ordered:
  "lines = spansFrom off ls \<Longrightarrow> i < j \<Longrightarrow> j < length lines \<Longrightarrow> snd (lines ! i) \<le> fst (lines ! j) \<and> snd (lines ! i) \<le> snd (lines ! j)"
  using length_concat_take_mono [of "Suc i" j ls] length_concat_take_mono [of "Suc i" "Suc j" ls] by (simp add: spansFrom_nth)

lemma addGroup_ok:
  assumes "lines = spansFrom off ls" and "\<forall>g\<in>set gs. groupOk lines (ps @ [r]) g" and "groupsFrom i0 gs" and "i0 = 0"
    and "concat (map g_replacements gs) = ps" and "getReplacementLineRange lines r = Some at"
    and "\<forall>p\<in>set ps. r_index p \<le> r_index r"
  shows "(\<forall>g\<in>set (addGroup r at gs). groupOk lines (ps @ [r]) g) \<and> groupsFrom i0 (addGroup r at gs)
    \<and> concat (map g_replacements (addGroup r at gs)) = ps @ [r]"
proof (cases at)
  case (Pair i j)
  note at = lineRange_Some [OF assms(6) [unfolded Pair]]
  have mine: "touched lines (ps @ [r]) k" if "i \<le> k" "k < j" for k using that assms(6) Pair by (simp add: touched_def)
  show ?thesis
  proof (cases "gs \<noteq> [] \<and> i < g_end (last gs)")
    case False
    have "groupOk lines (ps @ [r]) \<lparr>g_start = i, g_end = j, g_replacements = [r]\<rparr>" using at mine by (auto simp: groupOk_def)
    then show ?thesis using assms False Pair by (auto simp: addGroup_def groupsFrom_snoc)
  next
    case True
    then obtain hs g where gs: "gs = hs @ [g]" by (metis append_butlast_last_id)
    have g: "groupOk lines (ps @ [r]) g" using assms(2) gs by simp
    then obtain p where p: "p \<in> set (g_replacements g)" by (cases "g_replacements g") (auto simp: groupOk_def)
    then have "p \<in> set ps" and "fst (lines ! g_start g) \<le> r_index p" using g assms(5) gs by (auto simp: groupOk_def)
    then have "fst (lines ! g_start g) \<le> r_index r" using assms(7) by force
    then have "\<not> i < g_start g" using spans_ordered [OF assms(1), of i "g_start g"] at g by (auto simp: groupOk_def)
    moreover have "snd (lines ! (a - 1)) \<le> snd (lines ! (max a b - 1)) \<and> snd (lines ! (b - 1)) \<le> snd (lines ! (max a b - 1))"
      if "0 < a" "0 < b" "a \<le> length lines" "b \<le> length lines" for a b
    proof -
      have "snd (lines ! x) \<le> snd (lines ! y)" if "x \<le> y" "y < length lines" for x y
        using spans_ordered [OF assms(1), of x y] that by (cases "x = y") auto
      then show ?thesis using that by (auto simp: max_def)
    qed
    note this [of "g_end g" j]
    ultimately have "groupOk lines (ps @ [r]) (g\<lparr>g_end := max (g_end g) j, g_replacements := g_replacements g @ [r]\<rparr>)"
      using g at mine True gs \<open>fst (lines ! g_start g) \<le> r_index r\<close> by (fastforce simp: groupOk_def)
    then show ?thesis using assms True Pair gs by (auto simp: addGroup_def groupsFrom_snoc)
  qed
qed

lemma touched_append: "touched lines rs k \<Longrightarrow> touched lines (rs @ qs) k"
  by (simp add: touched_def)

lemma groupOk_append: "groupOk lines rs g \<Longrightarrow> groupOk lines (rs @ qs) g"
  by (simp add: groupOk_def touched_append)

lemma groupsOf_ok:
  assumes "groupsOf lines qs gs = Some groups" and "lines = spansFrom off ls" and "\<forall>g\<in>set gs. groupOk lines ps g"
    and "groupsFrom 0 gs" and "concat (map g_replacements gs) = ps" and "sorted (map r_index (ps @ qs))"
  shows "(\<forall>g\<in>set groups. groupOk lines (ps @ qs) g) \<and> groupsFrom 0 groups \<and> concat (map g_replacements groups) = ps @ qs"
  using assms
proof (induction qs arbitrary: gs ps)
  case (Cons r qs)
  from Cons.prems(1) obtain at where at: "getReplacementLineRange lines r = Some at" "groupsOf lines qs (addGroup r at gs) = Some groups"
    by (auto split: option.splits)
  have "\<forall>g\<in>set gs. groupOk lines (ps @ [r]) g" using Cons.prems(3) groupOk_append by blast
  moreover have "\<forall>p\<in>set ps. r_index p \<le> r_index r" using Cons.prems(6) by (auto simp: sorted_append)
  ultimately have "(\<forall>g\<in>set (addGroup r at gs). groupOk lines (ps @ [r]) g) \<and> groupsFrom 0 (addGroup r at gs)
      \<and> concat (map g_replacements (addGroup r at gs)) = ps @ [r]"
    using addGroup_ok [OF Cons.prems(2) _ Cons.prems(4) refl Cons.prems(5) at(1)] by blast
  then show ?case using Cons.IH [OF at(2) Cons.prems(2), of "ps @ [r]"] Cons.prems(6) by simp
qed simp

section \<open>The text of a group\<close>

definition shift :: "nat \<Rightarrow> Replacement \<Rightarrow> Replacement" where
  "shift off r = r\<lparr>r_index := r_index r - off\<rparr>"

lemma shift_simps [simp]: "r_index (shift off r) = r_index r - off" "r_length (shift off r) = r_length r" "r_new (shift off r) = r_new r"
  by (simp_all add: shift_def)

lemma apart_start: "apart p rs n \<Longrightarrow> \<forall>r\<in>set rs. lo \<le> r_index r \<Longrightarrow> lo \<le> n \<Longrightarrow> apart lo rs n"
  by (cases rs) auto

lemma apart_end: "apart p rs n \<Longrightarrow> \<forall>r\<in>set rs. r_index r + r_length r \<le> hi \<Longrightarrow> p \<le> hi \<Longrightarrow> apart p rs hi"
  by (induction rs arbitrary: p) auto

lemma apart_append: "apart p (xs @ ys) n \<Longrightarrow> \<exists>q. apart p xs n \<and> apart q ys n"
  by (induction xs arbitrary: p) (auto dest: apart_bound)

lemma apart_index: "apart p rs n \<Longrightarrow> r \<in> set rs \<Longrightarrow> p \<le> r_index r"
  by (induction rs arbitrary: p) force+

lemma apart_shift: "apart p rs n \<Longrightarrow> off \<le> p \<Longrightarrow> apart (p - off) (map (shift off) rs) (n - off)"
proof (induction rs arbitrary: p)
  case (Cons r rs)
  then have "apart (r_index r + r_length r - off) (map (shift off) rs) (n - off)" by simp
  then show ?case using Cons.prems by (simp add: diff_le_mono)
qed simp

lemma applyReplacements_shift:
  assumes "\<forall>r\<in>set rs. off \<le> r_index r"
  shows "applyReplacements t rs off = applyReplacements t (map (shift off) rs) 0"
  using assms by (induction rs) (simp_all add: applyReplacements_def replaceOne_def)

lemma oldOf_slice:
  assumes "lo \<le> r_index r" and "r_index r + r_length r \<le> hi"
  shows "oldOf (jsSlice lo hi t) (shift lo r) = oldOf t r"
  using assms by (simp add: oldOf_def jsSlice_def drop_take add.commute)

lemma groupText_weave:
  assumes "lines = spansFrom 0 ls" and "t = concat ls" and "groupOk lines rs g" and "apart p (g_replacements g) (length t)"
  shows "\<exists>gaps. length gaps = Suc (length (g_replacements g))
    \<and> concat (jsSlice (g_start g) (g_end g) ls) = weave gaps (map (oldOf t) (g_replacements g))
    \<and> groupText t lines g = weave gaps (map r_new (g_replacements g))"
proof -
  let ?lo = "fst (lines ! g_start g)" and ?hi = "snd (lines ! (g_end g - 1))" and ?rs = "g_replacements g"
  have g: "g_start g < g_end g" "g_end g \<le> length ls" using assms(1,3) by (auto simp: groupOk_def)
  have lo: "?lo = length (concat (take (g_start g) ls))" and hi: "?hi = length (concat (take (g_end g) ls))"
    using g assms(1) by (simp_all add: spansFrom_nth)
  have body: "jsSlice ?lo ?hi t = concat (jsSlice (g_start g) (g_end g) ls)" unfolding lo hi assms(2) using g by (intro slice_concat) auto
  have le: "?lo \<le> ?hi" "?hi \<le> length t"
    unfolding lo hi assms(2) using length_concat_take_mono [of _ _ ls] g length_concat_take_mono [of "g_end g" "length ls" ls] by simp_all
  have inside: "\<forall>r\<in>set ?rs. ?lo \<le> r_index r \<and> r_index r + r_length r \<le> ?hi" using assms(3) by (simp add: groupOk_def)
  then have "apart ?lo ?rs ?hi" using apart_end [OF apart_start [OF assms(4)]] le by force
  then have "apart 0 (map (shift ?lo) ?rs) (length (jsSlice ?lo ?hi t))" using apart_shift [of ?lo ?rs ?hi ?lo] le by (simp add: jsSlice_def)
  from applyReplacements_apart [OF this] obtain gaps where gaps: "length gaps = Suc (length ?rs)"
      "jsSlice ?lo ?hi t = weave gaps (map (oldOf (jsSlice ?lo ?hi t) \<circ> shift ?lo) ?rs)"
      "applyReplacements (jsSlice ?lo ?hi t) (map (shift ?lo) ?rs) 0 = weave gaps (map (r_new \<circ> shift ?lo) ?rs)" by auto
  have olds: "map (oldOf (jsSlice ?lo ?hi t) \<circ> shift ?lo) ?rs = map (oldOf t) ?rs" using inside oldOf_slice by auto
  have news: "map (r_new \<circ> shift ?lo) ?rs = map r_new ?rs" by simp
  have "groupText t lines g = applyReplacements (jsSlice ?lo ?hi t) (map (shift ?lo) ?rs) 0"
    using applyReplacements_shift [of ?rs ?lo] inside by (simp add: groupText_def Let_def)
  with gaps(3) have "groupText t lines g = weave gaps (map r_new ?rs)" unfolding news by simp
  with gaps(1) gaps(2) [unfolded olds] show ?thesis unfolding body by blast
qed

section \<open>The lines that a fuzzy edit keeps\<close>

text \<open>The result of an edit in the fuzzy view, as blocks of whole lines of the original: what stands there now, and the
  replacements that were made in the block.\<close>

record Block =
  b_lines :: "jsstr list"
  b_text :: jsstr
  b_replacements :: "Replacement list"

definition blockOk :: "jsstr \<Rightarrow> Replacement list \<Rightarrow> nat \<Rightarrow> Block \<Rightarrow> bool" where
  "blockOk base rs i b \<longleftrightarrow>
     (b_replacements b = [] \<and> b_text b = concat (b_lines b))
     \<or> ((\<forall>k\<in>{i..<i + length (b_lines b)}. touched (getLineSpans base) rs k)
        \<and> (\<exists>gaps. length gaps = Suc (length (b_replacements b))
             \<and> concat (jsSlice i (i + length (b_lines b)) (splitLinesWithEndings base)) = weave gaps (map (oldOf base) (b_replacements b))
             \<and> b_text b = weave gaps (map r_new (b_replacements b))))"

fun blocksOk :: "jsstr \<Rightarrow> Replacement list \<Rightarrow> nat \<Rightarrow> Block list \<Rightarrow> bool" where
  "blocksOk base rs i [] \<longleftrightarrow> True"
| "blocksOk base rs i (b # bs) \<longleftrightarrow> blockOk base rs i b \<and> blocksOk base rs (i + length (b_lines b)) bs"

lemma joinGroups_blocks:
  assumes "lines = getLineSpans base" and "length originals = length lines" and "\<forall>g\<in>set groups. groupOk lines rs g"
    and "groupsFrom i groups" and "i \<le> length originals" and "apart p (concat (map g_replacements groups)) (length base)"
  shows "\<exists>blocks. concat (map b_lines blocks) = drop i originals \<and> concat (map b_text blocks) = joinGroups originals base lines groups i
    \<and> concat (map b_replacements blocks) = concat (map g_replacements groups) \<and> blocksOk base rs i blocks"
  using assms(3-6)
proof (induction groups arbitrary: i p)
  case Nil
  let ?b = "\<lparr>b_lines = drop i originals, b_text = concat (drop i originals), b_replacements = []\<rparr>"
  show ?case by (intro exI [of _ "[?b]"]) (simp add: blockOk_def)
next
  case (Cons g groups)
  have g: "groupOk lines rs g" "i \<le> g_start g" "g_start g < g_end g" "g_end g \<le> length originals"
    using Cons.prems assms(2) by (auto simp: groupOk_def)
  obtain q where apart: "apart p (g_replacements g) (length base)" "apart q (concat (map g_replacements groups)) (length base)"
    using Cons.prems(4) apart_append by fastforce
  obtain blocks where blocks: "concat (map b_lines blocks) = drop (g_end g) originals"
      "concat (map b_text blocks) = joinGroups originals base lines groups (g_end g)"
      "concat (map b_replacements blocks) = concat (map g_replacements groups)" "blocksOk base rs (g_end g) blocks"
    using Cons.IH [of "g_end g" q] Cons.prems g apart(2) by auto
  obtain gaps where gaps: "length gaps = Suc (length (g_replacements g))"
      "concat (jsSlice (g_start g) (g_end g) (splitLinesWithEndings base)) = weave gaps (map (oldOf base) (g_replacements g))"
      "groupText base lines g = weave gaps (map r_new (g_replacements g))"
    using groupText_weave [OF assms(1) [unfolded getLineSpans_def] _ g(1) apart(1)] by auto
  let ?a = "\<lparr>b_lines = jsSlice i (g_start g) originals, b_text = concat (jsSlice i (g_start g) originals), b_replacements = []\<rparr>"
  let ?b = "\<lparr>b_lines = jsSlice (g_start g) (g_end g) originals, b_text = groupText base lines g, b_replacements = g_replacements g\<rparr>"
  have len: "length (b_lines ?a) = g_start g - i" "length (b_lines ?b) = g_end g - g_start g" using g by (simp_all add: jsSlice_def)
  have split: "jsSlice i (g_start g) originals @ jsSlice (g_start g) (g_end g) originals @ drop (g_end g) originals = drop i originals"
    using g(2,3) unfolding jsSlice_def
    by (metis append_take_drop_id drop_drop le_add_diff_inverse2 less_imp_le)
  have "blockOk base rs (g_start g) ?b"
    using gaps g(1) assms(1) len g(3) by (auto simp: blockOk_def groupOk_def)
  moreover have "blockOk base rs i ?a" by (simp add: blockOk_def)
  ultimately have "blocksOk base rs i (?a # ?b # blocks)" using blocks(4) len g(2,3) by simp
  then show ?case using blocks split by (intro exI [of _ "?a # ?b # blocks"]) simp
qed

lemma matched_in_view:
  assumes "matchEdits nfkc base i es = Inr rs" and "normalizeForFuzzyMatch nfkc base = base"
  shows "list_all2 (\<lambda>e r. r_new r = e_new e \<and> (oldOf base r = e_old e \<or> oldOf base r = normalizeForFuzzyMatch nfkc (e_old e))) es rs
    \<and> list_all (\<lambda>r. r_index r + r_length r \<le> length base) rs"
proof -
  have m: "oldOf base r = e_old e \<or> oldOf base r = normalizeForFuzzyMatch nfkc (e_old e)" "r_index r + r_length r \<le> length base"
    if "fuzzyFindText nfkc base (e_old e) = Some m" "r_index r = m_index m" "r_length r = m_length m" for e :: Edit and r m
    using that assms(2) indexOf_found indexOf_bound by (auto simp: fuzzyFindText_def oldOf_def split: option.splits)
  show ?thesis using assms(1)
  proof (induction es arbitrary: i rs)
    case (Cons e es)
    then obtain k rs' where k: "fuzzyFindText nfkc base (e_old e) = Some k" "matchEdits nfkc base (Suc i) es = Inr rs'"
        "rs = \<lparr>r_edit = i, r_index = m_index k, r_length = m_length k, r_new = e_new e\<rparr> # rs'"
      by (auto simp: Let_def split: option.splits if_splits sum.splits)
    then show ?case using Cons.IH [OF k(2)] m [OF k(1), of "hd rs"] by simp
  qed simp
qed

text \<open>C33. An \<^verbatim>\<open>edit\<close> that needs the fuzzy view rewrites only the lines that it touches. The original's lines are cut in blocks: a block
  with no replacement keeps its bytes, and every line of any other block is touched by a replacement and is rewritten from the
  fuzzy view, where the matched texts stand in the same gaps as the new ones do in the result; each edit is made once. That the
  fuzzy view of the fuzzy view is itself is a property of NFKC.\<close>

theorem fuzzy_edit_keeps_other_lines:
  assumes "applyEditsToNormalizedContent nfkc t edits = Inr out" and "usesFuzzy nfkc t (map normalizedEdit edits)"
    and "base = normalizeForFuzzyMatch nfkc t" and "normalizeForFuzzyMatch nfkc base = base"
  shows "\<exists>matched blocks.
    list_all2 (\<lambda>e r. r_new r = e_new e \<and> (oldOf base r = e_old e \<or> oldOf base r = normalizeForFuzzyMatch nfkc (e_old e)))
      (map normalizedEdit edits) matched
    \<and> concat (map b_replacements blocks) = sort_key r_index matched
    \<and> concat (map b_lines blocks) = splitLinesWithEndings t \<and> concat (map b_text blocks) = out
    \<and> blocksOk base (sort_key r_index matched) 0 blocks"
proof -
  obtain base' matched rs where e: "base' = (if usesFuzzy nfkc t (map normalizedEdit edits) then normalizeForFuzzyMatch nfkc t else t)"
    "matchEdits nfkc base' 0 (map normalizedEdit edits) = Inr matched" "rs = sort_key r_index matched" "firstOverlap rs = None"
    "(if usesFuzzy nfkc t (map normalizedEdit edits) then applyReplacementsPreservingUnchangedLines t base' rs
      else Inr (applyReplacements base' rs 0)) = Inr out"
    "out \<noteq> t" "firstEmpty 0 (map normalizedEdit edits) = None"
    by (rule applyEdits_success [OF assms(1)])
  have base: "base' = base" using e(1) assms(2,3) by simp
  note m = matched_in_view [OF e(2) [unfolded base] assms(4)]
  have sorted: "sort_key r_index rs = rs" unfolding e(3) by (simp add: sort_key_id_if_sorted)
  have "applyReplacementsPreservingUnchangedLines t base rs = Inr out" using e(5) assms(2) base by simp
  then obtain groups where len: "length (splitLinesWithEndings t) = length (getLineSpans base)"
      and groups: "groupsOf (getLineSpans base) rs [] = Some groups"
      and out: "out = joinGroups (splitLinesWithEndings t) base (getLineSpans base) groups 0"
    unfolding applyReplacementsPreservingUnchangedLines_def Let_def sorted by (auto split: if_splits option.splits)
  have "(\<forall>g\<in>set groups. groupOk (getLineSpans base) rs g) \<and> groupsFrom 0 groups \<and> concat (map g_replacements groups) = rs"
    using groupsOf_ok [OF groups getLineSpans_def, of "[]"] e(3) by simp
  moreover have "apart 0 rs (length base)" unfolding e(3) using e(3,4) m by (intro sort_apart) simp_all
  ultimately obtain blocks where "concat (map b_lines blocks) = splitLinesWithEndings t" "concat (map b_text blocks) = out"
      "concat (map b_replacements blocks) = rs" "blocksOk base rs 0 blocks"
    using joinGroups_blocks [OF refl len, of groups rs 0 0] out by auto
  then show ?thesis using m e(3) by (intro exI [of _ matched] exI [of _ blocks]) simp
qed

text \<open>The file \<^verbatim>\<open>it's\<close> with a curly apostrophe, then a line that ends in two spaces: an edit of \<^verbatim>\<open>it's\<close> keeps the spaces.\<close>

theorem fuzzy_edit_keeps_other_lines_witness:
  "\<exists>blocks :: Block list. concat (map b_lines blocks) = [[0x2019, 10], [97, 32, 32, 10]]
    \<and> concat (map b_text blocks) = [120, 10, 97, 32, 32, 10]"
proof -
  let ?t = "[0x2019, 10, 97, 32, 32, 10]" and ?es = "[\<lparr>e_old = [0x27], e_new = [120]\<rparr>]"
  have eval: "applyEditsToNormalizedContent (\<lambda>x. x) ?t ?es = Inr [120, 10, 97, 32, 32, 10]"
    "usesFuzzy (\<lambda>x. x) ?t (map normalizedEdit ?es)"
    by (simp_all add: edit_eval applyReplacementsPreservingUnchangedLines_def getLineSpans_def getReplacementLineRange_def addGroup_def
        groupText_def jsSlice_def)
  have "normalizeForFuzzyMatch (\<lambda>x. x) (normalizeForFuzzyMatch (\<lambda>x. x) ?t) = normalizeForFuzzyMatch (\<lambda>x. x) ?t"
    by (simp add: edit_eval)
  from fuzzy_edit_keeps_other_lines [OF eval refl this] obtain blocks :: "Block list"
    where "concat (map b_lines blocks) = splitLinesWithEndings ?t" "concat (map b_text blocks) = [120, 10, 97, 32, 32, 10]" by blast
  then show ?thesis by (intro exI [of _ blocks]) simp
qed

section \<open>Line endings\<close>

fun uniformCrLf :: "jsstr \<Rightarrow> bool" where
  "uniformCrLf [] \<longleftrightarrow> True"
| "uniformCrLf [c] \<longleftrightarrow> c \<noteq> carriageReturn \<and> c \<noteq> newline"
| "uniformCrLf (c # d # cs) \<longleftrightarrow>
     (if c = carriageReturn then d = newline \<and> uniformCrLf cs else c \<noteq> newline \<and> uniformCrLf (d # cs))"

lemma uniform_Cons: "c \<noteq> carriageReturn \<Longrightarrow> c \<noteq> newline \<Longrightarrow> uniformCrLf (c # t) \<longleftrightarrow> uniformCrLf t"
  by (cases t) auto

lemma uniform_restore: "carriageReturn \<notin> set t \<Longrightarrow> uniformCrLf (restoreLineEndings t CRLF)"
  by (induction t) (auto simp: restoreLineEndings_def uniform_Cons)

lemma normalizeToLF_plain [simp]: "carriageReturn \<notin> set t \<Longrightarrow> normalizeToLF t = t"
proof -
  assume t: "carriageReturn \<notin> set t"
  then have "replaceCrLf t = t" by (induction t rule: replaceCrLf.induct) auto
  with t show ?thesis unfolding normalizeToLF_def by (auto intro!: map_idI)
qed

lemma normalizeToLF_no_cr [simp]: "carriageReturn \<notin> set (normalizeToLF t)"
  by (auto simp: normalizeToLF_def split: if_splits)

lemma normalizeToLF_Cons: "c \<noteq> carriageReturn \<Longrightarrow> normalizeToLF (c # t) = c # normalizeToLF t"
  by (cases t) (auto simp: normalizeToLF_def)

lemma restore_normalize: "uniformCrLf t \<Longrightarrow> restoreLineEndings (normalizeToLF t) CRLF = t"
proof (induction t rule: uniformCrLf.induct)
  case (3 c d cs)
  then show ?case
    by (cases "c = carriageReturn") (auto simp: restoreLineEndings_def normalizeToLF_Cons, simp add: normalizeToLF_def)
qed (auto simp: restoreLineEndings_def normalizeToLF_def)

lemma detect_uniform: "uniformCrLf t \<Longrightarrow> newline \<in> set t \<Longrightarrow> detectLineEnding t = CRLF"
proof -
  have "indexOf [newline] t = Some (Suc i) \<and> indexOf [carriageReturn, newline] t = Some i"
    if "uniformCrLf t" "newline \<in> set t" "i = length (takeWhile (\<lambda>c. c \<noteq> carriageReturn) t)" for t i
    using that
  proof (induction t arbitrary: i rule: uniformCrLf.induct)
    case (3 c d cs)
    then show ?case by (cases "c = carriageReturn") auto
  qed auto
  then show "uniformCrLf t \<Longrightarrow> newline \<in> set t \<Longrightarrow> detectLineEnding t = CRLF" by (simp add: detectLineEnding_def)
qed

lemma detect_plain: "carriageReturn \<notin> set t \<Longrightarrow> detectLineEnding t = LF"
proof -
  assume t: "carriageReturn \<notin> set t"
  then have "indexOf [carriageReturn, newline] t = None" by (induction t) auto
  then show ?thesis by (simp add: detectLineEnding_def split: option.split)
qed

text \<open>No code unit of a result comes from elsewhere than the text, its view or a new text.\<close>

lemma set_applyReplacements: "set (applyReplacements t rs off) \<subseteq> set t \<union> (\<Union>r\<in>set rs. set (r_new r))"
proof (induction rs)
  case (Cons r rs)
  have "set (replaceOne off r u) \<subseteq> set u \<union> set (r_new r)" for u by (auto simp: replaceOne_def dest: in_set_takeD in_set_dropD)
  then show ?case using Cons.IH by (fastforce simp: applyReplacements_def)
qed (simp add: applyReplacements_def)

lemma set_joinGroups:
  "set (joinGroups originals base lines groups i)
     \<subseteq> set (concat originals) \<union> set base \<union> (\<Union>r\<in>set (concat (map g_replacements groups)). set (r_new r))"
proof (induction groups arbitrary: i)
  case Nil
  then show ?case by (auto dest: in_set_dropD)
next
  case (Cons g groups)
  have "set (groupText base lines g) \<subseteq> set base \<union> (\<Union>r\<in>set (g_replacements g). set (r_new r))"
    unfolding groupText_def Let_def jsSlice_def by (rule subset_trans [OF set_applyReplacements]) (auto dest: in_set_takeD in_set_dropD)
  moreover have "set (concat (jsSlice i (g_start g) originals)) \<subseteq> set (concat originals)"
    by (auto simp: jsSlice_def dest: in_set_takeD in_set_dropD)
  ultimately show ?case using Cons.IH [of "g_end g"] by auto
qed

lemma set_trimEnd: "set (trimEnd l) \<subseteq> set l"
  by (auto simp: trimEnd_def dest: set_dropWhileD)

lemma set_joinNewline: "set (joinNewline ls) \<subseteq> insert newline (\<Union>l\<in>set ls. set l)"
  by (induction ls) (auto simp: joinNewline_Cons split: if_splits)

lemma set_splitNewline: "l \<in> set (splitNewline t) \<Longrightarrow> set l \<subseteq> set t"
  by (induction t arbitrary: l) (fastforce split: if_splits list.splits)+

lemma fuzzy_no_cr: "carriageReturn \<notin> set (nfkc t) \<Longrightarrow> carriageReturn \<notin> set (normalizeForFuzzyMatch nfkc t)"
proof -
  assume cr: "carriageReturn \<notin> set (nfkc t)"
  let ?u = "joinNewline (map trimEnd (splitNewline (nfkc t)))"
  have "set ?u \<subseteq> insert newline (set (nfkc t))"
    using set_joinNewline [of "map trimEnd (splitNewline (nfkc t))"] set_trimEnd set_splitNewline by fastforce
  then have "carriageReturn \<notin> set ?u" using cr by auto
  moreover have "plainUnit c = carriageReturn \<Longrightarrow> c = carriageReturn" for c by (auto simp: plainUnit_def split: if_splits)
  ultimately show ?thesis unfolding normalizeForFuzzyMatch_def by (metis (no_types, lifting) in_set_conv_nth length_map nth_map)
qed

lemma edits_no_cr:
  assumes "applyEditsToNormalizedContent nfkc t edits = Inr out" and "carriageReturn \<notin> set t" and "carriageReturn \<notin> set (nfkc t)"
  shows "carriageReturn \<notin> set out"
proof -
  obtain base matched rs where e: "base = (if usesFuzzy nfkc t (map normalizedEdit edits) then normalizeForFuzzyMatch nfkc t else t)"
    "matchEdits nfkc base 0 (map normalizedEdit edits) = Inr matched" "rs = sort_key r_index matched" "firstOverlap rs = None"
    "(if usesFuzzy nfkc t (map normalizedEdit edits) then applyReplacementsPreservingUnchangedLines t base rs
      else Inr (applyReplacements base rs 0)) = Inr out"
    "out \<noteq> t" "firstEmpty 0 (map normalizedEdit edits) = None"
    by (rule applyEdits_success [OF assms(1)])
  have base: "carriageReturn \<notin> set base" using e(1) fuzzy_no_cr assms(2,3) by simp
  have "r_new ` set matched = e_new ` set (map normalizedEdit edits)" using matchEdits_matched [OF e(2)] by (metis list.set_map)
  then have news: "carriageReturn \<notin> set (r_new r)" if "r \<in> set rs" for r
  proof -
    have "r_new r \<in> r_new ` set matched" using that e(3) by simp
    also have "\<dots> = e_new ` normalizedEdit ` set edits" using \<open>r_new ` set matched = _\<close> by simp
    finally show ?thesis by (auto simp: normalizedEdit_def)
  qed
  show ?thesis
  proof (cases "usesFuzzy nfkc t (map normalizedEdit edits)")
    case False
    then show ?thesis using e(5) base news set_applyReplacements [of base rs 0] by auto
  next
    case True
    have sorted: "sort_key r_index rs = rs" unfolding e(3) by (simp add: sort_key_id_if_sorted)
    from True e(5) obtain groups where groups: "groupsOf (getLineSpans base) rs [] = Some groups"
        and out: "out = joinGroups (splitLinesWithEndings t) base (getLineSpans base) groups 0"
      unfolding applyReplacementsPreservingUnchangedLines_def Let_def sorted by (auto split: if_splits option.splits)
    have "concat (map g_replacements groups) = rs" using groupsOf_ok [OF groups getLineSpans_def, of "[]"] e(3) by simp
    then show ?thesis
      using set_joinGroups [of "splitLinesWithEndings t" base "getLineSpans base" groups 0] base news assms(2) unfolding out by auto
  qed
qed

text \<open>An \<^verbatim>\<open>edit\<close> keeps the file's line endings and its byte order mark. A file whose lines all end the same way goes through the
  normal form unchanged, so what the edits do not name keeps its bytes; and the result's lines all end as the first line of the
  file did, whatever endings the new texts had. NFKC adds no carriage return.\<close>

theorem edit_keeps_line_endings:
  assumes "editText nfkc raw edits = Inr out" and "stripBom raw = (bom, t)"
    and "\<And>u. carriageReturn \<notin> set u \<Longrightarrow> carriageReturn \<notin> set (nfkc u)"
  shows "(\<exists>u. out = bom @ u \<and> (if detectLineEnding t = CRLF then uniformCrLf u else carriageReturn \<notin> set u))
    \<and> (uniformCrLf t \<and> newline \<in> set t \<or> carriageReturn \<notin> set t \<longrightarrow> restoreLineEndings (normalizeToLF t) (detectLineEnding t) = t)"
proof -
  obtain u where u: "applyEditsToNormalizedContent nfkc (normalizeToLF t) edits = Inr u" "out = bom @ restoreLineEndings u (detectLineEnding t)"
    using assms(1,2) by (auto simp: editText_def split: if_splits sum.splits)
  have "carriageReturn \<notin> set u" using edits_no_cr [OF u(1)] assms(3) by simp
  then have "if detectLineEnding t = CRLF then uniformCrLf (restoreLineEndings u (detectLineEnding t))
      else carriageReturn \<notin> set (restoreLineEndings u (detectLineEnding t))"
    using uniform_restore by (cases "detectLineEnding t") (simp_all add: restoreLineEndings_def)
  moreover have "restoreLineEndings (normalizeToLF t) (detectLineEnding t) = t"
    if "uniformCrLf t \<and> newline \<in> set t \<or> carriageReturn \<notin> set t"
    using that detect_uniform detect_plain restore_normalize by (auto simp: restoreLineEndings_def [of _ LF])
  ultimately show ?thesis using u(2) by blast
qed

theorem edit_keeps_line_endings_witness:
  "uniformCrLf [120, 13, 10, 98] \<and> detectLineEnding [97, 13, 10, 98] = CRLF"
proof -
  let ?raw = "[0xfeff, 97, 13, 10, 98]"
  have "editText (\<lambda>x. x) ?raw [\<lparr>e_old = [97], e_new = [120]\<rparr>] = Inr [0xfeff, 120, 13, 10, 98]"
    by (simp add: editText_def stripBom_def detectLineEnding_def restoreLineEndings_def edit_eval)
  moreover have "stripBom ?raw = ([0xfeff], [97, 13, 10, 98])" by (simp add: stripBom_def)
  moreover have "detectLineEnding [97, 13, 10, 98] = CRLF" by (simp add: detectLineEnding_def)
  ultimately show ?thesis using edit_keeps_line_endings [of "\<lambda>x. x" ?raw] by fastforce
qed

end
