(* ===== verification/File_Read.thy ===== *)
theory File_Read
  imports Truncate
begin

text \<open>
  The \<^verbatim>\<open>read\<close> Working tool, \<^verbatim>\<open>packages/harness/src/file-tools.ts\<close>: the lines of a text file from an offset, cut to the output bounds of
  \<^verbatim>\<open>Truncate\<close>, with a last line that says how to go on; and the image types that it sends, by their first bytes.

  The file's text is what \<^verbatim>\<open>TextDecoder\<close> gives of its bytes. \<open>offset\<close> and \<open>limit\<close> are whole numbers or absent. The notice at the end of
  an answer is a value of its own (\<open>ReadNotice\<close>), and \<open>readOutput\<close> is the text that the model reads.
\<close>

section \<open>Reading a text\<close>

datatype ReadNotice =
    NoNotice
  | LineTooLong int nat
  | Showing int int nat truncatedBy
  | MoreLines int int

datatype ReadAnswer = ReadText jsstr ReadNotice | OffsetBeyond int nat | ReadThrew






fun noticeText :: "jsstr \<Rightarrow> ReadNotice \<Rightarrow> jsstr" where
  "noticeText path NoNotice = []"
| "noticeText path (LineTooLong line bytes) =
     js (''[Line '' @ decimalInt line @ '' is '' @ formatSize bytes @ '', exceeds '' @ formatSize (nat DEFAULT_MAX_BYTES)
       @ '' limit. Use bash: sed -n '' @ [CHR 0x27] @ decimalInt line @ ''p'' @ [CHR 0x27] @ '' '')
     @ path @ js ('' | head -c '' @ decimalInt DEFAULT_MAX_BYTES @ '']'')"
| "noticeText path (Showing a b count by) =
     [newline, newline] @ js (''[Showing lines '' @ decimalInt a @ ''-'' @ decimalInt b @ '' of '' @ decimal count
       @ (if by = ByLines then '''' else '' ('' @ formatSize (nat DEFAULT_MAX_BYTES) @ '' limit)'')
       @ ''. Use offset='' @ decimalInt (b + 1) @ '' to continue.]'')"
| "noticeText path (MoreLines remaining next') =
     [newline, newline] @ js (''['' @ decimalInt remaining @ '' more lines in file. Use offset='' @ decimalInt next' @ '' to continue.]'')"

fun readOutput :: "jsstr \<Rightarrow> ReadAnswer \<Rightarrow> jsstr option" where
  "readOutput path (ReadText body notice) = Some (body @ noticeText path notice)"
| "readOutput path _ = None"

section \<open>Images by their first bytes\<close>

type_synonym bytes = "8 word list"

definition byteAt :: "bytes \<Rightarrow> nat \<Rightarrow> nat" where
  "byteAt b i = (if i < length b then unat (b ! i) else 0)"

definition readUint16LE :: "bytes \<Rightarrow> nat \<Rightarrow> nat" where
  "readUint16LE b i = byteAt b i + byteAt b (i + 1) * 2 ^ 8"

definition readUint32BE :: "bytes \<Rightarrow> nat \<Rightarrow> nat" where
  "readUint32BE b i = byteAt b i * 2 ^ 24 + byteAt b (i + 1) * 2 ^ 16 + byteAt b (i + 2) * 2 ^ 8 + byteAt b (i + 3)"

definition readUint32LE :: "bytes \<Rightarrow> nat \<Rightarrow> nat" where
  "readUint32LE b i = byteAt b i + byteAt b (i + 1) * 2 ^ 8 + byteAt b (i + 2) * 2 ^ 16 + byteAt b (i + 3) * 2 ^ 24"

definition startsWithBytes :: "bytes \<Rightarrow> nat list \<Rightarrow> bool" where
  "startsWithBytes b ns \<longleftrightarrow> length ns \<le> length b \<and> map unat (take (length ns) b) = ns"

definition startsWithAscii :: "bytes \<Rightarrow> nat \<Rightarrow> string \<Rightarrow> bool" where
  "startsWithAscii b i s \<longleftrightarrow> i + length s \<le> length b \<and> map unat (take (length s) (drop i b)) = map of_char s"

definition PNG_SIGNATURE :: "nat list" where
  "PNG_SIGNATURE = [0x89, 0x50, 0x4e, 0x47, 0x0d, 0x0a, 0x1a, 0x0a]"

definition isPng :: "bytes \<Rightarrow> bool" where
  "isPng b \<longleftrightarrow> 16 \<le> length b \<and> readUint32BE b (length PNG_SIGNATURE) = 13 \<and> startsWithAscii b 12 ''IHDR''"

function animatedFrom :: "bytes \<Rightarrow> nat \<Rightarrow> bool" where
  "animatedFrom b i =
     (if i + 8 \<le> length b then
        if startsWithAscii b (i + 4) ''acTL'' then True
        else if startsWithAscii b (i + 4) ''IDAT'' then False
        else let next' = i + 8 + readUint32BE b i + 4
             in if next' \<le> i \<or> next' > length b then False else animatedFrom b next'
      else False)"
  by pat_completeness auto

termination animatedFrom
  by (relation "measure (\<lambda>(b, i). length b - i)") auto

declare animatedFrom.simps [simp del]

definition isAnimatedPng :: "bytes \<Rightarrow> bool" where
  "isAnimatedPng b = animatedFrom b (length PNG_SIGNATURE)"

definition isBmp :: "bytes \<Rightarrow> bool" where
  "isBmp b =
     (if length b < 26 then False
      else let fileSize = readUint32LE b 2; pixels = readUint32LE b 10; header = readUint32LE b 14 in
        if fileSize \<noteq> 0 \<and> fileSize < 26 then False
        else if pixels < 14 + header then False
        else if fileSize \<noteq> 0 \<and> pixels \<ge> fileSize then False
        else if header = 12 then readUint16LE b 22 = 1 \<and> readUint16LE b 24 \<in> {1, 4, 8, 16, 24, 32}
        else if 40 \<le> header \<and> header \<le> 124
          then 30 \<le> length b \<and> readUint16LE b 26 = 1 \<and> readUint16LE b 28 \<in> {1, 4, 8, 16, 24, 32}
        else False)"

datatype ImageType = Jpeg | Png | Gif | Webp | Bmp

definition detectSupportedImageMimeType :: "bytes \<Rightarrow> ImageType option" where
  "detectSupportedImageMimeType b =
     (if startsWithBytes b [0xff, 0xd8, 0xff] then if 3 < length b \<and> b ! 3 = 0xf7 then None else Some Jpeg
      else if startsWithBytes b PNG_SIGNATURE then if isPng b \<and> \<not> isAnimatedPng b then Some Png else None
      else if startsWithAscii b 0 ''GIF'' then Some Gif
      else if startsWithAscii b 0 ''RIFF'' \<and> startsWithAscii b 8 ''WEBP'' then Some Webp
      else if startsWithAscii b 0 ''BM'' \<and> isBmp b then Some Bmp
      else None)"

section \<open>One page\<close>




lemma last_join_newline:
  assumes "ls \<noteq> []" and "\<forall>l\<in>set ls. newline \<notin> set l" and "joinNewline ls \<noteq> []"
  shows "last (joinNewline ls) = newline \<longleftrightarrow> last ls = []"
proof -
  obtain ms m where ls: "ls = ms @ [m]" using assms(1) by (metis append_butlast_last_id)
  have "newline \<notin> set m" using assms(2) ls by simp
  then show ?thesis using assms(3) ls by (cases "m = []") (auto simp: joinNewline_snoc split: if_splits dest: last_in_set)
qed


section \<open>Reading a doc page by page\<close>








section \<open>Animated PNGs\<close>

text \<open>The types of a PNG's chunks, read in a row: what \<^verbatim>\<open>isAnimatedPng\<close> decides from.\<close>

function chunkTypes :: "bytes \<Rightarrow> nat \<Rightarrow> bytes list" where
  "chunkTypes b i = (if i + 8 \<le> length b then take 4 (drop (i + 4) b)
      # (if i + 12 + readUint32BE b i \<le> length b then chunkTypes b (i + 12 + readUint32BE b i) else []) else [])"
  by pat_completeness auto

termination chunkTypes
  by (relation "measure (\<lambda>(b, i). length b - i)") auto

declare chunkTypes.simps [simp del]

definition typeIs :: "string \<Rightarrow> bytes \<Rightarrow> bool" where
  "typeIs s t \<longleftrightarrow> map unat t = map of_char s"

text \<open>A PNG is told animated exactly when an animation chunk (\<^verbatim>\<open>acTL\<close>) stands before the first image data chunk (\<^verbatim>\<open>IDAT\<close>) in
  its row of chunks; the scan ends on every input.\<close>

theorem animated_before_image_data:
  "isAnimatedPng b \<longleftrightarrow> list_ex (typeIs ''acTL'') (takeWhile (\<lambda>t. \<not> typeIs ''IDAT'' t) (chunkTypes b (length PNG_SIGNATURE)))"
proof -
  have "animatedFrom b i \<longleftrightarrow> list_ex (typeIs ''acTL'') (takeWhile (\<lambda>t. \<not> typeIs ''IDAT'' t) (chunkTypes b i))" for i
  proof (induction b i rule: chunkTypes.induct)
    case (1 b i)
    have ascii: "startsWithAscii b (i + 4) s \<longleftrightarrow> typeIs s (take 4 (drop (i + 4) b))" if "i + 8 \<le> length b" "length s = 4" for s
      using that by (auto simp: startsWithAscii_def typeIs_def)
    have "\<not> (typeIs ''acTL'' t \<and> typeIs ''IDAT'' t)" for t by (auto simp: typeIs_def)
    then show ?case
      using 1 ascii by (subst animatedFrom.simps, subst chunkTypes.simps) (auto simp: Let_def add.commute add.left_commute)
  qed
  then show ?thesis by (simp add: isAnimatedPng_def)
qed

end
