(* ===== verification/Door_Compat.thy ===== *)
theory Door_Compat
  imports Json_Values
begin

text \<open>
  A dispatch's slot schema against its callee's door, \<^verbatim>\<open>packages/orchestrator/src/door-compat.ts\<close>, with the subset of JSON Schema that
  it compares inBound (\<^verbatim>\<open>doorSchemaFaults\<close> of \<^verbatim>\<open>chart.ts\<close>).

  A schema is a JSON value, as in the code. A fault is a value with the facts of its message and the path of its field. The
  \<^verbatim>\<open>type\<close> and \<^verbatim>\<open>required\<close> lists of a schema are lists of texts; another element of them is outside the model. Two values that print as the
  same JSON are equal values here.
\<close>

section \<open>The subset\<close>








section \<open>What a schema states\<close>

fun isSchema :: "Json \<Rightarrow> bool" where
  "isSchema (JObj _) = True"
| "isSchema _ = False"


fun texts :: "Json list \<Rightarrow> string list" where
  "texts [] = []"
| "texts (JStr s # vs) = s # texts vs"
| "texts (_ # vs) = texts vs"

definition typesOf :: "Json \<Rightarrow> string list option" where
  "typesOf schema = (case field ''type'' schema of Some (JStr t) \<Rightarrow> Some [t] | Some (JArr ts) \<Rightarrow> Some (texts ts) | _ \<Rightarrow> None)"


definition propsOf :: "Json \<Rightarrow> (string \<times> Json) list" where
  "propsOf schema = (case field ''properties'' schema of Some (JObj ps) \<Rightarrow> filter (\<lambda>(_, s). isSchema s) ps | _ \<Rightarrow> [])"

definition requiredOf :: "Json \<Rightarrow> string list" where
  "requiredOf schema = (case field ''required'' schema of Some (JArr vs) \<Rightarrow> texts vs | _ \<Rightarrow> [])"

fun numOf :: "Json option \<Rightarrow> rat option" where
  "numOf (Some (JNum n)) = Some n"
| "numOf _ = None"


datatype Side = Lower | Upper


section \<open>The comparison\<close>









definition may :: "Json \<Rightarrow> string \<Rightarrow> bool" where
  "may slot t \<longleftrightarrow> (case typesOf slot of None \<Rightarrow> True | Some ts \<Rightarrow> t \<in> set ts)"

definition objectDoor :: "Json \<Rightarrow> bool" where
  "objectDoor door \<longleftrightarrow> (case field ''properties'' door of Some p \<Rightarrow> isSchema p | None \<Rightarrow> False)
     \<or> (case typesOf door of Some ts \<Rightarrow> ''object'' \<in> set ts | None \<Rightarrow> False) \<or> field ''additionalProperties'' door \<noteq> None"




function withoutDefaults :: "Json \<Rightarrow> Json" where
  "withoutDefaults (JObj kvs) = JObj (map (\<lambda>(k, v). (k,
     if k = ''properties'' then (case v of JObj ps \<Rightarrow> JObj (map (\<lambda>(f, s). (f, withoutDefaults s)) ps) | _ \<Rightarrow> v)
     else if k = ''items'' \<or> k = ''additionalProperties'' then withoutDefaults v else v))
     (filter (\<lambda>(k, _). k \<noteq> ''default'') kvs))"
| "withoutDefaults JNull = JNull"
| "withoutDefaults (JBool b) = JBool b"
| "withoutDefaults (JNum n) = JNum n"
| "withoutDefaults (JStr s) = JStr s"
| "withoutDefaults (JArr vs) = JArr vs"
  by pat_completeness auto

termination withoutDefaults
  by (relation "measure size") (auto dest!: member_size)



section \<open>What a schema takes\<close>

text \<open>JSON Schema's reading of the subset. A \<open>strict\<close> reader is a door: a field that an object schema does not name, and for which it
  states no \<^verbatim>\<open>additionalProperties\<close>, is stripped, so a body with one is not taken whole.\<close>

fun hasType :: "Json \<Rightarrow> string \<Rightarrow> bool" where
  "hasType JNull t \<longleftrightarrow> t = ''null''"
| "hasType (JBool _) t \<longleftrightarrow> t = ''boolean''"
| "hasType (JNum n) t \<longleftrightarrow> t = ''number'' \<or> (t = ''integer'' \<and> of_int \<lfloor>n\<rfloor> = n)"
| "hasType (JStr _) t \<longleftrightarrow> t = ''string''"
| "hasType (JArr _) t \<longleftrightarrow> t = ''array''"
| "hasType (JObj _) t \<longleftrightarrow> t = ''object''"

definition typeTaken :: "Json \<Rightarrow> Json \<Rightarrow> bool" where
  "typeTaken s v \<longleftrightarrow> (case typesOf s of None \<Rightarrow> True | Some ts \<Rightarrow> \<exists>t\<in>set ts. hasType v t)"

definition valueTaken :: "Json \<Rightarrow> Json \<Rightarrow> bool" where
  "valueTaken s v \<longleftrightarrow> (case field ''enum'' s of Some (JArr vs) \<Rightarrow> v \<in> set vs | _ \<Rightarrow> True)
     \<and> (case field ''const'' s of Some c \<Rightarrow> v = c | None \<Rightarrow> True)"

definition inBound :: "Json \<Rightarrow> string \<Rightarrow> string option \<Rightarrow> Side \<Rightarrow> rat \<Rightarrow> bool" where
  "inBound s inclusive exclusive side x \<longleftrightarrow>
     (case numOf (field inclusive s) of None \<Rightarrow> True | Some b \<Rightarrow> if side = Lower then b \<le> x else x \<le> b)
     \<and> (case exclusive of None \<Rightarrow> True | Some k \<Rightarrow>
          (case numOf (field k s) of None \<Rightarrow> True | Some b \<Rightarrow> if side = Lower then b < x else x < b))"

fun boundsTaken :: "Json \<Rightarrow> Json \<Rightarrow> bool" where
  "boundsTaken s (JNum n) \<longleftrightarrow> inBound s ''minimum'' (Some ''exclusiveMinimum'') Lower n \<and> inBound s ''maximum'' (Some ''exclusiveMaximum'') Upper n"
| "boundsTaken s (JStr t) \<longleftrightarrow> inBound s ''minLength'' None Lower (of_nat (length t)) \<and> inBound s ''maxLength'' None Upper (of_nat (length t))"
| "boundsTaken s (JArr vs) \<longleftrightarrow> inBound s ''minItems'' None Lower (of_nat (length vs)) \<and> inBound s ''maxItems'' None Upper (of_nat (length vs))"
| "boundsTaken s _ \<longleftrightarrow> True"




section \<open>Bounds and values, one direction\<close>









section \<open>Schemas at every depth\<close>













section \<open>Defaults change nothing\<close>

lemma isSchema_withoutDefaults [simp]: "isSchema (withoutDefaults s) = isSchema s"
  by (cases s) auto

lemma field_withoutDefaults:
  assumes "k \<noteq> ''default''"
  shows "field k (withoutDefaults s) = map_option (\<lambda>v.
     if k = ''properties'' then (case v of JObj ps \<Rightarrow> JObj (map (\<lambda>(f, s). (f, withoutDefaults s)) ps) | _ \<Rightarrow> v)
     else if k = ''items'' \<or> k = ''additionalProperties'' then withoutDefaults v else v) (field k s)"
proof (cases s)
  case (JObj kvs)
  have "map_of (map (\<lambda>(k, v). (k, g k v)) (filter (\<lambda>(k, _). k \<noteq> ''default'') kvs)) k = map_option (g k) (map_of kvs k)" for g :: "string \<Rightarrow> Json \<Rightarrow> Json"
    using assms by (induction kvs) auto
  then show ?thesis unfolding JObj by simp
qed auto

lemma filter_schema_map: "filter (\<lambda>(f, u). isSchema u) (map (\<lambda>(f, s). (f, withoutDefaults s)) ps)
    = map (\<lambda>(f, s). (f, withoutDefaults s)) (filter (\<lambda>(f, u). isSchema u) ps)"
  by (induction ps) auto

lemma propsOf_withoutDefaults [simp]: "propsOf (withoutDefaults s) = map (\<lambda>(f, s). (f, withoutDefaults s)) (propsOf s)"
  by (auto simp: propsOf_def field_withoutDefaults filter_schema_map split: option.splits Json.splits)


lemma stated_withoutDefaults [simp]:
  "typesOf (withoutDefaults s) = typesOf s" "requiredOf (withoutDefaults s) = requiredOf s" "valueTaken (withoutDefaults s) = valueTaken s"
  "typeTaken (withoutDefaults s) = typeTaken s" "may (withoutDefaults s) = may s"
  by (auto simp: typesOf_def requiredOf_def valueTaken_def typeTaken_def may_def field_withoutDefaults fun_eq_iff split: option.splits)

lemma bounds_withoutDefaults [simp]: "boundsTaken (withoutDefaults s) v = boundsTaken s v"
  by (cases v) (simp_all add: inBound_def field_withoutDefaults option.map_ident)

lemma objectDoor_withoutDefaults [simp]: "objectDoor (withoutDefaults s) = objectDoor s"
  by (auto simp: objectDoor_def field_withoutDefaults split: option.splits Json.splits)





section \<open>Compatible means taken\<close>






end
