(* ===== verification/Workspace_Size.thy ===== *)
theory Workspace_Size
  imports Json_Values Truncate
begin

text \<open>
  The Size of a Workspace, \<^verbatim>\<open>packages/orchestrator/src/size.ts\<close>: the reading of quantities, the refusal of anything but the two limits,
  the chain that resolves a Size, and its split inside the pod.

  A number of the code is a rational here: the products of a decimal text and a power of ten or two are exact, where a double may
  round; the code's own \<^verbatim>\<open>1e-9\<close> under the ceiling is kept. A throw is the \<open>Inl\<close> of a sum, with the facts of its message.
\<close>

section \<open>Quantities\<close>

datatype Quantity = QText string | QNum rat

definition trim :: "string \<Rightarrow> string" where
  "trim s = rev (dropWhile isSpace (rev (dropWhile isSpace s)))"

definition SCALE :: "(string \<times> rat) list" where
  "SCALE = [('''', 1), (''m'', 1 / 1000), (''k'', 10 ^ 3), (''M'', 10 ^ 6), (''G'', 10 ^ 9), (''T'', 10 ^ 12), (''P'', 10 ^ 15),
     (''E'', 10 ^ 18), (''Ki'', 2 ^ 10), (''Mi'', 2 ^ 20), (''Gi'', 2 ^ 30), (''Ti'', 2 ^ 40), (''Pi'', 2 ^ 50), (''Ei'', 2 ^ 60)]"

text \<open>The match of \<^verbatim>\<open>QUANTITY\<close>: whole digits with or without a fraction, or a fraction alone, and a unit suffix.\<close>

definition matchQuantity :: "string \<Rightarrow> (rat \<times> string) option" where
  "matchQuantity s =
     (let whole = takeWhile isDigit s; rest = dropWhile isDigit s;
          frac = (case rest of c # cs \<Rightarrow> if c = CHR ''.'' then takeWhile isDigit cs else [] | [] \<Rightarrow> []);
          unt = (if frac = [] then rest else drop (Suc (length frac)) rest)
      in if whole = [] \<and> frac = [] then None
         else Some (of_nat (digitsValue 0 whole) + of_nat (digitsValue 0 frac) / 10 ^ length frac, unt))"

definition baseUnits :: "Quantity \<Rightarrow> rat option" where
  "baseUnits q =
     (case q of
        QNum n \<Rightarrow> if n > 0 then Some n else None
      | QText s \<Rightarrow>
          (case matchQuantity (trim s) of
             None \<Rightarrow> None
           | Some (n, unt) \<Rightarrow>
               (case map_of SCALE unt of
                  None \<Rightarrow> None
                | Some scale \<Rightarrow> if n * scale > 0 then Some (n * scale) else None)))"

datatype SizeSource = FromMachine | FromInstance | FromKit

datatype SizeError =
    NotMemory Quantity
  | NotCpu Quantity
  | SizeNotObject
  | KeyRefused string
  | LimitsNotObject
  | LimitRefused string
  | NotPositive string
  | NoMemory int int SizeSource "int option"
  | NoCpu int SizeSource "int option"
  | ImageMissing
  | UserKeyRefused string

definition memoryBytes :: "Quantity \<Rightarrow> SizeError + int" where
  "memoryBytes q = (case baseUnits q of None \<Rightarrow> Inl (NotMemory q) | Some v \<Rightarrow> Inr \<lceil>v - 1 / 10 ^ 9\<rceil>)"

definition cpuMillis :: "Quantity \<Rightarrow> SizeError + int" where
  "cpuMillis q = (case baseUnits q of None \<Rightarrow> Inl (NotCpu q) | Some v \<Rightarrow> Inr \<lceil>v * 1000 - 1 / 10 ^ 9\<rceil>)"

definition formatMemory :: "int \<Rightarrow> string" where
  "formatMemory bytes =
     (if bytes mod 2 ^ 30 = 0 then decimalInt (bytes div 2 ^ 30) @ ''Gi''
      else if bytes mod 2 ^ 20 = 0 then decimalInt (bytes div 2 ^ 20) @ ''Mi''
      else if bytes mod 2 ^ 10 = 0 then decimalInt (bytes div 2 ^ 10) @ ''Ki''
      else decimalInt bytes)"

definition formatCpu :: "int \<Rightarrow> string" where
  "formatCpu millis = (if millis mod 1000 = 0 then decimalInt (millis div 1000) else decimalInt millis @ ''m'')"

section \<open>The refusal where a Size is read\<close>

fun quantityOf :: "Json \<Rightarrow> Quantity option" where
  "quantityOf (JNum n) = Some (QNum n)"
| "quantityOf (JStr s) = Some (QText s)"
| "quantityOf _ = None"

fun firstRefusedLimit :: "(string \<times> Json) list \<Rightarrow> SizeError option" where
  "firstRefusedLimit [] = None"
| "firstRefusedLimit ((key, v) # rest) =
     (if key \<noteq> ''memory'' \<and> key \<noteq> ''cpu'' then Some (LimitRefused key)
      else if (case quantityOf v of None \<Rightarrow> None | Some q \<Rightarrow> baseUnits q) = None then Some (NotPositive key)
      else firstRefusedLimit rest)"

definition assertSize :: "Json \<Rightarrow> SizeError option" where
  "assertSize v =
     (case v of
        JObj kvs \<Rightarrow>
          (case filter (\<lambda>k. k \<noteq> ''limits'') (map fst kvs) of
             key # _ \<Rightarrow> Some (KeyRefused key)
           | [] \<Rightarrow> (case map_of kvs ''limits'' of Some (JObj limits) \<Rightarrow> firstRefusedLimit limits | _ \<Rightarrow> Some LimitsNotObject))
      | _ \<Rightarrow> Some SizeNotObject)"

record Size =
  sz_memory :: "Quantity option"
  sz_cpu :: "Quantity option"

text \<open>The Size that an admitted value is.\<close>

definition sizeOf :: "Json \<Rightarrow> Size" where
  "sizeOf v = (let limit = (\<lambda>k. case fieldOf k (field ''limits'' v) of None \<Rightarrow> None | Some q \<Rightarrow> quantityOf q)
     in \<lparr>sz_memory = limit ''memory'', sz_cpu = limit ''cpu''\<rparr>)"

definition over :: "'a option \<Rightarrow> 'a option \<Rightarrow> 'a option" where
  "over a b = (case b of Some _ \<Rightarrow> b | None \<Rightarrow> a)"

definition layerSize :: "Size option \<Rightarrow> Size option \<Rightarrow> Size option" where
  "layerSize base top' =
     (case top' of None \<Rightarrow> base
      | Some t \<Rightarrow> (case base of None \<Rightarrow> top'
         | Some b \<Rightarrow> Some \<lparr>sz_memory = over (sz_memory b) (sz_memory t), sz_cpu = over (sz_cpu b) (sz_cpu t)\<rparr>))"

section \<open>The chain\<close>

definition KIT_MEMORY :: string where "KIT_MEMORY = ''2Gi''"
definition KIT_CPU :: string where "KIT_CPU = ''1''"

record ResolvedSize =
  rs_memory :: int
  rs_memoryFrom :: SizeSource
  rs_cpu :: int
  rs_cpuFrom :: SizeSource

definition stated :: "Size option \<Rightarrow> bool" where
  "stated s \<longleftrightarrow> (case s of None \<Rightarrow> False | Some z \<Rightarrow> sz_memory z \<noteq> None \<or> sz_cpu z \<noteq> None)"

definition resolveSize :: "Size option \<Rightarrow> Size option \<Rightarrow> SizeError + ResolvedSize" where
  "resolveSize machine inst =
     (let chosen = (if stated machine then machine else inst); source = (if stated machine then FromMachine else FromInstance);
          pick = (\<lambda>limit kit. case chosen of Some z \<Rightarrow> (case limit z of Some q \<Rightarrow> (q, source) | None \<Rightarrow> (QText kit, FromKit))
                    | None \<Rightarrow> (QText kit, FromKit));
          memory = pick sz_memory KIT_MEMORY; cpu = pick sz_cpu KIT_CPU
      in case memoryBytes (fst memory) of
           Inl e \<Rightarrow> Inl e
         | Inr bytes \<Rightarrow>
             (case cpuMillis (fst cpu) of
                Inl e \<Rightarrow> Inl e
              | Inr millis \<Rightarrow> Inr \<lparr>rs_memory = bytes, rs_memoryFrom = snd memory, rs_cpu = millis, rs_cpuFrom = snd cpu\<rparr>))"

section \<open>The split\<close>

definition CUSTODIAN_MEMORY :: string where "CUSTODIAN_MEMORY = ''64Mi''"
definition CUSTODIAN_CPU :: string where "CUSTODIAN_CPU = ''50m''"
definition HARNESS_FLOOR :: string where "HARNESS_FLOOR = ''256Mi''"
definition SHM_FLOOR :: string where "SHM_FLOOR = ''64Mi''"
definition WORK_DISK_REQUEST :: string where "WORK_DISK_REQUEST = ''10Gi''"

record ResourceRequirements =
  rr_requests :: "(string \<times> string) list"
  rr_limits :: "(string \<times> string) list"

record SizeSplit =
  sp_pod :: ResourceRequirements
  sp_harness :: ResourceRequirements
  sp_custodian :: ResourceRequirements
  sp_user :: "ResourceRequirements option"
  sp_preflight :: ResourceRequirements
  sp_shm :: string
  sp_harnessBytes :: int

definition PREFLIGHT_RESOURCES :: ResourceRequirements where
  "PREFLIGHT_RESOURCES = \<lparr>rr_requests = [(''cpu'', ''10m''), (''memory'', ''32Mi'')], rr_limits = [(''memory'', ''128Mi'')]\<rparr>"

definition exact :: "int \<Rightarrow> int \<Rightarrow> ResourceRequirements" where
  "exact memory cpu = (let limits = [(''cpu'', formatCpu cpu), (''memory'', formatMemory memory)] in \<lparr>rr_requests = limits, rr_limits = limits\<rparr>)"

fun optional :: "('a \<Rightarrow> 'e + 'b) \<Rightarrow> 'a option \<Rightarrow> 'e + 'b option" where
  "optional f None = Inr None"
| "optional f (Some a) = (case f a of Inl e \<Rightarrow> Inl e | Inr b \<Rightarrow> Inr (Some b))"

definition orZero :: "int option \<Rightarrow> int" where
  "orZero x = (case x of None \<Rightarrow> 0 | Some n \<Rightarrow> n)"

definition userResources :: "int option \<Rightarrow> int option \<Rightarrow> ResourceRequirements option" where
  "userResources memory cpu =
     (if memory = None \<and> cpu = None then None
      else let limits = (case cpu of None \<Rightarrow> [] | Some c \<Rightarrow> [(''cpu'', formatCpu c)]) @ (case memory of None \<Rightarrow> [] | Some m \<Rightarrow> [(''memory'', formatMemory m)])
           in Some \<lparr>rr_requests = limits, rr_limits = limits\<rparr>)"

text \<open>The fixed quantities of the kit are read once; each reads (\<open>kit_reads\<close> below).\<close>

definition bytesOf :: "string \<Rightarrow> int" where
  "bytesOf s = (case memoryBytes (QText s) of Inl _ \<Rightarrow> 0 | Inr n \<Rightarrow> n)"

definition millisOf :: "string \<Rightarrow> int" where
  "millisOf s = (case cpuMillis (QText s) of Inl _ \<Rightarrow> 0 | Inr n \<Rightarrow> n)"

definition splitSize :: "ResolvedSize \<Rightarrow> Size option \<Rightarrow> SizeError + SizeSplit" where
  "splitSize size' user =
     (case optional memoryBytes (case user of None \<Rightarrow> None | Some u \<Rightarrow> sz_memory u) of
        Inl e \<Rightarrow> Inl e
      | Inr userMemory \<Rightarrow>
          (case optional cpuMillis (case user of None \<Rightarrow> None | Some u \<Rightarrow> sz_cpu u) of
             Inl e \<Rightarrow> Inl e
           | Inr userCpu \<Rightarrow>
               let harnessMemory = rs_memory size' - bytesOf CUSTODIAN_MEMORY - orZero userMemory;
                   harnessCpu = rs_cpu size' - millisOf CUSTODIAN_CPU - orZero userCpu;
                   harness = exact harnessMemory harnessCpu
               in if harnessMemory < bytesOf HARNESS_FLOOR then Inl (NoMemory harnessMemory (rs_memory size') (rs_memoryFrom size') userMemory)
                  else if harnessCpu \<le> 0 then Inl (NoCpu (rs_cpu size') (rs_cpuFrom size') userCpu)
                  else Inr \<lparr>sp_pod = exact (rs_memory size') (rs_cpu size'),
                            sp_harness = harness\<lparr>rr_requests := rr_requests harness @ [(''ephemeral-storage'', WORK_DISK_REQUEST)]\<rparr>,
                            sp_custodian = exact (bytesOf CUSTODIAN_MEMORY) (millisOf CUSTODIAN_CPU),
                            sp_user = userResources userMemory userCpu,
                            sp_preflight = PREFLIGHT_RESOURCES,
                            sp_shm = formatMemory (max (bytesOf SHM_FLOOR) (harnessMemory div 4)),
                            sp_harnessBytes = harnessMemory\<rparr>))"

section \<open>The User Container's seat\<close>

fun imageOf :: "Json \<Rightarrow> Json option" where
  "imageOf (JObj kvs) = map_of kvs ''image''"
| "imageOf v = Some v"

definition assertUserSeat :: "Json \<Rightarrow> SizeError option" where
  "assertUserSeat v =
     (case textOf (imageOf v) of
        None \<Rightarrow> Some ImageMissing
      | Some img \<Rightarrow>
          if img = [] then Some ImageMissing
          else case v of
                 JObj kvs \<Rightarrow>
                   (case filter (\<lambda>k. k \<noteq> ''image'' \<and> k \<noteq> ''resources'') (map fst kvs) of
                      key # _ \<Rightarrow> Some (UserKeyRefused key)
                    | [] \<Rightarrow> (case map_of kvs ''resources'' of None \<Rightarrow> None | Some r \<Rightarrow> assertSize r))
               | _ \<Rightarrow> None)"

text \<open>\<^verbatim>\<open>userSeatOf\<close>: the image and the split of an admitted seat.\<close>

definition userSeatOf :: "Json option \<Rightarrow> string option \<times> Size option" where
  "userSeatOf user =
     (case user of
        None \<Rightarrow> (None, None)
      | Some v \<Rightarrow> (textOf (imageOf v), map_option sizeOf (field ''resources'' v)))"

section \<open>Quantities read back\<close>

lemma trim_id: "s \<noteq> [] \<Longrightarrow> \<not> isSpace (hd s) \<Longrightarrow> \<not> isSpace (last s) \<Longrightarrow> trim s = s"
  by (cases s rule: rev_cases) (auto simp: trim_def dropWhile_append neq_Nil_conv hd_append split: if_splits)

lemma scale_suffix:
  assumes "map_of SCALE unt = Some scale"
  shows "unt = [] \<or> (\<not> isDigit (hd unt) \<and> hd unt \<noteq> CHR ''.'' \<and> \<not> isSpace (last unt))"
  using map_of_SomeD [OF assms] by (auto simp: SCALE_def isDigit_def isSpace_def)

lemma scale_positive: "map_of SCALE unt = Some scale \<Longrightarrow> scale > 0"
  by (drule map_of_SomeD) (auto simp: SCALE_def)

lemma takeWhile_digits:
  assumes "\<forall>c \<in> set xs. isDigit c" "ys = [] \<or> \<not> isDigit (hd ys)"
  shows "takeWhile isDigit (xs @ ys) = xs" "dropWhile isDigit (xs @ ys) = ys"
  using assms by (induction xs) (auto simp: takeWhile_eq_Nil_iff neq_Nil_conv intro: dropWhile_eq_self_iff [THEN iffD2])

lemma baseUnits_decimal:
  assumes "map_of SCALE unt = Some scale" "n > 0"
  shows "baseUnits (QText (decimal n @ unt)) = Some (of_nat n * scale)"
proof -
  have suf: "unt = [] \<or> (\<not> isDigit (hd unt) \<and> hd unt \<noteq> CHR ''.'' \<and> \<not> isSpace (last unt))"
    by (rule scale_suffix [OF assms(1)])
  have "trim (decimal n @ unt) = decimal n @ unt"
    using suf decimal_nonempty decimal_digits [of n]
    by (intro trim_id) (auto simp: digit_not_space last_append)
  moreover have "matchQuantity (decimal n @ unt) = Some (of_nat n, unt)"
  proof -
    have tw: "takeWhile isDigit (decimal n @ unt) = decimal n" and dw: "dropWhile isDigit (decimal n @ unt) = unt"
      using suf by (intro takeWhile_digits; auto simp: decimal_digits)+
    show ?thesis unfolding matchQuantity_def Let_def tw dw using suf decimal_nonempty [of n] decimal_value [of n]
      by (cases unt) auto
  qed
  ultimately show ?thesis using assms scale_positive [OF assms(1)] by (simp add: baseUnits_def)
qed

lemma ceiling_slack: "\<lceil>(of_int n :: rat) - 1 / 10 ^ 9\<rceil> = n"
  by (rule ceiling_unique) auto

lemma scale_reads:
  "map_of SCALE [] = Some 1" "map_of SCALE ''m'' = Some (1 / 1000)" "map_of SCALE ''Ki'' = Some (2 ^ 10)"
  "map_of SCALE ''Mi'' = Some (2 ^ 20)" "map_of SCALE ''Gi'' = Some (2 ^ 30)"
  by (simp_all add: SCALE_def)

lemma memoryBytes_decimal:
  assumes "map_of SCALE unt = Some (of_int scale)" "n > 0"
  shows "memoryBytes (QText (decimalInt n @ unt)) = Inr (n * scale)"
  using assms baseUnits_decimal [of unt "of_int scale" "nat n"] ceiling_slack [of "n * scale"]
  by (simp add: memoryBytes_def decimalInt_def)

lemma baseUnits_positive: "baseUnits q = Some v \<Longrightarrow> 0 < v"
  by (auto simp: baseUnits_def split: Quantity.splits if_splits option.splits prod.splits)

lemma ceiling_slack_nonneg: "0 < v \<Longrightarrow> 0 \<le> \<lceil>(v :: rat) - 1 / 10 ^ 9\<rceil>"
  using less_ceiling_iff [of "- 1" "v - 1 / 10 ^ 9"] by (simp add: less_diff_eq)

lemma memoryBytes_nonneg: "memoryBytes q = Inr n \<Longrightarrow> 0 \<le> n"
  using ceiling_slack_nonneg by (fastforce simp: memoryBytes_def dest: baseUnits_positive split: option.splits)

lemma cpuMillis_nonneg: "cpuMillis q = Inr n \<Longrightarrow> 0 \<le> n"
  using ceiling_slack_nonneg [of "v * 1000" for v] by (fastforce simp: cpuMillis_def dest: baseUnits_positive split: option.splits)

lemma formatMemory_reads: "n > 0 \<Longrightarrow> memoryBytes (QText (formatMemory n)) = Inr n"
  using memoryBytes_decimal [of "''Gi''" "2 ^ 30" "n div 2 ^ 30"] memoryBytes_decimal [of "''Mi''" "2 ^ 20" "n div 2 ^ 20"]
    memoryBytes_decimal [of "''Ki''" "2 ^ 10" "n div 2 ^ 10"] memoryBytes_decimal [of "[]" 1 n]
  by (auto simp: formatMemory_def scale_reads mod_eq_0_iff_dvd dvd_div_mult_self pos_imp_zdiv_pos_iff zdvd_imp_le)

lemma formatCpu_reads: "n > 0 \<Longrightarrow> cpuMillis (QText (formatCpu n)) = Inr n"
  using baseUnits_decimal [of "[]" 1 "nat (n div 1000)"] baseUnits_decimal [of "''m''" "1 / 1000" "nat n"] ceiling_slack [of n]
  by (auto simp: formatCpu_def cpuMillis_def scale_reads decimalInt_def mod_eq_0_iff_dvd pos_imp_zdiv_pos_iff zdvd_imp_le
      mult.commute elim!: dvdE)

lemma char_digits:
  "char_of (48 :: nat) = CHR ''0''" "char_of (49 :: nat) = CHR ''1''" "char_of (50 :: nat) = CHR ''2''" "char_of (51 :: nat) = CHR ''3''"
  "char_of (52 :: nat) = CHR ''4''" "char_of (53 :: nat) = CHR ''5''" "char_of (54 :: nat) = CHR ''6''" "char_of (55 :: nat) = CHR ''7''"
  "char_of (56 :: nat) = CHR ''8''" "char_of (57 :: nat) = CHR ''9''"
  by (simp_all add: char_of_def bit_iff_odd)

lemmas decimal_eval = decimalInt_def decimal.simps char_digits

text \<open>
  A quantity the Size code writes is a quantity it reads: for a positive number of bytes or millicores, reading the text that
  \<^verbatim>\<open>formatMemory\<close> or \<^verbatim>\<open>formatCpu\<close> writes gives that number back, whichever unit was chosen.
\<close>

theorem quantities_read_back:
  assumes "0 < n"
  shows "memoryBytes (QText (formatMemory n)) = Inr n \<and> cpuMillis (QText (formatCpu n)) = Inr n"
  using formatMemory_reads [OF assms] formatCpu_reads [OF assms] by blast

theorem quantities_read_back_witness:
  "0 < (1610612736 :: int) \<and> formatMemory 1610612736 = ''1536Mi'' \<and> memoryBytes (QText ''1536Mi'') = Inr 1610612736
   \<and> formatCpu 1610612736 = ''1610612736m'' \<and> cpuMillis (QText ''1610612736m'') = Inr 1610612736"
proof -
  have "formatMemory 1610612736 = ''1536Mi''" by (simp add: formatMemory_def decimal_eval)
  moreover have "formatCpu 1610612736 = ''1610612736m''" by (simp add: formatCpu_def decimal_eval)
  ultimately show ?thesis using quantities_read_back [of 1610612736] by simp
qed

section \<open>The split adds up\<close>

lemma kit_memory:
  "memoryBytes (QText ''64Mi'') = Inr (64 * 2 ^ 20)" "memoryBytes (QText ''256Mi'') = Inr (256 * 2 ^ 20)" "memoryBytes (QText ''2Gi'') = Inr (2 * 2 ^ 30)"
  using memoryBytes_decimal [of "''Mi''" "2 ^ 20" 64] memoryBytes_decimal [of "''Mi''" "2 ^ 20" 256] memoryBytes_decimal [of "''Gi''" "2 ^ 30" 2]
  by (simp_all add: scale_reads decimal_eval)

lemma kit_cpu: "cpuMillis (QText ''50m'') = Inr 50" "cpuMillis (QText ''1'') = Inr 1000"
  using formatCpu_reads [of 50] formatCpu_reads [of 1000] by (simp_all add: formatCpu_def decimal_eval)

lemmas kit_reads = kit_memory kit_cpu

lemma kit_numbers:
  "bytesOf CUSTODIAN_MEMORY = 64 * 2 ^ 20" "bytesOf HARNESS_FLOOR = 256 * 2 ^ 20" "bytesOf SHM_FLOOR = 64 * 2 ^ 20" "millisOf CUSTODIAN_CPU = 50"
  by (simp_all add: bytesOf_def millisOf_def CUSTODIAN_MEMORY_def HARNESS_FLOOR_def SHM_FLOOR_def CUSTODIAN_CPU_def kit_reads)

text \<open>What Kubernetes reads of a limit or request of one container: the same quantity grammar.\<close>

definition memoryIn :: "(string \<times> string) list \<Rightarrow> int option" where
  "memoryIn kvs = (case map_of kvs ''memory'' of None \<Rightarrow> None | Some q \<Rightarrow> (case memoryBytes (QText q) of Inl _ \<Rightarrow> None | Inr n \<Rightarrow> Some n))"

definition cpuIn :: "(string \<times> string) list \<Rightarrow> int option" where
  "cpuIn kvs = (case map_of kvs ''cpu'' of None \<Rightarrow> None | Some q \<Rightarrow> (case cpuMillis (QText q) of Inl _ \<Rightarrow> None | Inr n \<Rightarrow> Some n))"

lemma exact_reads:
  assumes "0 < m" "0 < c"
  shows "memoryIn (rr_limits (exact m c)) = Some m" "cpuIn (rr_limits (exact m c)) = Some c" "rr_requests (exact m c) = rr_limits (exact m c)"
  using assms by (simp_all add: exact_def memoryIn_def cpuIn_def formatMemory_reads formatCpu_reads Let_def)

lemma userResources_reads:
  assumes "userResources m c = Some rr" "\<forall>n \<in> set_option m. 0 < n" "\<forall>n \<in> set_option c. 0 < n"
  shows "memoryIn (rr_limits rr) = m" "cpuIn (rr_limits rr) = c" "rr_requests rr = rr_limits rr"
  using assms by (auto simp: userResources_def memoryIn_def cpuIn_def formatMemory_reads formatCpu_reads Let_def split: if_splits option.splits)

lemma userResources_carries:
  assumes "0 \<le> orZero um" "0 \<le> orZero uc"
  shows "case userResources um uc of None \<Rightarrow> um = None \<and> uc = None
    | Some rr \<Rightarrow> (um \<noteq> None \<or> uc \<noteq> None) \<and> rr_requests rr = rr_limits rr
        \<and> (um \<noteq> Some 0 \<and> uc \<noteq> Some 0 \<longrightarrow> memoryIn (rr_limits rr) = um \<and> cpuIn (rr_limits rr) = uc)"
proof (cases "userResources um uc")
  case (Some rr)
  then have "(um \<noteq> None \<or> uc \<noteq> None) \<and> rr_requests rr = rr_limits rr"
    by (auto simp: userResources_def Let_def split: if_splits)
  moreover have "(\<forall>n \<in> set_option um. 0 < n) \<and> (\<forall>n \<in> set_option uc. 0 < n)" if "um \<noteq> Some 0 \<and> uc \<noteq> Some 0"
    using that assms by (auto simp: orZero_def)
  ultimately show ?thesis using Some userResources_reads [OF Some] by auto
qed (auto simp: userResources_def Let_def split: if_splits)

lemma optional_nonneg:
  assumes "optional f q = Inr x" "\<And>a n. f a = Inr n \<Longrightarrow> 0 \<le> n"
  shows "0 \<le> orZero x"
  using assms by (cases q) (auto simp: orZero_def split: sum.splits)

lemma splitSize_parts:
  assumes "splitSize size' user = Inr sp"
  obtains um uc where "optional memoryBytes (Option.bind user sz_memory) = Inr um" "optional cpuMillis (Option.bind user sz_cpu) = Inr uc"
    "sp_harnessBytes sp = rs_memory size' - 64 * 2 ^ 20 - orZero um" "256 * 2 ^ 20 \<le> sp_harnessBytes sp"
    "0 < rs_cpu size' - 50 - orZero uc"
    "sp_pod sp = exact (rs_memory size') (rs_cpu size')"
    "sp_harness sp = (exact (sp_harnessBytes sp) (rs_cpu size' - 50 - orZero uc))
       \<lparr>rr_requests := rr_requests (exact (sp_harnessBytes sp) (rs_cpu size' - 50 - orZero uc)) @ [(''ephemeral-storage'', WORK_DISK_REQUEST)]\<rparr>"
    "sp_custodian sp = exact (64 * 2 ^ 20) 50" "sp_user sp = userResources um uc"
    "sp_shm sp = formatMemory (max (64 * 2 ^ 20) (sp_harnessBytes sp div 4))"
proof -
  have seat: "(case user of None \<Rightarrow> None | Some u \<Rightarrow> g u) = Option.bind user g" for g :: "Size \<Rightarrow> Quantity option"
    by (cases user) auto
  show ?thesis
    using assms that unfolding splitSize_def kit_numbers seat Let_def by (auto split: sum.splits if_splits)
qed

text \<open>C37. A split that is composed adds up to the Size, as Kubernetes reads it. The pod's limits are the whole Size; the Harness's memory
  and cpu, the Custodian's fixed slice and the User Container's part are exactly the Size; the Harness has at least its 256Mi and some
  cpu; requests are the limits, but for the Harness's disk; a User Container whose part is not zero carries it, and one that states no
  part carries none; and \<^verbatim>\<open>/dev/shm\<close> is at most a quarter of the Harness's memory, or 64Mi.
\<close>

theorem split_adds_up:
  assumes "splitSize size' user = Inr sp"
  shows "\<exists>um uc h s. optional memoryBytes (Option.bind user sz_memory) = Inr um \<and> optional cpuMillis (Option.bind user sz_cpu) = Inr uc
    \<and> memoryIn (rr_limits (sp_pod sp)) = Some (rs_memory size') \<and> cpuIn (rr_limits (sp_pod sp)) = Some (rs_cpu size')
    \<and> memoryIn (rr_limits (sp_harness sp)) = Some (sp_harnessBytes sp) \<and> cpuIn (rr_limits (sp_harness sp)) = Some h
    \<and> memoryIn (rr_limits (sp_custodian sp)) = Some (64 * 2 ^ 20) \<and> cpuIn (rr_limits (sp_custodian sp)) = Some 50
    \<and> sp_harnessBytes sp + 64 * 2 ^ 20 + orZero um = rs_memory size' \<and> h + 50 + orZero uc = rs_cpu size'
    \<and> 256 * 2 ^ 20 \<le> sp_harnessBytes sp \<and> 0 < h
    \<and> rr_requests (sp_pod sp) = rr_limits (sp_pod sp) \<and> rr_requests (sp_custodian sp) = rr_limits (sp_custodian sp)
    \<and> rr_requests (sp_harness sp) = rr_limits (sp_harness sp) @ [(''ephemeral-storage'', WORK_DISK_REQUEST)]
    \<and> (case sp_user sp of
         None \<Rightarrow> um = None \<and> uc = None
       | Some rr \<Rightarrow> (um \<noteq> None \<or> uc \<noteq> None) \<and> rr_requests rr = rr_limits rr
           \<and> (um \<noteq> Some 0 \<and> uc \<noteq> Some 0 \<longrightarrow> memoryIn (rr_limits rr) = um \<and> cpuIn (rr_limits rr) = uc))
    \<and> memoryBytes (QText (sp_shm sp)) = Inr s \<and> (s = 64 * 2 ^ 20 \<or> 4 * s \<le> sp_harnessBytes sp)"
proof -
  from assms obtain um uc where parts:
    "optional memoryBytes (Option.bind user sz_memory) = Inr um" "optional cpuMillis (Option.bind user sz_cpu) = Inr uc"
    "sp_harnessBytes sp = rs_memory size' - 64 * 2 ^ 20 - orZero um" "256 * 2 ^ 20 \<le> sp_harnessBytes sp"
    "0 < rs_cpu size' - 50 - orZero uc" and eqs:
    "sp_pod sp = exact (rs_memory size') (rs_cpu size')"
    "sp_harness sp = (exact (sp_harnessBytes sp) (rs_cpu size' - 50 - orZero uc))
       \<lparr>rr_requests := rr_requests (exact (sp_harnessBytes sp) (rs_cpu size' - 50 - orZero uc)) @ [(''ephemeral-storage'', WORK_DISK_REQUEST)]\<rparr>"
    "sp_custodian sp = exact (64 * 2 ^ 20) 50" "sp_user sp = userResources um uc"
    "sp_shm sp = formatMemory (max (64 * 2 ^ 20) (sp_harnessBytes sp div 4))"
    by (rule splitSize_parts)
  have nonneg: "0 \<le> orZero um" "0 \<le> orZero uc"
    using optional_nonneg [OF parts(1) memoryBytes_nonneg] optional_nonneg [OF parts(2) cpuMillis_nonneg] by auto
  have pos: "0 < rs_memory size'" "0 < rs_cpu size'" "0 < sp_harnessBytes sp" using parts(3-5) nonneg by auto
  let ?s = "max (64 * 2 ^ 20) (sp_harnessBytes sp div 4)"
  have shm: "memoryBytes (QText (sp_shm sp)) = Inr ?s" using formatMemory_reads [of ?s] eqs(5) by simp
  have s: "?s = 64 * 2 ^ 20 \<or> 4 * ?s \<le> sp_harnessBytes sp" by (simp add: max_def) presburger
  have eq: "sp_harnessBytes sp + 64 * 2 ^ 20 + orZero um = rs_memory size'" using parts(3) by simp
  show ?thesis
    using parts(1,2,4,5) pos eq userResources_carries [OF nonneg] eqs(4) shm s eqs(1-3) exact_reads [OF pos(1,2)] exact_reads [OF pos(3) parts(5)] exact_reads [of "64 * 2 ^ 20" 50]
    by (intro exI [of _ um] exI [of _ uc] exI [of _ "rs_cpu size' - 50 - orZero uc"] exI [of _ ?s]) simp
qed

definition exampleSplit :: "SizeError + SizeSplit" where
  "exampleSplit = splitSize \<lparr>rs_memory = 2 ^ 31, rs_memoryFrom = FromKit, rs_cpu = 1000, rs_cpuFrom = FromKit\<rparr>
     (Some \<lparr>sz_memory = Some (QText ''256Mi''), sz_cpu = None\<rparr>)"

lemma exampleSplit_eval:
  "\<exists>sp. exampleSplit = Inr sp \<and> sp_harnessBytes sp = 1811939328 \<and> sp_user sp = Some \<lparr>rr_requests = [(''memory'', ''256Mi'')], rr_limits = [(''memory'', ''256Mi'')]\<rparr>"
  unfolding exampleSplit_def splitSize_def kit_numbers
  by (simp add: kit_reads orZero_def Let_def userResources_def formatMemory_def decimal_eval)

theorem split_adds_up_witness:
  "\<exists>sp h. exampleSplit = Inr sp \<and> sp_harnessBytes sp = 1811939328 \<and> memoryIn (rr_limits (sp_harness sp)) = Some 1811939328
     \<and> cpuIn (rr_limits (sp_harness sp)) = Some h \<and> h + 50 = 1000 \<and> memoryIn (rr_limits (sp_pod sp)) = Some (2 ^ 31)"
proof -
  obtain sp where sp: "exampleSplit = Inr sp" "sp_harnessBytes sp = 1811939328" using exampleSplit_eval by blast
  show ?thesis using split_adds_up [OF sp(1) [unfolded exampleSplit_def]] sp by (auto simp: orZero_def)
qed

section \<open>What is admitted is resolved\<close>

text \<open>A Size whose stated quantities are positive quantities: what the refusal admits.\<close>

definition readableSize :: "Size \<Rightarrow> bool" where
  "readableSize z \<longleftrightarrow> (\<forall>q \<in> set_option (sz_memory z). baseUnits q \<noteq> None) \<and> (\<forall>q \<in> set_option (sz_cpu z). baseUnits q \<noteq> None)"

lemma firstRefusedLimit_none:
  "firstRefusedLimit limits = None \<Longrightarrow> map_of limits k = Some v \<Longrightarrow> quantityOf v = Some q \<Longrightarrow> baseUnits q \<noteq> None"
  by (induction limits rule: firstRefusedLimit.induct) (auto split: if_splits option.splits)

lemma assertSize_limits: "assertSize v = None \<Longrightarrow> \<exists>kvs limits. v = JObj kvs \<and> map_of kvs ''limits'' = Some (JObj limits) \<and> firstRefusedLimit limits = None"
  by (auto simp: assertSize_def split: Json.splits list.splits option.splits)

lemma assertSize_readable: "assertSize v = None \<Longrightarrow> readableSize (sizeOf v)"
  by (drule assertSize_limits) (auto simp: readableSize_def sizeOf_def Let_def split: option.splits dest: firstRefusedLimit_none)

lemma layerSize_readable:
  "\<forall>z \<in> set_option a. readableSize z \<Longrightarrow> \<forall>z \<in> set_option b. readableSize z \<Longrightarrow> \<forall>z \<in> set_option (layerSize a b). readableSize z"
  by (auto simp: layerSize_def readableSize_def over_def split: option.splits)

lemma admitted_readable:
  "\<forall>v \<in> set_option j. assertSize v = None \<Longrightarrow> \<forall>z \<in> set_option (map_option sizeOf j). readableSize z"
  by (auto simp: assertSize_readable)

lemma readable_memory: "baseUnits q \<noteq> None \<Longrightarrow> \<exists>n. memoryBytes q = Inr n"
  by (auto simp: memoryBytes_def)

lemma readable_cpu: "baseUnits q \<noteq> None \<Longrightarrow> \<exists>n. cpuMillis q = Inr n"
  by (auto simp: cpuMillis_def)

lemma optional_reads: "\<forall>a \<in> set_option x. \<exists>n. f a = Inr n \<Longrightarrow> \<exists>y. optional f x = Inr y"
  by (cases x) auto

lemma kit_readable: "baseUnits (QText KIT_MEMORY) \<noteq> None" "baseUnits (QText KIT_CPU) \<noteq> None"
  using kit_memory(3) kit_cpu(2) by (auto simp: KIT_MEMORY_def KIT_CPU_def memoryBytes_def cpuMillis_def split: option.splits)

lemma resolveSize_reads:
  assumes "\<forall>z \<in> set_option machine. readableSize z" "\<forall>z \<in> set_option inst. readableSize z"
  shows "\<exists>r. resolveSize machine inst = Inr r"
proof -
  define chosen where "chosen = (if stated machine then machine else inst)"
  define source where "source = (if stated machine then FromMachine else FromInstance)"
  define pick where "pick = (\<lambda>(limit :: Size \<Rightarrow> Quantity option) kit. case chosen of
     Some z \<Rightarrow> (case limit z of Some q \<Rightarrow> (q, source) | None \<Rightarrow> (QText kit, FromKit)) | None \<Rightarrow> (QText kit, FromKit))"
  have "\<forall>z \<in> set_option chosen. readableSize z" using assms by (simp add: chosen_def)
  then have "baseUnits (fst (pick sz_memory KIT_MEMORY)) \<noteq> None" "baseUnits (fst (pick sz_cpu KIT_CPU)) \<noteq> None"
    using kit_readable by (auto simp: pick_def readableSize_def split: option.splits)
  then obtain m c where "memoryBytes (fst (pick sz_memory KIT_MEMORY)) = Inr m" "cpuMillis (fst (pick sz_cpu KIT_CPU)) = Inr c"
    using readable_memory readable_cpu by blast
  then show ?thesis unfolding resolveSize_def Let_def pick_def chosen_def source_def by simp
qed

lemma splitSize_refusals:
  assumes "\<forall>z \<in> set_option user. readableSize z" "splitSize r user = Inl e"
  shows "(\<exists>h um. e = NoMemory h (rs_memory r) (rs_memoryFrom r) um \<and> h < 256 * 2 ^ 20) \<or> (\<exists>uc. e = NoCpu (rs_cpu r) (rs_cpuFrom r) uc)"
proof -
  obtain um uc where "optional memoryBytes (Option.bind user sz_memory) = Inr um" "optional cpuMillis (Option.bind user sz_cpu) = Inr uc"
    using optional_reads [of "Option.bind user sz_memory" memoryBytes] optional_reads [of "Option.bind user sz_cpu" cpuMillis] assms(1)
    by (cases user) (auto simp: readableSize_def readable_memory readable_cpu)
  then show ?thesis using assms(2) unfolding splitSize_def kit_numbers
    by (cases user) (auto simp: Let_def split: if_splits)
qed

text \<open>A Size that is admitted where it is read never fails later to be one. For a \<^verbatim>\<open>workspace()\<close>'s Size, a
  \<^verbatim>\<open>customize()\<close> of it, the Instance's default and the User Container's part, each absent or admitted by
  \<^verbatim>\<open>assertSize\<close>, the chain resolves, and the split of what it resolves to composes or is refused for one of its two
  stated reasons, naming the resolved number and its source. The Instance's default has no say once the Machine states a limit, so a
  Machine's Size is the same on every Instance.
\<close>

theorem admitted_sizes_resolve:
  assumes "\<forall>v \<in> set_option workspace. assertSize v = None" "\<forall>v \<in> set_option customized. assertSize v = None"
    "\<forall>v \<in> set_option inst. assertSize v = None" "\<forall>v \<in> set_option user. assertSize v = None"
  defines "machine \<equiv> layerSize (map_option sizeOf workspace) (map_option sizeOf customized)"
  shows "\<exists>r. resolveSize machine (map_option sizeOf inst) = Inr r
    \<and> (case splitSize r (map_option sizeOf user) of
         Inr sp \<Rightarrow> True
       | Inl e \<Rightarrow> (\<exists>h um. e = NoMemory h (rs_memory r) (rs_memoryFrom r) um \<and> h < 256 * 2 ^ 20) \<or> (\<exists>uc. e = NoCpu (rs_cpu r) (rs_cpuFrom r) uc))
    \<and> (stated machine \<longrightarrow> rs_memoryFrom r \<noteq> FromInstance \<and> rs_cpuFrom r \<noteq> FromInstance \<and> (\<forall>other. resolveSize machine other = Inr r))"
proof -
  have "\<forall>z \<in> set_option machine. readableSize z"
    unfolding machine_def by (rule layerSize_readable [OF admitted_readable [OF assms(1)] admitted_readable [OF assms(2)]])
  then obtain r where r: "resolveSize machine (map_option sizeOf inst) = Inr r"
    using resolveSize_reads [OF _ admitted_readable [OF assms(3)]] by blast
  have "stated machine \<longrightarrow> rs_memoryFrom r \<noteq> FromInstance \<and> rs_cpuFrom r \<noteq> FromInstance \<and> (\<forall>other. resolveSize machine other = Inr r)"
    using r by (auto simp: resolveSize_def Let_def split: option.splits sum.splits)
  then show ?thesis using r splitSize_refusals [OF admitted_readable [OF assms(4)]] by (auto split: sum.splits)
qed

theorem admitted_sizes_resolve_witness:
  "assertSize (JObj [(''limits'', JObj [(''memory'', JStr ''64Mi'')])]) = None
   \<and> sizeOf (JObj [(''limits'', JObj [(''memory'', JStr ''64Mi'')])]) = \<lparr>sz_memory = Some (QText ''64Mi''), sz_cpu = None\<rparr>
   \<and> (\<exists>r. resolveSize (Some \<lparr>sz_memory = Some (QText ''64Mi''), sz_cpu = None\<rparr>) None = Inr r \<and> rs_memoryFrom r \<noteq> FromInstance)"
proof -
  define v where "v = JObj [(''limits'', JObj [(''memory'', JStr ''64Mi'')])]"
  have ok: "assertSize v = None"
    using kit_memory(1) by (auto simp: v_def assertSize_def memoryBytes_def split: option.splits)
  have size: "sizeOf v = \<lparr>sz_memory = Some (QText ''64Mi''), sz_cpu = None\<rparr>" by (simp add: v_def sizeOf_def)
  then have stated: "stated (Some (sizeOf v))" by (simp add: stated_def)
  have layer: "layerSize (map_option sizeOf (Some v)) None = Some (sizeOf v)" by (simp add: layerSize_def)
  have some: "\<forall>u \<in> set_option (Some v). assertSize u = None" using ok by simp
  have none: "\<forall>u \<in> set_option None. assertSize u = None" by simp
  have "\<exists>r. resolveSize (Some (sizeOf v)) None = Inr r \<and> rs_memoryFrom r \<noteq> FromInstance"
    using admitted_sizes_resolve [OF some none none none, unfolded option.map(1) layer] stated by blast
  then show ?thesis using ok size unfolding v_def by simp
qed

lemma assertUserSeat_admits:
  assumes "assertUserSeat v = None"
  shows "\<exists>image. fst (userSeatOf (Some v)) = Some image \<and> image \<noteq> []" "\<forall>z \<in> set_option (snd (userSeatOf (Some v))). readableSize z"
proof -
  show "\<exists>image. fst (userSeatOf (Some v)) = Some image \<and> image \<noteq> []"
    using assms by (auto simp: assertUserSeat_def userSeatOf_def split: option.splits if_splits)
  show "\<forall>z \<in> set_option (snd (userSeatOf (Some v))). readableSize z"
    using assms by (cases v) (auto simp: assertUserSeat_def userSeatOf_def assertSize_readable split: option.splits if_splits list.splits)
qed

text \<open>
  A quantity below the ceiling's slack is admitted as positive and resolves to zero: a User Container's part of a tenth of a
  nanobyte is carried as a zero limit, which the refusal of zero was meant to keep out.
\<close>

lemma tiny_quantity_is_zero:
  "assertSize (JObj [(''limits'', JObj [(''memory'', JNum (1 / 10 ^ 10))])]) = None" "memoryBytes (QNum (1 / 10 ^ 10)) = Inr 0"
  "userResources (Some 0) None = Some \<lparr>rr_requests = [(''memory'', ''0Gi'')], rr_limits = [(''memory'', ''0Gi'')]\<rparr>"
  by (simp_all add: assertSize_def baseUnits_def memoryBytes_def ceiling_unique userResources_def formatMemory_def decimal_eval Let_def)

end
