(* ===== verification/Transcript.thy ===== *)
theory Transcript
  imports Json_Text Complex_Main
begin

text \<open>
  The engine part of a conversation, \<^verbatim>\<open>packages/harness/src/transcript.ts\<close>: the append-only log of what the model read, the branch a
  cut works on, the context the model reads, and the reopening of the file after a restart.

  A message has what the code reads of it. An argument of a tool call is a string, or another value with the text that
  \<^verbatim>\<open>JSON.stringify\<close> writes for it. The file is its whole lines and whether bytes follow the last newline; a line is what
  \<^verbatim>\<open>JSON.parse\<close> makes of it, told apart by what the code tests. A write that fails ends the process (the record's fault), so an
  append that returns has written its line.
\<close>

section \<open>Messages\<close>

datatype ArgValue = AStr jsstr | AOther jsstr

datatype Block =
    TextBlock jsstr
  | ImageBlock
  | ThinkingBlock jsstr
  | ToolCall jsstr jsstr "(jsstr \<times> ArgValue) list"

datatype Content = CText jsstr | CBlocks "Block list"

datatype StopReason = StopStop | StopLength | StopToolUse | StopError | StopAborted

record Cost =
  co_input :: rat
  co_output :: rat
  co_cacheRead :: rat
  co_cacheWrite :: rat
  co_total :: rat

record Usage =
  us_input :: nat
  us_output :: nat
  us_cacheRead :: nat
  us_cacheWrite :: nat
  us_cacheWrite1h :: "nat option"
  us_reasoning :: "nat option"
  us_totalTokens :: nat
  us_cost :: Cost

text \<open>A user message, an assistant message with its usage and stop reason, and the result of the call it names.\<close>

datatype Message =
    UserMsg Content int
  | AssistantMsg "Block list" "Usage option" StopReason int
  | ToolResultMsg jsstr "Block list" int

record CompactionDetails =
  readFiles :: "jsstr list"
  modifiedFiles :: "jsstr list"

record Compaction =
  cp_summary :: jsstr
  cp_firstKept :: nat
  cp_tokensBefore :: nat
  cp_details :: CompactionDetails
  cp_usage :: Usage
  cp_timestamp :: int

datatype TranscriptEntry = MessageEntry Message | SubmissionEntry | CompactionEntry Compaction

datatype EngineMessage = Msg Message | CompactionSummary jsstr nat int

section \<open>The branch and the context\<close>

text \<open>The loop of \<^verbatim>\<open>branchStart\<close>: down from \<open>i\<close>, to the stop or to 0.\<close>

fun walkBack :: "TranscriptEntry list \<Rightarrow> nat \<Rightarrow> nat option \<Rightarrow> nat" where
  "walkBack es 0 stop = 0"
| "walkBack es (Suc i) stop =
     (if stop = Some (Suc i) then Suc i
      else walkBack es i (case es ! Suc i of CompactionEntry c \<Rightarrow> Some (cp_firstKept c) | _ \<Rightarrow> stop))"

definition branchStart :: "TranscriptEntry list \<Rightarrow> nat" where
  "branchStart es = walkBack es (length es - 1) None"

definition summaryMessage :: "Compaction \<Rightarrow> EngineMessage" where
  "summaryMessage c = CompactionSummary (cp_summary c) (cp_tokensBefore c) (cp_timestamp c)"

fun messagesOf :: "TranscriptEntry \<Rightarrow> EngineMessage list" where
  "messagesOf (MessageEntry m) = [Msg m]"
| "messagesOf (CompactionEntry c) = [summaryMessage c]"
| "messagesOf SubmissionEntry = []"

text \<open>The search from the end for a Compaction: its index and itself.\<close>

fun newestCompaction :: "TranscriptEntry list \<Rightarrow> nat \<Rightarrow> (nat \<times> Compaction) option" where
  "newestCompaction es 0 = None"
| "newestCompaction es (Suc i) = (case es ! i of CompactionEntry c \<Rightarrow> Some (i, c) | _ \<Rightarrow> newestCompaction es i)"

abbreviation newest :: "TranscriptEntry list \<Rightarrow> (nat \<times> Compaction) option" where
  "newest es \<equiv> newestCompaction es (length es)"

text \<open>\<^verbatim>\<open>entries.slice(from, to)\<close> of indexes that are not negative.\<close>

definition slice :: "nat \<Rightarrow> nat \<Rightarrow> 'a list \<Rightarrow> 'a list" where
  "slice i j xs = drop i (take j xs)"

definition contextOf :: "TranscriptEntry list \<Rightarrow> nat \<Rightarrow> EngineMessage list" where
  "contextOf es start =
     (case newest es of
        None \<Rightarrow> concat (map messagesOf es)
      | Some (n, cutEntry) \<Rightarrow>
          let kept = (if start \<le> cp_firstKept cutEntry then cp_firstKept cutEntry - start else n)
          in summaryMessage cutEntry # concat (map messagesOf (slice kept n es)) @ concat (map messagesOf (drop (Suc n) es)))"

section \<open>The engine part\<close>

text \<open>A line of the file as \<^verbatim>\<open>JSON.parse\<close> reads it: not at all, or as a value of one of the shapes that \<^verbatim>\<open>readTranscript\<close> tests.\<close>

datatype Line =
    Unparsed
  | HeaderLine int ident
  | MessageLine Message
  | RolelessLine
  | SubmissionLine
  | CompactionLine Compaction
  | KeptNoIndexLine
  | OtherLine

record TranscriptFile =
  tf_lines :: "Line list"
  tf_torn :: bool

record EnginePart =
  ep_id :: ident
  ep_entries :: "TranscriptEntry list"
  ep_file :: "TranscriptFile option"

fun entryLine :: "TranscriptEntry \<Rightarrow> Line" where
  "entryLine (MessageEntry m) = MessageLine m"
| "entryLine SubmissionEntry = SubmissionLine"
| "entryLine (CompactionEntry c) = CompactionLine c"

text \<open>The file first, then the array.\<close>

definition append_entry :: "TranscriptEntry \<Rightarrow> EnginePart \<Rightarrow> EnginePart" where
  "append_entry e part =
     part\<lparr>ep_file := (case ep_file part of None \<Rightarrow> None | Some f \<Rightarrow> Some (f\<lparr>tf_lines := tf_lines f @ [entryLine e]\<rparr>)),
          ep_entries := ep_entries part @ [e]\<rparr>"

definition appendMessage :: "Message \<Rightarrow> EnginePart \<Rightarrow> EnginePart" where
  "appendMessage m = append_entry (MessageEntry m)"

definition appendSubmission :: "EnginePart \<Rightarrow> EnginePart" where
  "appendSubmission = append_entry SubmissionEntry"

definition appendCompaction :: "Compaction \<Rightarrow> EnginePart \<Rightarrow> EnginePart" where
  "appendCompaction c = append_entry (CompactionEntry c)"

definition branch :: "EnginePart \<Rightarrow> nat \<times> TranscriptEntry list" where
  "branch part = (let start = branchStart (ep_entries part) in (start, drop start (ep_entries part)))"

definition context_of_part :: "EnginePart \<Rightarrow> EngineMessage list" where
  "context_of_part part = (case branch part of (start, es) \<Rightarrow> contextOf es start)"

section \<open>Reopening\<close>

definition TRANSCRIPT_VERSION :: int where "TRANSCRIPT_VERSION = 1"

datatype Why =
    NoTranscript
  | EmptyTranscript
  | NotParsed nat
  | NotHeader
  | OtherVersion int
  | NoRole nat
  | KeptNotBefore nat
  | UnknownType nat

text \<open>The scan of the lines for one that does not parse; the first line is 1.\<close>

fun firstUnparsed :: "nat \<Rightarrow> Line list \<Rightarrow> nat option" where
  "firstUnparsed n [] = None"
| "firstUnparsed n (l # ls) = (if l = Unparsed then Some n else firstUnparsed (Suc n) ls)"

text \<open>The entries of the lines after the header, of which the next is the \<open>i\<close>-th.\<close>

fun readEntries :: "nat \<Rightarrow> Line list \<Rightarrow> Why + TranscriptEntry list" where
  "readEntries i [] = Inr []"
| "readEntries i (l # ls) =
     (let rest = (\<lambda>e. case readEntries (Suc i) ls of Inl w \<Rightarrow> Inl w | Inr es \<Rightarrow> Inr (e # es))
      in case l of
           MessageLine m \<Rightarrow> rest (MessageEntry m)
         | RolelessLine \<Rightarrow> Inl (NoRole (i + 2))
         | CompactionLine c \<Rightarrow> if cp_firstKept c \<ge> i then Inl (KeptNotBefore (i + 2)) else rest (CompactionEntry c)
         | KeptNoIndexLine \<Rightarrow> Inl (KeptNotBefore (i + 2))
         | SubmissionLine \<Rightarrow> rest SubmissionEntry
         | _ \<Rightarrow> Inl (UnknownType (i + 2)))"

definition readTranscript :: "TranscriptFile option \<Rightarrow> Why + ident \<times> TranscriptEntry list" where
  "readTranscript f =
     (case f of
        None \<Rightarrow> Inl NoTranscript
      | Some file' \<Rightarrow>
          (case tf_lines file' of
             [] \<Rightarrow> Inl EmptyTranscript
           | header # lines \<Rightarrow>
               (case firstUnparsed 1 (header # lines) of
                  Some n \<Rightarrow> Inl (NotParsed n)
                | None \<Rightarrow>
                    (case header of
                       HeaderLine version hid \<Rightarrow>
                         if version \<noteq> TRANSCRIPT_VERSION then Inl (OtherVersion version)
                         else (case readEntries 0 lines of Inl w \<Rightarrow> Inl w | Inr es \<Rightarrow> Inr (hid, es))
                     | _ \<Rightarrow> Inl NotHeader))))"

datatype HistoryMessage = HistoryUser jsstr | HistoryAssistant jsstr

definition noUsage :: Usage where
  "noUsage = \<lparr>us_input = 0, us_output = 0, us_cacheRead = 0, us_cacheWrite = 0, us_cacheWrite1h = None, us_reasoning = None, us_totalTokens = 0,
     us_cost = \<lparr>co_input = 0, co_output = 0, co_cacheRead = 0, co_cacheWrite = 0, co_total = 0\<rparr>\<rparr>"

fun providerMessage :: "int \<Rightarrow> HistoryMessage \<Rightarrow> Message" where
  "providerMessage now (HistoryUser t) = UserMsg (CText t) now"
| "providerMessage now (HistoryAssistant t) = AssistantMsg [TextBlock t] (Some noUsage) StopStop now"

definition seeded :: "int \<Rightarrow> HistoryMessage list \<Rightarrow> TranscriptEntry list" where
  "seeded now history = map (\<lambda>m. MessageEntry (providerMessage now m)) history"

text \<open>\<^verbatim>\<open>openEnginePart\<close>: the directory, when the Harness persists, and what is at its path; a fresh id; the record's history. The torn tail
  is cut where the file is read; a file that does not open is replaced whole.\<close>

definition openEnginePart :: "bool \<Rightarrow> TranscriptFile option \<Rightarrow> ident \<Rightarrow> int \<Rightarrow> HistoryMessage list \<Rightarrow> EnginePart" where
  "openEnginePart persists at' fresh now history =
     (if \<not> persists then \<lparr>ep_id = fresh, ep_entries = seeded now history, ep_file = None\<rparr>
      else case readTranscript at' of
             Inr (hid, es) \<Rightarrow> \<lparr>ep_id = hid, ep_entries = es, ep_file = map_option (\<lambda>f. f\<lparr>tf_torn := False\<rparr>) at'\<rparr>
           | Inl _ \<Rightarrow>
               let es = seeded now history
               in \<lparr>ep_id = fresh, ep_entries = es, ep_file = Some \<lparr>tf_lines = HeaderLine TRANSCRIPT_VERSION fresh # map entryLine es, tf_torn = False\<rparr>\<rparr>)"

section \<open>Well-formed transcripts\<close>

text \<open>A Compaction keeps from an entry before it, and a later one keeps no more than an earlier one.\<close>

definition cutsOk :: "TranscriptEntry list \<Rightarrow> bool" where
  "cutsOk es \<longleftrightarrow> (\<forall>i c. i < length es \<longrightarrow> es ! i = CompactionEntry c \<longrightarrow>
     cp_firstKept c < i \<and> (\<forall>j < i. \<forall>d. es ! j = CompactionEntry d \<longrightarrow> cp_firstKept d \<le> cp_firstKept c))"

definition isCompaction :: "TranscriptEntry \<Rightarrow> bool" where
  "isCompaction e \<longleftrightarrow> (\<exists>c. e = CompactionEntry c)"

lemma isCompaction_simps [simp]:
  "isCompaction (CompactionEntry c)" "\<not> isCompaction (MessageEntry m)" "\<not> isCompaction SubmissionEntry"
  by (auto simp: isCompaction_def)

lemma newestCompaction_Some:
  "newestCompaction es n = Some (i, c) \<Longrightarrow> i < n \<and> es ! i = CompactionEntry c \<and> (\<forall>j. i < j \<and> j < n \<longrightarrow> \<not> isCompaction (es ! j))"
proof (induction n)
  case (Suc n)
  then show ?case by (auto split: TranscriptEntry.splits simp: less_Suc_eq)
qed simp

lemma newestCompaction_None: "newestCompaction es n = None \<longleftrightarrow> (\<forall>j < n. \<not> isCompaction (es ! j))"
  by (induction n) (auto split: TranscriptEntry.splits simp: less_Suc_eq isCompaction_def)

lemma newestCompaction_drop:
  "start + n \<le> length es \<Longrightarrow> newestCompaction (drop start es) n =
     (case newestCompaction es (start + n) of None \<Rightarrow> None | Some (i, c) \<Rightarrow> if start \<le> i then Some (i - start, c) else None)"
proof (induction n)
  case 0
  show ?case using newestCompaction_Some [of es start] by (auto split: option.splits)
next
  case (Suc n)
  then show ?case by (auto split: TranscriptEntry.splits)
qed

lemma walkBack_le: "walkBack es i stop \<le> i"
proof (induction i arbitrary: stop)
  case (Suc i)
  then show ?case by (auto simp: le_Suc_eq)
qed simp

lemma walkBack_stop:
  assumes "cutsOk es" "i < length es" "\<forall>j \<le> i. \<forall>d. es ! j = CompactionEntry d \<longrightarrow> cp_firstKept d \<le> s" "s \<le> i"
  shows "walkBack es i (Some s) \<le> s"
  using assms(2-)
proof (induction i arbitrary: s)
  case (Suc i)
  show ?case
  proof (cases "s = Suc i")
    case False
    then have rest: "walkBack es i (Some s) \<le> s" using Suc.prems by (intro Suc.IH) (auto simp: le_Suc_eq)
    show ?thesis
    proof (cases "es ! Suc i")
      case (CompactionEntry c)
      then have "cp_firstKept c < Suc i" "\<forall>j \<le> i. \<forall>d. es ! j = CompactionEntry d \<longrightarrow> cp_firstKept d \<le> cp_firstKept c"
        using assms(1) Suc.prems(1) unfolding cutsOk_def by (auto simp: less_Suc_eq_le)
      then have "walkBack es i (Some (cp_firstKept c)) \<le> cp_firstKept c" using Suc.IH Suc.prems(1) by simp
      moreover have "cp_firstKept c \<le> s" using Suc.prems(2) CompactionEntry by blast
      ultimately show ?thesis using False CompactionEntry by simp
    qed (use False rest in auto)
  qed simp
qed simp

lemma walkBack_none:
  "\<forall>j \<le> i. \<not> isCompaction (es ! j) \<Longrightarrow> walkBack es i None = 0"
  by (induction i) (auto split: TranscriptEntry.splits)

lemma walkBack_skip:
  "n \<le> i \<Longrightarrow> \<forall>j. n < j \<and> j \<le> i \<longrightarrow> \<not> isCompaction (es ! j) \<Longrightarrow> walkBack es i None = walkBack es n None"
proof (induction i)
  case (Suc i)
  show ?case
  proof (cases "n = Suc i")
    case False
    then have "\<not> isCompaction (es ! Suc i)" "walkBack es i None = walkBack es n None" using Suc by auto
    then show ?thesis by (auto split: TranscriptEntry.splits)
  qed simp
qed simp

lemma walkBack_newest:
  assumes "cutsOk es" "n < length es" "es ! n = CompactionEntry c"
  shows "walkBack es n None \<le> cp_firstKept c"
proof -
  have c: "cp_firstKept c < n" "\<forall>j < n. \<forall>d. es ! j = CompactionEntry d \<longrightarrow> cp_firstKept d \<le> cp_firstKept c"
    using assms unfolding cutsOk_def by blast+
  then obtain m where m: "n = Suc m" by (cases n) auto
  have "walkBack es m (Some (cp_firstKept c)) \<le> cp_firstKept c"
    using walkBack_stop [OF assms(1), of m "cp_firstKept c"] assms(2) c m by (auto simp: less_Suc_eq_le)
  then show ?thesis using assms(3) m by simp
qed

text \<open>The branch reaches back at least to what the newest Compaction keeps; without a Compaction it is everything.\<close>

lemma branchStart_newest:
  assumes "cutsOk es" "newest es = Some (n, c)"
  shows "branchStart es \<le> cp_firstKept c"
proof -
  have n: "n < length es" "es ! n = CompactionEntry c" "\<forall>j. n < j \<and> j < length es \<longrightarrow> \<not> isCompaction (es ! j)"
    using newestCompaction_Some [OF assms(2)] by auto
  then have "walkBack es (length es - 1) None = walkBack es n None"
    by (intro walkBack_skip) (auto simp: Suc_le_eq)
  then show ?thesis using walkBack_newest [OF assms(1) n(1,2)] by (simp add: branchStart_def)
qed

lemma branchStart_none: "newest es = None \<Longrightarrow> branchStart es = 0"
  unfolding branchStart_def newestCompaction_None by (cases "es = []") (auto intro!: walkBack_none simp: Suc_le_eq le_diff_conv2)

lemma branchStart_le: "branchStart es \<le> length es"
  using walkBack_le [of es "length es - 1" None] by (simp add: branchStart_def)

lemma newest_firstKept: "cutsOk es \<Longrightarrow> newest es = Some (n, c) \<Longrightarrow> cp_firstKept c < n \<and> n < length es"
  using newestCompaction_Some [of es "length es" n c] unfolding cutsOk_def by blast

lemma newest_branch:
  assumes "cutsOk es"
  shows "newest (drop (branchStart es) es) = (case newest es of None \<Rightarrow> None | Some (n, c) \<Rightarrow> Some (n - branchStart es, c))"
proof (cases "newest es")
  case None
  then show ?thesis using branchStart_none [OF None] by simp
next
  case (Some nc)
  obtain n c where nc: "nc = (n, c)" by (cases nc)
  then have "branchStart es \<le> n" using branchStart_newest [OF assms] newest_firstKept [OF assms] Some by fastforce
  then show ?thesis using newestCompaction_drop [of "branchStart es" "length es - branchStart es" es] branchStart_le [of es] Some nc by simp
qed

text \<open>The context of a well-formed transcript, over the whole log.\<close>

lemma context_of_entries:
  assumes "cutsOk (ep_entries part)"
  shows "context_of_part part =
    (case newest (ep_entries part) of
       None \<Rightarrow> concat (map messagesOf (ep_entries part))
     | Some (n, c) \<Rightarrow> summaryMessage c # concat (map messagesOf (slice (cp_firstKept c) n (ep_entries part)))
         @ concat (map messagesOf (drop (Suc n) (ep_entries part))))"
proof -
  define es where "es = ep_entries part"
  define start where "start = branchStart es"
  have ok: "cutsOk es" using assms by (simp add: es_def)
  show ?thesis
  proof (cases "newest es")
    case None
    then show ?thesis using newest_branch [OF ok] branchStart_none [OF None]
      by (simp add: context_of_part_def branch_def contextOf_def es_def [symmetric] start_def [symmetric] Let_def)
  next
    case (Some nc)
    obtain n c where nc: "newest es = Some (n, c)" using Some by (cases nc) auto
    have le: "start \<le> cp_firstKept c" "cp_firstKept c < n" "n < length es"
      using branchStart_newest [OF ok nc] newest_firstKept [OF ok nc] by (auto simp: start_def)
    have "slice (cp_firstKept c - start) (n - start) (drop start es) = slice (cp_firstKept c) n es"
      using le by (simp add: slice_def take_drop)
    then show ?thesis using newest_branch [OF ok] nc le
      by (simp add: context_of_part_def branch_def contextOf_def es_def [symmetric] start_def [symmetric] Let_def)
  qed
qed

section \<open>Appends and the file\<close>

definition partOk :: "EnginePart \<Rightarrow> bool" where
  "partOk part \<longleftrightarrow> cutsOk (ep_entries part) \<and>
     (\<forall>f. ep_file part = Some f \<longrightarrow> tf_lines f = HeaderLine TRANSCRIPT_VERSION (ep_id part) # map entryLine (ep_entries part))"

lemma cutsOk_append:
  "cutsOk (es @ [e]) \<longleftrightarrow> cutsOk es \<and>
     (\<forall>c. e = CompactionEntry c \<longrightarrow> cp_firstKept c < length es \<and> (\<forall>d. CompactionEntry d \<in> set es \<longrightarrow> cp_firstKept d \<le> cp_firstKept c))"
  (is "?l \<longleftrightarrow> ?r")
proof
  assume l: ?l
  have "cutsOk es" unfolding cutsOk_def
  proof (intro allI impI)
    fix i c assume "i < length es" "es ! i = CompactionEntry c"
    then show "cp_firstKept c < i \<and> (\<forall>j < i. \<forall>d. es ! j = CompactionEntry d \<longrightarrow> cp_firstKept d \<le> cp_firstKept c)"
      using l [unfolded cutsOk_def, rule_format, of i c] by (fastforce simp: nth_append)
  qed
  moreover have "cp_firstKept c < length es \<and> (\<forall>d. CompactionEntry d \<in> set es \<longrightarrow> cp_firstKept d \<le> cp_firstKept c)" if "e = CompactionEntry c" for c
    using l [unfolded cutsOk_def, rule_format, of "length es" c] that by (fastforce simp: nth_append in_set_conv_nth)
  ultimately show ?r by blast
next
  assume r: ?r
  show ?l unfolding cutsOk_def
  proof (intro allI impI)
    fix i c assume i: "i < length (es @ [e])" "(es @ [e]) ! i = CompactionEntry c"
    show "cp_firstKept c < i \<and> (\<forall>j < i. \<forall>d. (es @ [e]) ! j = CompactionEntry d \<longrightarrow> cp_firstKept d \<le> cp_firstKept c)"
    proof (cases "i < length es")
      case True
      then show ?thesis using r i unfolding cutsOk_def by (fastforce simp: nth_append)
    next
      case False
      then have "i = length es" using i by simp
      then show ?thesis using r i by (auto simp: nth_append) (metis nth_mem)
    qed
  qed
qed

lemma partOk_append:
  assumes "partOk part" "\<forall>c. e = CompactionEntry c \<longrightarrow> cp_firstKept c < length (ep_entries part)
    \<and> (\<forall>d. CompactionEntry d \<in> set (ep_entries part) \<longrightarrow> cp_firstKept d \<le> cp_firstKept c)"
  shows "partOk (append_entry e part)"
  using assms by (auto simp: partOk_def append_entry_def cutsOk_append split: option.splits)

lemma cutsOk_messages: "\<forall>e \<in> set es. \<not> isCompaction e \<Longrightarrow> cutsOk es"
  unfolding cutsOk_def by (metis isCompaction_simps(1) nth_mem)

lemma firstUnparsed_entries: "firstUnparsed n (map entryLine es) = None"
  by (induction es arbitrary: n rule: list.induct) (auto elim: entryLine.elims)

lemma readEntries_written:
  "\<forall>k c. k < length es \<longrightarrow> es ! k = CompactionEntry c \<longrightarrow> cp_firstKept c < i + k \<Longrightarrow> readEntries i (map entryLine es) = Inr es"
proof (induction es arbitrary: i)
  case (Cons e es)
  have "readEntries (Suc i) (map entryLine es) = Inr es"
    using Cons.prems by (intro Cons.IH) (auto simp: nth_Cons split: nat.splits)
  moreover have "cp_firstKept c < i" if "e = CompactionEntry c" for c using Cons.prems that by (auto dest: spec [of _ 0])
  ultimately show ?case by (cases e) (auto simp: Let_def)
qed simp

lemma readTranscript_written:
  assumes "partOk part" "ep_file part = Some f"
  shows "readTranscript (Some (f\<lparr>tf_torn := torn\<rparr>)) = Inr (ep_id part, ep_entries part)"
proof -
  have "readEntries 0 (map entryLine (ep_entries part)) = Inr (ep_entries part)"
    using assms unfolding partOk_def cutsOk_def by (intro readEntries_written) auto
  then show ?thesis using assms by (simp add: readTranscript_def partOk_def firstUnparsed_entries)
qed

lemma openEnginePart_reopens:
  assumes "partOk part" "ep_file part = Some f"
  shows "openEnginePart True (Some (f\<lparr>tf_torn := torn\<rparr>)) fresh now history = part\<lparr>ep_file := Some (f\<lparr>tf_torn := False\<rparr>)\<rparr>"
  using readTranscript_written [OF assms, of torn] by (simp add: openEnginePart_def)

lemma partOk_fresh:
  assumes "\<not> persists \<or> (\<exists>w. readTranscript at' = Inl w)"
  shows "partOk (openEnginePart persists at' fresh now history)"
  using assms by (auto simp: openEnginePart_def partOk_def seeded_def Let_def intro!: cutsOk_messages)

end
