(* ===== verification/Compaction.thy ===== *)
theory Compaction
  imports Transcript "HOL-Library.List_Lexorder"
begin

text \<open>
  The cut a Turn takes on its own context, \<^verbatim>\<open>packages/harness/src/compaction.ts\<close> and \<^verbatim>\<open>compaction-summary.ts\<close>: the estimate of a
  context's size, where the cut goes, what the summary covers and which files it names, the summary requests, and when a cut is taken.

  The model that writes a summary is a parameter, \<open>ask\<close>: it gets the prompt and the budget and answers with a message. So is pi-ai's
  \<^verbatim>\<open>contentText\<close>. Tokens and characters are naturals; \<^verbatim>\<open>Math.floor(0.8 * n)\<close> is \<open>4 * n div 5\<close>. A tool call's arguments are an object of
  values that \<^verbatim>\<open>JSON.stringify\<close> writes, since the provider parsed them.
\<close>

section \<open>The estimate\<close>

record CompactionSettings =
  cs_enabled :: bool
  cs_reserveTokens :: nat
  cs_keepRecentTokens :: nat

fun valueJson :: "ArgValue \<Rightarrow> jsstr" where
  "valueJson (AStr s) = jsonString s"
| "valueJson (AOther t) = t"

definition argsJson :: "(jsstr \<times> ArgValue) list \<Rightarrow> jsstr" where
  "argsJson args = js ''{'' @ joinWith (js '','') (map (\<lambda>(k, v). jsonString k @ js '':'' @ valueJson v) args) @ js ''}''"

definition calculateContextTokens :: "Usage \<Rightarrow> nat" where
  "calculateContextTokens u =
     (if us_totalTokens u \<noteq> 0 then us_totalTokens u else us_input u + us_output u + us_cacheRead u + us_cacheWrite u)"

fun getAssistantUsage :: "EngineMessage \<Rightarrow> Usage option" where
  "getAssistantUsage (Msg (AssistantMsg bs (Some u) stop t)) =
     (if stop \<noteq> StopAborted \<and> stop \<noteq> StopError \<and> calculateContextTokens u > 0 then Some u else None)"
| "getAssistantUsage _ = None"

text \<open>The newest valid usage, from the end.\<close>

fun lastUsage :: "TranscriptEntry list \<Rightarrow> nat \<Rightarrow> Usage option" where
  "lastUsage es 0 = None"
| "lastUsage es (Suc i) =
     (case es ! i of
        MessageEntry m \<Rightarrow> (case getAssistantUsage (Msg m) of Some u \<Rightarrow> Some u | None \<Rightarrow> lastUsage es i)
      | _ \<Rightarrow> lastUsage es i)"

definition getLastAssistantUsage :: "TranscriptEntry list \<Rightarrow> Usage option" where
  "getLastAssistantUsage es = lastUsage es (length es)"

definition ESTIMATED_IMAGE_CHARS :: nat where "ESTIMATED_IMAGE_CHARS = 4800"

fun blockTextChars :: "Block \<Rightarrow> nat" where
  "blockTextChars (TextBlock t) = length t"
| "blockTextChars ImageBlock = ESTIMATED_IMAGE_CHARS"
| "blockTextChars _ = 0"

fun estimateTextAndImageContentChars :: "Content \<Rightarrow> nat" where
  "estimateTextAndImageContentChars (CText t) = length t"
| "estimateTextAndImageContentChars (CBlocks bs) = sum_list (map blockTextChars bs)"

fun assistantBlockChars :: "Block \<Rightarrow> nat" where
  "assistantBlockChars (TextBlock t) = length t"
| "assistantBlockChars (ThinkingBlock t) = length t"
| "assistantBlockChars (ToolCall cid name args) = length name + length (argsJson args)"
| "assistantBlockChars ImageBlock = 0"

text \<open>\<^verbatim>\<open>Math.ceil(chars / 4)\<close>.\<close>

definition quarter :: "nat \<Rightarrow> nat" where
  "quarter n = (n + 3) div 4"

fun estimateTokens :: "EngineMessage \<Rightarrow> nat" where
  "estimateTokens (Msg (UserMsg c t)) = quarter (estimateTextAndImageContentChars c)"
| "estimateTokens (Msg (AssistantMsg bs u stop t)) = quarter (sum_list (map assistantBlockChars bs))"
| "estimateTokens (Msg (ToolResultMsg cid bs t)) = quarter (estimateTextAndImageContentChars (CBlocks bs))"
| "estimateTokens (CompactionSummary s n t) = quarter (length s)"

record ContextEstimate =
  ce_tokens :: nat
  ce_usageTokens :: nat
  ce_trailingTokens :: nat
  ce_lastUsageIndex :: "nat option"

fun lastUsageIndex :: "EngineMessage list \<Rightarrow> nat \<Rightarrow> (nat \<times> Usage) option" where
  "lastUsageIndex ms 0 = None"
| "lastUsageIndex ms (Suc i) = (case getAssistantUsage (ms ! i) of Some u \<Rightarrow> Some (i, u) | None \<Rightarrow> lastUsageIndex ms i)"

definition estimateContextTokens :: "EngineMessage list \<Rightarrow> ContextEstimate" where
  "estimateContextTokens ms =
     (case lastUsageIndex ms (length ms) of
        None \<Rightarrow> let n = sum_list (map estimateTokens ms)
                in \<lparr>ce_tokens = n, ce_usageTokens = 0, ce_trailingTokens = n, ce_lastUsageIndex = None\<rparr>
      | Some (i, u) \<Rightarrow>
          let used = calculateContextTokens u; trailing = sum_list (map estimateTokens (drop (Suc i) ms))
          in \<lparr>ce_tokens = used + trailing, ce_usageTokens = used, ce_trailingTokens = trailing, ce_lastUsageIndex = Some i\<rparr>)"

section \<open>The cut point\<close>

fun isCutEntry :: "TranscriptEntry \<Rightarrow> bool" where
  "isCutEntry (MessageEntry (UserMsg c t)) = True"
| "isCutEntry (MessageEntry (AssistantMsg bs u stop t)) = True"
| "isCutEntry _ = False"

fun isUserEntry :: "TranscriptEntry \<Rightarrow> bool" where
  "isUserEntry (MessageEntry (UserMsg c t)) = True"
| "isUserEntry _ = False"

definition findValidCutPoints :: "TranscriptEntry list \<Rightarrow> nat \<Rightarrow> nat \<Rightarrow> nat list" where
  "findValidCutPoints es start end' = filter (\<lambda>i. isCutEntry (es ! i)) [start..<end']"

fun turnStartBelow :: "TranscriptEntry list \<Rightarrow> nat \<Rightarrow> nat \<Rightarrow> nat option" where
  "turnStartBelow es start 0 = None"
| "turnStartBelow es start (Suc i) =
     (if i < start then None else if isUserEntry (es ! i) then Some i else turnStartBelow es start i)"

definition findTurnStartIndex :: "TranscriptEntry list \<Rightarrow> nat \<Rightarrow> nat \<Rightarrow> nat option" where
  "findTurnStartIndex es entry start = turnStartBelow es start (Suc entry)"

record CutPoint =
  firstKeptEntryIndex :: nat
  turnStartIndex :: "nat option"
  isSplitTurn :: bool

text \<open>The walk back that adds up tokens until the budget, then takes the next cut point, if there is one.\<close>

fun cutWalk :: "TranscriptEntry list \<Rightarrow> nat list \<Rightarrow> nat \<Rightarrow> nat \<Rightarrow> nat \<Rightarrow> nat \<Rightarrow> nat \<Rightarrow> nat" where
  "cutWalk es points keep start 0 acc cutIndex = cutIndex"
| "cutWalk es points keep start (Suc i) acc cutIndex =
     (if i < start then cutIndex
      else case es ! i of
             MessageEntry m \<Rightarrow>
               if acc + estimateTokens (Msg m) \<ge> keep
               then (case find (\<lambda>p. i \<le> p) points of Some p \<Rightarrow> p | None \<Rightarrow> cutIndex)
               else cutWalk es points keep start i (acc + estimateTokens (Msg m)) cutIndex
           | _ \<Rightarrow> cutWalk es points keep start i acc cutIndex)"

text \<open>The move back over the entries that are not messages.\<close>

fun moveBack :: "TranscriptEntry list \<Rightarrow> nat \<Rightarrow> nat \<Rightarrow> nat" where
  "moveBack es start 0 = 0"
| "moveBack es start (Suc i) =
     (if Suc i \<le> start then Suc i else case es ! i of SubmissionEntry \<Rightarrow> moveBack es start i | _ \<Rightarrow> Suc i)"

definition findCutPoint :: "TranscriptEntry list \<Rightarrow> nat \<Rightarrow> nat \<Rightarrow> nat \<Rightarrow> CutPoint" where
  "findCutPoint es start end' keep =
     (case findValidCutPoints es start end' of
        [] \<Rightarrow> \<lparr>firstKeptEntryIndex = start, turnStartIndex = None, isSplitTurn = False\<rparr>
      | p # ps \<Rightarrow>
          let cutIndex = moveBack es start (cutWalk es (p # ps) keep start end' 0 p);
              user = isUserEntry (es ! cutIndex);
              turn = (if user then None else findTurnStartIndex es cutIndex start)
          in \<lparr>firstKeptEntryIndex = cutIndex, turnStartIndex = turn, isSplitTurn = (\<not> user \<and> turn \<noteq> None)\<rparr>)"

section \<open>The file lists\<close>

record FileOps =
  fo_read :: "jsstr list"
  fo_written :: "jsstr list"
  fo_edited :: "jsstr list"

definition argPath :: "(jsstr \<times> ArgValue) list \<Rightarrow> jsstr option" where
  "argPath args = (case map_of args (js ''path'') of Some (AStr p) \<Rightarrow> if p = [] then None else Some p | _ \<Rightarrow> None)"

fun extractBlock :: "Block \<Rightarrow> FileOps \<Rightarrow> FileOps" where
  "extractBlock (ToolCall cid name args) ops =
     (case argPath args of
        None \<Rightarrow> ops
      | Some p \<Rightarrow>
          if name = js ''read'' then ops\<lparr>fo_read := setAdd p (fo_read ops)\<rparr>
          else if name = js ''write'' then ops\<lparr>fo_written := setAdd p (fo_written ops)\<rparr>
          else if name = js ''edit'' then ops\<lparr>fo_edited := setAdd p (fo_edited ops)\<rparr>
          else ops)"
| "extractBlock _ ops = ops"

fun extractFileOpsFromMessage :: "Message \<Rightarrow> FileOps \<Rightarrow> FileOps" where
  "extractFileOpsFromMessage (AssistantMsg bs u stop t) ops = fold extractBlock bs ops"
| "extractFileOpsFromMessage _ ops = ops"

definition computeFileLists :: "FileOps \<Rightarrow> CompactionDetails" where
  "computeFileLists ops =
     (let modified = setUnion (fo_edited ops) (fo_written ops)
      in \<lparr>readFiles = sort (filter (\<lambda>f. f \<notin> set modified) (fo_read ops)), modifiedFiles = sort modified\<rparr>)"

definition formatFileOperations :: "jsstr list \<Rightarrow> jsstr list \<Rightarrow> jsstr" where
  "formatFileOperations reads modifieds =
     (let sections = (if reads = [] then [] else [js ''<read-files>'' @ newline # joinNewline reads @ newline # js ''</read-files>''])
        @ (if modifieds = [] then [] else [js ''<modified-files>'' @ newline # joinNewline modifieds @ newline # js ''</modified-files>''])
      in if sections = [] then [] else newline # newline # joinWith [newline, newline] sections)"

section \<open>The summary request\<close>

definition compactionSummaryText :: "jsstr \<Rightarrow> jsstr" where
  "compactionSummaryText summary =
     js ''The conversation history before this point was compacted into the following summary:'' @ [newline, newline]
     @ js ''<summary>'' @ newline # summary @ newline # js ''</summary>''"

fun summaryLlmMessage :: "EngineMessage \<Rightarrow> Message list" where
  "summaryLlmMessage (CompactionSummary s n t) = [UserMsg (CBlocks [TextBlock (compactionSummaryText s)]) t]"
| "summaryLlmMessage (Msg m) = [m]"

definition summaryLlmMessages :: "EngineMessage list \<Rightarrow> Message list" where
  "summaryLlmMessages ms = concat (map summaryLlmMessage ms)"

definition TOOL_RESULT_MAX_CHARS :: nat where "TOOL_RESULT_MAX_CHARS = 2000"

definition truncateForSummary :: "jsstr \<Rightarrow> nat \<Rightarrow> jsstr" where
  "truncateForSummary txt maxChars =
     (if length txt \<le> maxChars then txt
      else take maxChars txt @ [newline, newline] @ js (''[... '' @ decimal (length txt - maxChars) @ '' more characters truncated]''))"

fun thinkingOf :: "Block \<Rightarrow> jsstr list" where
  "thinkingOf (ThinkingBlock t) = [t]"
| "thinkingOf _ = []"

fun callText :: "Block \<Rightarrow> jsstr list" where
  "callText (ToolCall cid name args) = [name @ js ''('' @ joinWith (js '', '') (map (\<lambda>(k, v). k @ js ''='' @ valueJson v) args) @ js '')'']"
| "callText _ = []"

fun isTextBlock :: "Block \<Rightarrow> bool" where
  "isTextBlock (TextBlock t) = True"
| "isTextBlock _ = False"

type_synonym content_text = "Content \<Rightarrow> jsstr option \<Rightarrow> jsstr"

fun messageParts :: "content_text \<Rightarrow> Message \<Rightarrow> jsstr list" where
  "messageParts contentText (UserMsg c t) =
     (let txt = contentText c (Some []) in if txt = [] then [] else [js ''[User]: '' @ txt])"
| "messageParts contentText (AssistantMsg bs u stop t) =
     (let thinking = concat (map thinkingOf bs); calls = concat (map callText bs)
      in (if thinking = [] then [] else [js ''[Assistant thinking]: '' @ joinNewline thinking])
         @ (if \<exists>b \<in> set bs. isTextBlock b then [js ''[Assistant]: '' @ contentText (CBlocks bs) None] else [])
         @ (if calls = [] then [] else [js ''[Assistant tool calls]: '' @ joinWith (js ''; '') calls]))"
| "messageParts contentText (ToolResultMsg cid bs t) =
     (let txt = contentText (CBlocks bs) (Some [])
      in if txt = [] then [] else [js ''[Tool result]: '' @ truncateForSummary txt TOOL_RESULT_MAX_CHARS])"

definition serializeConversation :: "content_text \<Rightarrow> Message list \<Rightarrow> jsstr" where
  "serializeConversation contentText ms = joinWith [newline, newline] (concat (map (messageParts contentText) ms))"

definition SUMMARIZATION_PROMPT :: jsstr where
  \<open>SUMMARIZATION_PROMPT = joinNewline
     [js ''The messages above are a conversation to summarize. Create a structured context checkpoint summary that another LLM will use to continue the work.'',
      [],
      js ''Use this EXACT format:'',
      [],
      js ''## Goal'',
      js ''[What is the user trying to accomplish? Can be multiple items if the session covers different tasks.]'',
      [],
      js ''## Constraints & Preferences'',
      js ''- [Any constraints, preferences, or requirements mentioned by user]'',
      js ''- [Or "(none)" if none were mentioned]'',
      [],
      js ''## Progress'',
      js ''### Done'',
      js ''- [x] [Completed tasks/changes]'',
      [],
      js ''### In Progress'',
      js ''- [ ] [Current work]'',
      [],
      js ''### Blocked'',
      js ''- [Issues preventing progress, if any]'',
      [],
      js ''## Key Decisions'',
      js ''- **[Decision]**: [Brief rationale]'',
      [],
      js ''## Next Steps'',
      js ''1. [Ordered list of what should happen next]'',
      [],
      js ''## Critical Context'',
      js ''- [Any data, examples, or references needed to continue]'',
      js ''- [Or "(none)" if not applicable]'',
      [],
      js ''Keep each section concise. Preserve exact file paths, function names, and error messages.'']\<close>

definition UPDATE_SUMMARIZATION_PROMPT :: jsstr where
  \<open>UPDATE_SUMMARIZATION_PROMPT = joinNewline
     [js ''The messages above are NEW conversation messages to incorporate into the existing summary provided in <previous-summary> tags.'',
      [],
      js ''Update the existing structured summary with new information. RULES:'',
      js ''- PRESERVE all existing information from the previous summary'',
      js ''- ADD new progress, decisions, and context from the new messages'',
      js ''- UPDATE the Progress section: move items from "In Progress" to "Done" when completed'',
      js ''- UPDATE "Next Steps" based on what was accomplished'',
      js ''- PRESERVE exact file paths, function names, and error messages'',
      js ''- If something is no longer relevant, you may remove it'',
      [],
      js ''Use this EXACT format:'',
      [],
      js ''## Goal'',
      js ''[Preserve existing goals, add new ones if the task expanded]'',
      [],
      js ''## Constraints & Preferences'',
      js ''- [Preserve existing, add new ones discovered]'',
      [],
      js ''## Progress'',
      js ''### Done'',
      js ''- [x] [Include previously done items AND newly completed items]'',
      [],
      js ''### In Progress'',
      js ''- [ ] [Current work - update based on progress]'',
      [],
      js ''### Blocked'',
      js ''- [Current blockers - remove if resolved]'',
      [],
      js ''## Key Decisions'',
      js ''- **[Decision]**: [Brief rationale] (preserve all previous, add new)'',
      [],
      js ''## Next Steps'',
      js ''1. [Update based on current state]'',
      [],
      js ''## Critical Context'',
      js ''- [Preserve important context, add new if needed]'',
      [],
      js ''Keep each section concise. Preserve exact file paths, function names, and error messages.'']\<close>

definition TURN_PREFIX_SUMMARIZATION_PROMPT :: jsstr where
  \<open>TURN_PREFIX_SUMMARIZATION_PROMPT = joinNewline
     [js ''This is the PREFIX of a turn that was too large to keep. The SUFFIX (recent work) is retained.'',
      [],
      js ''Summarize the prefix to provide context for the retained suffix:'',
      [],
      js ''## Original Request'',
      js ''[What did the user ask for in this turn?]'',
      [],
      js ''## Early Progress'',
      js ''- [Key decisions and work done in the prefix]'',
      [],
      js ''## Context for Suffix'',
      js ''- [Information needed to understand the retained recent work]'',
      [],
      js ''Be concise. Focus on what's needed to understand the kept suffix.'']\<close>

text \<open>The answer to a summary request, and the request itself: the prompt and its budget.\<close>

record SummaryResponse =
  sr_stopReason :: StopReason
  sr_errorMessage :: jsstr
  sr_content :: "Block list"
  sr_usage :: Usage

type_synonym summarizer = "jsstr \<Rightarrow> nat \<Rightarrow> SummaryResponse"

text \<open>A message or the fixed words when there is none: \<^verbatim>\<open>a || b\<close>.\<close>

definition orElse :: "jsstr \<Rightarrow> jsstr \<Rightarrow> jsstr" where
  "orElse a b = (if a = [] then b else a)"

definition capped :: "nat \<Rightarrow> nat \<Rightarrow> nat" where
  "capped maxTokens n = (if maxTokens > 0 then min n maxTokens else n)"

definition conversationPart :: "content_text \<Rightarrow> Message list \<Rightarrow> jsstr" where
  "conversationPart contentText ms = js ''<conversation>'' @ newline # serializeConversation contentText (summaryLlmMessages (map Msg ms))
     @ newline # js ''</conversation>'' @ [newline, newline]"

definition summaryPrompt :: "content_text \<Rightarrow> Message list \<Rightarrow> jsstr option \<Rightarrow> jsstr" where
  "summaryPrompt contentText ms previousSummary =
     (let previous = (case previousSummary of None \<Rightarrow> [] | Some s \<Rightarrow> s)
      in conversationPart contentText ms
         @ (if previous = [] then [] else js ''<previous-summary>'' @ newline # previous @ newline # js ''</previous-summary>'' @ [newline, newline])
         @ (if previous = [] then SUMMARIZATION_PROMPT else UPDATE_SUMMARIZATION_PROMPT))"

definition answerText :: "content_text \<Rightarrow> jsstr \<Rightarrow> SummaryResponse \<Rightarrow> jsstr + jsstr \<times> Usage" where
  "answerText contentText what response =
     (if sr_stopReason response = StopAborted then Inl (orElse (sr_errorMessage response) (what @ js '' aborted''))
      else if sr_stopReason response = StopError then Inl (what @ js '' failed: '' @ orElse (sr_errorMessage response) (js ''Unknown error''))
      else Inr (contentText (CBlocks (sr_content response)) None, sr_usage response))"

definition generateSummary ::
    "content_text \<Rightarrow> summarizer \<Rightarrow> nat \<Rightarrow> nat \<Rightarrow> Message list \<Rightarrow> jsstr option \<Rightarrow> jsstr + jsstr \<times> Usage" where
  "generateSummary contentText ask maxTokens reserveTokens ms previousSummary =
     answerText contentText (js ''Summarization'')
       (ask (summaryPrompt contentText ms previousSummary) (capped maxTokens (4 * reserveTokens div 5)))"

definition generateTurnPrefixSummary :: "content_text \<Rightarrow> summarizer \<Rightarrow> nat \<Rightarrow> nat \<Rightarrow> Message list \<Rightarrow> jsstr + jsstr \<times> Usage" where
  "generateTurnPrefixSummary contentText ask maxTokens reserveTokens ms =
     answerText contentText (js ''Turn prefix summarization'')
       (ask (conversationPart contentText ms @ TURN_PREFIX_SUMMARIZATION_PROMPT) (capped maxTokens (reserveTokens div 2)))"

definition addOptional :: "nat option \<Rightarrow> nat option \<Rightarrow> nat option" where
  "addOptional a b = (if a = None \<and> b = None then None else Some (case_option 0 (\<lambda>n. n) a + case_option 0 (\<lambda>n. n) b))"

definition combineUsage :: "Usage \<Rightarrow> Usage \<Rightarrow> Usage" where
  "combineUsage a b =
     \<lparr>us_input = us_input a + us_input b, us_output = us_output a + us_output b, us_cacheRead = us_cacheRead a + us_cacheRead b,
      us_cacheWrite = us_cacheWrite a + us_cacheWrite b, us_cacheWrite1h = addOptional (us_cacheWrite1h a) (us_cacheWrite1h b),
      us_reasoning = addOptional (us_reasoning a) (us_reasoning b), us_totalTokens = us_totalTokens a + us_totalTokens b,
      us_cost = \<lparr>co_input = co_input (us_cost a) + co_input (us_cost b), co_output = co_output (us_cost a) + co_output (us_cost b),
        co_cacheRead = co_cacheRead (us_cost a) + co_cacheRead (us_cost b), co_cacheWrite = co_cacheWrite (us_cost a) + co_cacheWrite (us_cost b),
        co_total = co_total (us_cost a) + co_total (us_cost b)\<rparr>\<rparr>"

section \<open>The cut\<close>

record PreparedCut =
  pc_firstKept :: nat
  pc_messagesToSummarize :: "Message list"
  pc_turnPrefixMessages :: "Message list"
  pc_isSplitTurn :: bool
  pc_tokensBefore :: nat
  pc_previousSummary :: "jsstr option"
  pc_fileOps :: FileOps

fun messageOf :: "TranscriptEntry \<Rightarrow> Message list" where
  "messageOf (MessageEntry m) = [m]"
| "messageOf _ = []"

definition noOps :: FileOps where
  "noOps = \<lparr>fo_read = [], fo_written = [], fo_edited = []\<rparr>"

definition carriedOps :: "CompactionDetails \<Rightarrow> FileOps" where
  "carriedOps d = \<lparr>fo_read = fold setAdd (readFiles d) [], fo_written = [], fo_edited = fold setAdd (modifiedFiles d) []\<rparr>"

text \<open>The throw is \<open>Inl\<close>; \<open>Inr None\<close> is nothing to cut.\<close>

definition prepareCompaction :: "nat \<times> TranscriptEntry list \<Rightarrow> CompactionSettings \<Rightarrow> jsstr + PreparedCut option" where
  "prepareCompaction br settings =
     (case br of (start, es) \<Rightarrow>
        if es = [] \<or> isCompaction (last es) then Inr None
        else
          let prev = newest es;
              boundaryStart = (case prev of None \<Rightarrow> 0
                | Some (n, c) \<Rightarrow> if start \<le> cp_firstKept c \<and> cp_firstKept c - start < length es then cp_firstKept c - start else Suc n);
              cutPoint = findCutPoint es boundaryStart (length es) (cs_keepRecentTokens settings);
              historyEnd = (case turnStartIndex cutPoint of Some t \<Rightarrow> if isSplitTurn cutPoint then t else firstKeptEntryIndex cutPoint
                | None \<Rightarrow> firstKeptEntryIndex cutPoint);
              toSummarize = concat (map messageOf (slice boundaryStart historyEnd es));
              prefix' = (if isSplitTurn cutPoint then concat (map messageOf (slice historyEnd (firstKeptEntryIndex cutPoint) es)) else [])
          in if firstKeptEntryIndex cutPoint \<ge> length es then Inl (js ''the cut keeps no entry of the transcript'')
             else Inr (Some
               \<lparr>pc_firstKept = start + firstKeptEntryIndex cutPoint,
                pc_messagesToSummarize = toSummarize,
                pc_turnPrefixMessages = prefix',
                pc_isSplitTurn = isSplitTurn cutPoint,
                pc_tokensBefore = ce_tokens (estimateContextTokens (contextOf es start)),
                pc_previousSummary = map_option (cp_summary \<circ> snd) prev,
                pc_fileOps = fold extractFileOpsFromMessage (toSummarize @ prefix')
                  (case prev of None \<Rightarrow> noOps | Some (n, c) \<Rightarrow> carriedOps (cp_details c))\<rparr>))"

definition compact :: "content_text \<Rightarrow> summarizer \<Rightarrow> nat \<Rightarrow> int \<Rightarrow> CompactionSettings \<Rightarrow> PreparedCut \<Rightarrow> jsstr + Compaction" where
  "compact contentText ask maxTokens now settings prepared =
     (let written =
            (if pc_isSplitTurn prepared \<and> pc_turnPrefixMessages prepared \<noteq> [] then
               (case (if pc_messagesToSummarize prepared = [] then Inr (js ''No prior history.'', None)
                      else case generateSummary contentText ask maxTokens (cs_reserveTokens settings) (pc_messagesToSummarize prepared) (pc_previousSummary prepared) of
                             Inl e \<Rightarrow> Inl e | Inr (t, u) \<Rightarrow> Inr (t, Some u)) of
                  Inl e \<Rightarrow> Inl e
                | Inr (historyText, historyUsage) \<Rightarrow>
                    (case generateTurnPrefixSummary contentText ask maxTokens (cs_reserveTokens settings) (pc_turnPrefixMessages prepared) of
                       Inl e \<Rightarrow> Inl e
                     | Inr (prefixText, prefixUsage) \<Rightarrow>
                         Inr (historyText @ [newline, newline] @ js ''---'' @ [newline, newline] @ js ''**Turn Context (split turn):**'' @ [newline, newline] @ prefixText,
                              case historyUsage of None \<Rightarrow> prefixUsage | Some u \<Rightarrow> combineUsage u prefixUsage)))
             else generateSummary contentText ask maxTokens (cs_reserveTokens settings) (pc_messagesToSummarize prepared) (pc_previousSummary prepared));
          details = computeFileLists (pc_fileOps prepared)
      in case written of
           Inl e \<Rightarrow> Inl e
         | Inr (summary, usage) \<Rightarrow>
             Inr \<lparr>cp_summary = summary @ formatFileOperations (readFiles details) (modifiedFiles details), cp_firstKept = pc_firstKept prepared,
                  cp_tokensBefore = pc_tokensBefore prepared, cp_details = details, cp_usage = usage, cp_timestamp = now\<rparr>)"

section \<open>When a cut is taken\<close>

definition RESERVE_FLOOR :: nat where "RESERVE_FLOOR = 16384"
definition SMALL_WINDOW_RESERVE_MIN :: nat where "SMALL_WINDOW_RESERVE_MIN = 1024"
definition KEEP_RECENT_TOKENS :: nat where "KEEP_RECENT_TOKENS = 20000"

definition compactionSettingsFor :: "nat \<Rightarrow> nat \<Rightarrow> nat \<Rightarrow> CompactionSettings" where
  "compactionSettingsFor contextWindow maxTokens keepRecentTokens =
     (if contextWindow = 0 then \<lparr>cs_enabled = False, cs_reserveTokens = RESERVE_FLOOR, cs_keepRecentTokens = keepRecentTokens\<rparr>
      else let reserve = max RESERVE_FLOOR maxTokens
           in \<lparr>cs_enabled = True,
               cs_reserveTokens = (if reserve * 2 \<ge> contextWindow then max SMALL_WINDOW_RESERVE_MIN (contextWindow div 3) else reserve),
               cs_keepRecentTokens = keepRecentTokens\<rparr>)"

definition overContextThreshold :: "nat \<Rightarrow> nat \<Rightarrow> CompactionSettings \<Rightarrow> bool" where
  "overContextThreshold contextTokens contextWindow settings \<longleftrightarrow>
     cs_enabled settings \<and> int contextTokens > int contextWindow - int (cs_reserveTokens settings)"

record CompactionSeat =
  se_part :: EnginePart
  se_contextWindow :: nat
  se_maxTokens :: nat
  se_settings :: CompactionSettings
  se_aborted :: bool

record Cut =
  ct_messages :: "EngineMessage list"
  ct_tokensBefore :: nat
  ct_tokensAfter :: nat

text \<open>A failed summary is \<open>Inl\<close>; \<open>Inr None\<close> is a request that cuts nothing; a cut is the rebuilt context and the part with its Compaction.\<close>

definition compactIfOver :: "content_text \<Rightarrow> summarizer \<Rightarrow> int \<Rightarrow> CompactionSeat \<Rightarrow> jsstr + (Cut \<times> EnginePart) option" where
  "compactIfOver contentText ask now seat =
     (let part = se_part seat; settings = se_settings seat
      in if se_aborted seat then Inr None
         else if \<not> overContextThreshold (ce_tokens (estimateContextTokens (context_of_part part))) (se_contextWindow seat) settings then Inr None
         else case branch part of (start, es) \<Rightarrow>
           if (case newest es of Some (n, c) \<Rightarrow> getLastAssistantUsage (drop (Suc n) es) = None | None \<Rightarrow> False) then Inr None
           else case prepareCompaction (start, es) settings of
                  Inl e \<Rightarrow> Inl e
                | Inr None \<Rightarrow> Inr None
                | Inr (Some prepared) \<Rightarrow>
                    (case compact contentText ask (se_maxTokens seat) now settings prepared of
                       Inl e \<Rightarrow> Inl e
                     | Inr c \<Rightarrow>
                         let part' = appendCompaction c part; rebuilt = context_of_part part'
                         in Inr (Some (\<lparr>ct_messages = rebuilt, ct_tokensBefore = cp_tokensBefore c,
                                       ct_tokensAfter = sum_list (map estimateTokens rebuilt)\<rparr>, part'))))"

section \<open>Where the cut goes\<close>

lemma in_cutPoints: "p \<in> set (findValidCutPoints es start end') \<longleftrightarrow> start \<le> p \<and> p < end' \<and> isCutEntry (es ! p)"
  by (auto simp: findValidCutPoints_def)

lemma cutWalk_in: "cutIndex \<in> set points \<Longrightarrow> cutWalk es points keep start i acc cutIndex \<in> set points"
proof (induction i arbitrary: acc)
  case (Suc i)
  then show ?case by (auto split: TranscriptEntry.splits option.splits simp: find_Some_iff)
qed simp

lemma moveBack_bounds: "start \<le> i \<Longrightarrow> start \<le> moveBack es start i \<and> moveBack es start i \<le> i"
  by (induction es start i rule: moveBack.induct) (auto split: TranscriptEntry.splits simp: not_less_eq_eq le_Suc_eq)

lemma moveBack_skips: "moveBack es start i \<le> j \<Longrightarrow> j < i \<Longrightarrow> es ! j = SubmissionEntry"
  by (induction es start i rule: moveBack.induct) (auto split: TranscriptEntry.splits if_splits simp: less_Suc_eq)

lemma turnStartBelow_Some: "turnStartBelow es start i = Some t \<Longrightarrow> start \<le> t \<and> t < i \<and> isUserEntry (es ! t)"
  by (induction es start i rule: turnStartBelow.induct) (auto split: if_splits)

text \<open>The cut is at a user or an assistant message, or at the marks before one; or, without any, at the start.\<close>

lemma findCutPoint_points:
  assumes "findValidCutPoints es start end' \<noteq> []"
  obtains p where "start \<le> p" "p < end'" "isCutEntry (es ! p)" "firstKeptEntryIndex (findCutPoint es start end' keep) = moveBack es start p"
    "p = cutWalk es (findValidCutPoints es start end') keep start end' 0 (hd (findValidCutPoints es start end'))"
proof -
  define points where "points = findValidCutPoints es start end'"
  obtain q qs where q: "points = q # qs" using assms unfolding points_def by (meson list.exhaust)
  define p where "p = cutWalk es points keep start end' 0 q"
  have "p \<in> set points" unfolding p_def by (rule cutWalk_in) (simp add: q)
  then have "start \<le> p" "p < end'" "isCutEntry (es ! p)" by (auto simp: points_def in_cutPoints)
  moreover have "firstKeptEntryIndex (findCutPoint es start end' keep) = moveBack es start p"
    using q unfolding p_def by (simp add: findCutPoint_def points_def [symmetric] Let_def)
  moreover have "p = cutWalk es points keep start end' 0 (hd points)" by (simp add: p_def q)
  ultimately show ?thesis using that by (simp add: points_def)
qed

lemma findCutPoint_bounds:
  assumes "start < length es"
  shows "start \<le> firstKeptEntryIndex (findCutPoint es start (length es) keep)" "firstKeptEntryIndex (findCutPoint es start (length es) keep) < length es"
proof -
  have "start \<le> firstKeptEntryIndex (findCutPoint es start (length es) keep) \<and> firstKeptEntryIndex (findCutPoint es start (length es) keep) < length es"
  proof (cases "findValidCutPoints es start (length es) = []")
    case True
    then show ?thesis using assms by (simp add: findCutPoint_def)
  next
    case False
    then obtain p where "start \<le> p" "p < length es" "firstKeptEntryIndex (findCutPoint es start (length es) keep) = moveBack es start p"
      by (rule findCutPoint_points)
    then show ?thesis using moveBack_bounds [of start p es] by simp
  qed
  then show "start \<le> firstKeptEntryIndex (findCutPoint es start (length es) keep)" "firstKeptEntryIndex (findCutPoint es start (length es) keep) < length es"
    by auto
qed

lemma findCutPoint_split:
  assumes "isSplitTurn (findCutPoint es start end' keep)"
  obtains t where "turnStartIndex (findCutPoint es start end' keep) = Some t" "start \<le> t" "t \<le> firstKeptEntryIndex (findCutPoint es start end' keep)"
  using assms that turnStartBelow_Some
  by (fastforce simp: findCutPoint_def Let_def findTurnStartIndex_def split: list.splits if_splits)

lemma findCutPoint_turn: "turnStartIndex (findCutPoint es start end' keep) = Some t \<Longrightarrow> isSplitTurn (findCutPoint es start end' keep)"
  by (auto simp: findCutPoint_def Let_def split: list.splits if_splits)

section \<open>What the cut covers\<close>

lemma slice_append: "i \<le> j \<Longrightarrow> j \<le> k \<Longrightarrow> slice i j xs @ slice j k xs = slice i k xs"
proof -
  assume "i \<le> j" "j \<le> k"
  then have "take k xs = take j xs @ drop j (take k xs)" by (metis append_take_drop_id min.absorb1 take_take)
  then have "drop i (take k xs) = drop i (take j xs) @ drop (i - length (take j xs)) (drop j (take k xs))" by (metis drop_append)
  moreover have "drop (i - length (take j xs)) (drop j (take k xs)) = drop j (take k xs)"
    using \<open>i \<le> j\<close> by (cases "j \<le> length xs") auto
  ultimately show ?thesis by (simp add: slice_def)
qed

lemma slice_drop_append: "i \<le> j \<Longrightarrow> slice i j xs @ drop j xs = drop i xs"
  using slice_append [of i j "max j (length xs)" xs] by (simp add: slice_def)

lemma slice_drop: "slice i j (drop s xs) = slice (s + i) (s + j) xs"
  by (simp add: slice_def take_drop add.commute)

abbreviation messages :: "TranscriptEntry list \<Rightarrow> Message list" where
  "messages es \<equiv> concat (map messageOf es)"

fun plainOf :: "EngineMessage \<Rightarrow> Message list" where
  "plainOf (Msg m) = [m]"
| "plainOf (CompactionSummary s n t) = []"

text \<open>The messages of a context, its summaries left out.\<close>

definition plainMessages :: "EngineMessage list \<Rightarrow> Message list" where
  "plainMessages ms = concat (map plainOf ms)"

lemma plainMessages_simps [simp]:
  "plainMessages [] = []" "plainMessages (summaryMessage c # ms) = plainMessages ms" "plainMessages (xs @ ys) = plainMessages xs @ plainMessages ys"
  by (simp_all add: plainMessages_def summaryMessage_def)

lemma plainMessages_entries: "plainMessages (concat (map messagesOf es)) = messages es"
proof (induction es)
  case (Cons e es)
  then show ?case by (cases e) (auto simp: plainMessages_def summaryMessage_def)
qed simp

text \<open>Where the kept entries of a transcript start: at the newest Compaction's first kept entry, or at its beginning.\<close>

definition keptFrom :: "TranscriptEntry list \<Rightarrow> nat" where
  "keptFrom es = (case newest es of None \<Rightarrow> 0 | Some (n, c) \<Rightarrow> cp_firstKept c)"

lemma plain_context:
  assumes "cutsOk (ep_entries part)"
  shows "plainMessages (context_of_part part) = messages (drop (keptFrom (ep_entries part)) (ep_entries part))"
proof (cases "newest (ep_entries part)")
  case None
  then show ?thesis using context_of_entries [OF assms] by (simp add: keptFrom_def plainMessages_entries)
next
  case (Some nc)
  obtain n c where nc: "newest (ep_entries part) = Some (n, c)" using Some by (cases nc) auto
  have n: "cp_firstKept c < n" "n < length (ep_entries part)" "ep_entries part ! n = CompactionEntry c"
    using newest_firstKept [OF assms nc] newestCompaction_Some [OF nc] by auto
  have "drop (cp_firstKept c) (ep_entries part) = slice (cp_firstKept c) n (ep_entries part) @ CompactionEntry c # drop (Suc n) (ep_entries part)"
    using n slice_drop_append [of "cp_firstKept c" n "ep_entries part"] by (simp add: Cons_nth_drop_Suc [symmetric])
  then show ?thesis using context_of_entries [OF assms] nc by (simp add: keptFrom_def plainMessages_entries)
qed

text \<open>The boundary of a branch, in the indexes of the whole transcript.\<close>

lemma keptFrom_bounds: "cutsOk es \<Longrightarrow> es \<noteq> [] \<Longrightarrow> branchStart es \<le> keptFrom es \<and> keptFrom es < length es"
  using branchStart_newest [of es] newest_firstKept [of es] branchStart_none [of es]
  by (fastforce simp: keptFrom_def split: option.splits)

definition boundaryOf :: "nat \<Rightarrow> TranscriptEntry list \<Rightarrow> nat" where
  "boundaryOf start es = (case newest es of None \<Rightarrow> 0
     | Some (n, c) \<Rightarrow> if start \<le> cp_firstKept c \<and> cp_firstKept c - start < length es then cp_firstKept c - start else Suc n)"

lemma boundaryOf_branch:
  assumes "cutsOk es" "es \<noteq> []"
  shows "boundaryOf (branchStart es) (drop (branchStart es) es) = keptFrom es - branchStart es"
  using keptFrom_bounds [OF assms] unfolding boundaryOf_def newest_branch [OF assms(1)]
  by (auto simp: keptFrom_def split: option.splits)

lemma prepare_fields:
  assumes "prepareCompaction (start, es) settings = Inr (Some p)"
  defines "cp \<equiv> findCutPoint es (boundaryOf start es) (length es) (cs_keepRecentTokens settings)"
  defines "h \<equiv> (case turnStartIndex cp of Some t \<Rightarrow> if isSplitTurn cp then t else firstKeptEntryIndex cp | None \<Rightarrow> firstKeptEntryIndex cp)"
  shows "pc_firstKept p = start + firstKeptEntryIndex cp" "pc_isSplitTurn p = isSplitTurn cp"
    "pc_messagesToSummarize p = messages (slice (boundaryOf start es) h es)"
    "pc_turnPrefixMessages p = (if isSplitTurn cp then messages (slice h (firstKeptEntryIndex cp) es) else [])"
    "pc_fileOps p = fold extractFileOpsFromMessage (pc_messagesToSummarize p @ pc_turnPrefixMessages p)
       (case newest es of None \<Rightarrow> noOps | Some (n, c) \<Rightarrow> carriedOps (cp_details c))"
    "es \<noteq> []"
  using assms(1) [unfolded prepareCompaction_def Let_def prod.case, folded boundaryOf_def, folded cp_def, folded h_def] by (auto split: if_splits)

lemma prepare_shape:
  assumes "prepareCompaction (start, es) settings = Inr (Some p)" "boundaryOf start es = b" "b < length es"
  shows "pc_firstKept p = start + firstKeptEntryIndex (findCutPoint es b (length es) (cs_keepRecentTokens settings))"
    "pc_messagesToSummarize p @ pc_turnPrefixMessages p
       = messages (slice b (firstKeptEntryIndex (findCutPoint es b (length es) (cs_keepRecentTokens settings))) es)"
proof -
  define cp where "cp = findCutPoint es b (length es) (cs_keepRecentTokens settings)"
  define k where "k = firstKeptEntryIndex cp"
  define h where "h = (case turnStartIndex cp of Some t \<Rightarrow> if isSplitTurn cp then t else k | None \<Rightarrow> k)"
  note fields = prepare_fields [OF assms(1), unfolded assms(2), folded cp_def, folded k_def, folded h_def]
  have k: "b \<le> k" unfolding k_def cp_def using findCutPoint_bounds [OF assms(3)] by auto
  have h: "b \<le> h \<and> h \<le> k \<and> (\<not> isSplitTurn cp \<longrightarrow> h = k)"
  proof (cases "isSplitTurn cp")
    case True
    then obtain t where "turnStartIndex cp = Some t" "b \<le> t" "t \<le> k"
      unfolding cp_def k_def by (rule findCutPoint_split)
    then show ?thesis using True by (simp add: h_def)
  qed (use k in \<open>auto simp: h_def split: option.splits\<close>)
  have "messages (slice b h es) @ messages (slice h k es) = messages (slice b k es)"
    using slice_append [of b h k es] h by (metis concat_append map_append)
  then show "pc_messagesToSummarize p @ pc_turnPrefixMessages p
       = messages (slice b (firstKeptEntryIndex (findCutPoint es b (length es) (cs_keepRecentTokens settings))) es)"
    unfolding cp_def [symmetric] k_def [symmetric] using fields h by (auto simp: slice_def)
  show "pc_firstKept p = start + firstKeptEntryIndex (findCutPoint es b (length es) (cs_keepRecentTokens settings))"
    using fields(1) by (simp add: k_def cp_def)
qed

text \<open>What a prepared cut of a well-formed transcript covers, in the indexes of the whole transcript.\<close>

lemma prepare_covers:
  fixes part settings
  defines "E \<equiv> ep_entries part"
  defines "es \<equiv> drop (branchStart E) E"
  assumes "cutsOk E" "prepareCompaction (branch part) settings = Inr (Some p)"
  shows "keptFrom E \<le> pc_firstKept p" "pc_firstKept p < length E"
    "pc_messagesToSummarize p @ pc_turnPrefixMessages p = messages (slice (keptFrom E) (pc_firstKept p) E)"
    "pc_firstKept p = branchStart E + firstKeptEntryIndex (findCutPoint es (keptFrom E - branchStart E) (length es) (cs_keepRecentTokens settings))"
    "pc_fileOps p = fold extractFileOpsFromMessage (pc_messagesToSummarize p @ pc_turnPrefixMessages p)
       (case newest E of None \<Rightarrow> noOps | Some (n, c) \<Rightarrow> carriedOps (cp_details c))"
proof -
  define start where "start = branchStart E"
  have prep: "prepareCompaction (start, es) settings = Inr (Some p)"
    using assms(4) by (simp add: branch_def E_def start_def es_def Let_def)
  then have "E \<noteq> []" by (auto simp: es_def prepareCompaction_def split: if_splits)
  then have bounds: "start \<le> keptFrom E" "keptFrom E < length E" using keptFrom_bounds [OF assms(3)] by (auto simp: start_def)
  define b where "b = keptFrom E - start"
  have b: "b < length es" using bounds by (simp add: b_def es_def start_def)
  have boundary: "boundaryOf start es = b" using boundaryOf_branch [OF assms(3) \<open>E \<noteq> []\<close>] by (simp add: b_def es_def start_def)
  note shape = prepare_shape [OF prep boundary b]
  note k = findCutPoint_bounds [OF b, of "cs_keepRecentTokens settings"]
  show first: "pc_firstKept p = branchStart E + firstKeptEntryIndex (findCutPoint es (keptFrom E - branchStart E) (length es) (cs_keepRecentTokens settings))"
    using shape(1) by (simp add: b_def start_def)
  show "keptFrom E \<le> pc_firstKept p" "pc_firstKept p < length E"
    using k bounds unfolding shape(1) length_drop es_def b_def start_def by linarith+
  show "pc_messagesToSummarize p @ pc_turnPrefixMessages p = messages (slice (keptFrom E) (pc_firstKept p) E)"
    using shape(1,2) bounds by (simp add: es_def slice_drop b_def start_def)
  show "pc_fileOps p = fold extractFileOpsFromMessage (pc_messagesToSummarize p @ pc_turnPrefixMessages p)
       (case newest E of None \<Rightarrow> noOps | Some (n, c) \<Rightarrow> carriedOps (cp_details c))"
    using prepare_fields(5) [OF prep] newest_branch [OF assms(3)] by (auto simp: es_def split: option.splits)
qed

lemma compactIfOver_cut:
  assumes "compactIfOver contentText ask now seat = Inr (Some (ct, part'))"
  obtains p c where "prepareCompaction (branch (se_part seat)) (se_settings seat) = Inr (Some p)"
    "compact contentText ask (se_maxTokens seat) now (se_settings seat) p = Inr c" "part' = appendCompaction c (se_part seat)"
    "ct_messages ct = context_of_part part'" "cp_firstKept c = pc_firstKept p" "cp_details c = computeFileLists (pc_fileOps p)"
proof -
  obtain p c where "prepareCompaction (branch (se_part seat)) (se_settings seat) = Inr (Some p)"
    "compact contentText ask (se_maxTokens seat) now (se_settings seat) p = Inr c" "part' = appendCompaction c (se_part seat)"
    "ct_messages ct = context_of_part part'"
    using assms by (auto simp: compactIfOver_def Let_def split: if_splits sum.splits option.splits prod.splits)
  moreover have "cp_firstKept c = pc_firstKept p \<and> cp_details c = computeFileLists (pc_fileOps p)"
    using calculation(2) by (auto simp: compact_def Let_def split: sum.splits prod.splits)
  ultimately show ?thesis using that by blast
qed

section \<open>Reached parts\<close>

text \<open>A part as the Harness reaches it: new, or seeded with the record's history, then grown by messages, marks and cuts, and reopened after a
  restart that may have left a torn last line.\<close>

inductive part_reach :: "EnginePart \<Rightarrow> bool" where
  fresh_part: "\<not> persists \<or> (\<exists>w. readTranscript at' = Inl w) \<Longrightarrow> part_reach (openEnginePart persists at' fresh now history)"
| message_step: "part_reach part \<Longrightarrow> part_reach (appendMessage m part)"
| submission_step: "part_reach part \<Longrightarrow> part_reach (appendSubmission part)"
| cut_step: "part_reach (se_part seat) \<Longrightarrow> compactIfOver contentText ask now seat = Inr (Some (ct, part')) \<Longrightarrow> part_reach part'"
| restart_step: "part_reach part \<Longrightarrow> ep_file part = Some f \<Longrightarrow> part_reach (openEnginePart True (Some (f\<lparr>tf_torn := torn\<rparr>)) fresh now history)"

lemma newest_monotone:
  assumes "cutsOk es" "CompactionEntry d \<in> set es"
  shows "cp_firstKept d \<le> keptFrom es"
proof -
  obtain j where j: "j < length es" "es ! j = CompactionEntry d" using assms(2) by (auto simp: in_set_conv_nth)
  then obtain n c where nc: "newest es = Some (n, c)"
    using newestCompaction_None [of es "length es"] isCompaction_simps(1) by (metis option.exhaust surj_pair)
  have "\<not> n < j" "n < length es" "es ! n = CompactionEntry c" using newestCompaction_Some [OF nc] j by auto
  then have "j < n \<or> d = c" using j by (cases "j = n") auto
  then show ?thesis using assms(1) nc j \<open>n < length es\<close> \<open>es ! n = CompactionEntry c\<close> unfolding cutsOk_def keptFrom_def by auto
qed

lemma partOk_cut:
  assumes "partOk (se_part seat)" "compactIfOver contentText ask now seat = Inr (Some (ct, part'))"
  shows "partOk part'"
proof -
  have ok: "cutsOk (ep_entries (se_part seat))" using assms(1) by (simp add: partOk_def)
  obtain p c where c: "prepareCompaction (branch (se_part seat)) (se_settings seat) = Inr (Some p)" "part' = appendCompaction c (se_part seat)"
    "cp_firstKept c = pc_firstKept p" using assms(2) by (rule compactIfOver_cut)
  show ?thesis unfolding c(2) appendCompaction_def
    using prepare_covers(1,2) [OF ok c(1)] newest_monotone [OF ok] c(3) by (intro partOk_append [OF assms(1)]) fastforce
qed

lemma partOk_reopened: "partOk part \<Longrightarrow> ep_file part = Some f \<Longrightarrow> partOk (part\<lparr>ep_file := Some (f\<lparr>tf_torn := t\<rparr>)\<rparr>)"
  by (simp add: partOk_def)

lemma part_reach_ok: "part_reach part \<Longrightarrow> partOk part"
proof (induction rule: part_reach.induct)
  case (restart_step part f torn fresh now history)
  then show ?case by (simp add: openEnginePart_reopens partOk_reopened)
qed (auto intro: partOk_fresh partOk_cut intro!: partOk_append simp: appendMessage_def appendSubmission_def)

lemma newest_appended: "newest (es @ [CompactionEntry c]) = Some (length es, c)"
  by simp

text \<open>C7. A cut loses no message. When a cut is taken on a reached conversation, the messages the model read before it are, in order, the
  ones the summary covers, the ones the summary of a split turn's prefix covers, and the ones the model goes on to read verbatim after
  the new summary; and what it goes on to read is the context of the part with its Compaction.\<close>

theorem cut_keeps_every_message:
  assumes "part_reach (se_part seat)" "compactIfOver contentText ask now seat = Inr (Some (ct, part'))"
  shows "\<exists>p c. prepareCompaction (branch (se_part seat)) (se_settings seat) = Inr (Some p)
    \<and> compact contentText ask (se_maxTokens seat) now (se_settings seat) p = Inr c
    \<and> plainMessages (context_of_part (se_part seat)) = pc_messagesToSummarize p @ pc_turnPrefixMessages p @ plainMessages (ct_messages ct)
    \<and> ct_messages ct = context_of_part part' \<and> hd (ct_messages ct) = summaryMessage c \<and> ep_entries part' = ep_entries (se_part seat) @ [CompactionEntry c]"
proof -
  define E where "E = ep_entries (se_part seat)"
  have ok: "cutsOk E" using part_reach_ok [OF assms(1)] by (simp add: partOk_def E_def)
  obtain p c where c: "prepareCompaction (branch (se_part seat)) (se_settings seat) = Inr (Some p)"
    "compact contentText ask (se_maxTokens seat) now (se_settings seat) p = Inr c" "part' = appendCompaction c (se_part seat)"
    "ct_messages ct = context_of_part part'" "cp_firstKept c = pc_firstKept p" using assms(2) by (rule compactIfOver_cut)
  have E': "ep_entries part' = E @ [CompactionEntry c]" by (simp add: c(3) appendCompaction_def append_entry_def E_def)
  have ok': "cutsOk (ep_entries part')" using partOk_cut [OF part_reach_ok [OF assms(1)] assms(2)] by (simp add: partOk_def)
  note covers = prepare_covers [OF ok [unfolded E_def] c(1), folded E_def]
  have kept: "keptFrom (ep_entries part') = pc_firstKept p" by (simp add: E' keptFrom_def c(5))
  have "plainMessages (context_of_part (se_part seat)) = messages (drop (keptFrom E) E)"
    using plain_context [OF ok [unfolded E_def]] by (simp add: E_def)
  also have "\<dots> = (pc_messagesToSummarize p @ pc_turnPrefixMessages p) @ messages (drop (pc_firstKept p) E)"
    unfolding covers(3) using slice_drop_append [OF covers(1), of E] by (metis concat_append map_append)
  also have "messages (drop (pc_firstKept p) E) = plainMessages (ct_messages ct)"
    using plain_context [OF ok'] covers(2) kept by (simp add: c(4) E')
  finally have "plainMessages (context_of_part (se_part seat)) = pc_messagesToSummarize p @ pc_turnPrefixMessages p @ plainMessages (ct_messages ct)"
    by simp
  moreover have "hd (ct_messages ct) = summaryMessage c" using context_of_entries [OF ok'] by (simp add: c(4) E')
  ultimately show ?thesis using c E' by (auto simp: E_def)
qed

definition exampleContentText :: content_text where
  "exampleContentText c sep = (case c of CText t \<Rightarrow> t | CBlocks bs \<Rightarrow> concat (map (\<lambda>b. case b of TextBlock t \<Rightarrow> t | _ \<Rightarrow> []) bs))"

definition exampleAsk :: summarizer where
  "exampleAsk prompt budget = \<lparr>sr_stopReason = StopStop, sr_errorMessage = [], sr_content = [TextBlock (js ''so far'')], sr_usage = noUsage\<rparr>"

definition examplePart :: EnginePart where
  "examplePart = openEnginePart False None ''p'' 0 [HistoryUser (js ''the task''), HistoryAssistant (js ''the work'')]"

definition exampleSettings :: CompactionSettings where
  "exampleSettings = \<lparr>cs_enabled = True, cs_reserveTokens = 0, cs_keepRecentTokens = 1\<rparr>"

definition exampleSeat :: CompactionSeat where
  "exampleSeat = \<lparr>se_part = examplePart, se_contextWindow = 3, se_maxTokens = 0, se_settings = exampleSettings, se_aborted = False\<rparr>"

lemma examplePart_entries:
  "ep_entries examplePart = [MessageEntry (UserMsg (CText (js ''the task'')) 0), MessageEntry (AssistantMsg [TextBlock (js ''the work'')] (Some noUsage) StopStop 0)]"
  by (simp add: examplePart_def openEnginePart_def seeded_def)

lemma js_length [simp]: "length (js s) = length s"
  by (simp add: js_def)

lemma example_estimate: "ce_tokens (estimateContextTokens (context_of_part examplePart)) = 4"
  by (simp add: context_of_part_def branch_def examplePart_entries branchStart_def contextOf_def estimateContextTokens_def
      calculateContextTokens_def noUsage_def quarter_def)

lemma example_prepared:
  "prepareCompaction (branch examplePart) exampleSettings =
     Inr (Some \<lparr>pc_firstKept = 1, pc_messagesToSummarize = [], pc_turnPrefixMessages = [UserMsg (CText (js ''the task'')) 0], pc_isSplitTurn = True,
       pc_tokensBefore = 4, pc_previousSummary = None, pc_fileOps = noOps\<rparr>)"
  using example_estimate
  by (simp add: prepareCompaction_def branch_def examplePart_entries branchStart_def context_of_part_def findCutPoint_def findValidCutPoints_def
      exampleSettings_def findTurnStartIndex_def quarter_def slice_def upt_rec Let_def)

lemma example_cut: "\<exists>ct part'. compactIfOver exampleContentText exampleAsk 0 exampleSeat = Inr (Some (ct, part'))"
  using example_prepared example_estimate
  by (simp add: compactIfOver_def exampleSeat_def overContextThreshold_def exampleSettings_def branch_def examplePart_entries branchStart_def
      compact_def generateTurnPrefixSummary_def answerText_def exampleAsk_def Let_def)

theorem cut_keeps_every_message_witness:
  "\<exists>ct part' p. compactIfOver exampleContentText exampleAsk 0 exampleSeat = Inr (Some (ct, part'))
     \<and> prepareCompaction (branch examplePart) exampleSettings = Inr (Some p)
     \<and> plainMessages (context_of_part examplePart) = pc_messagesToSummarize p @ pc_turnPrefixMessages p @ plainMessages (ct_messages ct)"
proof -
  obtain ct part' where cut: "compactIfOver exampleContentText exampleAsk 0 exampleSeat = Inr (Some (ct, part'))" using example_cut by blast
  have "part_reach (se_part exampleSeat)"
    unfolding exampleSeat_def examplePart_def by (simp add: part_reach.fresh_part)
  from cut_keeps_every_message [OF this cut] cut show ?thesis by (auto simp: exampleSeat_def)
qed

section \<open>Calls and their results\<close>

fun isToolResult :: "TranscriptEntry \<Rightarrow> bool" where
  "isToolResult (MessageEntry (ToolResultMsg cid bs t)) = True"
| "isToolResult _ = False"

fun callsTool :: "jsstr \<Rightarrow> TranscriptEntry \<Rightarrow> bool" where
  "callsTool cid (MessageEntry (AssistantMsg bs u stop t)) = (\<exists>name args. ToolCall cid name args \<in> set bs)"
| "callsTool cid _ = False"

text \<open>The order in which the engine completes messages: a tool's result follows the answer that called it, with only results of the same
  answer between them.\<close>

definition callsPaired :: "TranscriptEntry list \<Rightarrow> bool" where
  "callsPaired es \<longleftrightarrow> (\<forall>j cid bs t. j < length es \<longrightarrow> es ! j = MessageEntry (ToolResultMsg cid bs t) \<longrightarrow>
     (\<exists>i < j. callsTool cid (es ! i) \<and> (\<forall>k. i < k \<and> k < j \<longrightarrow> isToolResult (es ! k))))"

lemma isCutEntry_not_result: "isCutEntry e \<Longrightarrow> \<not> isToolResult e"
  by (cases e rule: isCutEntry.cases) auto

lemma callsPaired_prefix: "callsPaired (es @ fs) \<Longrightarrow> callsPaired es"
  unfolding callsPaired_def
proof (intro allI impI)
  fix j cid bs t
  assume paired: "\<forall>j cid bs t. j < length (es @ fs) \<longrightarrow> (es @ fs) ! j = MessageEntry (ToolResultMsg cid bs t) \<longrightarrow>
     (\<exists>i < j. callsTool cid ((es @ fs) ! i) \<and> (\<forall>k. i < k \<and> k < j \<longrightarrow> isToolResult ((es @ fs) ! k)))"
    and j: "j < length es" "es ! j = MessageEntry (ToolResultMsg cid bs t)"
  obtain i where i: "i < j" "callsTool cid ((es @ fs) ! i)" "\<forall>k. i < k \<and> k < j \<longrightarrow> isToolResult ((es @ fs) ! k)"
    using paired [rule_format, of j cid bs t] j by (auto simp: nth_append)
  have "isToolResult (es ! k)" if "i < k" "k < j" for k
    using i(3) that j(1) by (metis nth_append order_less_trans)
  then show "\<exists>i < j. callsTool cid (es ! i) \<and> (\<forall>k. i < k \<and> k < j \<longrightarrow> isToolResult (es ! k))"
    using i(1,2) j(1) by (intro exI [of _ i]) (simp add: nth_append)
qed

lemma callsPaired_drop:
  assumes "callsPaired es" "n < length es" "\<not> isToolResult (es ! n)"
  shows "callsPaired (drop n es)"
  unfolding callsPaired_def
proof (intro allI impI)
  fix j cid bs t assume j: "j < length (drop n es)" "drop n es ! j = MessageEntry (ToolResultMsg cid bs t)"
  then have "es ! (n + j) = MessageEntry (ToolResultMsg cid bs t)" "n + j < length es" by auto
  then obtain i where i: "i < n + j" "callsTool cid (es ! i)" "\<forall>k. i < k \<and> k < n + j \<longrightarrow> isToolResult (es ! k)"
    using assms(1) unfolding callsPaired_def by blast
  have "n \<le> i"
  proof (rule ccontr)
    assume "\<not> n \<le> i"
    moreover have "j \<noteq> 0" using j assms(3) by (cases j) auto
    ultimately show False using i(3) assms(3) by auto
  qed
  then show "\<exists>i < j. callsTool cid (drop n es ! i) \<and> (\<forall>k. i < k \<and> k < j \<longrightarrow> isToolResult (drop n es ! k))"
    using i assms(2) j by (intro exI [of _ "i - n"]) auto
qed

lemma findCutPoint_no_result:
  assumes "start < length es" "\<not> isToolResult (es ! start)"
  shows "\<not> isToolResult (es ! firstKeptEntryIndex (findCutPoint es start (length es) keep))"
proof (cases "findValidCutPoints es start (length es) = []")
  case True
  then show ?thesis using assms by (simp add: findCutPoint_def)
next
  case False
  then obtain p where "start \<le> p" "p < length es" "isCutEntry (es ! p)" "firstKeptEntryIndex (findCutPoint es start (length es) keep) = moveBack es start p"
    by (rule findCutPoint_points)
  then show ?thesis
    using moveBack_bounds [of start p es] moveBack_skips [of es start p "moveBack es start p"] isCutEntry_not_result
    by (cases "moveBack es start p = p") auto
qed

lemma newestCompaction_append: "n \<le> length es \<Longrightarrow> newestCompaction (es @ fs) n = newestCompaction es n"
  by (induction n) (auto simp: nth_append split: TranscriptEntry.splits)

lemma keptFrom_append: "\<not> isCompaction e \<Longrightarrow> keptFrom (es @ [e]) = keptFrom es"
  by (cases e) (auto simp: keptFrom_def newestCompaction_append)

lemma keptFrom_le: "cutsOk es \<Longrightarrow> keptFrom es \<le> length es"
  using newest_firstKept by (fastforce simp: keptFrom_def split: option.splits)

lemma appended_no_result:
  assumes "cutsOk es" "es \<noteq> [] \<Longrightarrow> \<not> isToolResult (es ! keptFrom es)" "callsPaired (es @ [e])" "\<not> isCompaction e"
  shows "\<not> isToolResult ((es @ [e]) ! keptFrom (es @ [e]))"
proof (cases "es = []")
  case True
  then show ?thesis using assms(3,4) by (cases e rule: isToolResult.cases) (auto simp: callsPaired_def keptFrom_append keptFrom_def)
next
  case False
  then show ?thesis using assms keptFrom_bounds [OF assms(1)] by (simp add: keptFrom_append nth_append)
qed

lemma prepared_no_result:
  assumes "cutsOk (ep_entries part)" "prepareCompaction (branch part) settings = Inr (Some p)"
    "\<not> isToolResult (ep_entries part ! keptFrom (ep_entries part))"
  shows "\<not> isToolResult (ep_entries part ! pc_firstKept p)"
proof -
  define E where "E = ep_entries part"
  define es where "es = drop (branchStart E) E"
  note covers = prepare_covers [OF assms(1,2), folded E_def, folded es_def]
  have b: "branchStart E \<le> keptFrom E" "keptFrom E < length E"
    using keptFrom_bounds [of E] assms(1) covers(1,2) by (cases "E = []"; auto simp: E_def)+
  have "\<not> isToolResult (es ! firstKeptEntryIndex (findCutPoint es (keptFrom E - branchStart E) (length es) (cs_keepRecentTokens settings)))"
    using assms(3) b by (intro findCutPoint_no_result) (auto simp: es_def E_def)
  then show ?thesis using b covers(4) by (simp add: es_def E_def)
qed

text \<open>No Compaction keeps from a tool result.\<close>

lemma kept_no_result:
  "part_reach part \<Longrightarrow> callsPaired (ep_entries part) \<Longrightarrow> ep_entries part \<noteq> [] \<Longrightarrow> \<not> isToolResult (ep_entries part ! keptFrom (ep_entries part))"
proof (induction rule: part_reach.induct)
  case (fresh_part persists at' fresh now history)
  define part where "part = openEnginePart persists at' fresh now history"
  have entries: "ep_entries part = seeded now history" using fresh_part(1) by (auto simp: part_def openEnginePart_def Let_def)
  then have "newest (ep_entries part) = None" by (auto simp: newestCompaction_None seeded_def)
  then have "keptFrom (ep_entries part) = 0" by (simp add: keptFrom_def)
  moreover have "\<not> isToolResult (seeded now history ! 0)" if "history \<noteq> []"
    using that by (cases history; cases "hd history") (auto simp: seeded_def)
  ultimately show ?case using fresh_part(3) entries unfolding part_def [symmetric] by (auto simp: seeded_def)
next
  case (message_step part m)
  have ok: "cutsOk (ep_entries part)" using part_reach_ok [OF message_step(1)] by (simp add: partOk_def)
  have paired: "callsPaired (ep_entries part @ [MessageEntry m])" using message_step.prems(1) by (simp add: appendMessage_def append_entry_def)
  show ?case using appended_no_result [OF ok message_step.IH [OF callsPaired_prefix [OF paired]] paired] by (simp add: appendMessage_def append_entry_def)
next
  case (submission_step part)
  have ok: "cutsOk (ep_entries part)" using part_reach_ok [OF submission_step(1)] by (simp add: partOk_def)
  have paired: "callsPaired (ep_entries part @ [SubmissionEntry])" using submission_step.prems(1) by (simp add: appendSubmission_def append_entry_def)
  show ?case using appended_no_result [OF ok submission_step.IH [OF callsPaired_prefix [OF paired]] paired] by (simp add: appendSubmission_def append_entry_def)
next
  case (cut_step seat contentText ask now ct part')
  then obtain p c where c: "prepareCompaction (branch (se_part seat)) (se_settings seat) = Inr (Some p)" "part' = appendCompaction c (se_part seat)"
    "cp_firstKept c = pc_firstKept p" by (elim compactIfOver_cut)
  have E': "ep_entries part' = ep_entries (se_part seat) @ [CompactionEntry c]" by (simp add: c(2) appendCompaction_def append_entry_def)
  have ok: "cutsOk (ep_entries (se_part seat))" using part_reach_ok [OF cut_step(1)] by (simp add: partOk_def)
  note covers = prepare_covers [OF ok c(1)]
  have "\<not> isToolResult (ep_entries (se_part seat) ! keptFrom (ep_entries (se_part seat)))"
    using cut_step(4) covers(1,2) by (intro cut_step.IH) (auto simp: E' dest: callsPaired_prefix)
  then show ?case using prepared_no_result [OF ok c(1)] covers(2) c(3) by (simp add: E' keptFrom_def nth_append)
next
  case (restart_step part f torn fresh now history)
  then show ?case by (simp add: openEnginePart_reopens [OF part_reach_ok])
qed



section \<open>Restart and the latch\<close>

text \<open>C9. A Harness that restarts reopens the part it had. Whatever bytes a torn last write left, the transcript of a reached conversation reads back
  with its identity and every entry, and the model reads the same context as before.\<close>

theorem transcript_survives_restart:
  assumes "part_reach part" "ep_file part = Some f"
  shows "openEnginePart True (Some (f\<lparr>tf_torn := torn\<rparr>)) fresh now history = part\<lparr>ep_file := Some (f\<lparr>tf_torn := False\<rparr>)\<rparr>
    \<and> context_of_part (openEnginePart True (Some (f\<lparr>tf_torn := torn\<rparr>)) fresh now history) = context_of_part part"
  using openEnginePart_reopens [OF part_reach_ok [OF assms(1)] assms(2)] by (simp add: context_of_part_def branch_def)

theorem transcript_survives_restart_witness:
  "openEnginePart True (Some \<lparr>tf_lines = [HeaderLine 1 ''p'', SubmissionLine], tf_torn = True\<rparr>) ''q'' 5 [HistoryUser []]
     = \<lparr>ep_id = ''p'', ep_entries = [SubmissionEntry], ep_file = Some \<lparr>tf_lines = [HeaderLine 1 ''p'', SubmissionLine], tf_torn = False\<rparr>\<rparr>"
proof -
  define part where "part = appendSubmission (openEnginePart True None ''p'' 0 [])"
  have eval: "part = \<lparr>ep_id = ''p'', ep_entries = [SubmissionEntry], ep_file = Some \<lparr>tf_lines = [HeaderLine 1 ''p'', SubmissionLine], tf_torn = False\<rparr>\<rparr>"
    by (simp add: part_def appendSubmission_def append_entry_def openEnginePart_def readTranscript_def seeded_def TRANSCRIPT_VERSION_def)
  have "part_reach part" unfolding part_def by (intro part_reach.submission_step part_reach.fresh_part) (simp add: readTranscript_def)
  from transcript_survives_restart [OF this, of "\<lparr>tf_lines = [HeaderLine 1 ''p'', SubmissionLine], tf_torn = False\<rparr>" True "''q''" 5 "[HistoryUser []]"]
  show ?thesis by (simp add: eval)
qed

lemma entries_appendMessages: "ep_entries (fold appendMessage ms part) = ep_entries part @ map MessageEntry ms"
  by (induction ms arbitrary: part) (auto simp: appendMessage_def append_entry_def)

lemma reach_appendMessages: "part_reach part \<Longrightarrow> part_reach (fold appendMessage ms part)"
  by (induction ms arbitrary: part) (auto intro: part_reach.message_step)

lemma newest_then_messages: "newest (es @ CompactionEntry c # map MessageEntry ms) = Some (length es, c)"
proof (induction ms rule: rev_induct)
  case (snoc m ms)
  then show ?case using newestCompaction_append [of "length (es @ CompactionEntry c # map MessageEntry ms)" "es @ CompactionEntry c # map MessageEntry ms" "[MessageEntry m]"]
    by (simp add: nth_append)
qed simp

lemma lastUsage_none: "(\<And>j m. j < i \<Longrightarrow> es ! j = MessageEntry m \<Longrightarrow> getAssistantUsage (Msg m) = None) \<Longrightarrow> lastUsage es i = None"
proof (induction i)
  case (Suc i)
  have "lastUsage es i = None" using Suc.prems less_SucI by (intro Suc.IH) blast
  then show ?case using Suc.prems [of i] by (cases "es ! i") auto
qed simp

text \<open>A cut is not taken twice on one reading. After a cut, whatever messages are appended that carry no valid usage of their own (the prompt, tool
  results, an answer that failed or was aborted), no request cuts again, at any threshold and with any budget: the reading that triggered
  the cut, which its kept messages still carry, does not trigger another.\<close>

theorem no_second_cut_without_usage:
  assumes "part_reach (se_part seat)" "compactIfOver contentText ask now seat = Inr (Some (ct, part'))"
    "\<forall>m \<in> set ms. getAssistantUsage (Msg m) = None"
  shows "compactIfOver contentText' ask' now' (seat'\<lparr>se_part := fold appendMessage ms part'\<rparr>) = Inr None"
proof -
  define E where "E = ep_entries (se_part seat)"
  define part'' where "part'' = fold appendMessage ms part'"
  obtain c where c: "part' = appendCompaction c (se_part seat)" using assms(2) by (rule compactIfOver_cut)
  have F: "ep_entries part'' = E @ CompactionEntry c # map MessageEntry ms"
    by (simp add: part''_def entries_appendMessages c appendCompaction_def append_entry_def E_def)
  have "part_reach part''" unfolding part''_def by (rule reach_appendMessages [OF part_reach.cut_step [OF assms(1,2)]])
  then have ok: "cutsOk (ep_entries part'')" using part_reach_ok by (simp add: partOk_def)
  have newest: "newest (ep_entries part'') = Some (length E, c)" unfolding F by (rule newest_then_messages)
  define start where "start = branchStart (ep_entries part'')"
  have "start \<le> length E" using branchStart_newest [OF ok newest] newest_firstKept [OF ok newest] by (simp add: start_def)
  then have "drop (Suc (length E - start)) (drop start (ep_entries part'')) = map MessageEntry ms"
    by (simp add: F drop_drop [symmetric] del: drop_drop)
  moreover have "getLastAssistantUsage (map MessageEntry ms) = None"
    unfolding getLastAssistantUsage_def using assms(3) by (intro lastUsage_none) auto
  ultimately show ?thesis using newest_branch [OF ok] newest
    by (simp add: compactIfOver_def part''_def [symmetric] branch_def start_def [symmetric] Let_def)
qed

theorem no_second_cut_without_usage_witness:
  "\<exists>ct part'. compactIfOver exampleContentText exampleAsk 0 exampleSeat = Inr (Some (ct, part'))
     \<and> compactIfOver exampleContentText exampleAsk 1 (exampleSeat\<lparr>se_part := appendMessage (AssistantMsg [] (Some noUsage) StopError 1) part'\<rparr>) = Inr None"
proof -
  obtain ct part' where cut: "compactIfOver exampleContentText exampleAsk 0 exampleSeat = Inr (Some (ct, part'))" using example_cut by blast
  have reach: "part_reach (se_part exampleSeat)"
    unfolding exampleSeat_def examplePart_def by (simp add: part_reach.fresh_part)
  from no_second_cut_without_usage [OF reach cut, of "[AssistantMsg [] (Some noUsage) StopError 1]" exampleContentText exampleAsk 1 exampleSeat] cut
  show ?thesis by auto
qed

section \<open>How much is kept\<close>

fun entryTokens :: "TranscriptEntry \<Rightarrow> nat" where
  "entryTokens (MessageEntry m) = estimateTokens (Msg m)"
| "entryTokens _ = 0"

text \<open>The estimate of the messages from an entry on.\<close>

definition tokensFrom :: "TranscriptEntry list \<Rightarrow> nat \<Rightarrow> nat" where
  "tokensFrom es i = sum_list (map entryTokens (drop i es))"

lemma tokensFrom_Suc: "i < length es \<Longrightarrow> tokensFrom es i = entryTokens (es ! i) + tokensFrom es (Suc i)"
  by (simp add: tokensFrom_def Cons_nth_drop_Suc [symmetric])

lemma tokensFrom_mono: "i \<le> j \<Longrightarrow> tokensFrom es j \<le> tokensFrom es i"
proof (induction j)
  case (Suc j)
  have "tokensFrom es (Suc j) \<le> tokensFrom es j" using tokensFrom_Suc [of j es] by (cases "j < length es") (auto simp: tokensFrom_def)
  then show ?case using Suc by (cases "i = Suc j") auto
qed simp

lemma tokensFrom_drop: "tokensFrom (drop s es) i = tokensFrom es (s + i)"
  by (simp add: tokensFrom_def add.commute)

lemma tokens_messages: "sum_list (map (\<lambda>m. estimateTokens (Msg m)) (messages es)) = sum_list (map entryTokens es)"
proof (induction es)
  case (Cons e es)
  then show ?case by (cases e) auto
qed simp

lemma tokensFrom_moveBack: "start \<le> i \<Longrightarrow> i \<le> length es \<Longrightarrow> tokensFrom es (moveBack es start i) = tokensFrom es i"
  by (induction es start i rule: moveBack.induct) (auto simp: tokensFrom_Suc split: TranscriptEntry.splits)

text \<open>The walk ends at the entry that fills the budget, or finds it never filled.\<close>

lemma cutWalk_budget:
  assumes "acc = tokensFrom es i" "acc < keep" "start \<le> i" "i \<le> length es"
  shows "(\<exists>j. start \<le> j \<and> j < i \<and> tokensFrom es (Suc j) < keep \<and> keep \<le> tokensFrom es j
       \<and> cutWalk es points keep start i acc cutIndex = (case find (\<lambda>p. j \<le> p) points of Some p \<Rightarrow> p | None \<Rightarrow> cutIndex))
    \<or> (tokensFrom es start < keep \<and> cutWalk es points keep start i acc cutIndex = cutIndex)"
  using assms
proof (induction i arbitrary: acc)
  case 0
  then show ?case by simp
next
  case (Suc i)
  show ?case
  proof (cases "i < start")
    case True
    then show ?thesis using Suc.prems by (simp add: le_Suc_eq)
  next
    case False
    then have i: "i < length es" "start \<le> i" using Suc.prems by auto
    then have step: "tokensFrom es i = entryTokens (es ! i) + acc" using Suc.prems(1) tokensFrom_Suc by simp
    show ?thesis
    proof (cases "keep \<le> tokensFrom es i")
      case True
      then obtain m where "es ! i = MessageEntry m" using step Suc.prems(2) by (cases "es ! i") auto
      then have "cutWalk es points keep start (Suc i) acc cutIndex = (case find (\<lambda>p. i \<le> p) points of Some p \<Rightarrow> p | None \<Rightarrow> cutIndex)"
        using True step False by (simp add: add.commute)
      then show ?thesis using True i Suc.prems(1,2) by blast
    next
      case less: False
      have "cutWalk es points keep start (Suc i) acc cutIndex = cutWalk es points keep start i (tokensFrom es i) cutIndex"
        using less step False by (cases "es ! i") (auto simp: add.commute)
      then show ?thesis using Suc.IH [of "tokensFrom es i"] less i by (auto simp: less_Suc_eq)
    qed
  qed
qed

lemma tokensFrom_end: "tokensFrom es (length es) = 0"
  by (simp add: tokensFrom_def)

lemma cut_points_find:
  assumes "find (\<lambda>p. k \<le> p) (findValidCutPoints es start end') = Some q"
  shows "k \<le> q \<and> start \<le> q \<and> q < end' \<and> isCutEntry (es ! q)"
  using assms in_cutPoints nth_mem unfolding find_Some_iff by metis

lemma findCutPoint_budget:
  assumes "0 < keep" "start < length es" "start \<le> j" "j < length es" "isCutEntry (es ! j)" "tokensFrom es j < keep"
  shows "\<exists>k. start \<le> k \<and> k < length es \<and> tokensFrom es (firstKeptEntryIndex (findCutPoint es start (length es) keep)) < keep + entryTokens (es ! k)"
proof -
  define points where "points = findValidCutPoints es start (length es)"
  have j: "j \<in> set points" using assms by (simp add: points_def in_cutPoints)
  then have "findValidCutPoints es start (length es) \<noteq> []" by (auto simp: points_def)
  then obtain p where p: "start \<le> p" "p < length es" "firstKeptEntryIndex (findCutPoint es start (length es) keep) = moveBack es start p"
    "p = cutWalk es points keep start (length es) 0 (hd points)" unfolding points_def by (rule findCutPoint_points)
  have kept: "tokensFrom es (firstKeptEntryIndex (findCutPoint es start (length es) keep)) = tokensFrom es p"
    using p by (simp add: tokensFrom_moveBack)
  show ?thesis
    using cutWalk_budget [OF tokensFrom_end [symmetric] assms(1) less_imp_le [OF assms(2)] order_refl, of points "hd points", folded p(4)]
  proof (elim disjE exE conjE)
    fix k assume k: "start \<le> k" "k < length es" "tokensFrom es (Suc k) < keep" "keep \<le> tokensFrom es k"
      "p = (case find (\<lambda>p. k \<le> p) points of Some p \<Rightarrow> p | None \<Rightarrow> hd points)"
    have "k \<le> j" using k(4) assms(6) tokensFrom_mono [of j k es] by linarith
    then obtain q where q: "find (\<lambda>p. k \<le> p) points = Some q" using j by (metis find_None_iff option.exhaust)
    then have "k \<le> p" using k(5) cut_points_find unfolding points_def by fastforce
    then have "tokensFrom es p < keep + entryTokens (es ! k)" using tokensFrom_mono [of k p es] tokensFrom_Suc [OF k(2)] k(3) by linarith
    then show ?thesis using k kept by auto
  next
    assume "tokensFrom es start < keep"
    then show ?thesis using tokensFrom_mono [OF p(1), of es] kept assms(2) by (intro exI [of _ start]) simp
  qed
qed

lemma findCutPoint_oversized:
  assumes "0 < keep" "start < length es" "\<And>j. start \<le> j \<Longrightarrow> j < length es \<Longrightarrow> isCutEntry (es ! j) \<Longrightarrow> keep \<le> tokensFrom es (Suc j)"
    "start \<le> i" "i < firstKeptEntryIndex (findCutPoint es start (length es) keep)"
  shows "\<not> isCutEntry (es ! i)"
proof -
  define points where "points = findValidCutPoints es start (length es)"
  show ?thesis
  proof (cases "points = []")
    case True
    then show ?thesis using assms(4,5) by (simp add: points_def findCutPoint_def)
  next
    case False
    then obtain p where p: "start \<le> p" "p < length es" "firstKeptEntryIndex (findCutPoint es start (length es) keep) = moveBack es start p"
      "p = cutWalk es points keep start (length es) 0 (hd points)" unfolding points_def by (rule findCutPoint_points)
    have "p = hd points"
      using cutWalk_budget [OF tokensFrom_end [symmetric] assms(1) less_imp_le [OF assms(2)] order_refl, of points "hd points", folded p(4)]
    proof (elim disjE exE conjE)
      fix k assume k: "tokensFrom es (Suc k) < keep" "p = (case find (\<lambda>p. k \<le> p) points of Some p \<Rightarrow> p | None \<Rightarrow> hd points)"
      show ?thesis
      proof (cases "find (\<lambda>p. k \<le> p) points")
        case (Some q)
        then have "keep \<le> tokensFrom es (Suc q)" "k \<le> q" using cut_points_find assms(3) unfolding points_def by blast+
        then show ?thesis using k(1) tokensFrom_mono [of "Suc k" "Suc q" es] by simp
      qed (use k in simp)
    qed
    moreover have "hd points \<le> q" if "q \<in> set points" for q
    proof -
      have "sorted points" unfolding points_def findValidCutPoints_def by (rule sorted_wrt_filter) simp
      then show ?thesis using that by (cases points) auto
    qed
    moreover have "i < p" using moveBack_bounds [OF p(1), of es] assms(5) p(3) by simp
    ultimately show ?thesis using assms(4) p(2) by (fastforce simp: points_def in_cutPoints)
  qed
qed

text \<open>What a cut leaves, over the whole transcript: the kept messages and the cut point of the branch.\<close>

lemma cut_of_branch:
  assumes "part_reach (se_part seat)" "compactIfOver contentText ask now seat = Inr (Some (ct, part'))"
  defines "E \<equiv> ep_entries (se_part seat)"
  defines "es \<equiv> drop (branchStart E) E"
  obtains p where "prepareCompaction (branch (se_part seat)) (se_settings seat) = Inr (Some p)"
    "plainMessages (ct_messages ct) = messages (drop (pc_firstKept p) E)"
    "pc_firstKept p = branchStart E + firstKeptEntryIndex (findCutPoint es (keptFrom E - branchStart E) (length es) (cs_keepRecentTokens (se_settings seat)))"
    "branchStart E \<le> keptFrom E" "keptFrom E < length E" "keptFrom E \<le> pc_firstKept p" "pc_firstKept p < length E" "cutsOk E"
proof -
  have ok: "cutsOk E" using part_reach_ok [OF assms(1)] by (simp add: partOk_def E_def)
  have ok': "cutsOk (ep_entries part')" using partOk_cut [OF part_reach_ok [OF assms(1)] assms(2)] by (simp add: partOk_def)
  obtain p c where c: "prepareCompaction (branch (se_part seat)) (se_settings seat) = Inr (Some p)" "part' = appendCompaction c (se_part seat)"
    "ct_messages ct = context_of_part part'" "cp_firstKept c = pc_firstKept p" using assms(2) by (rule compactIfOver_cut)
  have E': "ep_entries part' = E @ [CompactionEntry c]" by (simp add: c(2) appendCompaction_def append_entry_def E_def)
  note covers = prepare_covers [OF ok [unfolded E_def] c(1), folded E_def, folded es_def]
  have "plainMessages (ct_messages ct) = messages (drop (pc_firstKept p) E)"
    using plain_context [OF ok'] covers(2) by (simp add: c(3) E' keptFrom_def c(4))
  moreover have "branchStart E \<le> keptFrom E" "keptFrom E < length E" using keptFrom_bounds [OF ok] covers(1,2) by (cases "E = []"; auto)+
  ultimately show ?thesis using that c(1) covers(1,2,4) ok by blast
qed

text \<open>A cut brings the context down to its budget. When some user or assistant message still in the context has, with everything after it, an
  estimate below the tokens to keep, the messages that the model reads verbatim after a cut are estimated below that number plus the
  estimate of a single entry.\<close>

theorem kept_within_budget:
  assumes "part_reach (se_part seat)" "compactIfOver contentText ask now seat = Inr (Some (ct, part'))"
    "keptFrom (ep_entries (se_part seat)) \<le> j" "j < length (ep_entries (se_part seat))" "isCutEntry (ep_entries (se_part seat) ! j)"
    "tokensFrom (ep_entries (se_part seat)) j < cs_keepRecentTokens (se_settings seat)"
  shows "\<exists>k < length (ep_entries (se_part seat)). sum_list (map (\<lambda>m. estimateTokens (Msg m)) (plainMessages (ct_messages ct)))
    < cs_keepRecentTokens (se_settings seat) + entryTokens (ep_entries (se_part seat) ! k)"
proof -
  define E where "E = ep_entries (se_part seat)"
  define es where "es = drop (branchStart E) E"
  define keep where "keep = cs_keepRecentTokens (se_settings seat)"
  define b where "b = keptFrom E - branchStart E"
  obtain p where "prepareCompaction (branch (se_part seat)) (se_settings seat) = Inr (Some p)"
    and p: "plainMessages (ct_messages ct) = messages (drop (pc_firstKept p) E)"
    "pc_firstKept p = branchStart E + firstKeptEntryIndex (findCutPoint es b (length es) keep)" "branchStart E \<le> keptFrom E" "keptFrom E < length E"
    "keptFrom E \<le> pc_firstKept p" "pc_firstKept p < length E" "cutsOk E"
    using assms(1,2) unfolding E_def es_def keep_def b_def by (rule cut_of_branch)
  have "\<exists>k. b \<le> k \<and> k < length es \<and> tokensFrom es (firstKeptEntryIndex (findCutPoint es b (length es) keep)) < keep + entryTokens (es ! k)"
    using assms(3-6) p(3,4) by (intro findCutPoint_budget [where j = "j - branchStart E"]) (auto simp: es_def b_def keep_def tokensFrom_drop E_def)
  then obtain k where k: "k < length es" "tokensFrom es (firstKeptEntryIndex (findCutPoint es b (length es) keep)) < keep + entryTokens (es ! k)"
    by blast
  have "sum_list (map (\<lambda>m. estimateTokens (Msg m)) (plainMessages (ct_messages ct))) = tokensFrom E (pc_firstKept p)"
    by (simp add: p(1) tokens_messages tokensFrom_def)
  also have "\<dots> < keep + entryTokens (E ! (branchStart E + k))" using k p(2) by (simp add: es_def tokensFrom_drop)
  finally show ?thesis using k(1) by (intro exI [of _ "branchStart E + k"]) (auto simp: es_def E_def keep_def)
qed

text \<open>Results that fill the budget alone are cut around, and nothing is cut. When the tool results after the newest user or assistant message are
  estimated at the tokens to keep or more, the walk back finds no cut point after them and the cut goes to the oldest: the summary covers
  no message, and the model goes on to read every message it read before.\<close>

theorem oversized_results_cut_nothing:
  assumes "part_reach (se_part seat)" "callsPaired (ep_entries (se_part seat))" "compactIfOver contentText ask now seat = Inr (Some (ct, part'))"
    "0 < cs_keepRecentTokens (se_settings seat)"
    "\<forall>j < length (ep_entries (se_part seat)). isCutEntry (ep_entries (se_part seat) ! j) \<longrightarrow>
       cs_keepRecentTokens (se_settings seat) \<le> tokensFrom (ep_entries (se_part seat)) (Suc j)"
  shows "plainMessages (ct_messages ct) = plainMessages (context_of_part (se_part seat))"
proof -
  define E where "E = ep_entries (se_part seat)"
  define es where "es = drop (branchStart E) E"
  define keep where "keep = cs_keepRecentTokens (se_settings seat)"
  define b where "b = keptFrom E - branchStart E"
  obtain p where "prepareCompaction (branch (se_part seat)) (se_settings seat) = Inr (Some p)"
    and p: "plainMessages (ct_messages ct) = messages (drop (pc_firstKept p) E)"
    "pc_firstKept p = branchStart E + firstKeptEntryIndex (findCutPoint es b (length es) keep)" "branchStart E \<le> keptFrom E" "keptFrom E < length E"
    "keptFrom E \<le> pc_firstKept p" "pc_firstKept p < length E" "cutsOk E"
    using assms(1,3) unfolding E_def es_def keep_def b_def by (rule cut_of_branch)
  have over: "\<not> isCutEntry (E ! i)" if "keptFrom E \<le> i" "i < pc_firstKept p" for i
  proof -
    have "keep \<le> tokensFrom es (Suc j)" if "j < length es" "isCutEntry (es ! j)" for j
      using assms(5) that by (simp add: es_def keep_def tokensFrom_drop E_def)
    then have "\<not> isCutEntry (es ! (i - branchStart E))"
      using that p(2-4) assms(4) by (intro findCutPoint_oversized [of keep b]) (auto simp: es_def b_def keep_def)
    then show ?thesis using that p(3,6) by (simp add: es_def)
  qed
  have result: "\<not> isToolResult (E ! i)" if le: "keptFrom E \<le> i" and lt: "i < pc_firstKept p" for i
  proof
    assume "isToolResult (E ! i)"
    then obtain cid bs t where r: "E ! i = MessageEntry (ToolResultMsg cid bs t)" by (elim isToolResult.elims) auto
    have "callsPaired (drop (keptFrom E) E)"
      using kept_no_result [OF assms(1,2)] assms(2) p(4) by (intro callsPaired_drop; cases "E = []") (auto simp: E_def)
    then obtain h where "h < i - keptFrom E" "callsTool cid (drop (keptFrom E) E ! h)"
      using le lt p(6) r unfolding callsPaired_def by (auto dest!: spec [of _ "i - keptFrom E"])
    then have "callsTool cid (E ! (keptFrom E + h))" "keptFrom E + h < pc_firstKept p" using lt p(4) by auto
    moreover have "isCutEntry e" if "callsTool cid e" for e using that by (cases e rule: isCutEntry.cases) auto
    ultimately show False using over [of "keptFrom E + h"] by simp
  qed
  have "messageOf (E ! i) = []" if "keptFrom E \<le> i" "i < pc_firstKept p" for i
    using over [OF that] result [OF that] by (cases "E ! i" rule: isCutEntry.cases) auto
  then have "messages (slice (keptFrom E) (pc_firstKept p) E) = []"
    using p(5,6) by (auto simp: slice_def in_set_conv_nth)
  then have "messages (drop (keptFrom E) E) = messages (drop (pc_firstKept p) E)"
    using slice_drop_append [OF p(5), of E] by (metis append_Nil concat_append map_append)
  then show ?thesis using plain_context [OF p(7) [unfolded E_def]] p(1) by (simp add: E_def)
qed

text \<open>A prepared cut of a well-formed transcript never throws.\<close>

lemma prepare_never_throws:
  assumes "cutsOk (ep_entries part)" "ep_entries part \<noteq> []" "\<not> isCompaction (last (ep_entries part))"
  shows "\<exists>p. prepareCompaction (branch part) settings = Inr (Some p)"
proof -
  define E where "E = ep_entries part"
  define start where "start = branchStart E"
  define es where "es = drop start E"
  have bounds: "start \<le> keptFrom E" "keptFrom E < length E" using keptFrom_bounds [of E] assms by (auto simp: E_def start_def)
  have "boundaryOf start es < length es" using boundaryOf_branch [of E] assms bounds by (simp add: E_def start_def es_def)
  then have "firstKeptEntryIndex (findCutPoint es (boundaryOf start es) (length es) (cs_keepRecentTokens settings)) < length es"
    by (rule findCutPoint_bounds(2))
  moreover have "es \<noteq> []" "\<not> isCompaction (last es)" using assms(3) bounds by (auto simp: es_def E_def)
  ultimately show ?thesis
    by (simp add: branch_def E_def [symmetric] start_def [symmetric] es_def [symmetric] prepareCompaction_def boundaryOf_def [symmetric] Let_def not_le)
qed

lemma example_compacts: "\<exists>c. compact exampleContentText exampleAsk maxTokens now settings p = Inr c"
  by (auto simp: compact_def generateSummary_def generateTurnPrefixSummary_def answerText_def exampleAsk_def Let_def split: sum.splits prod.splits)

lemma example_cuts:
  assumes "part_reach (se_part seat)" "\<not> se_aborted seat" "ep_entries (se_part seat) \<noteq> []" "\<not> isCompaction (last (ep_entries (se_part seat)))"
    "\<And>n c. newest (ep_entries (se_part seat)) = Some (n, c) \<Longrightarrow> getLastAssistantUsage (drop (Suc n) (ep_entries (se_part seat))) \<noteq> None"
    "overContextThreshold (ce_tokens (estimateContextTokens (context_of_part (se_part seat)))) (se_contextWindow seat) (se_settings seat)"
  shows "\<exists>ct c. compactIfOver exampleContentText exampleAsk now seat = Inr (Some (ct, appendCompaction c (se_part seat)))"
proof -
  define E where "E = ep_entries (se_part seat)"
  have ok: "cutsOk E" using part_reach_ok [OF assms(1)] by (simp add: partOk_def E_def)
  obtain p where p: "prepareCompaction (branch (se_part seat)) (se_settings seat) = Inr (Some p)"
    using prepare_never_throws [of "se_part seat"] ok assms(3,4) by (auto simp: E_def)
  obtain c where c: "compact exampleContentText exampleAsk (se_maxTokens seat) now (se_settings seat) p = Inr c" using example_compacts by blast
  have latch: "\<not> (case newest (drop (branchStart E) E) of Some (n, c) \<Rightarrow> getLastAssistantUsage (drop (Suc n) (drop (branchStart E) E)) = None | None \<Rightarrow> False)"
  proof (cases "newest E")
    case None
    then show ?thesis unfolding newest_branch [OF ok] by simp
  next
    case (Some nc)
    obtain n d where nd: "newest E = Some (n, d)" using Some by (cases nc) auto
    then have "branchStart E \<le> n" using branchStart_newest [OF ok nd] newest_firstKept [OF ok nd] by simp
    then have "drop (Suc (n - branchStart E)) (drop (branchStart E) E) = drop (Suc n) E" by simp
    then show ?thesis unfolding newest_branch [OF ok] using nd assms(5) by (simp add: E_def del: drop_drop length_drop)
  qed
  have br: "branch (se_part seat) = (branchStart E, drop (branchStart E) E)" by (simp add: branch_def E_def Let_def)
  show ?thesis unfolding compactIfOver_def Let_def br prod.case if_not_P [OF latch] using p [unfolded br] c assms(2,6) by auto
qed

text \<open>Two small conversations: one whose newest message is small, and one whose tool result alone fills the budget.\<close>

definition smallSeat :: CompactionSeat where
  "smallSeat = \<lparr>se_part = openEnginePart False None ''p'' 0 [HistoryUser (js ''the task''), HistoryAssistant (js ''the work''), HistoryUser (js ''more'')],
     se_contextWindow = 3, se_maxTokens = 0, se_settings = \<lparr>cs_enabled = True, cs_reserveTokens = 0, cs_keepRecentTokens = 2\<rparr>, se_aborted = False\<rparr>"

definition oversizedSeat :: CompactionSeat where
  "oversizedSeat = smallSeat\<lparr>se_part := fold appendMessage
     [UserMsg (CText (js ''the task'')) 0, AssistantMsg [ToolCall (js ''c'') (js ''read'') []] None StopToolUse 0, ToolResultMsg (js ''c'') [TextBlock (js ''contents'')] 0]
     (openEnginePart False None ''p'' 0 [])\<rparr>"

lemmas estimate_eval = context_of_part_def branch_def branchStart_def contextOf_def estimateContextTokens_def calculateContextTokens_def noUsage_def
  quarter_def overContextThreshold_def entries_appendMessages openEnginePart_def seeded_def argsJson_def

theorem kept_within_budget_witness:
  "\<exists>ct part' k. compactIfOver exampleContentText exampleAsk 0 smallSeat = Inr (Some (ct, part')) \<and> k < 3
     \<and> sum_list (map (\<lambda>m. estimateTokens (Msg m)) (plainMessages (ct_messages ct))) < 2 + entryTokens (ep_entries (se_part smallSeat) ! k)"
proof -
  have reach: "part_reach (se_part smallSeat)" unfolding smallSeat_def by (simp add: part_reach.fresh_part)
  have entries: "ep_entries (se_part smallSeat) = [MessageEntry (UserMsg (CText (js ''the task'')) 0),
      MessageEntry (AssistantMsg [TextBlock (js ''the work'')] (Some noUsage) StopStop 0), MessageEntry (UserMsg (CText (js ''more'')) 0)]"
    by (simp add: smallSeat_def openEnginePart_def seeded_def)
  have "\<exists>ct part'. compactIfOver exampleContentText exampleAsk 0 smallSeat = Inr (Some (ct, part'))"
    using example_cuts [OF reach] by (simp add: entries) (simp add: smallSeat_def estimate_eval, blast)
  then obtain ct part' where cut: "compactIfOver exampleContentText exampleAsk 0 smallSeat = Inr (Some (ct, part'))" by blast
  have settings: "cs_keepRecentTokens (se_settings smallSeat) = 2" by (simp add: smallSeat_def)
  have kept: "keptFrom (ep_entries (se_part smallSeat)) \<le> 2" by (simp add: entries keptFrom_def)
  have cutEntry: "2 < length (ep_entries (se_part smallSeat))" "isCutEntry (ep_entries (se_part smallSeat) ! 2)" by (simp_all add: entries)
  have "tokensFrom (ep_entries (se_part smallSeat)) 2 = 1" by (simp add: entries tokensFrom_def quarter_def)
  then have tokens: "tokensFrom (ep_entries (se_part smallSeat)) 2 < cs_keepRecentTokens (se_settings smallSeat)" by (simp add: settings)
  have "length (ep_entries (se_part smallSeat)) = 3" by (simp add: entries)
  then show ?thesis using kept_within_budget [OF reach cut kept cutEntry tokens] cut unfolding settings by auto
qed

theorem oversized_results_cut_nothing_witness:
  "\<exists>ct part'. compactIfOver exampleContentText exampleAsk 0 oversizedSeat = Inr (Some (ct, part'))
     \<and> plainMessages (ct_messages ct) = plainMessages (context_of_part (se_part oversizedSeat))"
proof -
  have reach: "part_reach (se_part oversizedSeat)"
    unfolding oversizedSeat_def by (simp add: part_reach.fresh_part part_reach.message_step)
  have entries: "ep_entries (se_part oversizedSeat) = [MessageEntry (UserMsg (CText (js ''the task'')) 0),
      MessageEntry (AssistantMsg [ToolCall (js ''c'') (js ''read'') []] None StopToolUse 0), MessageEntry (ToolResultMsg (js ''c'') [TextBlock (js ''contents'')] 0)]"
    by (simp add: oversizedSeat_def entries_appendMessages openEnginePart_def seeded_def appendMessage_def append_entry_def)
  have "\<exists>ct part'. compactIfOver exampleContentText exampleAsk 0 oversizedSeat = Inr (Some (ct, part'))"
    using example_cuts [OF reach] by (simp add: entries)
      (simp add: oversizedSeat_def smallSeat_def estimate_eval appendMessage_def append_entry_def, blast)
  then obtain ct part' where cut: "compactIfOver exampleContentText exampleAsk 0 oversizedSeat = Inr (Some (ct, part'))" by blast
  have paired: "callsPaired (ep_entries (se_part oversizedSeat))"
    unfolding entries callsPaired_def by (auto simp: less_Suc_eq intro!: exI [of _ "Suc 0"])
  have keep: "cs_keepRecentTokens (se_settings oversizedSeat) = 2" by (simp add: oversizedSeat_def smallSeat_def)
  have "\<forall>j < length (ep_entries (se_part oversizedSeat)). isCutEntry (ep_entries (se_part oversizedSeat) ! j) \<longrightarrow>
      cs_keepRecentTokens (se_settings oversizedSeat) \<le> tokensFrom (ep_entries (se_part oversizedSeat)) (Suc j)"
    unfolding keep by (auto simp: entries tokensFrom_def quarter_def less_Suc_eq)
  then have "plainMessages (ct_messages ct) = plainMessages (context_of_part (se_part oversizedSeat))"
    by (intro oversized_results_cut_nothing [OF reach paired cut]) (simp add: keep)
  then show ?thesis using cut by blast
qed

section \<open>A turn that is cut twice\<close>

lemma turnStartBelow_unique:
  "isUserEntry (es ! t) \<Longrightarrow> start \<le> t \<Longrightarrow> t < i \<Longrightarrow> \<forall>j. t < j \<and> j < i \<longrightarrow> \<not> isUserEntry (es ! j) \<Longrightarrow> turnStartBelow es start i = Some t"
proof (induction i)
  case (Suc i)
  then show ?case by (cases "t = i") auto
qed simp

lemma findCutPoint_turnStart:
  "start < firstKeptEntryIndex (findCutPoint es start end' keep) \<Longrightarrow> \<not> isUserEntry (es ! firstKeptEntryIndex (findCutPoint es start end' keep)) \<Longrightarrow>
   turnStartIndex (findCutPoint es start end' keep) = findTurnStartIndex es (firstKeptEntryIndex (findCutPoint es start end' keep)) start
   \<and> isSplitTurn (findCutPoint es start end' keep) = (findTurnStartIndex es (firstKeptEntryIndex (findCutPoint es start end' keep)) start \<noteq> None)"
  by (cases "findValidCutPoints es start end'") (simp_all add: findCutPoint_def Let_def)

text \<open>A cut inside the one turn that a branch keeps: its history is empty and its prefix is not.\<close>

lemma prepare_inside_turn:
  fixes part
  defines "E \<equiv> ep_entries part"
  assumes "cutsOk E" "prepareCompaction (branch part) settings = Inr (Some p)" "keptFrom E \<le> t" "t < pc_firstKept p" "isUserEntry (E ! t)"
    "\<forall>j. keptFrom E \<le> j \<and> j < t \<longrightarrow> E ! j = SubmissionEntry" "\<forall>j. t < j \<and> j < length E \<longrightarrow> \<not> isUserEntry (E ! j)"
  shows "pc_isSplitTurn p" "pc_messagesToSummarize p = []" "pc_turnPrefixMessages p \<noteq> []"
proof -
  define start where "start = branchStart E"
  define es where "es = drop start E"
  define b where "b = keptFrom E - start"
  define cp where "cp = findCutPoint es b (length es) (cs_keepRecentTokens settings)"
  have prep: "prepareCompaction (start, es) settings = Inr (Some p)"
    using assms(3) by (simp add: branch_def E_def start_def es_def Let_def)
  note covers = prepare_covers [OF assms(2) [unfolded E_def] assms(3), folded E_def, folded start_def, folded es_def, folded b_def, folded cp_def]
  have bounds: "start \<le> keptFrom E" "keptFrom E < length E"
    using keptFrom_bounds [OF assms(2)] covers(1,2) by (cases "E = []"; auto simp: start_def)+
  define u where "u = t - start"
  have u: "E ! t = es ! u" "b \<le> u" "u < firstKeptEntryIndex cp" "u < length es" using assms(4,5) bounds covers(2,4) by (auto simp: u_def es_def b_def)
  have "\<not> isUserEntry (es ! firstKeptEntryIndex cp)" using assms(5,8) covers(2,4) bounds by (auto simp: es_def)
  moreover have "\<forall>j. u < j \<and> j < Suc (firstKeptEntryIndex cp) \<longrightarrow> \<not> isUserEntry (es ! j)"
  proof (intro allI impI)
    fix j assume j: "u < j \<and> j < Suc (firstKeptEntryIndex cp)"
    then have "t < start + j" "start + j < length E" using assms(4) bounds covers(2,4) by (auto simp: u_def)
    then show "\<not> isUserEntry (es ! j)" using assms(8) by (simp add: es_def)
  qed
  moreover have "isUserEntry (es ! u)" using assms(6) u(1) by simp
  ultimately have cp: "turnStartIndex cp = Some u \<and> isSplitTurn cp"
    using u(2,3) turnStartBelow_unique [of es u b "Suc (firstKeptEntryIndex cp)"]
      findCutPoint_turnStart [of b es "length es" "cs_keepRecentTokens settings", folded cp_def]
    by (simp add: findTurnStartIndex_def)
  have boundary: "boundaryOf start es = b" using boundaryOf_branch [OF assms(2)] bounds by (cases "E = []") (auto simp: b_def es_def start_def)
  note fields = prepare_fields [OF prep, unfolded boundary, folded cp_def]
  show "pc_isSplitTurn p" using fields(2) cp by simp
  have "messageOf e = []" if e: "e \<in> set (slice b u es)" for e
  proof -
    obtain j where j: "j < u - b" "e = es ! (b + j)" using e u(4) by (auto simp: slice_def in_set_conv_nth)
    then have "keptFrom E \<le> start + (b + j)" "start + (b + j) < t" using bounds assms(4) by (auto simp: b_def u_def)
    then show ?thesis using assms(7) bounds j(2) by (simp add: es_def)
  qed
  then show "pc_messagesToSummarize p = []" using fields(3) cp by simp
  have "es ! u \<in> set (slice u (firstKeptEntryIndex cp) es)"
    using u(3,4) unfolding slice_def in_set_conv_nth by (intro exI [of _ 0]) auto
  then show "pc_turnPrefixMessages p \<noteq> []" using fields(4) cp assms(6) u(1) by (cases "es ! u" rule: isUserEntry.cases) force+
qed

text \<open>C20. A turn that is cut twice forgets what came before it. When the newest Compaction keeps one turn alone (its user message is the first message
  kept and the last one of a user) and the next cut goes inside that turn, the new summary opens with the words for no history, and no
  request that wrote it was shown the previous summary: it is the same whatever that summary said.\<close>

theorem split_turn_forgets_previous_summary:
  assumes "part_reach (se_part seat)" "compactIfOver contentText ask now seat = Inr (Some (ct, appendCompaction c (se_part seat)))"
    "newest (ep_entries (se_part seat)) = Some (n, previous)" "cp_firstKept previous \<le> t" "t < cp_firstKept c"
    "isUserEntry (ep_entries (se_part seat) ! t)"
    "\<forall>j. cp_firstKept previous \<le> j \<and> j < t \<longrightarrow> ep_entries (se_part seat) ! j = SubmissionEntry"
    "\<forall>j. t < j \<and> j < length (ep_entries (se_part seat)) \<longrightarrow> \<not> isUserEntry (ep_entries (se_part seat) ! j)"
  shows "(\<exists>rest. cp_summary c = js ''No prior history.'' @ rest)
    \<and> (\<exists>p. prepareCompaction (branch (se_part seat)) (se_settings seat) = Inr (Some p) \<and> pc_previousSummary p = Some (cp_summary previous)
       \<and> (\<forall>other. compact contentText ask (se_maxTokens seat) now (se_settings seat) (p\<lparr>pc_previousSummary := other\<rparr>) = Inr c))"
proof -
  have ok: "cutsOk (ep_entries (se_part seat))" using part_reach_ok [OF assms(1)] by (simp add: partOk_def)
  obtain p c' where c: "prepareCompaction (branch (se_part seat)) (se_settings seat) = Inr (Some p)"
    "compact contentText ask (se_maxTokens seat) now (se_settings seat) p = Inr c'" "appendCompaction c (se_part seat) = appendCompaction c' (se_part seat)"
    "cp_firstKept c' = pc_firstKept p" using assms(2) by (rule compactIfOver_cut)
  have same: "c' = c" using arg_cong [OF c(3), of ep_entries] by (simp add: appendCompaction_def append_entry_def)
  have kept: "keptFrom (ep_entries (se_part seat)) = cp_firstKept previous" by (simp add: keptFrom_def assms(3))
  have inside: "pc_isSplitTurn p" "pc_messagesToSummarize p = []" "pc_turnPrefixMessages p \<noteq> []"
    using prepare_inside_turn [OF ok c(1), of t] assms(4-) c(4) by (auto simp: kept same)
  have "pc_previousSummary p = Some (cp_summary previous)"
  proof -
    have "pc_previousSummary p = map_option (cp_summary \<circ> snd) (newest (drop (branchStart (ep_entries (se_part seat))) (ep_entries (se_part seat))))"
      using c(1) by (auto simp: branch_def prepareCompaction_def Let_def split: if_splits)
    then show ?thesis by (simp add: newest_branch [OF ok] assms(3) del: length_drop)
  qed
  moreover have "\<exists>rest. cp_summary c = js ''No prior history.'' @ rest"
    using c(2) inside by (auto simp: same compact_def Let_def split: sum.splits prod.splits)
  moreover have "compact contentText ask (se_maxTokens seat) now (se_settings seat) (p\<lparr>pc_previousSummary := other\<rparr>) = Inr c" for other
    using c(2) inside by (auto simp: same compact_def Let_def split: sum.splits prod.splits)
  ultimately show ?thesis using c(1) by blast
qed

text \<open>A conversation of two turns, cut before the second one and then inside it.\<close>

definition twoTurnsSeat :: CompactionSeat where
  "twoTurnsSeat = \<lparr>se_part = openEnginePart False None ''p'' 0 [HistoryUser (js ''the task''), HistoryAssistant (js ''the work''), HistoryUser (js ''more'')],
     se_contextWindow = 3, se_maxTokens = 0, se_settings = exampleSettings, se_aborted = False\<rparr>"

definition longAnswer :: Message where
  "longAnswer = AssistantMsg [TextBlock (js ''the work'')] (Some (noUsage\<lparr>us_totalTokens := 10\<rparr>)) StopStop 0"

lemma twoTurns_entries:
  "ep_entries (se_part twoTurnsSeat) = [MessageEntry (UserMsg (CText (js ''the task'')) 0),
     MessageEntry (AssistantMsg [TextBlock (js ''the work'')] (Some noUsage) StopStop 0), MessageEntry (UserMsg (CText (js ''more'')) 0)]"
  by (simp add: twoTurnsSeat_def openEnginePart_def seeded_def)

lemma cut_firstKept:
  assumes "part_reach (se_part seat)" "compactIfOver contentText ask now seat = Inr (Some (ct, appendCompaction c (se_part seat)))"
    "ep_entries (se_part seat) = E"
  shows "cp_firstKept c = branchStart E + firstKeptEntryIndex (findCutPoint (drop (branchStart E) E) (keptFrom E - branchStart E)
    (length (drop (branchStart E) E)) (cs_keepRecentTokens (se_settings seat)))"
proof -
  obtain p c' where c': "prepareCompaction (branch (se_part seat)) (se_settings seat) = Inr (Some p)"
    "appendCompaction c (se_part seat) = appendCompaction c' (se_part seat)" "cp_firstKept c' = pc_firstKept p"
    using assms(2) by (rule compactIfOver_cut)
  have "c' = c" using arg_cong [OF c'(2), of ep_entries] by (simp add: appendCompaction_def append_entry_def)
  then show ?thesis using prepare_covers(4) [OF _ c'(1)] part_reach_ok [OF assms(1)] c'(3) assms(3) by (simp add: partOk_def)
qed

lemma twoTurns_reach: "part_reach (se_part twoTurnsSeat)"
  unfolding twoTurnsSeat_def by (simp add: part_reach.fresh_part)

lemma twoTurns_first_cut:
  "\<exists>ct c. compactIfOver exampleContentText exampleAsk 0 twoTurnsSeat = Inr (Some (ct, appendCompaction c (se_part twoTurnsSeat))) \<and> cp_firstKept c = 2"
proof -
  have "\<exists>ct c. compactIfOver exampleContentText exampleAsk 0 twoTurnsSeat = Inr (Some (ct, appendCompaction c (se_part twoTurnsSeat)))"
    using example_cuts [OF twoTurns_reach] by (simp add: twoTurns_entries) (simp add: twoTurnsSeat_def exampleSettings_def estimate_eval)
  then obtain ct c where cut: "compactIfOver exampleContentText exampleAsk 0 twoTurnsSeat = Inr (Some (ct, appendCompaction c (se_part twoTurnsSeat)))" by blast
  have keep: "cs_keepRecentTokens (se_settings twoTurnsSeat) = 1" by (simp add: twoTurnsSeat_def exampleSettings_def)
  have "cp_firstKept c = 2" unfolding cut_firstKept [OF twoTurns_reach cut twoTurns_entries] keep
    by (simp add: branchStart_def keptFrom_def findCutPoint_def findValidCutPoints_def upt_rec quarter_def)
  then show ?thesis using cut by blast
qed

theorem split_turn_forgets_previous_summary_witness:
  "\<exists>previous c ct ct' rest. compactIfOver exampleContentText exampleAsk 0 twoTurnsSeat = Inr (Some (ct', appendCompaction previous (se_part twoTurnsSeat)))
     \<and> compactIfOver exampleContentText exampleAsk 1 (twoTurnsSeat\<lparr>se_part := appendMessage longAnswer (appendCompaction previous (se_part twoTurnsSeat))\<rparr>)
         = Inr (Some (ct, appendCompaction c (appendMessage longAnswer (appendCompaction previous (se_part twoTurnsSeat)))))
     \<and> cp_summary c = js ''No prior history.'' @ rest"
proof -
  obtain ct' previous where first: "compactIfOver exampleContentText exampleAsk 0 twoTurnsSeat = Inr (Some (ct', appendCompaction previous (se_part twoTurnsSeat)))"
    "cp_firstKept previous = 2" using twoTurns_first_cut by blast
  define seat where "seat = twoTurnsSeat\<lparr>se_part := appendMessage longAnswer (appendCompaction previous (se_part twoTurnsSeat))\<rparr>"
  have reach: "part_reach (se_part seat)" using part_reach.cut_step [OF twoTurns_reach first(1)] by (simp add: seat_def part_reach.message_step)
  have entries: "ep_entries (se_part seat) = [MessageEntry (UserMsg (CText (js ''the task'')) 0),
      MessageEntry (AssistantMsg [TextBlock (js ''the work'')] (Some noUsage) StopStop 0), MessageEntry (UserMsg (CText (js ''more'')) 0),
      CompactionEntry previous, MessageEntry longAnswer]"
    by (simp add: seat_def appendMessage_def appendCompaction_def append_entry_def twoTurns_entries)
  have newest: "newest (ep_entries (se_part seat)) = Some (3, previous)" by (simp add: entries)
  have settings: "\<not> se_aborted seat" "se_contextWindow seat = 3" "se_settings seat = exampleSettings" by (simp_all add: seat_def twoTurnsSeat_def)
  have "\<exists>ct c. compactIfOver exampleContentText exampleAsk 1 seat = Inr (Some (ct, appendCompaction c (se_part seat)))"
  proof (rule example_cuts [OF reach settings(1)])
    show "overContextThreshold (ce_tokens (estimateContextTokens (context_of_part (se_part seat)))) (se_contextWindow seat) (se_settings seat)"
      by (simp add: context_of_part_def branch_def entries branchStart_def contextOf_def first(2) estimateContextTokens_def longAnswer_def
          calculateContextTokens_def slice_def settings exampleSettings_def overContextThreshold_def)
  qed (auto simp: newest entries getLastAssistantUsage_def longAnswer_def calculateContextTokens_def)
  then obtain ct c where cut: "compactIfOver exampleContentText exampleAsk 1 seat = Inr (Some (ct, appendCompaction c (se_part seat)))" by blast
  have "cp_firstKept c = 4" unfolding cut_firstKept [OF reach cut entries] settings
    by (simp add: branchStart_def keptFrom_def findCutPoint_def findValidCutPoints_def upt_rec quarter_def first(2) exampleSettings_def longAnswer_def Let_def)
  then have "\<exists>rest. cp_summary c = js ''No prior history.'' @ rest"
    using split_turn_forgets_previous_summary [OF reach cut newest, of 2] first(2)
    by (auto simp: entries longAnswer_def less_Suc_eq numeral_3_eq_3 nth_Cons split: nat.splits)
  then show ?thesis using first(1) cut unfolding seat_def by auto
qed

section \<open>The files a summary names\<close>

fun blockCalls :: "jsstr \<Rightarrow> jsstr \<Rightarrow> Block \<Rightarrow> bool" where
  "blockCalls name p (ToolCall cid name' args) = (name' = name \<and> argPath args = Some p)"
| "blockCalls name p _ = False"

fun callsWith :: "jsstr \<Rightarrow> jsstr \<Rightarrow> Message \<Rightarrow> bool" where
  "callsWith name p (AssistantMsg bs u stop t) = (\<exists>b \<in> set bs. blockCalls name p b)"
| "callsWith name p _ = False"

definition modifiesPath :: "jsstr \<Rightarrow> Message \<Rightarrow> bool" where
  "modifiesPath p m \<longleftrightarrow> callsWith (js ''write'') p m \<or> callsWith (js ''edit'') p m"

definition readsPath :: "jsstr \<Rightarrow> Message \<Rightarrow> bool" where
  "readsPath p m \<longleftrightarrow> callsWith (js ''read'') p m"

definition modifiedOps :: "FileOps \<Rightarrow> jsstr set" where
  "modifiedOps ops = set (fo_edited ops) \<union> set (fo_written ops)"

lemma tool_names: "js ''read'' \<noteq> js ''write''" "js ''read'' \<noteq> js ''edit''" "js ''write'' \<noteq> js ''edit''"
  by (auto simp: js_def)

lemma extractBlock_sets:
  "modifiedOps (extractBlock b ops) = modifiedOps ops \<union> {p. blockCalls (js ''write'') p b \<or> blockCalls (js ''edit'') p b}"
  "set (fo_read (extractBlock b ops)) = set (fo_read ops) \<union> {p. blockCalls (js ''read'') p b}"
  using tool_names by (cases b; auto simp: modifiedOps_def split: option.splits)+

lemma extractBlocks_sets:
  "modifiedOps (fold extractBlock bs ops) = modifiedOps ops \<union> {p. \<exists>b \<in> set bs. blockCalls (js ''write'') p b \<or> blockCalls (js ''edit'') p b}"
  "set (fo_read (fold extractBlock bs ops)) = set (fo_read ops) \<union> {p. \<exists>b \<in> set bs. blockCalls (js ''read'') p b}"
  by (induction bs arbitrary: ops) (auto simp: extractBlock_sets)

lemma extractMessage_sets:
  "modifiedOps (extractFileOpsFromMessage m ops) = modifiedOps ops \<union> {p. modifiesPath p m}"
  "set (fo_read (extractFileOpsFromMessage m ops)) = set (fo_read ops) \<union> {p. readsPath p m}"
  by (cases m; auto simp: extractBlocks_sets modifiesPath_def readsPath_def)+

lemma extractMessages_sets:
  "modifiedOps (fold extractFileOpsFromMessage ms ops) = modifiedOps ops \<union> {p. \<exists>m \<in> set ms. modifiesPath p m}"
  "set (fo_read (fold extractFileOpsFromMessage ms ops)) = set (fo_read ops) \<union> {p. \<exists>m \<in> set ms. readsPath p m}"
  by (induction ms arbitrary: ops) (auto simp: extractMessage_sets)

lemma computeFileLists_sets:
  "set (modifiedFiles (computeFileLists ops)) = modifiedOps ops" "set (readFiles (computeFileLists ops)) = set (fo_read ops) - modifiedOps ops"
  by (auto simp: computeFileLists_def modifiedOps_def Let_def)

text \<open>The files of a Compaction cover a set of messages.\<close>

definition namesFiles :: "CompactionDetails \<Rightarrow> Message list \<Rightarrow> bool" where
  "namesFiles d ms \<longleftrightarrow> (\<forall>m \<in> set ms. (\<forall>p. modifiesPath p m \<longrightarrow> p \<in> set (modifiedFiles d)) \<and>
     (\<forall>p. readsPath p m \<longrightarrow> p \<in> set (readFiles d) \<union> set (modifiedFiles d)))"

lemma cut_names_files:
  assumes "pc_fileOps p = fold extractFileOpsFromMessage ms (case previous of None \<Rightarrow> noOps | Some (n, c) \<Rightarrow> carriedOps (cp_details c))"
    "\<And>n c. previous = Some (n, c) \<Longrightarrow> namesFiles (cp_details c) earlier" "previous = None \<Longrightarrow> earlier = []"
  shows "namesFiles (computeFileLists (pc_fileOps p)) (earlier @ ms)"
proof (cases previous)
  case None
  then show ?thesis using assms by (auto simp: namesFiles_def computeFileLists_sets extractMessages_sets)
next
  case (Some nc)
  obtain n c where nc: "previous = Some (n, c)" using Some by (cases nc) auto
  have "modifiedOps (carriedOps (cp_details c)) = set (modifiedFiles (cp_details c))" "set (fo_read (carriedOps (cp_details c))) = set (readFiles (cp_details c))"
    by (simp_all add: modifiedOps_def carriedOps_def)
  then show ?thesis using assms(1) assms(2) [OF nc] nc
    by (auto simp: namesFiles_def computeFileLists_sets extractMessages_sets)
qed

lemma newest_unchanged: "\<not> isCompaction e \<Longrightarrow> newest (es @ [e]) = newest es"
  by (cases e) (auto simp: newestCompaction_append)

lemma appended_names_files:
  assumes "cutsOk es" "\<not> isCompaction e" "newest (es @ [e]) = Some (n, c)" "namesFiles (cp_details c) (messages (take (cp_firstKept c) es))"
  shows "namesFiles (cp_details c) (messages (take (cp_firstKept c) (es @ [e])))"
  using newest_firstKept [OF assms(1) assms(3) [unfolded newest_unchanged [OF assms(2)]]] assms(4) by simp

text \<open>C10. A summary names every file of the work it stands for. At every Compaction of a reached conversation, each file that an answer before the kept
  entries wrote or edited is among its modified files, and each one such an answer read is among its read or its modified files, however
  many cuts ago that was.\<close>

theorem summary_names_every_file:
  assumes "part_reach part" "newest (ep_entries part) = Some (n, c)"
  shows "namesFiles (cp_details c) (messages (take (cp_firstKept c) (ep_entries part)))"
  using assms
proof (induction arbitrary: n c rule: part_reach.induct)
  case (fresh_part persists at' fresh now history)
  then have "ep_entries (openEnginePart persists at' fresh now history) = seeded now history" by (auto simp: openEnginePart_def Let_def)
  then have "newest (ep_entries (openEnginePart persists at' fresh now history)) = None" by (auto simp: newestCompaction_None seeded_def)
  then show ?case using fresh_part(2) by simp
next
  case (message_step part m)
  have entries: "ep_entries (appendMessage m part) = ep_entries part @ [MessageEntry m]" by (simp add: appendMessage_def append_entry_def)
  have ok: "cutsOk (ep_entries part)" using part_reach_ok [OF message_step(1)] by (simp add: partOk_def)
  have plain: "\<not> isCompaction (MessageEntry m)" by simp
  have grown: "newest (ep_entries part @ [MessageEntry m]) = Some (n, c)" using message_step.prems by (simp only: entries)
  then have "newest (ep_entries part) = Some (n, c)" by (simp only: newest_unchanged [OF plain])
  then show ?case unfolding entries by (rule appended_names_files [OF ok plain grown message_step.IH])
next
  case (submission_step part)
  have entries: "ep_entries (appendSubmission part) = ep_entries part @ [SubmissionEntry]" by (simp add: appendSubmission_def append_entry_def)
  have ok: "cutsOk (ep_entries part)" using part_reach_ok [OF submission_step(1)] by (simp add: partOk_def)
  have plain: "\<not> isCompaction (SubmissionEntry)" by simp
  have grown: "newest (ep_entries part @ [SubmissionEntry]) = Some (n, c)" using submission_step.prems by (simp only: entries)
  then have "newest (ep_entries part) = Some (n, c)" by (simp only: newest_unchanged [OF plain])
  then show ?case unfolding entries by (rule appended_names_files [OF ok plain grown submission_step.IH])
next
  case (cut_step seat contentText ask now ct part')
  define E where "E = ep_entries (se_part seat)"
  obtain p d where d: "prepareCompaction (branch (se_part seat)) (se_settings seat) = Inr (Some p)" "part' = appendCompaction d (se_part seat)"
    "cp_firstKept d = pc_firstKept p" "cp_details d = computeFileLists (pc_fileOps p)" using cut_step(2) by (elim compactIfOver_cut)
  have E': "ep_entries part' = E @ [CompactionEntry d]" by (simp add: d(2) appendCompaction_def append_entry_def E_def)
  then have "c = d" using cut_step(4) by simp
  have ok: "cutsOk E" using part_reach_ok [OF cut_step(1)] by (simp add: partOk_def E_def)
  note covers = prepare_covers [OF ok [unfolded E_def] d(1), folded E_def]
  have names: "namesFiles (computeFileLists (pc_fileOps p)) (messages (take (keptFrom E) E) @ pc_messagesToSummarize p @ pc_turnPrefixMessages p)"
    using covers(5) cut_step.IH by (intro cut_names_files [where previous = "newest E"]) (auto simp: keptFrom_def E_def)
  have "take (keptFrom E) E @ slice (keptFrom E) (pc_firstKept p) E = take (pc_firstKept p) E"
    using slice_append [of 0 "keptFrom E" "pc_firstKept p" E] covers(1) by (simp add: slice_def)
  then have taken: "take (cp_firstKept c) (ep_entries part') = take (keptFrom E) E @ slice (keptFrom E) (pc_firstKept p) E"
    using covers(2) by (simp add: E' \<open>c = d\<close> d(3))
  show ?case unfolding taken map_append concat_append covers(3) [symmetric] using names by (simp add: \<open>c = d\<close> d(4))
next
  case (restart_step part f torn fresh now history)
  then show ?case by (simp add: openEnginePart_reopens [OF part_reach_ok])
qed

definition filesSeat :: CompactionSeat where
  "filesSeat = twoTurnsSeat\<lparr>se_part := fold appendMessage
     [UserMsg (CText (js ''the task'')) 0, AssistantMsg [ToolCall (js ''c'') (js ''edit'') [(js ''path'', AStr (js ''a.ts''))]] None StopToolUse 0, UserMsg (CText (js ''more'')) 0]
     (openEnginePart False None ''p'' 0 [])\<rparr>"

theorem summary_names_every_file_witness:
  "\<exists>ct c. compactIfOver exampleContentText exampleAsk 0 filesSeat = Inr (Some (ct, appendCompaction c (se_part filesSeat)))
     \<and> js ''a.ts'' \<in> set (modifiedFiles (cp_details c))"
proof -
  have reach: "part_reach (se_part filesSeat)"
    unfolding filesSeat_def by (simp add: part_reach.fresh_part part_reach.message_step)
  have entries: "ep_entries (se_part filesSeat) = [MessageEntry (UserMsg (CText (js ''the task'')) 0),
      MessageEntry (AssistantMsg [ToolCall (js ''c'') (js ''edit'') [(js ''path'', AStr (js ''a.ts''))]] None StopToolUse 0), MessageEntry (UserMsg (CText (js ''more'')) 0)]"
    by (simp add: filesSeat_def appendMessage_def append_entry_def openEnginePart_def seeded_def)
  have settings: "\<not> se_aborted filesSeat" "se_contextWindow filesSeat = 3" "se_settings filesSeat = exampleSettings"
    by (simp_all add: filesSeat_def twoTurnsSeat_def)
  have "\<exists>ct c. compactIfOver exampleContentText exampleAsk 0 filesSeat = Inr (Some (ct, appendCompaction c (se_part filesSeat)))"
  proof (rule example_cuts [OF reach settings(1)])
    show "overContextThreshold (ce_tokens (estimateContextTokens (context_of_part (se_part filesSeat)))) (se_contextWindow filesSeat) (se_settings filesSeat)"
      by (simp add: context_of_part_def branch_def entries branchStart_def contextOf_def estimateContextTokens_def quarter_def argsJson_def
          settings exampleSettings_def overContextThreshold_def)
  qed (auto simp: entries)
  then obtain ct c where cut: "compactIfOver exampleContentText exampleAsk 0 filesSeat = Inr (Some (ct, appendCompaction c (se_part filesSeat)))" by blast
  have "cp_firstKept c = 2" unfolding cut_firstKept [OF reach cut entries] settings
    by (simp add: branchStart_def keptFrom_def findCutPoint_def findValidCutPoints_def upt_rec quarter_def exampleSettings_def)
  moreover have "ep_entries (appendCompaction c (se_part filesSeat)) = ep_entries (se_part filesSeat) @ [CompactionEntry c]"
    by (simp add: appendCompaction_def append_entry_def)
  ultimately have "js ''a.ts'' \<in> set (modifiedFiles (cp_details c))"
    using summary_names_every_file [OF part_reach.cut_step [OF reach cut], of 3 c]
    by (simp add: entries namesFiles_def modifiesPath_def argPath_def js_def)
  then show ?thesis using cut by blast
qed

section \<open>The reserve\<close>

text \<open>The reserve of a model with a window leaves room for a context, and a context within the threshold leaves the reserve.\<close>

lemma reserve_within_window:
  assumes "1536 \<le> contextWindow"
  shows "cs_enabled (compactionSettingsFor contextWindow maxTokens keep)" "3 * cs_reserveTokens (compactionSettingsFor contextWindow maxTokens keep) \<le> 2 * contextWindow"
    "2 * RESERVE_FLOOR < contextWindow \<Longrightarrow> 2 * maxTokens < contextWindow \<Longrightarrow>
       \<not> overContextThreshold n contextWindow (compactionSettingsFor contextWindow maxTokens keep) \<Longrightarrow> n + maxTokens \<le> contextWindow"
  using assms by (auto simp: compactionSettingsFor_def overContextThreshold_def RESERVE_FLOOR_def SMALL_WINDOW_RESERVE_MIN_def Let_def max_def split: if_splits)

end
