(* ===== verification/Memory_Kills.thy ===== *)
theory Memory_Kills
  imports Json_Text Notices
begin

text \<open>
  The memory kills of a Sandbox, from the guard that makes one to the notice it becomes: \<^verbatim>\<open>packages/harness/src/memory-guard.ts\<close> and
  \<^verbatim>\<open>pod-kills.ts\<close>, of \<^verbatim>\<open>app.ts\<close> the wiring of the two, and of the Orchestrator the reading of the pod's list (\<^verbatim>\<open>harness-client.ts\<close>) and
  the notices it raises (\<^verbatim>\<open>actor.ts\<close>), over the ledger of \<^verbatim>\<open>Notices\<close>.

  The reads of the cgroup, the processes killed, the ids and the times are arguments of the operations; \<open>dateParses\<close> is whether
  \<^verbatim>\<open>Date.parse\<close> reads a text. A line of the file has its length in bytes and what \<^verbatim>\<open>JSON.parse\<close> makes of it, by what the code tests. A
  last line with no newline that alone fills the most that is read is not modelled. The sizes the guard reads are whole bytes; its comparison
  with nine tenths of the limit is exact, as the code's is for a limit under \<open>2 ^ 49\<close> bytes.
\<close>

section \<open>The bounds of the wire\<close>

definition KEPT_KILLS :: nat where "KEPT_KILLS = 16"
definition MAX_TOLD :: nat where "MAX_TOLD = 32"
definition MAX_KILL_STAMP :: nat where "MAX_KILL_STAMP = 64"
definition MAX_KILL_NAME :: nat where "MAX_KILL_NAME = 128"
definition MAX_KILLS_BODY :: nat where "MAX_KILLS_BODY = 256 * 1024"

record LiveConversation =
  lc_agent :: jsstr
  lc_instanceId :: jsstr

record PodMemoryKill =
  pk_id :: jsstr
  pk_at :: jsstr
  pk_peak :: "jsstr option"
  pk_limit :: "jsstr option"
  pk_told :: "LiveConversation list"

definition fitsWire :: "jsstr \<Rightarrow> nat \<Rightarrow> bool" where
  "fitsWire v bound \<longleftrightarrow> utf8ByteLength (jsonString v) - 2 \<le> bound"

definition isDecimalDigit :: "16 word \<Rightarrow> bool" where
  "isDecimalDigit c \<longleftrightarrow> 0x30 \<le> c \<and> c \<le> 0x39"

definition sizeUnits :: "jsstr list" where
  "sizeUnits = [js ''Ki'', js ''Mi'', js ''Gi'', js ''Ti'']"

text \<open>\<^verbatim>\<open>SIZE\<close>: one to six digits, a fraction of one to three or none, and a unit; the whole no longer than 16.\<close>

definition isSize :: "jsstr \<Rightarrow> bool" where
  "isSize v \<longleftrightarrow> length v \<le> 16 \<and>
     (let whole = takeWhile isDecimalDigit v; rest = dropWhile isDecimalDigit v
      in 1 \<le> length whole \<and> length whole \<le> 6 \<and>
         (rest \<in> set sizeUnits \<or>
          (case rest of [] \<Rightarrow> False
           | c # cs \<Rightarrow> c = 0x2e \<and> 1 \<le> length (takeWhile isDecimalDigit cs) \<and> length (takeWhile isDecimalDigit cs) \<le> 3
               \<and> dropWhile isDecimalDigit cs \<in> set sizeUnits)))"

text \<open>\<^verbatim>\<open>JSON.stringify\<close> of a kill and of the answer.\<close>

definition jsonObject :: "jsstr list \<Rightarrow> jsstr" where
  "jsonObject props = js ''{'' @ joinWith (js '','') props @ js ''}''"

definition jsonArray :: "jsstr list \<Rightarrow> jsstr" where
  "jsonArray xs = js ''['' @ joinWith (js '','') xs @ js '']''"

definition conversationJson :: "LiveConversation \<Rightarrow> jsstr" where
  "conversationJson c = jsonObject [jsonField ''agent'' (jsonString (lc_agent c)), jsonField ''instanceId'' (jsonString (lc_instanceId c))]"

definition sizeField :: "string \<Rightarrow> jsstr option \<Rightarrow> jsstr list" where
  "sizeField name v = (case v of None \<Rightarrow> [] | Some s \<Rightarrow> [jsonField name (jsonString s)])"

definition killJson :: "PodMemoryKill \<Rightarrow> jsstr" where
  "killJson k = jsonObject ([jsonField ''id'' (jsonString (pk_id k)), jsonField ''at'' (jsonString (pk_at k))]
     @ sizeField ''peak'' (pk_peak k) @ sizeField ''limit'' (pk_limit k) @ [jsonField ''told'' (jsonArray (map conversationJson (pk_told k)))])"

definition answerJson :: "PodMemoryKill list \<Rightarrow> jsstr" where
  "answerJson ks = jsonObject [jsonField ''kills'' (jsonArray (map killJson ks))]"

section \<open>The file\<close>

datatype JsField = Absent | Str jsstr | NotStr

record RawConversation =
  rc_agent :: JsField
  rc_instanceId :: JsField

datatype RawTold = NoArray | ToldArray "RawConversation list"

record RawKill =
  rk_id :: JsField
  rk_at :: JsField
  rk_peak :: JsField
  rk_limit :: JsField
  rk_told :: RawTold

text \<open>A line: empty, one that does not parse, the value \<^verbatim>\<open>null\<close>, or a value with these properties (none of them, for one that is no
  object).\<close>

datatype LineValue = EmptyLine | UnparsedLine | NullLine | KillValue RawKill

record FileLine =
  fl_bytes :: nat
  fl_value :: LineValue

text \<open>The file: its lines, and what a write cut short left after the last newline.\<close>

record KillsFile =
  kf_lines :: "FileLine list"
  kf_torn :: "FileLine option"

definition rawOf :: "PodMemoryKill \<Rightarrow> RawKill" where
  "rawOf k = \<lparr>rk_id = Str (pk_id k), rk_at = Str (pk_at k), rk_peak = case_option Absent Str (pk_peak k), rk_limit = case_option Absent Str (pk_limit k),
     rk_told = ToldArray (map (\<lambda>c. \<lparr>rc_agent = Str (lc_agent c), rc_instanceId = Str (lc_instanceId c)\<rparr>) (pk_told k))\<rparr>"

definition killLine :: "PodMemoryKill \<Rightarrow> FileLine" where
  "killLine k = \<lparr>fl_bytes = utf8ByteLength (killJson k) + 1, fl_value = KillValue (rawOf k)\<rparr>"

definition linesBytes :: "FileLine list \<Rightarrow> nat" where
  "linesBytes ls = sum_list (map fl_bytes ls)"

text \<open>The last \<^verbatim>\<open>MAX_KILLS_FILE\<close> bytes from the first whole line: the line that the cut is in goes, and with it one that starts there.\<close>

fun tailLines :: "nat \<Rightarrow> FileLine list \<Rightarrow> FileLine list" where
  "tailLines bound [] = []"
| "tailLines bound (l # ls) = (if linesBytes (l # ls) \<ge> bound then tailLines bound ls else l # ls)"

definition fileLines :: "KillsFile \<Rightarrow> FileLine list" where
  "fileLines f = kf_lines f @ (case kf_torn f of None \<Rightarrow> [] | Some l \<Rightarrow> [l])"

definition readTail :: "KillsFile \<Rightarrow> FileLine list" where
  "readTail f = (if linesBytes (fileLines f) \<le> MAX_KILLS_BODY then fileLines f else tailLines MAX_KILLS_BODY (fileLines f))"

fun readConversation :: "RawConversation \<Rightarrow> LiveConversation list" where
  "readConversation c =
     (case (rc_agent c, rc_instanceId c) of
        (Str a, Str i) \<Rightarrow> if fitsWire a MAX_KILL_NAME \<and> fitsWire i MAX_KILL_NAME then [\<lparr>lc_agent = a, lc_instanceId = i\<rparr>] else []
      | _ \<Rightarrow> [])"

definition sizes :: "JsField \<Rightarrow> JsField \<Rightarrow> (jsstr \<times> jsstr) option" where
  "sizes peak limit = (case (peak, limit) of (Str p, Str l) \<Rightarrow> if isSize p \<and> isSize l then Some (p, l) else None | _ \<Rightarrow> None)"

definition readKill :: "(jsstr \<Rightarrow> bool) \<Rightarrow> RawKill \<Rightarrow> PodMemoryKill list" where
  "readKill dateParses raw =
     (case (rk_id raw, rk_at raw) of
        (Str i, Str a) \<Rightarrow>
          if \<not> (fitsWire i MAX_KILL_STAMP \<and> fitsWire a MAX_KILL_STAMP) then []
          else if \<not> dateParses a then []
          else [\<lparr>pk_id = i, pk_at = a, pk_peak = map_option fst (sizes (rk_peak raw) (rk_limit raw)),
                 pk_limit = map_option snd (sizes (rk_peak raw) (rk_limit raw)),
                 pk_told = (case rk_told raw of NoArray \<Rightarrow> [] | ToldArray cs \<Rightarrow> concat (map readConversation (take MAX_TOLD cs)))\<rparr>]
      | _ \<Rightarrow> [])"

text \<open>\<^verbatim>\<open>readKills\<close>: a property of \<^verbatim>\<open>null\<close> throws, outside the \<^verbatim>\<open>try\<close> around the parse.\<close>

datatype KillsError = TypeErrorOfNull

fun readKills :: "(jsstr \<Rightarrow> bool) \<Rightarrow> FileLine list \<Rightarrow> KillsError + PodMemoryKill list" where
  "readKills dateParses [] = Inr []"
| "readKills dateParses (l # ls) =
     (case fl_value l of
        EmptyLine \<Rightarrow> readKills dateParses ls
      | UnparsedLine \<Rightarrow> readKills dateParses ls
      | NullLine \<Rightarrow> Inl TypeErrorOfNull
      | KillValue raw \<Rightarrow> (case readKills dateParses ls of Inl e \<Rightarrow> Inl e | Inr ks \<Rightarrow> Inr (readKill dateParses raw @ ks)))"

section \<open>The pod's list\<close>

record PodKills =
  po_kills :: "PodMemoryKill list"
  po_file :: "KillsFile option"

text \<open>How a write ends: it is whole, it changes nothing, or it leaves a part with no newline (of so many bytes, all but the newline or not).\<close>

datatype WriteOutcome = Written | NotWritten | TornWrite nat bool

definition newestKept :: "'a list \<Rightarrow> 'a list" where
  "newestKept xs = drop (length xs - KEPT_KILLS) xs"

definition rewrite :: "WriteOutcome \<Rightarrow> PodKills \<Rightarrow> PodKills" where
  "rewrite w st =
     (case po_file st of None \<Rightarrow> st
      | Some f \<Rightarrow> if w = Written then st\<lparr>po_file := Some \<lparr>kf_lines = map killLine (po_kills st), kf_torn = None\<rparr>\<rparr> else st)"

definition newPodKills :: "(jsstr \<Rightarrow> bool) \<Rightarrow> WriteOutcome \<Rightarrow> KillsFile option \<Rightarrow> KillsError + PodKills" where
  "newPodKills dateParses w file' =
     (case file' of
        None \<Rightarrow> Inr \<lparr>po_kills = [], po_file = None\<rparr>
      | Some f \<Rightarrow>
          (case readKills dateParses (readTail f) of
             Inl e \<Rightarrow> Inl e
           | Inr ks \<Rightarrow> Inr (rewrite w \<lparr>po_kills = newestKept ks, po_file = Some f\<rparr>)))"

definition appendLine :: "WriteOutcome \<Rightarrow> FileLine \<Rightarrow> KillsFile \<Rightarrow> KillsFile" where
  "appendLine w l f =
     (case w of
        Written \<Rightarrow>
          \<lparr>kf_lines = kf_lines f @ [case kf_torn f of None \<Rightarrow> l | Some t \<Rightarrow> \<lparr>fl_bytes = fl_bytes t + fl_bytes l, fl_value = UnparsedLine\<rparr>], kf_torn = None\<rparr>
      | NotWritten \<Rightarrow> f
      | TornWrite n entire \<Rightarrow>
          f\<lparr>kf_torn := Some (case kf_torn f of
                None \<Rightarrow> \<lparr>fl_bytes = n, fl_value = if entire then fl_value l else UnparsedLine\<rparr>
              | Some t \<Rightarrow> \<lparr>fl_bytes = fl_bytes t + n, fl_value = UnparsedLine\<rparr>)\<rparr>)"

definition keep :: "WriteOutcome \<Rightarrow> PodMemoryKill \<Rightarrow> PodKills \<Rightarrow> PodKills" where
  "keep w kill st =
     (let kills = po_kills st @ [kill]
      in if length kills > KEPT_KILLS then rewrite w (st\<lparr>po_kills := newestKept kills\<rparr>)
         else st\<lparr>po_kills := kills, po_file := map_option (appendLine w (killLine kill)) (po_file st)\<rparr>)"

definition tell :: "WriteOutcome \<Rightarrow> jsstr \<Rightarrow> LiveConversation \<Rightarrow> PodKills \<Rightarrow> PodKills" where
  "tell w kid owner st =
     (case find (\<lambda>k. pk_id k = kid) (po_kills st) of
        None \<Rightarrow> st
      | Some kill \<Rightarrow>
          if length (pk_told kill) \<ge> MAX_TOLD then st
          else if \<not> fitsWire (lc_agent owner) MAX_KILL_NAME \<or> \<not> fitsWire (lc_instanceId owner) MAX_KILL_NAME then st
          else if \<exists>t \<in> set (pk_told kill). lc_agent t = lc_agent owner \<and> lc_instanceId t = lc_instanceId owner then st
          else rewrite w (st\<lparr>po_kills := updFirst (\<lambda>k. pk_id k = kid)
                 (\<lambda>k. k\<lparr>pk_told := pk_told k @ [\<lparr>lc_agent = lc_agent owner, lc_instanceId = lc_instanceId owner\<rparr>]\<rparr>) (po_kills st)\<rparr>))"

section \<open>The guard\<close>

record FiredKill =
  fk_seq :: nat
  fk_peak :: jsstr
  fk_limit :: jsstr

text \<open>A \<^verbatim>\<open>bash\<close> call under the guard, named by a number: its verdict outlives its place in the active set.\<close>

record GuardCall =
  gc_call :: nat
  gc_active :: bool
  gc_verdict :: "jsstr option"
  gc_seq :: "nat option"
  gc_owner :: "LiveConversation option"

record MemoryGuard =
  mg_calls :: "GuardCall list"
  mg_seq :: nat

datatype GuardEffect = KillPass | ClearShm | GuardLog jsstr

definition formatBytes :: "nat \<Rightarrow> jsstr" where
  "formatBytes bytes =
     (if bytes \<ge> 1024 ^ 3 then
        let t = (20 * bytes + 1024 ^ 3) div (2 * 1024 ^ 3)
        in js (decimal (t div 10) @ (if t mod 10 = 0 then [] else ''.'' @ decimal (t mod 10)) @ ''Gi'')
      else js (decimal ((2 * bytes + 1024 ^ 2) div (2 * 1024 ^ 2)) @ ''Mi''))"

definition MEMORY_LIMIT_KILLED :: string where "MEMORY_LIMIT_KILLED = ''killed: memory limit''"

definition verdictText :: "nat \<Rightarrow> nat \<Rightarrow> jsstr" where
  "verdictText peak limit = js MEMORY_LIMIT_KILLED @ js '' (peak '' @ formatBytes peak @ js '' of '' @ formatBytes limit @ js ''); use fewer workers or a larger Size''"

definition nearLimit :: "nat \<Rightarrow> nat \<Rightarrow> bool" where
  "nearLimit usage limit \<longleftrightarrow> 10 * usage \<ge> 9 * limit"

definition watch :: "nat \<Rightarrow> LiveConversation option \<Rightarrow> MemoryGuard \<Rightarrow> MemoryGuard" where
  "watch call owner g = g\<lparr>mg_calls := mg_calls g @ [\<lparr>gc_call = call, gc_active = True, gc_verdict = None, gc_seq = None, gc_owner = owner\<rparr>]\<rparr>"

definition endCall :: "nat \<Rightarrow> MemoryGuard \<Rightarrow> MemoryGuard" where
  "endCall call g = g\<lparr>mg_calls := map (\<lambda>c. if gc_call c = call then c\<lparr>gc_active := False\<rparr> else c) (mg_calls g)\<rparr>"

text \<open>One poll. \<open>killed\<close> is what the first pass signalled, \<open>after\<close> the usage that is read again after it.\<close>

definition check :: "nat option \<Rightarrow> nat option \<Rightarrow> nat \<Rightarrow> nat option \<Rightarrow> MemoryGuard \<Rightarrow> MemoryGuard \<times> GuardEffect list \<times> FiredKill option" where
  "check limit' peak' killed after g =
     (case (limit', peak') of
        (Some limit, Some peak) \<Rightarrow>
          if \<not> nearLimit peak limit then (g, [], None)
          else if killed = 0 then (g, [KillPass, ClearShm], None)
          else
            let again = (case after of None \<Rightarrow> False | Some a \<Rightarrow> nearLimit a limit);
                verdict = verdictText peak limit;
                seq = Suc (mg_seq g)
            in (\<lparr>mg_calls = map (\<lambda>c. if gc_active c \<and> gc_verdict c = None then c\<lparr>gc_verdict := Some verdict, gc_seq := Some seq\<rparr> else c) (mg_calls g),
                 mg_seq = seq\<rparr>,
                [KillPass] @ (if again then [KillPass] else []) @ [ClearShm, GuardLog verdict],
                Some \<lparr>fk_seq = seq, fk_peak = formatBytes peak, fk_limit = formatBytes limit\<rparr>)
      | _ \<Rightarrow> (g, [], None))"

text \<open>\<^verbatim>\<open>told()\<close> of a call: the kill's number and the conversation, when it has both.\<close>

definition toldOf :: "nat \<Rightarrow> MemoryGuard \<Rightarrow> (nat \<times> LiveConversation) option" where
  "toldOf call g =
     (case find (\<lambda>c. gc_call c = call) (mg_calls g) of
        None \<Rightarrow> None
      | Some c \<Rightarrow> (case (gc_seq c, gc_owner c) of (Some s, Some w) \<Rightarrow> Some (s, w) | _ \<Rightarrow> None))"

section \<open>The Harness's wiring\<close>

record HarnessKills =
  hk_guard :: MemoryGuard
  hk_idOfSeq :: "(nat \<times> jsstr) list"
  hk_pod :: "PodKills option"

text \<open>The subscription to a kill: its id, then the pod's list; what is reported on the streams is the same id.\<close>

definition onKill :: "WriteOutcome \<Rightarrow> jsstr \<Rightarrow> jsstr \<Rightarrow> FiredKill \<Rightarrow> HarnessKills \<Rightarrow> HarnessKills" where
  "onKill w kid time kill h =
     h\<lparr>hk_idOfSeq := newestKept (mapSet (fk_seq kill) kid (hk_idOfSeq h)),
       hk_pod := map_option (keep w \<lparr>pk_id = kid, pk_at = time, pk_peak = Some (fk_peak kill), pk_limit = Some (fk_limit kill), pk_told = []\<rparr>) (hk_pod h)\<rparr>"

definition poll :: "WriteOutcome \<Rightarrow> jsstr \<Rightarrow> jsstr \<Rightarrow> nat option \<Rightarrow> nat option \<Rightarrow> nat \<Rightarrow> nat option \<Rightarrow> HarnessKills \<Rightarrow> HarnessKills" where
  "poll w kid time limit peak killed after h =
     (case check limit peak killed after (hk_guard h) of
        (g, effects, None) \<Rightarrow> h\<lparr>hk_guard := g\<rparr>
      | (g, effects, Some kill) \<Rightarrow> onKill w kid time kill (h\<lparr>hk_guard := g\<rparr>))"

definition onTold :: "WriteOutcome \<Rightarrow> nat \<Rightarrow> HarnessKills \<Rightarrow> HarnessKills" where
  "onTold w call h =
     (case toldOf call (hk_guard h) of
        None \<Rightarrow> h
      | Some (seq, owner) \<Rightarrow>
          (case map_of (hk_idOfSeq h) seq of None \<Rightarrow> h | Some kid \<Rightarrow> h\<lparr>hk_pod := map_option (tell w kid owner) (hk_pod h)\<rparr>))"

section \<open>The Orchestrator's read\<close>

definition fits :: "jsstr \<Rightarrow> nat \<Rightarrow> bool" where
  "fits v bound \<longleftrightarrow> length v \<le> bound"

fun listedConversation :: "RawConversation \<Rightarrow> LiveConversation list" where
  "listedConversation c =
     (case (rc_agent c, rc_instanceId c) of
        (Str a, Str i) \<Rightarrow> if fits a MAX_KILL_NAME \<and> fits i MAX_KILL_NAME then [\<lparr>lc_agent = a, lc_instanceId = i\<rparr>] else []
      | _ \<Rightarrow> [])"

definition listedKill :: "(jsstr \<Rightarrow> bool) \<Rightarrow> RawKill \<Rightarrow> PodMemoryKill option" where
  "listedKill dateParses raw =
     (case (rk_id raw, rk_at raw) of
        (Str i, Str a) \<Rightarrow>
          if \<not> fits i MAX_KILL_STAMP \<or> \<not> fits a MAX_KILL_STAMP \<or> \<not> dateParses a then None
          else Some \<lparr>pk_id = i, pk_at = a, pk_peak = map_option fst (sizes (rk_peak raw) (rk_limit raw)),
                 pk_limit = map_option snd (sizes (rk_peak raw) (rk_limit raw)),
                 pk_told = (case rk_told raw of NoArray \<Rightarrow> [] | ToldArray cs \<Rightarrow> concat (map listedConversation (take MAX_TOLD cs)))\<rparr>
      | _ \<Rightarrow> None)"

definition whole :: "RawKill \<Rightarrow> PodMemoryKill option \<Rightarrow> bool" where
  "whole raw kill =
     (case kill of None \<Rightarrow> False
      | Some k \<Rightarrow>
          \<not> (pk_limit k = None \<and> (rk_peak raw \<noteq> Absent \<or> rk_limit raw \<noteq> Absent)) \<and>
          (case rk_told raw of NoArray \<Rightarrow> False | ToldArray cs \<Rightarrow> min (length cs) MAX_TOLD = length (pk_told k) \<and> length cs \<le> MAX_TOLD))"

text \<open>A \<^verbatim>\<open>200\<close> answer with its stated length (0 for none) and the length of its text: the usable kills and how many are flawed, or nothing to
  act on.\<close>

definition readAnswer :: "(jsstr \<Rightarrow> bool) \<Rightarrow> nat \<Rightarrow> nat \<Rightarrow> RawKill list \<Rightarrow> (PodMemoryKill list \<times> nat) option" where
  "readAnswer dateParses contentLength chars' raws =
     (if contentLength > MAX_KILLS_BODY \<or> chars' > MAX_KILLS_BODY then None
      else Some (List.map_filter (listedKill dateParses) raws, length (filter (\<lambda>raw. \<not> whole raw (listedKill dateParses raw)) raws)))"

section \<open>The notices\<close>

text \<open>The source of a guard kill's notice. \<open>enc\<close> is a code-unit string as the ledger's text.\<close>

definition guardSource :: "(jsstr \<Rightarrow> ident) \<Rightarrow> ident \<Rightarrow> jsstr \<Rightarrow> ident" where
  "guardSource enc sandbox kid = sandbox @ ''@guard:'' @ enc kid"

definition memoryLimit :: "(jsstr \<Rightarrow> ident) \<Rightarrow> jsstr option \<Rightarrow> jsstr option \<Rightarrow> ident option \<Rightarrow> Notice" where
  "memoryLimit enc limit peak agent = MemoryLimitNotice agent (if limit = None then None else map_option enc peak) (map_option enc limit)"

text \<open>A kill read on the stream of a Turn, whose Agent retries the work; one with no id is an older Harness's, named by its place.\<close>

record StreamedKill =
  sk_id :: jsstr
  sk_legacy :: bool
  sk_peak :: "jsstr option"
  sk_limit :: "jsstr option"

definition onMemoryLimit ::
  "(nat \<Rightarrow> ident) \<Rightarrow> (jsstr \<Rightarrow> ident) \<Rightarrow> bool \<Rightarrow> ident option \<Rightarrow> ident \<Rightarrow> NoticeRetry \<Rightarrow> stamp \<Rightarrow> StreamedKill \<Rightarrow> NoticeLedger \<Rightarrow> NoticeLedger" where
  "onMemoryLimit newId enc stopped noticeWorkspace agentName retry now kill L =
     (case noticeWorkspace of None \<Rightarrow> L
      | Some sandbox \<Rightarrow>
          if stopped then L
          else fst (raise newId (memoryLimit enc (sk_limit kill) (sk_peak kill) (Some agentName)) sandbox
                  (Some (if sk_legacy kill then enc (sk_id kill) else guardSource enc sandbox (sk_id kill))) []
                  \<lparr>o_retry = Some retry, o_told = [], o_at = Some now\<rparr> L))"

text \<open>The last end of the Harness container, as the watch has it, and what is known of a kernel kill that made it.\<close>

record KernelKill =
  kk_at :: "ident option"
  kk_limit :: "jsstr option"

definition kernelSource :: "ident \<Rightarrow> ident \<Rightarrow> ident" where
  "kernelSource sandbox time = sandbox @ ''@'' @ time"

definition hearKernelKill ::
  "(nat \<Rightarrow> ident) \<Rightarrow> (jsstr \<Rightarrow> ident) \<Rightarrow> (ident \<Rightarrow> stamp) \<Rightarrow> bool \<Rightarrow> ident option \<Rightarrow> (string \<times> bool) option \<Rightarrow> KernelKill option \<Rightarrow> NoticeLedger \<Rightarrow> NoticeLedger" where
  "hearKernelKill newId enc stampOf restarted noticeWorkspace lastEnd fault L =
     (if restarted then L
      else case (noticeWorkspace, lastEnd) of
        (Some sandbox, Some (reason, finished)) \<Rightarrow>
          if reason \<noteq> ''OOMKilled'' \<or> \<not> finished then L
          else (case fault of None \<Rightarrow> L
                | Some kill \<Rightarrow>
                    (case kk_at kill of None \<Rightarrow> L
                     | Some time \<Rightarrow>
                         fst (raise newId (memoryLimit enc (kk_limit kill) None None) sandbox (Some (kernelSource sandbox time)) []
                            \<lparr>o_retry = None, o_told = [], o_at = Some (stampOf time)\<rparr> L)))
      | _ \<Rightarrow> L)"

definition applyTold :: "(jsstr \<Rightarrow> ident) \<Rightarrow> ident \<Rightarrow> PodMemoryKill list \<Rightarrow> NoticeLedger \<Rightarrow> NoticeLedger" where
  "applyTold enc sandbox kills L =
     fold (\<lambda>k L'. fst (told (guardSource enc sandbox (pk_id k)) (map (enc \<circ> lc_instanceId) (pk_told k)) L')) (filter (\<lambda>k. pk_told k \<noteq> []) kills) L"

text \<open>The raise of a read: the newest kill's notice, the older ones marked seen.\<close>

definition raiseKills :: "(nat \<Rightarrow> ident) \<Rightarrow> (jsstr \<Rightarrow> ident) \<Rightarrow> (jsstr \<Rightarrow> stamp) \<Rightarrow> ident \<Rightarrow> PodMemoryKill list \<Rightarrow> NoticeLedger \<Rightarrow> NoticeLedger" where
  "raiseKills newId enc stampOf sandbox kills L =
     (if kills = [] then L
      else let latest = last kills
           in applyTold enc sandbox kills
                (fst (raise newId (memoryLimit enc (pk_limit latest) (pk_peak latest) None) sandbox (Some (guardSource enc sandbox (pk_id latest)))
                   (map (\<lambda>k. guardSource enc sandbox (pk_id k)) (butlast kills))
                   \<lparr>o_retry = None, o_told = map (enc \<circ> lc_instanceId) (pk_told latest), o_at = Some (stampOf (pk_at latest))\<rparr> L)))"

definition NO_KILLS :: jsstr where "NO_KILLS = js ''none''"

definition toldHere :: "LiveConversation \<Rightarrow> PodMemoryKill \<Rightarrow> bool" where
  "toldHere me kill \<longleftrightarrow> (\<exists>t \<in> set (pk_told kill). lc_agent t = lc_agent me \<and> lc_instanceId t = lc_instanceId me)"

text \<open>The index after the last kill that is the mark or was told here.\<close>

fun fromIndex :: "jsstr option \<Rightarrow> LiveConversation \<Rightarrow> nat \<Rightarrow> PodMemoryKill list \<Rightarrow> nat \<Rightarrow> nat" where
  "fromIndex mark me i [] from' = from'"
| "fromIndex mark me i (k # ks) from' = fromIndex mark me (Suc i) ks (if Some (pk_id k) = mark \<or> toldHere me k then Suc i else from')"

text \<open>One read before an admission, after the Turn's first or that one: \<open>answer\<close> is what the list answered, \<^term>\<open>None\<close> when the read could not tell.
  Its result: the Turn's mark, the ledger, whether the read could tell, and the sources an admission of the same Turn may carry (the kills after
  the mark, and by the clock when there is none) and may not.\<close>

record KillsHeard =
  kh_mark :: "jsstr option"
  kh_ledger :: NoticeLedger
  kh_known :: bool
  kh_unsaid :: "ident list"
  kh_said :: "ident list"

definition hearPodKills ::
  "(nat \<Rightarrow> ident) \<Rightarrow> (jsstr \<Rightarrow> ident) \<Rightarrow> (jsstr \<Rightarrow> stamp) \<Rightarrow> (PodMemoryKill \<Rightarrow> bool) \<Rightarrow> ident option \<Rightarrow> LiveConversation \<Rightarrow>
   bool \<Rightarrow> jsstr option \<Rightarrow> PodMemoryKill list option \<Rightarrow> NoticeLedger \<Rightarrow> KillsHeard" where
  "hearPodKills newId enc stampOf inTurnByClock noticeWorkspace me first mark answer L =
     (case noticeWorkspace of
        None \<Rightarrow> \<lparr>kh_mark = mark, kh_ledger = L, kh_known = True, kh_unsaid = [], kh_said = []\<rparr>
      | Some sandbox \<Rightarrow>
          (case answer of
             None \<Rightarrow> \<lparr>kh_mark = mark, kh_ledger = L, kh_known = False, kh_unsaid = [], kh_said = []\<rparr>
           | Some kills \<Rightarrow>
               let mark' = (if first then Some (if kills = [] then NO_KILLS else pk_id (last kills)) else mark)
               in if kills = [] then \<lparr>kh_mark = mark', kh_ledger = L, kh_known = True, kh_unsaid = [], kh_said = []\<rparr>
                  else let from' = fromIndex mark' me 0 kills 0;
                           inThisTurn = (\<lambda>k. mark' \<noteq> None \<or> inTurnByClock k);
                           source = (\<lambda>k. guardSource enc sandbox (pk_id k))
                       in \<lparr>kh_mark = mark', kh_ledger = raiseKills newId enc stampOf sandbox kills L, kh_known = True,
                           kh_unsaid = map source (filter inThisTurn (drop from' kills)),
                           kh_said = map source (take from' kills @ filter (\<lambda>k. \<not> inThisTurn k) (drop from' kills))\<rparr>))"

section \<open>The size of the answer\<close>

lemma length_le_utf8: "length s \<le> utf8ByteLength s"
  by (induction s rule: utf8ByteLength.induct) (auto simp: unitBytes_def)

lemma length_jsonUnit: "1 \<le> length (jsonUnit c)"
  by (simp add: jsonUnit_def)

lemma length_jsonChars: "length s \<le> length (jsonChars s)"
proof (induction s rule: jsonChars.induct)
  case (3 c d cs)
  then show ?case using length_jsonUnit [of c] by (cases "is_high c \<and> is_low d") auto
qed (use length_jsonUnit in auto)

lemma fitsWire_fits: "fitsWire v b \<Longrightarrow> fits v b"
  using length_le_utf8 [of "jsonString v"] length_jsonChars [of v] by (simp add: fitsWire_def fits_def jsonString_def)

lemma fitsWire_bytes: "fitsWire v b \<Longrightarrow> utf8ByteLength (jsonString v) \<le> b + 2"
  by (simp add: fitsWire_def)

definition plainUnit :: "16 word \<Rightarrow> bool" where
  "plainUnit c \<longleftrightarrow> 0x20 \<le> c \<and> c \<le> 0x7f \<and> c \<noteq> 0x22 \<and> c \<noteq> 0x5c"

lemma plainUnit_alone: "plainUnit c \<Longrightarrow> \<not> is_high c \<and> \<not> is_low c"
  by (auto simp: plainUnit_def is_high_unat is_low_unat word_le_nat_alt)

lemma jsonUnit_plain: "plainUnit c \<Longrightarrow> jsonUnit c = [c]"
  using plainUnit_alone [of c] by (auto simp: plainUnit_def jsonUnit_def word_le_nat_alt word_less_nat_alt)

lemma jsonChars_plain: "\<forall>c\<in>set s. plainUnit c \<Longrightarrow> jsonChars s = s"
  by (induction s rule: jsonChars.induct) (auto simp: jsonUnit_plain plainUnit_alone)

lemma utf8_jsonString_plain: "\<forall>c\<in>set s. plainUnit c \<Longrightarrow> utf8ByteLength (jsonString s) = length s + 2"
proof -
  assume "\<forall>c\<in>set s. plainUnit c"
  then have "jsonString s = [0x22] @ s @ [0x22]" and "\<forall>c\<in>set ([0x22] @ s @ [0x22]). c \<le> 0x7f"
    by (auto simp: jsonString_def jsonChars_plain plainUnit_def)
  then show ?thesis using utf8_ascii [of "[0x22] @ s @ [0x22]"] by simp
qed

lemma isDecimalDigit_plain: "isDecimalDigit c \<Longrightarrow> plainUnit c"
  by (auto simp: isDecimalDigit_def plainUnit_def word_le_nat_alt)

lemma sizeUnits_plain: "u \<in> set sizeUnits \<Longrightarrow> \<forall>c\<in>set u. plainUnit c"
  by (auto simp: sizeUnits_def plainUnit_def js_def)

lemma isSize_plain: "isSize v \<Longrightarrow> \<forall>c\<in>set v. plainUnit c"
proof -
  assume size: "isSize v"
  define tail' where "tail' = dropWhile isDecimalDigit v"
  have digits: "\<forall>c\<in>set (takeWhile isDecimalDigit w). plainUnit c" for w by (auto dest: set_takeWhileD intro: isDecimalDigit_plain)
  have "\<forall>c\<in>set tail'. plainUnit c"
  proof (cases "tail' \<in> set sizeUnits")
    case False
    then obtain c cs where "tail' = c # cs" "c = 0x2e" "dropWhile isDecimalDigit cs \<in> set sizeUnits"
      using size by (auto simp: isSize_def Let_def tail'_def split: list.splits)
    moreover have "set cs = set (takeWhile isDecimalDigit cs) \<union> set (dropWhile isDecimalDigit cs)" by (metis set_append takeWhile_dropWhile_id)
    moreover have "plainUnit 0x2e" by (simp add: plainUnit_def)
    ultimately show ?thesis using digits [of cs] sizeUnits_plain [of "dropWhile isDecimalDigit cs"] by simp blast
  qed (rule sizeUnits_plain)
  moreover have "set v = set (takeWhile isDecimalDigit v) \<union> set tail'" unfolding tail'_def by (metis set_append takeWhile_dropWhile_id)
  ultimately show ?thesis using digits [of v] by blast
qed

lemma isSize_bytes: "isSize v \<Longrightarrow> utf8ByteLength (jsonString v) \<le> 18"
  using utf8_jsonString_plain [OF isSize_plain] by (simp add: isSize_def)

text \<open>What every kept kill satisfies.\<close>

definition nameOk :: "LiveConversation \<Rightarrow> bool" where
  "nameOk c \<longleftrightarrow> fitsWire (lc_agent c) MAX_KILL_NAME \<and> fitsWire (lc_instanceId c) MAX_KILL_NAME"

definition killOk :: "(jsstr \<Rightarrow> bool) \<Rightarrow> PodMemoryKill \<Rightarrow> bool" where
  "killOk dateParses k \<longleftrightarrow>
     fitsWire (pk_id k) MAX_KILL_STAMP \<and> fitsWire (pk_at k) MAX_KILL_STAMP \<and> dateParses (pk_at k)
     \<and> (case (pk_peak k, pk_limit k) of (None, None) \<Rightarrow> True | (Some p, Some l) \<Rightarrow> isSize p \<and> isSize l | _ \<Rightarrow> False)
     \<and> length (pk_told k) \<le> MAX_TOLD \<and> (\<forall>c\<in>set (pk_told k). nameOk c)"

definition podOk :: "(jsstr \<Rightarrow> bool) \<Rightarrow> PodKills \<Rightarrow> bool" where
  "podOk dateParses p \<longleftrightarrow> length (po_kills p) \<le> KEPT_KILLS \<and> (\<forall>k\<in>set (po_kills p). killOk dateParses k)"

lemmas kill_bounds = KEPT_KILLS_def MAX_TOLD_def MAX_KILL_STAMP_def MAX_KILL_NAME_def MAX_KILLS_BODY_def

lemma utf8_append3: "utf8ByteLength (a @ b @ c) \<le> utf8ByteLength a + utf8ByteLength b + utf8ByteLength c"
  using utf8_append_le [of a "b @ c"] utf8_append_le [of b c] by simp

lemma utf8_joinWith: "utf8ByteLength (joinWith (js '','') xs) \<le> sum_list (map utf8ByteLength xs) + (length xs - 1)"
proof (induction xs rule: induct_list012)
  case (3 x y zs)
  have "utf8ByteLength (js '','') = 1" by (simp add: js_def unitBytes_def)
  then show ?case using 3 utf8_append3 [of x "js '',''" "joinWith (js '','') (y # zs)"] by simp
qed simp_all

lemma utf8_joinWith_le:
  "\<forall>x\<in>set xs. utf8ByteLength x \<le> B \<Longrightarrow> utf8ByteLength (joinWith (js '','') xs) \<le> length xs * (B + 1) - 1"
proof -
  assume "\<forall>x\<in>set xs. utf8ByteLength x \<le> B"
  then have "sum_list (map utf8ByteLength xs) \<le> length xs * B" by (induction xs) auto
  then show ?thesis using utf8_joinWith [of xs] by (cases xs) auto
qed

lemma utf8_jsonArray:
  assumes "\<forall>x\<in>set xs. utf8ByteLength x \<le> B" and "length xs \<le> n" and "1 \<le> n"
  shows "utf8ByteLength (jsonArray xs) \<le> n * (B + 1) + 1"
proof -
  have "utf8ByteLength (joinWith (js '','') xs) \<le> length xs * (B + 1) - 1" using assms(1) by (rule utf8_joinWith_le)
  also have "\<dots> \<le> n * (B + 1) - 1" using assms(2) by (simp add: diff_le_mono add_mono mult_le_mono1)
  finally show ?thesis using utf8_append3 [of "js ''[''" "joinWith (js '','') xs" "js '']''"] assms(3)
    by (simp add: jsonArray_def js_def unitBytes_def)
qed

lemma utf8_field: "utf8ByteLength (jsonField name v) \<le> utf8ByteLength (jsonString (js name)) + 1 + utf8ByteLength v"
  using utf8_append3 [of "jsonString (js name)" "[0x3a]" v] by (simp add: jsonField_def unitBytes_def)

lemma utf8_object: "utf8ByteLength (jsonObject xs) \<le> sum_list (map utf8ByteLength xs) + (length xs - 1) + 2"
  using utf8_joinWith [of xs] utf8_append3 [of "js ''{''" "joinWith (js '','') xs" "js ''}''"]
  by (simp add: jsonObject_def js_def unitBytes_def)

lemma field_names:
  "utf8ByteLength (jsonString (js ''agent'')) = 7" "utf8ByteLength (jsonString (js ''instanceId'')) = 12"
  "utf8ByteLength (jsonString (js ''id'')) = 4" "utf8ByteLength (jsonString (js ''at'')) = 4"
  "utf8ByteLength (jsonString (js ''peak'')) = 6" "utf8ByteLength (jsonString (js ''limit'')) = 7"
  "utf8ByteLength (jsonString (js ''told'')) = 6" "utf8ByteLength (jsonString (js ''kills'')) = 7"
  by (subst utf8_jsonString_plain; simp add: js_def plainUnit_def)+

lemma conversation_bytes: "nameOk c \<Longrightarrow> utf8ByteLength (conversationJson c) \<le> 284"
  using utf8_object [of "[jsonField ''agent'' (jsonString (lc_agent c)), jsonField ''instanceId'' (jsonString (lc_instanceId c))]"]
    utf8_field [of "''agent''" "jsonString (lc_agent c)"] utf8_field [of "''instanceId''" "jsonString (lc_instanceId c)"]
    fitsWire_bytes [of "lc_agent c" 128] fitsWire_bytes [of "lc_instanceId c" 128]
  by (simp add: conversationJson_def nameOk_def field_names kill_bounds)

lemma sizes_bytes:
  assumes "killOk dateParses k"
  shows "sum_list (map utf8ByteLength (sizeField ''peak'' (pk_peak k) @ sizeField ''limit'' (pk_limit k)))
       + length (sizeField ''peak'' (pk_peak k) @ sizeField ''limit'' (pk_limit k)) \<le> 53"
proof (cases "(pk_peak k, pk_limit k)")
  case (Pair a b)
  show ?thesis
  proof (cases a)
    case None
    then show ?thesis using assms Pair by (cases b) (simp_all add: killOk_def sizeField_def)
  next
    case (Some p)
    then obtain l where l: "b = Some l" "isSize p" "isSize l" using assms Pair by (cases b) (auto simp: killOk_def)
    then show ?thesis using utf8_field [of "''peak''" "jsonString p"] utf8_field [of "''limit''" "jsonString l"] isSize_bytes [of p] isSize_bytes [of l]
        Pair Some by (simp add: sizeField_def field_names)
  qed
qed

lemma kill_bytes:
  assumes ok: "killOk dateParses k"
  shows "utf8ByteLength (killJson k) \<le> 9327"
proof -
  have "utf8ByteLength (jsonArray (map conversationJson (pk_told k))) \<le> 32 * (284 + 1) + 1"
    by (rule utf8_jsonArray) (use ok in \<open>auto simp: killOk_def kill_bounds conversation_bytes\<close>)
  moreover have "utf8ByteLength (jsonString (pk_id k)) \<le> 66" "utf8ByteLength (jsonString (pk_at k)) \<le> 66"
    using ok fitsWire_bytes [of _ 64] by (auto simp: killOk_def kill_bounds)
  ultimately show ?thesis
    using sizes_bytes [OF ok] utf8_field [of "''told''" "jsonArray (map conversationJson (pk_told k))"]
      utf8_field [of "''id''" "jsonString (pk_id k)"] utf8_field [of "''at''" "jsonString (pk_at k)"]
      utf8_object [of "[jsonField ''id'' (jsonString (pk_id k)), jsonField ''at'' (jsonString (pk_at k))] @ sizeField ''peak'' (pk_peak k)
         @ sizeField ''limit'' (pk_limit k) @ [jsonField ''told'' (jsonArray (map conversationJson (pk_told k)))]"]
    by (simp add: killJson_def field_names)
qed

lemma answer_bytes:
  assumes "podOk dateParses p"
  shows "utf8ByteLength (answerJson (po_kills p)) \<le> 149259"
proof -
  have "utf8ByteLength (jsonArray (map killJson (po_kills p))) \<le> 16 * (9327 + 1) + 1"
    by (rule utf8_jsonArray) (use assms in \<open>auto simp: podOk_def kill_bounds intro: kill_bytes\<close>)
  then show ?thesis
    using utf8_field [of "''kills''" "jsonArray (map killJson (po_kills p))"] utf8_object [of "[jsonField ''kills'' (jsonArray (map killJson (po_kills p)))]"]
    by (simp add: answerJson_def field_names)
qed

section \<open>The two sides agree\<close>

lemma listedConversation_ok: "nameOk c \<Longrightarrow> listedConversation \<lparr>rc_agent = Str (lc_agent c), rc_instanceId = Str (lc_instanceId c)\<rparr> = [c]"
  by (simp add: nameOk_def fitsWire_fits)

lemma readConversation_ok: "nameOk c \<Longrightarrow> readConversation \<lparr>rc_agent = Str (lc_agent c), rc_instanceId = Str (lc_instanceId c)\<rparr> = [c]"
  by (simp add: nameOk_def)

lemma concat_map_single: "(\<And>x. x \<in> set xs \<Longrightarrow> f x = [x]) \<Longrightarrow> concat (map f xs) = xs"
  by (induction xs) auto

lemma sizes_rawOf:
  "killOk dateParses k \<Longrightarrow>
     map_option fst (sizes (rk_peak (rawOf k)) (rk_limit (rawOf k))) = pk_peak k \<and> map_option snd (sizes (rk_peak (rawOf k)) (rk_limit (rawOf k))) = pk_limit k"
  by (cases "pk_peak k"; cases "pk_limit k") (auto simp: killOk_def rawOf_def sizes_def)

lemma told_rawOf:
  assumes "killOk dateParses k" and "\<And>c. nameOk c \<Longrightarrow> f \<lparr>rc_agent = Str (lc_agent c), rc_instanceId = Str (lc_instanceId c)\<rparr> = [c]"
  shows "concat (map f (take MAX_TOLD (map (\<lambda>c. \<lparr>rc_agent = Str (lc_agent c), rc_instanceId = Str (lc_instanceId c)\<rparr>) (pk_told k)))) = pk_told k"
proof -
  have "concat (map (\<lambda>c. f \<lparr>rc_agent = Str (lc_agent c), rc_instanceId = Str (lc_instanceId c)\<rparr>) (pk_told k)) = pk_told k"
    by (rule concat_map_single) (use assms in \<open>auto simp: killOk_def\<close>)
  then show ?thesis using assms(1) by (simp add: killOk_def comp_def)
qed

lemma listedKill_rawOf: "killOk dateParses k \<Longrightarrow> listedKill dateParses (rawOf k) = Some k"
  using sizes_rawOf [of dateParses k] told_rawOf [of dateParses k listedConversation, OF _ listedConversation_ok]
  by (simp add: listedKill_def) (simp add: rawOf_def killOk_def fitsWire_fits)

lemma readKill_rawOf: "killOk dateParses k \<Longrightarrow> readKill dateParses (rawOf k) = [k]"
  using sizes_rawOf [of dateParses k] told_rawOf [of dateParses k readConversation, OF _ readConversation_ok]
  by (simp add: readKill_def) (simp add: rawOf_def killOk_def)

lemma whole_rawOf: "killOk dateParses k \<Longrightarrow> whole (rawOf k) (Some k)"
  by (cases "pk_peak k"; cases "pk_limit k") (auto simp: killOk_def whole_def rawOf_def)

section \<open>The sizes the guard writes\<close>

lemma decimal_js_digits: "\<forall>c\<in>set (js (decimal n)). isDecimalDigit c"
proof (induction n rule: decimal.induct)
  case (1 n)
  have "isDecimalDigit (of_nat (of_char (char_of (48 + d :: nat))))" if "d < 10" for d
    using that by (simp add: isDecimalDigit_def word_le_nat_alt unat_of_nat del: of_nat_add)
  then show ?case using 1 by (subst decimal.simps) (auto simp: js_def)
qed

lemma js_append: "js (xs @ ys) = js xs @ js ys"
  by (simp add: js_def)

lemma isSize_whole:
  assumes "n < 10 ^ 6" and "u \<in> {''Ki'', ''Mi'', ''Gi'', ''Ti''}"
  shows "isSize (js (decimal n @ u))"
proof -
  have "\<not> isDecimalDigit (hd (js u))" "js u \<noteq> []" "js u \<in> set sizeUnits" "length (js u) = 2"
    using assms(2) by (auto simp: js_def isDecimalDigit_def sizeUnits_def)
  then have "takeWhile isDecimalDigit (js (decimal n @ u)) = js (decimal n)" "dropWhile isDecimalDigit (js (decimal n @ u)) = js u"
    using decimal_js_digits [of n] by (auto simp: js_append takeWhile_append dropWhile_append takeWhile_eq_Nil_iff dropWhile_eq_self_iff)
  moreover have "1 \<le> length (decimal n)" "length (decimal n) \<le> 6" using decimal_nonempty [of n] decimal_length [of n 5] assms(1)
    by (cases "decimal n"; simp)+
  ultimately show ?thesis using \<open>js u \<in> set sizeUnits\<close> \<open>length (js u) = 2\<close> by (simp add: isSize_def js_append) (simp add: js_def)
qed

lemma isSize_tenths:
  assumes "n < 10 ^ 6" and "d < 10"
  shows "isSize (js (decimal n @ ''.'' @ decimal d @ ''Gi''))"
proof -
  let ?rest = "js (decimal d @ ''Gi'')"
  have digit: "takeWhile isDecimalDigit ?rest = js (decimal d)" "dropWhile isDecimalDigit ?rest = js ''Gi''" "length (decimal d) = 1"
    using decimal_js_digits [of d] assms(2) by (auto simp: js_append takeWhile_append dropWhile_append) (auto simp: js_def isDecimalDigit_def decimal.simps)
  have "takeWhile isDecimalDigit (js (decimal n @ ''.'' @ decimal d @ ''Gi'')) = js (decimal n)"
    "dropWhile isDecimalDigit (js (decimal n @ ''.'' @ decimal d @ ''Gi'')) = 0x2e # ?rest"
    using decimal_js_digits [of n] by (auto simp: js_append takeWhile_append dropWhile_append) (auto simp: js_def isDecimalDigit_def)
  moreover have "1 \<le> length (decimal n)" "length (decimal n) \<le> 6" using decimal_nonempty [of n] decimal_length [of n 5] assms(1)
    by (cases "decimal n"; simp)+
  ultimately show ?thesis using digit by (simp add: isSize_def sizeUnits_def js_append) (simp add: js_def)
qed

lemma formatBytes_isSize:
  assumes "b < 999999 * 1024 ^ 3"
  shows "isSize (formatBytes b)"
proof (cases "b \<ge> 1024 ^ 3")
  case True
  define t where "t = (20 * b + 1073741824) div 2147483648"
  have "t < 10 ^ 7" unfolding t_def using assms by (simp add: less_mult_imp_div_less)
  then have "t div 10 < 10 ^ 6" by (simp add: less_mult_imp_div_less)
  then show ?thesis using True isSize_whole [of "t div 10" "''Gi''"] isSize_tenths [of "t div 10" "t mod 10"]
    by (simp add: formatBytes_def Let_def t_def [symmetric])
next
  case False
  then have "(2 * b + 1024 ^ 2) div (2 * 1024 ^ 2) < 10 ^ 6" by (simp add: less_mult_imp_div_less)
  then show ?thesis using False isSize_whole [of "(2 * b + 1024 ^ 2) div (2 * 1024 ^ 2)" "''Mi''"] by (simp add: formatBytes_def)
qed

section \<open>What is kept is in bounds\<close>

lemma length_readConversation: "length (readConversation c) \<le> 1"
  by (simp split: JsField.split)

lemma readConversation_nameOk: "t \<in> set (readConversation c) \<Longrightarrow> nameOk t"
  by (auto simp: nameOk_def split: JsField.splits if_splits)

lemma length_concat_le: "(\<And>x. length (f x) \<le> 1) \<Longrightarrow> length (concat (map f xs)) \<le> length xs"
proof (induction xs)
  case (Cons x xs)
  then show ?case using Cons.prems [of x] by (simp add: le_Suc_eq, linarith)
qed simp

lemma readKill_killOk:
  assumes "k \<in> set (readKill dateParses raw)"
  shows "killOk dateParses k"
proof -
  have "length (concat (map readConversation (take MAX_TOLD cs))) \<le> MAX_TOLD" for cs
    using length_concat_le [of readConversation "take MAX_TOLD cs", OF length_readConversation] by simp
  then show ?thesis using assms
    by (auto simp: readKill_def killOk_def sizes_def dest: readConversation_nameOk split: JsField.splits if_splits RawTold.splits simp del: readConversation.simps)
qed

lemma readKills_killOk: "readKills dateParses ls = Inr ks \<Longrightarrow> k \<in> set ks \<Longrightarrow> killOk dateParses k"
  by (induction ls arbitrary: ks) (auto dest: readKill_killOk split: LineValue.splits sum.splits)

lemma set_newestKept: "set (newestKept xs) \<subseteq> set xs"
  by (simp add: newestKept_def set_drop_subset)

lemma length_newestKept: "length (newestKept xs) \<le> KEPT_KILLS"
  by (simp add: newestKept_def)

lemma rewrite_kills [simp]: "po_kills (rewrite w p) = po_kills p"
  by (simp add: rewrite_def split: option.splits)

lemma newPodKills_ok: "newPodKills dateParses w f = Inr p \<Longrightarrow> podOk dateParses p"
  using set_newestKept length_newestKept
  by (auto simp: newPodKills_def podOk_def split: option.splits sum.splits dest!: subsetD [OF set_newestKept] intro: readKills_killOk)

lemma keep_ok: "podOk dateParses p \<Longrightarrow> killOk dateParses k \<Longrightarrow> podOk dateParses (keep w k p)"
  using length_newestKept [of "po_kills p @ [k]"] set_newestKept [of "po_kills p @ [k]"] by (auto simp: keep_def podOk_def Let_def)

lemma tell_ok:
  assumes ok: "podOk dateParses p"
  shows "podOk dateParses (tell w kid owner p)"
proof (cases "find (\<lambda>k. pk_id k = kid) (po_kills p)")
  case (Some kill)
  let ?grown = "\<lambda>k. k\<lparr>pk_told := pk_told k @ [\<lparr>lc_agent = lc_agent owner, lc_instanceId = lc_instanceId owner\<rparr>]\<rparr>"
  have grown: "killOk dateParses (?grown kill)" if "length (pk_told kill) < MAX_TOLD" "nameOk owner"
    using ok that find_Some_in [OF Some] by (auto simp: podOk_def killOk_def nameOk_def)
  show ?thesis using ok grown Some by (auto simp: tell_def podOk_def nameOk_def dest: updFirst_found)
qed (simp add: tell_def ok)

text \<open>The states of a Sandbox's Harness: started on any file, and then its calls, polls and tellings, and any write of the Agent to the file. An
  id and a time that are minted fit the wire, and the time is one.\<close>

definition newGuard :: MemoryGuard where
  "newGuard = \<lparr>mg_calls = [], mg_seq = 0\<rparr>"

definition gib :: "nat option \<Rightarrow> bool" where
  "gib v \<longleftrightarrow> (case v of None \<Rightarrow> True | Some n \<Rightarrow> n < 999999 * 1024 ^ 3)"

inductive harnessReach :: "(jsstr \<Rightarrow> bool) \<Rightarrow> HarnessKills \<Rightarrow> bool" for dateParses where
  harness_start: "newPodKills dateParses w f = Inr p \<Longrightarrow> harnessReach dateParses \<lparr>hk_guard = newGuard, hk_idOfSeq = [], hk_pod = Some p\<rparr>"
| harness_watch: "harnessReach dateParses h \<Longrightarrow> harnessReach dateParses (h\<lparr>hk_guard := watch call owner (hk_guard h)\<rparr>)"
| harness_end: "harnessReach dateParses h \<Longrightarrow> harnessReach dateParses (h\<lparr>hk_guard := endCall call (hk_guard h)\<rparr>)"
| harness_poll: "harnessReach dateParses h \<Longrightarrow> fitsWire kid MAX_KILL_STAMP \<Longrightarrow> fitsWire time MAX_KILL_STAMP \<Longrightarrow> dateParses time
    \<Longrightarrow> gib limit \<Longrightarrow> gib peak \<Longrightarrow> harnessReach dateParses (poll w kid time limit peak killed after h)"
| harness_told: "harnessReach dateParses h \<Longrightarrow> harnessReach dateParses (onTold w call h)"
| harness_tamper: "harnessReach dateParses h \<Longrightarrow> harnessReach dateParses (h\<lparr>hk_pod := map_option (\<lambda>p. p\<lparr>po_file := f\<rparr>) (hk_pod h)\<rparr>)"

lemma check_fired:
  "check limit peak killed after g = (g', es, Some kill) \<Longrightarrow> gib limit \<Longrightarrow> gib peak \<Longrightarrow> isSize (fk_peak kill) \<and> isSize (fk_limit kill)"
  by (auto simp: check_def gib_def Let_def intro!: formatBytes_isSize split: option.splits if_splits)

lemma poll_ok:
  assumes "\<forall>p. hk_pod h = Some p \<longrightarrow> podOk dateParses p" and "fitsWire kid MAX_KILL_STAMP" and "fitsWire time MAX_KILL_STAMP" and "dateParses time"
    and "gib limit" and "gib peak" and "hk_pod (poll w kid time limit peak killed after h) = Some p"
  shows "podOk dateParses p"
proof -
  obtain g es fired where chk: "check limit peak killed after (hk_guard h) = (g, es, fired)" by (cases "check limit peak killed after (hk_guard h)")
  show ?thesis
  proof (cases fired)
    case (Some kill)
    then have "isSize (fk_peak kill)" "isSize (fk_limit kill)" using check_fired chk assms(5,6) by blast+
    then have "killOk dateParses \<lparr>pk_id = kid, pk_at = time, pk_peak = Some (fk_peak kill), pk_limit = Some (fk_limit kill), pk_told = []\<rparr>"
      using assms(2-4) by (simp add: killOk_def)
    then show ?thesis using assms(1,7) chk Some by (auto simp: poll_def onKill_def intro: keep_ok)
  qed (use assms(1,7) chk in \<open>simp add: poll_def\<close>)
qed

lemma harnessReach_ok: "harnessReach dateParses h \<Longrightarrow> hk_pod h = Some p \<Longrightarrow> podOk dateParses p"
proof (induction arbitrary: p rule: harnessReach.induct)
  case (harness_poll h kid time limit peak w killed after)
  then show ?case using poll_ok [of h dateParses kid time limit peak w killed after p] by blast
next
  case (harness_told h w call)
  then show ?case by (auto simp: onTold_def tell_ok split: option.splits)
next
  case (harness_tamper h f)
  then show ?case by (auto simp: podOk_def)
qed (auto intro: newPodKills_ok)

lemma readAnswer_rawOf:
  "\<forall>k\<in>set ks. killOk dateParses k \<Longrightarrow>
     List.map_filter (listedKill dateParses) (map rawOf ks) = ks \<and> filter (\<lambda>raw. \<not> whole raw (listedKill dateParses raw)) (map rawOf ks) = []"
  by (induction ks) (auto simp: map_filter_simps listedKill_rawOf whole_rawOf)

text \<open>C38. What the pod lists, the Orchestrator reads. Whatever was in the file the Harness started from, and whatever the Agent writes to it
  since, the list of \<^verbatim>\<open>GET /memory-kills\<close> holds at most 16 kills, its JSON is at most the 149,259 bytes the wire states, under the most the
  Orchestrator reads, and the Orchestrator's reading of it is every kill of the list as it is, with none flawed.\<close>

theorem kills_answer_read_whole:
  assumes "harnessReach dateParses h" and "hk_pod h = Some p"
  shows "length (po_kills p) \<le> KEPT_KILLS \<and> utf8ByteLength (answerJson (po_kills p)) \<le> 149259 \<and>
    readAnswer dateParses (utf8ByteLength (answerJson (po_kills p))) (length (answerJson (po_kills p))) (map rawOf (po_kills p)) = Some (po_kills p, 0)"
proof -
  have ok: "podOk dateParses p" using assms by (rule harnessReach_ok)
  then have bytes: "utf8ByteLength (answerJson (po_kills p)) \<le> 149259" by (rule answer_bytes)
  have "\<forall>k\<in>set (po_kills p). killOk dateParses k" using ok by (simp add: podOk_def)
  note readAnswer_rawOf [OF this]
  then show ?thesis using ok bytes length_le_utf8 [of "answerJson (po_kills p)"] by (simp add: readAnswer_def podOk_def kill_bounds)
qed

definition exampleHarness :: HarnessKills where
  "exampleHarness = poll Written (js ''k-1'') (js ''2026-01-01'') (Some (2 * 1024 ^ 3)) (Some (2 * 1024 ^ 3)) 3 None
     \<lparr>hk_guard = newGuard, hk_idOfSeq = [], hk_pod = Some \<lparr>po_kills = [], po_file = None\<rparr>\<rparr>"

definition examplePodKill :: PodMemoryKill where
  "examplePodKill = \<lparr>pk_id = js ''k-1'', pk_at = js ''2026-01-01'', pk_peak = Some (js ''2Gi''), pk_limit = Some (js ''2Gi''), pk_told = []\<rparr>"

lemma exampleStamp_fits: "fitsWire (js ''k-1'') MAX_KILL_STAMP" "fitsWire (js ''2026-01-01'') MAX_KILL_STAMP"
  by (simp_all add: fitsWire_def utf8_jsonString_plain plainUnit_def js_def kill_bounds)

lemma exampleHarness_pod: "hk_pod exampleHarness = Some \<lparr>po_kills = [examplePodKill], po_file = None\<rparr>"
  by (simp add: exampleHarness_def examplePodKill_def poll_def check_def newGuard_def nearLimit_def onKill_def keep_def formatBytes_def
      decimal.simps kill_bounds js_def)

lemma exampleHarness_reach: "harnessReach (\<lambda>_. True) exampleHarness"
  unfolding exampleHarness_def
  by (rule harness_poll) (auto simp: exampleStamp_fits gib_def intro: harness_start [where w = Written and f = None] simp: newPodKills_def)

theorem kills_answer_read_whole_witness:
  "readAnswer (\<lambda>_. True) (utf8ByteLength (answerJson [examplePodKill])) (length (answerJson [examplePodKill])) [rawOf examplePodKill] = Some ([examplePodKill], 0)"
  using kills_answer_read_whole [OF exampleHarness_reach exampleHarness_pod] by simp

section \<open>Restarts\<close>

lemma readTail_kept:
  assumes "podOk dateParses p"
  shows "readTail \<lparr>kf_lines = map killLine (po_kills p), kf_torn = None\<rparr> = map killLine (po_kills p)"
proof -
  have "linesBytes (map killLine ks) \<le> length ks * 9328" if "\<forall>k\<in>set ks. killOk dateParses k" for ks
    using that
  proof (induction ks)
    case (Cons k ks)
    then show ?case using kill_bytes [of dateParses k] by (simp add: linesBytes_def killLine_def)
  qed (simp add: linesBytes_def)
  from this [of "po_kills p"] show ?thesis using assms by (auto simp: readTail_def fileLines_def podOk_def kill_bounds)
qed

lemma readKills_kept: "\<forall>k\<in>set ks. killOk dateParses k \<Longrightarrow> readKills dateParses (map killLine ks) = Inr ks"
  by (induction ks) (auto simp: killLine_def readKill_rawOf)

text \<open>Keeping and telling as steps, with how each write ends.\<close>

datatype PodOp = Keep WriteOutcome PodMemoryKill | Tell WriteOutcome jsstr LiveConversation

fun applyPod :: "PodOp \<Rightarrow> PodKills \<Rightarrow> PodKills" where
  "applyPod (Keep w k) p = keep w k p"
| "applyPod (Tell w kid owner) p = tell w kid owner p"

fun okPodOp :: "(jsstr \<Rightarrow> bool) \<Rightarrow> PodOp \<Rightarrow> bool" where
  "okPodOp dateParses (Keep w k) = killOk dateParses k"
| "okPodOp dateParses (Tell w kid owner) = True"

fun writes :: "PodOp \<Rightarrow> WriteOutcome" where
  "writes (Keep w k) = w"
| "writes (Tell w kid owner) = w"

definition inFile :: "PodKills \<Rightarrow> bool" where
  "inFile p \<longleftrightarrow> po_file p = Some \<lparr>kf_lines = map killLine (po_kills p), kf_torn = None\<rparr>"

lemma rewrite_inFile: "po_file p \<noteq> None \<Longrightarrow> inFile (rewrite Written p)"
  by (auto simp: rewrite_def inFile_def split: option.splits)

lemma inFile_file: "inFile p \<Longrightarrow> po_file p \<noteq> None"
  by (simp add: inFile_def)

lemma applyPod_inFile: "inFile p \<Longrightarrow> writes op = Written \<Longrightarrow> inFile (applyPod op p)"
proof (cases op)
  case (Keep w k)
  assume "inFile p" "writes op = Written"
  then show ?thesis using Keep rewrite_inFile [of "p\<lparr>po_kills := newestKept (po_kills p @ [k])\<rparr>"]
    by (auto simp: keep_def Let_def inFile_def appendLine_def)
next
  case (Tell w kid owner)
  assume "inFile p" "writes op = Written"
  then show ?thesis using Tell
    by (auto simp: tell_def split: option.splits intro!: rewrite_inFile dest: inFile_file)
qed

lemma applyPod_ok: "podOk dateParses p \<Longrightarrow> okPodOp dateParses op \<Longrightarrow> podOk dateParses (applyPod op p)"
  by (cases op) (simp_all add: keep_ok tell_ok)

lemma fold_applyPod:
  "podOk dateParses p \<Longrightarrow> inFile p \<Longrightarrow> \<forall>op\<in>set ops. okPodOp dateParses op \<and> writes op = Written
     \<Longrightarrow> podOk dateParses (fold applyPod ops p) \<and> inFile (fold applyPod ops p)"
  by (induction ops arbitrary: p) (simp_all add: applyPod_ok applyPod_inFile)

lemma newPodKills_inFile: "newPodKills dateParses Written (Some f) = Inr p \<Longrightarrow> inFile p"
  by (auto simp: newPodKills_def split: sum.splits intro: rewrite_inFile)

lemma restart_same: "podOk dateParses p \<Longrightarrow> inFile p \<Longrightarrow> newPodKills dateParses Written (po_file p) = Inr p"
  by (auto simp: inFile_def newPodKills_def readTail_kept readKills_kept podOk_def newestKept_def rewrite_def)

text \<open>C39. A restart of the Harness loses no kill. From any file the process starts on (torn, written by the Agent, or larger than the most that
  is read), after any kills kept and told whose writes succeed, a new process that starts on the file it left holds the same kills, each told
  the same conversations, and leaves the file as it is.\<close>

theorem kills_survive_restart:
  assumes "newPodKills dateParses Written (Some f) = Inr p" and "\<forall>op\<in>set ops. okPodOp dateParses op \<and> writes op = Written"
  shows "newPodKills dateParses Written (po_file (fold applyPod ops p)) = Inr (fold applyPod ops p)"
  using fold_applyPod [OF newPodKills_ok [OF assms(1)] newPodKills_inFile [OF assms(1)] assms(2)] by (simp add: restart_same)

lemma examplePodKill_ok: "killOk (\<lambda>_. True) examplePodKill"
  using exampleStamp_fits isSize_whole [of 2 "''Gi''"] by (simp add: killOk_def examplePodKill_def decimal.simps js_def)

theorem kills_survive_restart_witness:
  "newPodKills (\<lambda>_. True) Written (Some \<lparr>kf_lines = [\<lparr>fl_bytes = 4, fl_value = UnparsedLine\<rparr>], kf_torn = None\<rparr>)
     = Inr \<lparr>po_kills = [], po_file = Some \<lparr>kf_lines = [], kf_torn = None\<rparr>\<rparr>
   \<and> newPodKills (\<lambda>_. True) Written (Some \<lparr>kf_lines = [killLine examplePodKill], kf_torn = None\<rparr>)
     = Inr \<lparr>po_kills = [examplePodKill], po_file = Some \<lparr>kf_lines = [killLine examplePodKill], kf_torn = None\<rparr>\<rparr>"
proof -
  have start: "newPodKills (\<lambda>_. True) Written (Some \<lparr>kf_lines = [\<lparr>fl_bytes = 4, fl_value = UnparsedLine\<rparr>], kf_torn = None\<rparr>)
     = Inr \<lparr>po_kills = [], po_file = Some \<lparr>kf_lines = [], kf_torn = None\<rparr>\<rparr>"
    by (simp add: newPodKills_def readTail_def fileLines_def linesBytes_def kill_bounds rewrite_def newestKept_def)
  then show ?thesis using kills_survive_restart [OF start, of "[Keep Written examplePodKill]"] examplePodKill_ok
    by (simp add: keep_def kill_bounds appendLine_def)
qed


section \<open>One kill, one notice\<close>

definition killSource :: "(jsstr \<Rightarrow> ident) \<Rightarrow> ident \<Rightarrow> PodMemoryKill \<Rightarrow> ident" where
  "killSource enc sandbox k = guardSource enc sandbox (pk_id k)"

definition toldOps :: "(jsstr \<Rightarrow> ident) \<Rightarrow> ident \<Rightarrow> PodMemoryKill list \<Rightarrow> LedgerOp list" where
  "toldOps enc sandbox kills = map (\<lambda>k. Told (killSource enc sandbox k) (map (enc \<circ> lc_instanceId) (pk_told k))) (filter (\<lambda>k. pk_told k \<noteq> []) kills)"

lemma applyTold_ops: "applyTold enc sandbox kills L = fold (applyOp newId) (toldOps enc sandbox kills) L"
  unfolding applyTold_def toldOps_def killSource_def fold_map comp_def applyOp.simps ..

lemma toldOps_ok: "\<forall>op\<in>set (toldOps enc sandbox kills). okOp op"
  by (auto simp: toldOps_def)

lemma raiseKills_ops:
  assumes "kills \<noteq> []"
  obtains n opts where "o_retry opts = None"
    and "raiseKills newId enc stampOf sandbox kills L =
      fold (applyOp newId) (Raise n sandbox (Some (killSource enc sandbox (last kills))) (map (killSource enc sandbox) (butlast kills)) opts
        # toldOps enc sandbox kills) L"
  using assms that [of "\<lparr>o_retry = None, o_told = map (enc \<circ> lc_instanceId) (pk_told (last kills)), o_at = Some (stampOf (pk_at (last kills)))\<rparr>"
      "memoryLimit enc (pk_limit (last kills)) (pk_peak (last kills)) None"]
  by (simp add: raiseKills_def Let_def applyTold_ops [of _ _ _ _ newId] killSource_def [abs_def])

lemma raise_older_seen: "set older \<subseteq> set (l_seen (fst (raise newId n to (Some s) older opts L)))"
proof (cases "s \<in> set (fold setAdd older (l_seen L))")
  case True
  then have "fst (raise newId n to (Some s) older opts L) =
      fst (addRetry newId n to s (o_retry opts) (L\<lparr>l_seen := fold setAdd older (l_seen L)\<rparr>))"
    by (simp add: raise_def Let_def split: prod.splits)
  then show ?thesis by simp
next
  case False
  then show ?thesis by (simp add: raise_def Let_def del: set_fold_setAdd) auto
qed

lemma raise_nothing_new:
  assumes "set older \<subseteq> set (l_seen L)" and "s \<in> set (l_seen L)" and "o_retry opts = None"
  shows "fst (raise newId n to (Some s) older opts L) = L"
  using assms by (simp add: raise_def addRetry_def fold_setAdd_id Let_def)

lemma set_butlast_last: "xs \<noteq> [] \<Longrightarrow> set xs = insert (last xs) (set (butlast xs))"
  by (metis append_butlast_last_id list.simps(15) rotate1.simps(2) set_rotate1)

lemma raiseKills_seen:
  assumes "wfLedger newId L" and "inj newId"
  shows "killSource enc sandbox ` set kills \<subseteq> set (l_seen (raiseKills newId enc stampOf sandbox kills L))
    \<and> wfLedger newId (raiseKills newId enc stampOf sandbox kills L)"
proof (cases "kills = []")
  case False
  from raiseKills_ops [OF False] obtain n opts where noRetry: "o_retry opts = None"
    and eq: "raiseKills newId enc stampOf sandbox kills L =
      fold (applyOp newId) (Raise n sandbox (Some (killSource enc sandbox (last kills))) (map (killSource enc sandbox) (butlast kills)) opts
        # toldOps enc sandbox kills) L" by metis
  let ?R = "Raise n sandbox (Some (killSource enc sandbox (last kills))) (map (killSource enc sandbox) (butlast kills)) opts"
  have wf: "wfLedger newId (applyOp newId ?R L)" using assms noRetry by (intro wfLedger_applyOp) auto
  have "killSource enc sandbox ` set kills \<subseteq> set (l_seen (applyOp newId ?R L))"
    using raise_seen [of "killSource enc sandbox (last kills)"] raise_older_seen [of "map (killSource enc sandbox) (butlast kills)"] set_butlast_last [OF False]
    by auto
  moreover have "wfLedger newId M \<Longrightarrow> \<forall>op\<in>set ops. okOp op \<Longrightarrow> wfLedger newId (fold (applyOp newId) ops M)" for M ops
    using assms(2) by (induction ops arbitrary: M) (auto intro: wfLedger_applyOp)
  ultimately show ?thesis using fold_applyOp_seen [OF wf assms(2) toldOps_ok [of enc sandbox kills]] wf toldOps_ok [of enc sandbox kills]
    unfolding eq fold.simps comp_def by blast
qed (simp add: raiseKills_def assms)

lemma toldOps_keys:
  "subseq (map pkey (l_pending (fold (applyOp newId) (toldOps enc sandbox kills) L))) (map pkey (l_pending L))
   \<and> l_minted (fold (applyOp newId) (toldOps enc sandbox kills) L) = l_minted L"
proof (induction kills arbitrary: L)
  case (Cons k kills)
  have step: "subseq (map pkey (l_pending (fst (told src takers L)))) (map pkey (l_pending L)) \<and> l_minted (fst (told src takers L)) = l_minted L" for src takers
    using Told_keeps [of src takers L] ledgerStep_subseq unfolding ledgerStep_def by blast
  show ?case
  proof (cases "pk_told k = []")
    case False
    then show ?thesis using Cons.IH [of "fst (told (killSource enc sandbox k) (map (enc \<circ> lc_instanceId) (pk_told k)) L)"]
        step [of "killSource enc sandbox k" "map (enc \<circ> lc_instanceId) (pk_told k)"] subseq_order.trans
      by (fastforce simp: toldOps_def)
  qed (use Cons.IH in \<open>simp add: toldOps_def\<close>)
qed (simp add: toldOps_def)

text \<open>One guard kill is one notice. Once a read raised a list of kills, then after any operations on the ledger, a restart of the Orchestrator
  among them, a read that lists those kills or some of them again mints no notice and adds none to the pending ones.\<close>

theorem kills_heard_once:
  assumes "inj newId" and "ledgerReach newId L" and "\<forall>op\<in>set ops. okOp op" and "set again \<subseteq> set kills"
  shows "let L' = fold (applyOp newId) ops (raiseKills newId enc stampOf sandbox kills L); L'' = raiseKills newId enc stampOf sandbox again L'
    in l_minted L'' = l_minted L' \<and> subseq (map pkey (l_pending L'')) (map pkey (l_pending L'))"
proof -
  let ?heard = "raiseKills newId enc stampOf sandbox kills L"
  let ?later = "fold (applyOp newId) ops ?heard"
  have wf: "wfLedger newId L" using assms(1,2) by (rule wfLedger_reach [rotated])
  have seen: "killSource enc sandbox ` set again \<subseteq> set (l_seen ?later)"
    using raiseKills_seen [OF wf assms(1), of enc sandbox kills stampOf] fold_applyOp_seen [OF conjunct2 [OF raiseKills_seen [OF wf assms(1)]] assms(1,3), of enc stampOf sandbox kills] assms(4)
    by blast
  show ?thesis
  proof (cases "again = []")
    case False
    from raiseKills_ops [OF False] obtain n opts where noRetry: "o_retry opts = None"
      and eq: "raiseKills newId enc stampOf sandbox again ?later =
        fold (applyOp newId) (Raise n sandbox (Some (killSource enc sandbox (last again))) (map (killSource enc sandbox) (butlast again)) opts
          # toldOps enc sandbox again) ?later" by metis
    have "fst (raise newId n sandbox (Some (killSource enc sandbox (last again))) (map (killSource enc sandbox) (butlast again)) opts ?later) = ?later"
      using seen set_butlast_last [OF False] noRetry by (intro raise_nothing_new) auto
    then show ?thesis using toldOps_keys [of newId enc sandbox again ?later] by (simp add: eq Let_def)
  qed (simp add: raiseKills_def)
qed

definition exampleEnc :: "jsstr \<Rightarrow> ident" where
  "exampleEnc s = map (\<lambda>c. char_of (unat c)) s"

theorem kills_heard_once_witness:
  "let L' = fold (applyOp exampleId) [Restart] (raiseKills exampleId exampleEnc (\<lambda>_. None) ''ws'' [examplePodKill] exampleLedger)
   in l_minted (raiseKills exampleId exampleEnc (\<lambda>_. None) ''ws'' [examplePodKill] L') = l_minted L'"
  using kills_heard_once [OF inj_exampleId exampleLedger_reach, of "[Restart]" "[examplePodKill]" "[examplePodKill]" exampleEnc "\<lambda>_. None" "''ws''"]
  by (simp add: Let_def)

section \<open>The kills of a Turn\<close>

lemma fromIndex_append: "fromIndex mark me i (xs @ ys) f = fromIndex mark me (i + length xs) ys (fromIndex mark me i xs f)"
  by (induction xs arbitrary: i f) auto

lemma fromIndex_none: "\<forall>k\<in>set ks. Some (pk_id k) \<noteq> mark \<and> \<not> toldHere me k \<Longrightarrow> fromIndex mark me i ks f = f"
  by (induction ks arbitrary: i f) auto

lemma fromIndex_last: "ks \<noteq> [] \<Longrightarrow> fromIndex (Some (pk_id (last ks))) me 0 ks f = length ks"
  by (subst append_butlast_last_id [symmetric], assumption) (simp only: fromIndex_append, simp)

text \<open>What the list holds after its oldest kills went and new ones came, from the mark the first read left.\<close>

lemma fromIndex_later:
  assumes "distinct (map pk_id (kills @ new))" and "NO_KILLS \<notin> pk_id ` set (kills @ new)" and "\<forall>k\<in>set (kills @ new). \<not> toldHere me k"
  shows "fromIndex (Some (if kills = [] then NO_KILLS else pk_id (last kills))) me 0 (drop n (kills @ new)) 0 = length (drop n kills)"
proof -
  let ?mark = "Some (if kills = [] then NO_KILLS else pk_id (last kills))"
  have new: "\<forall>k\<in>set (drop (n - length kills) new). Some (pk_id k) \<noteq> ?mark \<and> \<not> toldHere me k"
  proof
    fix k assume "k \<in> set (drop (n - length kills) new)"
    then have k: "k \<in> set new" by (rule in_set_dropD)
    moreover have "pk_id k \<noteq> pk_id (last kills)" if "kills \<noteq> []" using assms(1) k last_in_set [OF that] by force
    moreover have "pk_id k \<noteq> NO_KILLS" using assms(2) k by (metis UnCI image_eqI set_append)
    ultimately show "Some (pk_id k) \<noteq> ?mark \<and> \<not> toldHere me k" using assms(3) by auto
  qed
  have old: "fromIndex ?mark me 0 (drop n kills) 0 = length (drop n kills)"
  proof (cases "drop n kills = []")
    case False
    then have "last kills = last (drop n kills)" "kills \<noteq> []" by auto
    then show ?thesis using fromIndex_last [OF False] by simp
  qed simp
  show ?thesis by (simp only: drop_append fromIndex_append fromIndex_none [OF new] old)
qed

text \<open>An admission of a Turn says the kills of that Turn and no other. When the Turn's first read left its mark, and a later read of the same
  Turn lists what is left of those kills and the kills that came since, none of them answered by this conversation's own call, then the kills the
  admission may carry are the ones that came since (those the bounded list still has), and the ones it may not are those the first read saw.\<close>

theorem later_read_says_new_kills:
  assumes "distinct (map pk_id (kills @ new))" and "NO_KILLS \<notin> pk_id ` set (kills @ new)" and "\<forall>k\<in>set (kills @ new). \<not> toldHere me k"
  shows "let first = hearPodKills newId enc stampOf byClock (Some sandbox) me True None (Some kills) L;
      later = hearPodKills newId enc stampOf byClock (Some sandbox) me False (kh_mark first) (Some (drop n (kills @ new))) L'
    in kh_known later \<and> kh_unsaid later = map (killSource enc sandbox) (drop (n - length kills) new)
       \<and> kh_said later = map (killSource enc sandbox) (drop n kills)"
proof -
  let ?mark = "Some (if kills = [] then NO_KILLS else pk_id (last kills))"
  have mark: "kh_mark (hearPodKills newId enc stampOf byClock (Some sandbox) me True None (Some kills) L) = ?mark"
    by (simp add: hearPodKills_def Let_def)
  show ?thesis
  proof (cases "drop n (kills @ new) = []")
    case True
    then show ?thesis by (simp add: hearPodKills_def Let_def)
  next
    case False
    then show ?thesis unfolding Let_def mark using fromIndex_later [OF assms, of n]
      by (simp add: hearPodKills_def Let_def killSource_def [abs_def] del: drop_eq_Nil)
  qed
qed

lemma examplePodKill_source: "killSource exampleEnc ''ws'' examplePodKill = ''ws@guard:k-1''"
  by code_simp

theorem later_read_says_new_kills_witness:
  "kh_unsaid (hearPodKills exampleId exampleEnc (\<lambda>_. None) (\<lambda>_. False) (Some ''ws'') \<lparr>lc_agent = [], lc_instanceId = []\<rparr> False
      (kh_mark (hearPodKills exampleId exampleEnc (\<lambda>_. None) (\<lambda>_. False) (Some ''ws'') \<lparr>lc_agent = [], lc_instanceId = []\<rparr> True None (Some []) exampleLedger))
      (Some [examplePodKill]) exampleLedger) = [''ws@guard:k-1'']"
proof -
  have "distinct (map pk_id ([] @ [examplePodKill]))" "NO_KILLS \<notin> pk_id ` set ([] @ [examplePodKill])"
    "\<forall>k\<in>set ([] @ [examplePodKill]). \<not> toldHere \<lparr>lc_agent = [], lc_instanceId = []\<rparr> k"
    by (simp_all add: examplePodKill_def NO_KILLS_def js_def toldHere_def)
  from later_read_says_new_kills [OF this, of exampleId exampleEnc "\<lambda>_. None" "\<lambda>_. False" "''ws''" exampleLedger 0 exampleLedger]
  show ?thesis by (simp add: Let_def examplePodKill_source)
qed

end
