(* ===== verification/Submissions.thy ===== *)
theory Submissions
  imports Jr2_Prelude Decimals Complex_Main
begin

text \<open>
  The Submissions of a conversation, \<^verbatim>\<open>packages/harness/src/conversation.ts\<close> with its record \<^verbatim>\<open>record.ts\<close>: admission and the queue, the one
  seat that runs, the sweep, the wait for a sweep, the cut of a draining Harness, the stream and its long polls, and the rebuild after a restart.

  The objects \<^verbatim>\<open>SubmissionRecord\<close> are a store by submission id, and the running seat is named by the id of its Submission: a Submission is
  promoted once. An id is the number that was minted and the random tail. What a run does is the environment's: it says that it waits, what it
  spent, and how it ends. The lines of the record's files are one list in the order of their writes, so a process that ends between two writes
  leaves a head of that list. A torn last line is not there, as the code reads it. With no folder to record in, the list is read by nobody.
  A cost is a rational.
\<close>

section \<open>The wire's shapes\<close>

datatype SubmissionId = Sid (sid_number: nat) (sid_tail: string)

datatype SettlementOutcome = Completed | Ended | Failed | Aborted

record SettlementError =
  er_type :: string
  er_message :: "string option"

record SubmissionUsage =
  us_input :: nat
  us_output :: nat
  us_cacheRead :: nat
  us_cacheWrite :: nat
  us_cost :: rat

record Settlement =
  st_submissionId :: SubmissionId
  st_outcome :: SettlementOutcome
  st_error :: "SettlementError option"
  st_usage :: "SubmissionUsage option"

datatype Role = UserRole | AssistantRole

record HistoryMessage =
  hm_role :: Role
  hm_text :: string

datatype EventBody =
    MessageAppended nat HistoryMessage
  | SubmissionSettled Settlement
  | MemoryLimitEvent string string string

record StreamEvent =
  ev_conversationId :: string
  ev_batch :: nat
  ev_body :: EventBody

definition SUBMISSION_ABORTED :: string where "SUBMISSION_ABORTED = ''submission_aborted''"
definition SUBMISSION_RUNAWAY :: string where "SUBMISSION_RUNAWAY = ''runaway''"
definition SUBMISSION_HARNESS_RESTARTED :: string where "SUBMISSION_HARNESS_RESTARTED = ''harness_restarted''"

definition SUBMISSION_RESTARTED_MESSAGE :: string where
  "SUBMISSION_RESTARTED_MESSAGE = ''Harness restarted before this Submission settled (ADR-0031)''"

definition SUBMISSION_CUT_MESSAGE :: string where
  "SUBMISSION_CUT_MESSAGE = ''the Harness stopped while this Turn waited only on its pick's answer; the workflow runs on (ADR-0031)''"

definition NO_SWEEP_MESSAGE :: string where
  "NO_SWEEP_MESSAGE = ''a pick found the Turn over, and no sweep came from the Orchestrator to say how it ended, so it settles aborted (ADR-0024)''"

datatype AbortCause = PickCause

definition addUsage :: "SubmissionUsage \<Rightarrow> SubmissionUsage \<Rightarrow> SubmissionUsage" where
  "addUsage a b = \<lparr>us_input = us_input a + us_input b, us_output = us_output a + us_output b, us_cacheRead = us_cacheRead a + us_cacheRead b,
     us_cacheWrite = us_cacheWrite a + us_cacheWrite b, us_cost = us_cost a + us_cost b\<rparr>"

section \<open>The state\<close>

record SubmissionRecord =
  sr_request :: string
  sr_settled :: bool
  sr_usage :: "SubmissionUsage option"

text \<open>The seat: whose run it is, whether its signal fired, whether it says that it waits only on its pick, whether it was cut, and whether its
  run ended and it waits for the sweep.\<close>

record Active =
  ac_id :: SubmissionId
  ac_aborted :: bool
  ac_onPickOnly :: bool
  ac_cut :: bool
  ac_waiting :: bool

datatype RecordLine = AdmittedLine SubmissionId | StreamLine StreamEvent | MessageLine HistoryMessage | OverLine SubmissionId

text \<open>\<open>cv_started\<close> and \<open>cv_running\<close> are the runs this process started and those whose promise has not settled; \<open>cv_answered\<close> and
  \<open>cv_idleDone\<close> the long polls and the drains that were answered.\<close>

record Conversation =
  cv_instanceId :: string
  cv_records :: "(SubmissionId \<times> SubmissionRecord) list"
  cv_queue :: "SubmissionId list"
  cv_active :: "Active option"
  cv_stopping :: bool
  cv_log :: "StreamEvent list"
  cv_messages :: "HistoryMessage list"
  cv_settlements :: "Settlement list"
  cv_waiters :: "(nat \<times> string) list"
  cv_idleWaiters :: "nat list"
  cv_admitted :: nat
  cv_mintedMessages :: nat
  cv_record :: "RecordLine list"
  cv_started :: "SubmissionId list"
  cv_running :: "SubmissionId list"
  cv_answered :: "(nat \<times> StreamEvent list) list"
  cv_idleDone :: "nat list"

definition newConversation :: "string \<Rightarrow> Conversation" where
  "newConversation iid = \<lparr>cv_instanceId = iid, cv_records = [], cv_queue = [], cv_active = None, cv_stopping = False, cv_log = [], cv_messages = [],
     cv_settlements = [], cv_waiters = [], cv_idleWaiters = [], cv_admitted = 0, cv_mintedMessages = 0, cv_record = [], cv_started = [], cv_running = [],
     cv_answered = [], cv_idleDone = []\<rparr>"

definition busy :: "Conversation \<Rightarrow> bool" where
  "busy c \<longleftrightarrow> cv_active c \<noteq> None \<or> cv_queue c \<noteq> []"

section \<open>The stream\<close>

text \<open>\<^verbatim>\<open>Number.parseInt(offset, 10)\<close> as the log's index: blanks and a sign first, then digits; what is no number, negative, or too large to be a
  number of the language is 0, and what is past the end is the end.\<close>

definition tooLarge :: nat where "tooLarge = 2 ^ 1024 - 2 ^ 970"

definition parseInt10 :: "string \<Rightarrow> int option" where
  "parseInt10 s =
     (let t = dropWhile isSpace s;
          neg = (t \<noteq> [] \<and> hd t = CHR ''-'');
          u = (if t \<noteq> [] \<and> (hd t = CHR ''-'' \<or> hd t = CHR ''+'') then tl t else t);
          digits = takeWhile isDigit u
      in if digits = [] \<or> digitsValue 0 digits \<ge> tooLarge then None
         else Some (if neg then - int (digitsValue 0 digits) else int (digitsValue 0 digits)))"

definition parseOffset :: "Conversation \<Rightarrow> string \<Rightarrow> nat" where
  "parseOffset c offset = (case parseInt10 offset of None \<Rightarrow> 0 | Some n \<Rightarrow> if n < 0 then 0 else min (nat n) (length (cv_log c)))"

definition updatesView :: "string \<Rightarrow> Conversation \<Rightarrow> StreamEvent list" where
  "updatesView offset c = drop (parseOffset c offset) (cv_log c)"

text \<open>An event goes on the log and to the record, and wakes every parked poll.\<close>

definition append_event :: "EventBody \<Rightarrow> Conversation \<Rightarrow> Conversation" where
  "append_event body c =
     (let e = \<lparr>ev_conversationId = cv_instanceId c, ev_batch = length (cv_log c), ev_body = body\<rparr>;
          c' = c\<lparr>cv_log := cv_log c @ [e], cv_record := cv_record c @ [StreamLine e]\<rparr>
      in c'\<lparr>cv_waiters := [], cv_answered := cv_answered c @ map (\<lambda>(w, offset). (w, updatesView offset c')) (cv_waiters c)\<rparr>)"

definition appendMessage :: "HistoryMessage \<Rightarrow> Conversation \<Rightarrow> Conversation" where
  "appendMessage m c =
     append_event (MessageAppended (Suc (cv_mintedMessages c)) m)
       (c\<lparr>cv_messages := cv_messages c @ [m], cv_record := cv_record c @ [MessageLine m], cv_mintedMessages := Suc (cv_mintedMessages c)\<rparr>)"

definition waitForEvent :: "nat \<Rightarrow> string \<Rightarrow> Conversation \<Rightarrow> Conversation" where
  "waitForEvent w offset c =
     (if updatesView offset c \<noteq> [] then c\<lparr>cv_answered := cv_answered c @ [(w, updatesView offset c)]\<rparr>
      else c\<lparr>cv_waiters := cv_waiters c @ [(w, offset)]\<rparr>)"

text \<open>The timer of a parked poll, which a wake clears.\<close>

definition pollTimeout :: "nat \<Rightarrow> Conversation \<Rightarrow> Conversation" where
  "pollTimeout w c =
     (case map_of (cv_waiters c) w of None \<Rightarrow> c
      | Some offset \<Rightarrow> c\<lparr>cv_waiters := mapDelete w (cv_waiters c), cv_answered := cv_answered c @ [(w, updatesView offset c)]\<rparr>)"

record HistoryView =
  hv_conversationId :: string
  hv_offset :: string
  hv_messages :: "HistoryMessage list"
  hv_settlements :: "Settlement list"

definition historyView :: "Conversation \<Rightarrow> HistoryView" where
  "historyView c = \<lparr>hv_conversationId = cv_instanceId c, hv_offset = decimal (length (cv_log c)), hv_messages = cv_messages c,
     hv_settlements = cv_settlements c\<rparr>"

definition isSettled :: "SubmissionId \<Rightarrow> Conversation \<Rightarrow> bool" where
  "isSettled sid c \<longleftrightarrow> (case map_of (cv_records c) sid of None \<Rightarrow> False | Some r \<Rightarrow> sr_settled r)"

definition reportMemoryLimit :: "string \<Rightarrow> string \<Rightarrow> string \<Rightarrow> Conversation \<Rightarrow> Conversation" where
  "reportMemoryLimit kid peak limit c =
     (case cv_active c of None \<Rightarrow> c
      | Some a \<Rightarrow>
          if isSettled (ac_id a) c \<or> ac_waiting a then c
          else append_event (MemoryLimitEvent kid peak limit) c)"

section \<open>Settling and the seat\<close>

text \<open>The settlement of a record that is not settled: out of the queue, into the settlements and onto the stream.\<close>

definition settleNow :: "SubmissionId \<Rightarrow> SubmissionUsage option \<Rightarrow> SettlementOutcome \<Rightarrow> SettlementError option \<Rightarrow> Conversation \<Rightarrow> Conversation" where
  "settleNow sid usage outcome err c =
     (let s = \<lparr>st_submissionId = sid, st_outcome = outcome, st_error = err, st_usage = usage\<rparr>
      in append_event (SubmissionSettled s) (c\<lparr>cv_queue := delFirst (\<lambda>q. q = sid) (cv_queue c), cv_settlements := cv_settlements c @ [s]\<rparr>))"

definition settle :: "SubmissionId \<Rightarrow> SettlementOutcome \<Rightarrow> SettlementError option \<Rightarrow> Conversation \<Rightarrow> Conversation" where
  "settle sid outcome err c =
     (case map_of (cv_records c) sid of None \<Rightarrow> c
      | Some r \<Rightarrow>
          if sr_settled r then c
          else settleNow sid (sr_usage r) outcome err (c\<lparr>cv_records := mapSet sid (r\<lparr>sr_settled := True\<rparr>) (cv_records c)\<rparr>))"

definition pump :: "Conversation \<Rightarrow> Conversation" where
  "pump c =
     (if cv_active c \<noteq> None then c
      else case cv_queue c of
             [] \<Rightarrow> c\<lparr>cv_idleWaiters := [], cv_idleDone := cv_idleDone c @ cv_idleWaiters c\<rparr>
           | sid # _ \<Rightarrow>
               c\<lparr>cv_active := Some \<lparr>ac_id = sid, ac_aborted = False, ac_onPickOnly = False, ac_cut = False, ac_waiting = False\<rparr>,
                 cv_started := cv_started c @ [sid], cv_running := cv_running c @ [sid]\<rparr>)"

definition seatOf :: "SubmissionId \<Rightarrow> Conversation \<Rightarrow> bool" where
  "seatOf sid c \<longleftrightarrow> (\<exists>a. cv_active c = Some a \<and> ac_id a = sid)"

lemma seatOf_code [code]: "seatOf sid c = (case cv_active c of None \<Rightarrow> False | Some a \<Rightarrow> ac_id a = sid)"
  by (simp add: seatOf_def split: option.split)

definition release :: "SubmissionId \<Rightarrow> Conversation \<Rightarrow> Conversation" where
  "release sid c = (if seatOf sid c then pump (c\<lparr>cv_active := None\<rparr>) else c)"

record Admission =
  ad_offset :: string
  ad_submissionId :: SubmissionId

definition admit :: "string \<Rightarrow> string \<Rightarrow> Conversation \<Rightarrow> Conversation \<times> Admission" where
  "admit tail' request c =
     (let sid = Sid (Suc (cv_admitted c)) tail';
          c' = c\<lparr>cv_admitted := Suc (cv_admitted c), cv_record := cv_record c @ [AdmittedLine sid], cv_queue := cv_queue c @ [sid],
                 cv_records := mapSet sid \<lparr>sr_request = request, sr_settled = False, sr_usage = None\<rparr> (cv_records c)\<rparr>
      in (pump c', \<lparr>ad_offset = decimal (length (cv_log c')), ad_submissionId = sid\<rparr>))"

definition abort :: "AbortCause option \<Rightarrow> SubmissionId option \<Rightarrow> Conversation \<Rightarrow> Conversation \<times> bool" where
  "abort cause submissionId c =
     (if cv_queue c = [] then (c, False)
      else let c1 = c\<lparr>cv_queue := [], cv_active := map_option (\<lambda>a. a\<lparr>ac_aborted := True\<rparr>) (cv_active c)\<rparr>;
               c2 = fold (\<lambda>sid. if cause = Some PickCause \<and> seatOf sid c \<and> submissionId = Some sid then settle sid Ended None
                                else settle sid Aborted (Some \<lparr>er_type = SUBMISSION_ABORTED, er_message = None\<rparr>)) (cv_queue c) c1
           in (case cv_active c of Some a \<Rightarrow> if ac_waiting a then release (ac_id a) c2 else c2 | None \<Rightarrow> c2, True))"

text \<open>The cut of a draining Harness: the running Submission and everything queued behind it.\<close>

definition cutIfOnPick :: "Conversation \<Rightarrow> Conversation" where
  "cutIfOnPick c =
     (case cv_active c of None \<Rightarrow> c
      | Some a \<Rightarrow>
          if \<not> cv_stopping c \<or> \<not> ac_onPickOnly a \<or> ac_cut a then c
          else let c1 = fold (\<lambda>sid. settle sid Failed (Some \<lparr>er_type = SUBMISSION_HARNESS_RESTARTED, er_message = Some SUBMISSION_CUT_MESSAGE\<rparr>))
                          (ac_id a # cv_queue c) (c\<lparr>cv_active := Some (a\<lparr>ac_cut := True\<rparr>)\<rparr>)
               in pump (c1\<lparr>cv_active := None\<rparr>))"

definition idle :: "nat \<Rightarrow> Conversation \<Rightarrow> Conversation" where
  "idle w c = (if \<not> busy c then c\<lparr>cv_idleDone := cv_idleDone c @ [w]\<rparr> else c\<lparr>cv_idleWaiters := cv_idleWaiters c @ [w]\<rparr>)"

definition drain :: "nat \<Rightarrow> Conversation \<Rightarrow> Conversation" where
  "drain w c = idle w (cutIfOnPick (c\<lparr>cv_stopping := True\<rparr>))"

section \<open>What a run says, and how it ends\<close>

definition seat_waiting :: "SubmissionId \<Rightarrow> bool \<Rightarrow> Conversation \<Rightarrow> Conversation" where
  "seat_waiting sid onPickOnly c =
     (if seatOf sid c then cutIfOnPick (c\<lparr>cv_active := map_option (\<lambda>a. a\<lparr>ac_onPickOnly := onPickOnly\<rparr>) (cv_active c)\<rparr>) else c)"

definition seat_spent :: "SubmissionId \<Rightarrow> SubmissionUsage \<Rightarrow> Conversation \<Rightarrow> Conversation" where
  "seat_spent sid usage c =
     (case map_of (cv_records c) sid of None \<Rightarrow> c
      | Some r \<Rightarrow> c\<lparr>cv_records := mapSet sid (r\<lparr>sr_usage := Some (case sr_usage r of None \<Rightarrow> usage | Some u \<Rightarrow> addUsage u usage)\<rparr>) (cv_records c)\<rparr>)"

datatype RunEnd = Returned | ReturnedTurnOver | ThrewTurnOver string | ThrewRunaway string | Threw string

fun settleEnd :: "RunEnd \<Rightarrow> bool \<Rightarrow> SubmissionId \<Rightarrow> Conversation \<Rightarrow> Conversation" where
  "settleEnd Returned signal sid c = settle sid Completed None c"
| "settleEnd ReturnedTurnOver signal sid c = c"
| "settleEnd (ThrewTurnOver m) signal sid c =
     settle sid Aborted (Some \<lparr>er_type = SUBMISSION_ABORTED, er_message = if signal then None else Some m\<rparr>) c"
| "settleEnd (ThrewRunaway m) signal sid c =
     (if signal then settle sid Aborted (Some \<lparr>er_type = SUBMISSION_ABORTED, er_message = None\<rparr>) c
      else settle sid Failed (Some \<lparr>er_type = SUBMISSION_RUNAWAY, er_message = Some m\<rparr>) c)"
| "settleEnd (Threw m) signal sid c =
     (if signal then settle sid Aborted (Some \<lparr>er_type = SUBMISSION_ABORTED, er_message = None\<rparr>) c
      else settle sid Failed (Some \<lparr>er_type = ''submission_failed'', er_message = Some m\<rparr>) c)"

text \<open>The end of a run. The signal is the seat's; a run that left its seat was cut, and its Submission is settled.\<close>

definition runEnds :: "SubmissionId \<Rightarrow> RunEnd \<Rightarrow> Conversation \<Rightarrow> Conversation" where
  "runEnds sid e c =
     (if sid \<notin> set (cv_running c) then c
      else let signal = (case cv_active c of Some a \<Rightarrow> ac_id a = sid \<and> ac_aborted a | None \<Rightarrow> False);
               over = (e = ReturnedTurnOver \<and> \<not> isSettled sid c);
               c1 = settleEnd e signal sid (c\<lparr>cv_running := setDelete sid (cv_running c)\<rparr>)
           in if \<not> seatOf sid c1 then c1
              else if over then c1\<lparr>cv_record := cv_record c1 @ [OverLine sid], cv_active := map_option (\<lambda>a. a\<lparr>ac_waiting := True\<rparr>) (cv_active c1)\<rparr>
              else pump (c1\<lparr>cv_active := None\<rparr>))"

text \<open>The timer of a wait for the sweep; a sweep that frees the seat clears it.\<close>

definition sweepTimeout :: "SubmissionId \<Rightarrow> Conversation \<Rightarrow> Conversation" where
  "sweepTimeout sid c =
     (if (case cv_active c of Some a \<Rightarrow> ac_id a = sid \<and> ac_waiting a | None \<Rightarrow> False)
      then release sid (settle sid Aborted (Some \<lparr>er_type = SUBMISSION_ABORTED, er_message = Some NO_SWEEP_MESSAGE\<rparr>) c)
      else c)"

section \<open>The rebuild\<close>

record RecordedConversation =
  rc_admitted :: "SubmissionId list"
  rc_over :: "SubmissionId list"
  rc_log :: "StreamEvent list"
  rc_messages :: "HistoryMessage list"
  rc_settlements :: "Settlement list"

fun admittedOf :: "RecordLine \<Rightarrow> SubmissionId list" where
  "admittedOf (AdmittedLine sid) = [sid]"
| "admittedOf _ = []"

fun overOf :: "RecordLine \<Rightarrow> SubmissionId list" where
  "overOf (OverLine sid) = [sid]"
| "overOf _ = []"

fun eventOf :: "RecordLine \<Rightarrow> StreamEvent list" where
  "eventOf (StreamLine e) = [e]"
| "eventOf _ = []"

fun messageLineOf :: "RecordLine \<Rightarrow> HistoryMessage list" where
  "messageLineOf (MessageLine m) = [m]"
| "messageLineOf _ = []"

definition settlementOf :: "StreamEvent \<Rightarrow> Settlement list" where
  "settlementOf e = (case ev_body e of SubmissionSettled s \<Rightarrow> [s] | _ \<Rightarrow> [])"

definition isMessage :: "StreamEvent \<Rightarrow> bool" where
  "isMessage e = (case ev_body e of MessageAppended _ _ \<Rightarrow> True | _ \<Rightarrow> False)"

definition readRecord :: "RecordLine list \<Rightarrow> RecordedConversation" where
  "readRecord ls = \<lparr>rc_admitted = concat (map admittedOf ls), rc_over = concat (map overOf ls), rc_log = concat (map eventOf ls),
     rc_messages = concat (map messageLineOf ls), rc_settlements = concat (map settlementOf (concat (map eventOf ls)))\<rparr>"

text \<open>A Submission that was admitted and is not settled: its run was lost with the process, or waited for its sweep.\<close>

definition settleLost :: "SubmissionId list \<Rightarrow> SubmissionId \<Rightarrow> Conversation \<Rightarrow> Conversation" where
  "settleLost over sid =
     (if sid \<in> set over then settleNow sid None Aborted (Some \<lparr>er_type = SUBMISSION_ABORTED, er_message = Some NO_SWEEP_MESSAGE\<rparr>)
      else settleNow sid None Failed (Some \<lparr>er_type = SUBMISSION_HARNESS_RESTARTED, er_message = Some SUBMISSION_RESTARTED_MESSAGE\<rparr>))"

definition rebuilt :: "string \<Rightarrow> RecordLine list \<Rightarrow> Conversation" where
  "rebuilt iid ls =
     (let r = readRecord ls;
          settled = map st_submissionId (rc_settlements r)
      in fold (settleLost (rc_over r)) (filter (\<lambda>sid. sid \<notin> set settled) (rc_admitted r))
           ((newConversation iid)\<lparr>cv_log := rc_log r, cv_messages := rc_messages r, cv_settlements := rc_settlements r,
              cv_admitted := length (rc_admitted r), cv_mintedMessages := length (filter isMessage (rc_log r)), cv_record := ls\<rparr>))"

section \<open>Steps\<close>

datatype ConvOp =
    Admit string string
  | Abort "AbortCause option" "SubmissionId option"
  | Say HistoryMessage
  | ReportKill string string string
  | Waits SubmissionId bool
  | Spent SubmissionId SubmissionUsage
  | RunEnds SubmissionId RunEnd
  | SweepTimeout SubmissionId
  | Drain nat
  | Poll nat string
  | PollTimeout nat

fun applyConv :: "ConvOp \<Rightarrow> Conversation \<Rightarrow> Conversation" where
  "applyConv (Admit tail' request) c = fst (admit tail' request c)"
| "applyConv (Abort cause submissionId) c = fst (abort cause submissionId c)"
| "applyConv (Say m) c = appendMessage m c"
| "applyConv (ReportKill kid peak limit) c = reportMemoryLimit kid peak limit c"
| "applyConv (Waits sid b) c = seat_waiting sid b c"
| "applyConv (Spent sid u) c = seat_spent sid u c"
| "applyConv (RunEnds sid e) c = runEnds sid e c"
| "applyConv (SweepTimeout sid) c = sweepTimeout sid c"
| "applyConv (Drain w) c = drain w c"
| "applyConv (Poll w offset) c = waitForEvent w offset c"
| "applyConv (PollTimeout w) c = pollTimeout w c"

text \<open>A step is an operation, or the end of the process in one: what it wrote of that operation is there, and a new process rebuilds from it.\<close>

inductive convStep :: "Conversation \<Rightarrow> Conversation \<Rightarrow> bool" where
  conv_op: "convStep c (applyConv op c)"
| conv_crash: "length (cv_record c) \<le> n \<Longrightarrow> convStep c (rebuilt (cv_instanceId c) (take n (cv_record (applyConv op c))))"

inductive convReach :: "Conversation \<Rightarrow> bool" where
  convReach_new: "convReach (newConversation iid)"
| convReach_step: "convReach c \<Longrightarrow> convStep c c' \<Longrightarrow> convReach c'"

section \<open>The invariant\<close>

definition admittedIds :: "RecordLine list \<Rightarrow> SubmissionId list" where
  "admittedIds ls = concat (map admittedOf ls)"

definition recordedIds :: "RecordLine list \<Rightarrow> SubmissionId list" where
  "recordedIds ls = map st_submissionId (concat (map settlementOf (concat (map eventOf ls))))"

definition settledIds :: "Conversation \<Rightarrow> SubmissionId list" where
  "settledIds c = map st_submissionId (cv_settlements c)"

text \<open>A record: the admitted are numbered from 1; in every head of it, what is settled was admitted; nothing is settled twice.\<close>

definition recValid :: "RecordLine list \<Rightarrow> bool" where
  "recValid ls \<longleftrightarrow> map sid_number (admittedIds ls) = [1..<Suc (length (admittedIds ls))] \<and> distinct (recordedIds ls)
     \<and> (\<forall>n. set (recordedIds (take n ls)) \<subseteq> set (admittedIds (take n ls)))"

text \<open>The memory is what the record says.\<close>

definition recOk :: "Conversation \<Rightarrow> bool" where
  "recOk c \<longleftrightarrow> recValid (cv_record c) \<and> concat (map eventOf (cv_record c)) = cv_log c \<and> concat (map messageLineOf (cv_record c)) = cv_messages c
     \<and> concat (map settlementOf (cv_log c)) = cv_settlements c \<and> length (admittedIds (cv_record c)) = cv_admitted c
     \<and> length (filter isMessage (cv_log c)) = cv_mintedMessages c"

definition recordsOk :: "Conversation \<Rightarrow> bool" where
  "recordsOk c \<longleftrightarrow> (\<forall>sid r. map_of (cv_records c) sid = Some r \<longrightarrow> sid \<in> set (admittedIds (cv_record c)) \<and> (sr_settled r \<longleftrightarrow> sid \<in> set (settledIds c)))"

text \<open>The queue is what is admitted and not settled, in the order of admission.\<close>

definition queueOk :: "Conversation \<Rightarrow> bool" where
  "queueOk c \<longleftrightarrow> cv_queue c = filter (\<lambda>sid. sid \<notin> set (settledIds c)) (admittedIds (cv_record c)) \<and> set (cv_queue c) \<subseteq> fst ` set (cv_records c)"

text \<open>The seat is the first of the queue, or winds down.\<close>

definition seatOk :: "Conversation \<Rightarrow> bool" where
  "seatOk c \<longleftrightarrow> (\<forall>a. cv_active c = Some a \<longrightarrow> ac_id a \<in> fst ` set (cv_records c) \<and> ac_id a \<in> set (cv_started c)
     \<and> (ac_id a \<in> set (settledIds c) \<or> (cv_queue c \<noteq> [] \<and> hd (cv_queue c) = ac_id a)))"

definition runsOk :: "Conversation \<Rightarrow> bool" where
  "runsOk c \<longleftrightarrow> sorted_wrt (<) (map sid_number (cv_started c)) \<and> set (cv_started c) \<subseteq> fst ` set (cv_records c)
     \<and> (\<forall>s\<in>set (cv_started c). (s \<in> set (settledIds c) \<or> seatOf s c) \<and> (\<forall>q\<in>set (admittedIds (cv_record c)). q \<in> set (settledIds c) \<or> s = q \<or> sid_number s < sid_number q))
     \<and> distinct (cv_running c) \<and> set (cv_running c) \<subseteq> set (cv_started c)
     \<and> (\<not> cv_stopping c \<longrightarrow> (\<forall>s\<in>set (cv_running c). seatOf s c))"

definition pollsOk :: "Conversation \<Rightarrow> bool" where
  "pollsOk c \<longleftrightarrow> (\<forall>(w, offset)\<in>set (cv_waiters c). updatesView offset c = [])"

definition baseInv :: "Conversation \<Rightarrow> bool" where
  "baseInv c \<longleftrightarrow> recOk c \<and> recordsOk c \<and> runsOk c \<and> pollsOk c"

definition preInv :: "Conversation \<Rightarrow> bool" where
  "preInv c \<longleftrightarrow> baseInv c \<and> queueOk c \<and> seatOk c"

definition convInv :: "Conversation \<Rightarrow> bool" where
  "convInv c \<longleftrightarrow> preInv c \<and> (cv_active c = None \<longrightarrow> cv_queue c = [])
     \<and> (\<forall>a. cv_active c = Some a \<longrightarrow> (ac_waiting a \<longleftrightarrow> ac_id a \<notin> set (cv_running c)))"

lemma admittedIds_append [simp]: "admittedIds (xs @ ys) = admittedIds xs @ admittedIds ys"
  by (simp add: admittedIds_def)

lemma admittedIds_simps [simp]:
  "admittedIds [] = []" "admittedIds [AdmittedLine s] = [s]" "admittedIds [StreamLine e] = []" "admittedIds [MessageLine m] = []" "admittedIds [OverLine s] = []"
  by (simp_all add: admittedIds_def)

lemma recordedIds_append [simp]: "recordedIds (xs @ ys) = recordedIds xs @ recordedIds ys"
  by (simp add: recordedIds_def)

lemma recordedIds_simps [simp]:
  "recordedIds [] = []" "recordedIds [AdmittedLine s] = []" "recordedIds [MessageLine m] = []" "recordedIds [OverLine s] = []"
  "recordedIds [StreamLine e] = map st_submissionId (settlementOf e)"
  by (simp_all add: recordedIds_def)

lemma recValid_snoc:
  "recValid (ls @ [l]) \<longleftrightarrow> recValid ls \<and> (\<forall>s\<in>set (admittedIds [l]). sid_number s = Suc (length (admittedIds ls)))
     \<and> (\<forall>s\<in>set (recordedIds [l]). s \<in> set (admittedIds ls) \<and> s \<notin> set (recordedIds ls))"
proof -
  have take_snoc: "take n (ls @ [l]) = (if n \<le> length ls then take n ls else ls @ [l])" for n by simp
  have "(\<forall>n. set (recordedIds (take n (ls @ [l]))) \<subseteq> set (admittedIds (take n (ls @ [l])))) \<longleftrightarrow>
     (\<forall>n. set (recordedIds (take n ls)) \<subseteq> set (admittedIds (take n ls))) \<and> set (recordedIds (ls @ [l])) \<subseteq> set (admittedIds (ls @ [l]))"
    (is "?L = ?R")
  proof
    assume L: ?L
    have "set (recordedIds (take n ls)) \<subseteq> set (admittedIds (take n ls))" for n
      using L [rule_format, of "min n (length ls)"] by (cases "n \<le> length ls") (simp_all add: min_def)
    moreover have "set (recordedIds (ls @ [l])) \<subseteq> set (admittedIds (ls @ [l]))" using L [rule_format, of "Suc (length ls)"] by simp
    ultimately show ?R by blast
  next
    assume ?R
    then show ?L unfolding take_snoc by auto
  qed
  moreover have "set (recordedIds ls) \<subseteq> set (admittedIds ls)" if "\<forall>n. set (recordedIds (take n ls)) \<subseteq> set (admittedIds (take n ls))"
    using that [rule_format, of "length ls"] by simp
  ultimately show ?thesis
    by (cases l) (auto simp: recValid_def settlementOf_def split: EventBody.splits)
qed

lemma updatesView_upd [simp]:
  "updatesView offset (c\<lparr>cv_instanceId := x1\<rparr>) = updatesView offset c"
  "updatesView offset (c\<lparr>cv_records := x2\<rparr>) = updatesView offset c"
  "updatesView offset (c\<lparr>cv_queue := x3\<rparr>) = updatesView offset c"
  "updatesView offset (c\<lparr>cv_active := x4\<rparr>) = updatesView offset c"
  "updatesView offset (c\<lparr>cv_stopping := x5\<rparr>) = updatesView offset c"
  "updatesView offset (c\<lparr>cv_messages := x6\<rparr>) = updatesView offset c"
  "updatesView offset (c\<lparr>cv_settlements := x7\<rparr>) = updatesView offset c"
  "updatesView offset (c\<lparr>cv_waiters := x8\<rparr>) = updatesView offset c"
  "updatesView offset (c\<lparr>cv_idleWaiters := x9\<rparr>) = updatesView offset c"
  "updatesView offset (c\<lparr>cv_admitted := x10\<rparr>) = updatesView offset c"
  "updatesView offset (c\<lparr>cv_mintedMessages := x11\<rparr>) = updatesView offset c"
  "updatesView offset (c\<lparr>cv_record := x12\<rparr>) = updatesView offset c"
  "updatesView offset (c\<lparr>cv_started := x13\<rparr>) = updatesView offset c"
  "updatesView offset (c\<lparr>cv_running := x14\<rparr>) = updatesView offset c"
  "updatesView offset (c\<lparr>cv_answered := x15\<rparr>) = updatesView offset c"
  "updatesView offset (c\<lparr>cv_idleDone := x16\<rparr>) = updatesView offset c"
  by (simp_all add: updatesView_def parseOffset_def split: option.split)

lemma settledIds_upd [simp]:
  "settledIds (c\<lparr>cv_instanceId := x1\<rparr>) = settledIds c"
  "settledIds (c\<lparr>cv_records := x2\<rparr>) = settledIds c"
  "settledIds (c\<lparr>cv_queue := x3\<rparr>) = settledIds c"
  "settledIds (c\<lparr>cv_active := x4\<rparr>) = settledIds c"
  "settledIds (c\<lparr>cv_stopping := x5\<rparr>) = settledIds c"
  "settledIds (c\<lparr>cv_messages := x6\<rparr>) = settledIds c"
  "settledIds (c\<lparr>cv_waiters := x7\<rparr>) = settledIds c"
  "settledIds (c\<lparr>cv_idleWaiters := x8\<rparr>) = settledIds c"
  "settledIds (c\<lparr>cv_admitted := x9\<rparr>) = settledIds c"
  "settledIds (c\<lparr>cv_mintedMessages := x10\<rparr>) = settledIds c"
  "settledIds (c\<lparr>cv_record := x11\<rparr>) = settledIds c"
  "settledIds (c\<lparr>cv_started := x12\<rparr>) = settledIds c"
  "settledIds (c\<lparr>cv_running := x13\<rparr>) = settledIds c"
  "settledIds (c\<lparr>cv_answered := x14\<rparr>) = settledIds c"
  "settledIds (c\<lparr>cv_idleDone := x15\<rparr>) = settledIds c"
  "settledIds (c\<lparr>cv_log := x16\<rparr>) = settledIds c"
  by (simp_all add: settledIds_def)

lemma seatOf_upd [simp]:
  "seatOf sid (c\<lparr>cv_instanceId := x1\<rparr>) = seatOf sid c"
  "seatOf sid (c\<lparr>cv_records := x2\<rparr>) = seatOf sid c"
  "seatOf sid (c\<lparr>cv_queue := x3\<rparr>) = seatOf sid c"
  "seatOf sid (c\<lparr>cv_stopping := x4\<rparr>) = seatOf sid c"
  "seatOf sid (c\<lparr>cv_messages := x5\<rparr>) = seatOf sid c"
  "seatOf sid (c\<lparr>cv_settlements := x6\<rparr>) = seatOf sid c"
  "seatOf sid (c\<lparr>cv_waiters := x7\<rparr>) = seatOf sid c"
  "seatOf sid (c\<lparr>cv_idleWaiters := x8\<rparr>) = seatOf sid c"
  "seatOf sid (c\<lparr>cv_admitted := x9\<rparr>) = seatOf sid c"
  "seatOf sid (c\<lparr>cv_mintedMessages := x10\<rparr>) = seatOf sid c"
  "seatOf sid (c\<lparr>cv_record := x11\<rparr>) = seatOf sid c"
  "seatOf sid (c\<lparr>cv_started := x12\<rparr>) = seatOf sid c"
  "seatOf sid (c\<lparr>cv_running := x13\<rparr>) = seatOf sid c"
  "seatOf sid (c\<lparr>cv_answered := x14\<rparr>) = seatOf sid c"
  "seatOf sid (c\<lparr>cv_idleDone := x15\<rparr>) = seatOf sid c"
  "seatOf sid (c\<lparr>cv_log := x16\<rparr>) = seatOf sid c"
  by (simp_all add: seatOf_def)

lemma seatOf_active [simp]:
  "seatOf sid (c\<lparr>cv_active := Some a\<rparr>) \<longleftrightarrow> ac_id a = sid" "\<not> seatOf sid (c\<lparr>cv_active := None\<rparr>)"
  by (simp_all add: seatOf_def)

text \<open>What an event leaves as it is.\<close>

lemma append_event_frame [simp]:
  "cv_instanceId (append_event b c) = cv_instanceId c" "cv_records (append_event b c) = cv_records c" "cv_queue (append_event b c) = cv_queue c"
  "cv_active (append_event b c) = cv_active c" "cv_stopping (append_event b c) = cv_stopping c" "cv_messages (append_event b c) = cv_messages c"
  "cv_settlements (append_event b c) = cv_settlements c" "cv_admitted (append_event b c) = cv_admitted c"
  "cv_mintedMessages (append_event b c) = cv_mintedMessages c" "cv_started (append_event b c) = cv_started c" "cv_running (append_event b c) = cv_running c"
  "cv_idleWaiters (append_event b c) = cv_idleWaiters c" "cv_idleDone (append_event b c) = cv_idleDone c" "cv_waiters (append_event b c) = []"
  by (simp_all add: append_event_def Let_def)

lemma append_event_log:
  "\<exists>e. cv_log (append_event b c) = cv_log c @ [e] \<and> cv_record (append_event b c) = cv_record c @ [StreamLine e] \<and> ev_body e = b \<and> ev_batch e = length (cv_log c)"
  by (simp add: append_event_def Let_def)

lemma settleNow_frame [simp]:
  "cv_instanceId (settleNow sid u oc er c) = cv_instanceId c" "cv_records (settleNow sid u oc er c) = cv_records c"
  "cv_active (settleNow sid u oc er c) = cv_active c" "cv_stopping (settleNow sid u oc er c) = cv_stopping c"
  "cv_messages (settleNow sid u oc er c) = cv_messages c" "cv_admitted (settleNow sid u oc er c) = cv_admitted c"
  "cv_mintedMessages (settleNow sid u oc er c) = cv_mintedMessages c" "cv_started (settleNow sid u oc er c) = cv_started c"
  "cv_running (settleNow sid u oc er c) = cv_running c" "cv_idleWaiters (settleNow sid u oc er c) = cv_idleWaiters c"
  "cv_idleDone (settleNow sid u oc er c) = cv_idleDone c" "cv_waiters (settleNow sid u oc er c) = []"
  "cv_queue (settleNow sid u oc er c) = delFirst (\<lambda>q. q = sid) (cv_queue c)"
  "cv_settlements (settleNow sid u oc er c) = cv_settlements c @ [\<lparr>st_submissionId = sid, st_outcome = oc, st_error = er, st_usage = u\<rparr>]"
  by (simp_all add: settleNow_def Let_def)

lemma settleNow_settledIds [simp]: "settledIds (settleNow sid u oc er c) = settledIds c @ [sid]"
  by (simp add: settledIds_def)

lemma recorded_settled: "recOk c \<Longrightarrow> recordedIds (cv_record c) = settledIds c"
  by (simp add: recOk_def recordedIds_def settledIds_def)

lemma distinct_admitted: "recValid ls \<Longrightarrow> distinct (admittedIds ls)"
  by (metis distinct_map distinct_upt recValid_def)

lemma settled_admitted: "recOk c \<Longrightarrow> set (settledIds c) \<subseteq> set (admittedIds (cv_record c))"
  using recorded_settled [of c] by (auto simp: recOk_def recValid_def) (metis order.refl subsetD take_all)

lemma distinct_settled: "recOk c \<Longrightarrow> distinct (settledIds c)"
  using recorded_settled [of c] by (metis recOk_def recValid_def)

lemma settleNow_record:
  "\<exists>e. cv_log (settleNow sid u oc er c) = cv_log c @ [e] \<and> cv_record (settleNow sid u oc er c) = cv_record c @ [StreamLine e]
     \<and> ev_body e = SubmissionSettled \<lparr>st_submissionId = sid, st_outcome = oc, st_error = er, st_usage = u\<rparr>"
  by (simp add: settleNow_def append_event_def Let_def)

lemma settleNow_admitted [simp]: "admittedIds (cv_record (settleNow sid u oc er c)) = admittedIds (cv_record c)"
  using settleNow_record [of sid u oc er c] by auto

lemma settleNow_recOk:
  assumes "recOk c" and "sid \<in> set (admittedIds (cv_record c))" and "sid \<notin> set (settledIds c)"
  shows "recOk (settleNow sid u oc er c)"
proof -
  obtain e where e: "cv_log (settleNow sid u oc er c) = cv_log c @ [e]" "cv_record (settleNow sid u oc er c) = cv_record c @ [StreamLine e]"
    "ev_body e = SubmissionSettled \<lparr>st_submissionId = sid, st_outcome = oc, st_error = er, st_usage = u\<rparr>"
    using settleNow_record by blast
  then show ?thesis using assms recorded_settled [OF assms(1)] by (simp add: recOk_def recValid_snoc settlementOf_def isMessage_def)
qed

lemma settle_cases:
  obtains (settles) r where "map_of (cv_records c) sid = Some r" "\<not> sr_settled r"
      "settle sid oc er c = settleNow sid (sr_usage r) oc er (c\<lparr>cv_records := mapSet sid (r\<lparr>sr_settled := True\<rparr>) (cv_records c)\<rparr>)"
  | (same) "settle sid oc er c = c" "sid \<notin> fst ` set (cv_records c) \<or> isSettled sid c"
proof (cases "map_of (cv_records c) sid")
  case None
  then have "settle sid oc er c = c" "sid \<notin> fst ` set (cv_records c)" by (simp_all add: settle_def) (simp add: map_of_eq_None_iff)
  then show thesis by (intro same) simp_all
next
  case (Some r)
  then show thesis by (cases "sr_settled r") (auto simp: settle_def isSettled_def intro: settles same)
qed

lemma submission_frame [simp]:
  "cv_instanceId (settle sid oc er c) = cv_instanceId c" "cv_active (settle sid oc er c) = cv_active c" "cv_stopping (settle sid oc er c) = cv_stopping c"
  "cv_messages (settle sid oc er c) = cv_messages c" "cv_admitted (settle sid oc er c) = cv_admitted c" "cv_started (settle sid oc er c) = cv_started c"
  "cv_running (settle sid oc er c) = cv_running c" "cv_idleWaiters (settle sid oc er c) = cv_idleWaiters c" "cv_idleDone (settle sid oc er c) = cv_idleDone c"
  "fst ` set (cv_records (settle sid oc er c)) = fst ` set (cv_records c)"
  "admittedIds (cv_record (settle sid oc er c)) = admittedIds (cv_record c)"
  using map_of_SomeD [of "cv_records c" sid] by (cases rule: settle_cases [of c sid oc er]; force)+

lemma seatOf_settle [simp]: "seatOf s (settle sid oc er c) = seatOf s c"
  by (simp add: seatOf_def)

lemma isSettled_iff: "recordsOk c \<Longrightarrow> sid \<in> fst ` set (cv_records c) \<Longrightarrow> isSettled sid c \<longleftrightarrow> sid \<in> set (settledIds c)"
  by (auto simp: isSettled_def recordsOk_def split: option.splits) (force simp: map_of_eq_None_iff)

lemma settle_settledIds:
  assumes "recordsOk c"
  shows "settledIds (settle sid oc er c) = (if sid \<in> fst ` set (cv_records c) \<and> sid \<notin> set (settledIds c) then settledIds c @ [sid] else settledIds c)"
proof (cases rule: settle_cases [of c sid oc er])
  case (settles r)
  then have "sid \<in> fst ` set (cv_records c)" "sid \<notin> set (settledIds c)" using assms by (auto simp: recordsOk_def dest: map_of_SomeD intro: rev_image_eqI)
  moreover have "settledIds (settle sid oc er c) = settledIds c @ [sid]" using settles(3) by (simp add: settledIds_def)
  ultimately show ?thesis by simp
next
  case same
  then show ?thesis using isSettled_iff [OF assms, of sid] by auto
qed

lemma settle_recOk:
  assumes "recOk c" and "recordsOk c"
  shows "recOk (settle sid oc er c) \<and> recordsOk (settle sid oc er c)"
proof (cases rule: settle_cases [of c sid oc er])
  case (settles r)
  then have sid: "sid \<in> set (admittedIds (cv_record c))" "sid \<notin> set (settledIds c)" using assms(2) by (auto simp: recordsOk_def)
  let ?c = "c\<lparr>cv_records := mapSet sid (r\<lparr>sr_settled := True\<rparr>) (cv_records c)\<rparr>"
  have "recOk ?c" using assms(1) by (simp add: recOk_def)
  then have "recOk (settle sid oc er c)" using settles(3) settleNow_recOk [of ?c sid] sid by (simp add: settledIds_def)
  moreover have "recordsOk (settle sid oc er c)"
    using assms(2) sid settles by (auto simp: recordsOk_def settledIds_def)
  ultimately show ?thesis by simp
qed (use assms in simp)

lemma settle_pollsOk: "pollsOk c \<Longrightarrow> pollsOk (settle sid oc er c)"
  by (cases rule: settle_cases [of c sid oc er]) (simp_all add: pollsOk_def)

lemma settle_more: "recordsOk c \<Longrightarrow> set (settledIds c) \<subseteq> set (settledIds (settle sid oc er c))"
  by (auto simp: settle_settledIds)

lemma settle_baseInv: "baseInv c \<Longrightarrow> baseInv (settle sid oc er c)"
  using settle_recOk [of c sid oc er] settle_more [of c sid oc er] by (auto simp: baseInv_def runsOk_def settle_pollsOk)

lemma delFirst_distinct: "distinct xs \<Longrightarrow> delFirst (\<lambda>q. q = x) xs = filter (\<lambda>q. q \<noteq> x) xs"
  by (induction xs) (auto intro: filter_True [symmetric])

lemma settle_preInv:
  assumes "preInv c"
  shows "preInv (settle sid oc er c)"
proof (cases rule: settle_cases [of c sid oc er])
  case (settles r)
  have base: "baseInv c" "queueOk c" "seatOk c" using assms by (simp_all add: preInv_def)
  have dist: "distinct (cv_queue c)" using base by (simp add: queueOk_def baseInv_def recOk_def distinct_admitted)
  have ids: "settledIds (settle sid oc er c) = settledIds c @ [sid]" using settles(3) by (simp add: settledIds_def)
  have queue: "cv_queue (settle sid oc er c) = filter (\<lambda>q. q \<noteq> sid) (cv_queue c)" using settles(3) delFirst_distinct [OF dist] by simp
  have "queueOk (settle sid oc er c)" using base(2) by (auto simp: queueOk_def ids queue intro!: filter_cong)
  moreover have "seatOk (settle sid oc er c)" using base(3) by (auto simp: seatOk_def ids queue neq_Nil_conv)
  ultimately show ?thesis using settle_baseInv [OF base(1)] by (simp add: preInv_def)
qed (simp add: assms)

lemma settle_now_settled: "recordsOk c \<Longrightarrow> sid \<in> fst ` set (cv_records c) \<Longrightarrow> sid \<in> set (settledIds (settle sid oc er c))"
  by (simp add: settle_settledIds)

section \<open>The operations keep it\<close>

text \<open>The fields that each part of the invariant reads.\<close>

lemma recOk_upd [simp]:
  "recOk (c\<lparr>cv_records := x1\<rparr>) = recOk c"
  "recOk (c\<lparr>cv_queue := x2\<rparr>) = recOk c"
  "recOk (c\<lparr>cv_active := x3\<rparr>) = recOk c"
  "recOk (c\<lparr>cv_stopping := x4\<rparr>) = recOk c"
  "recOk (c\<lparr>cv_waiters := x5\<rparr>) = recOk c"
  "recOk (c\<lparr>cv_idleWaiters := x6\<rparr>) = recOk c"
  "recOk (c\<lparr>cv_started := x7\<rparr>) = recOk c"
  "recOk (c\<lparr>cv_running := x8\<rparr>) = recOk c"
  "recOk (c\<lparr>cv_answered := x9\<rparr>) = recOk c"
  "recOk (c\<lparr>cv_idleDone := x10\<rparr>) = recOk c"
  by (simp_all add: recOk_def)

lemma recordsOk_upd [simp]:
  "recordsOk (c\<lparr>cv_queue := x1\<rparr>) = recordsOk c"
  "recordsOk (c\<lparr>cv_active := x2\<rparr>) = recordsOk c"
  "recordsOk (c\<lparr>cv_stopping := x3\<rparr>) = recordsOk c"
  "recordsOk (c\<lparr>cv_waiters := x4\<rparr>) = recordsOk c"
  "recordsOk (c\<lparr>cv_idleWaiters := x5\<rparr>) = recordsOk c"
  "recordsOk (c\<lparr>cv_started := x6\<rparr>) = recordsOk c"
  "recordsOk (c\<lparr>cv_running := x7\<rparr>) = recordsOk c"
  "recordsOk (c\<lparr>cv_answered := x8\<rparr>) = recordsOk c"
  "recordsOk (c\<lparr>cv_idleDone := x9\<rparr>) = recordsOk c"
  by (simp_all add: recordsOk_def)

lemma queueOk_upd [simp]:
  "queueOk (c\<lparr>cv_active := x1\<rparr>) = queueOk c"
  "queueOk (c\<lparr>cv_stopping := x2\<rparr>) = queueOk c"
  "queueOk (c\<lparr>cv_waiters := x3\<rparr>) = queueOk c"
  "queueOk (c\<lparr>cv_idleWaiters := x4\<rparr>) = queueOk c"
  "queueOk (c\<lparr>cv_started := x5\<rparr>) = queueOk c"
  "queueOk (c\<lparr>cv_running := x6\<rparr>) = queueOk c"
  "queueOk (c\<lparr>cv_answered := x7\<rparr>) = queueOk c"
  "queueOk (c\<lparr>cv_idleDone := x8\<rparr>) = queueOk c"
  by (simp_all add: queueOk_def)

lemma seatOk_upd [simp]:
  "seatOk (c\<lparr>cv_stopping := x1\<rparr>) = seatOk c"
  "seatOk (c\<lparr>cv_waiters := x2\<rparr>) = seatOk c"
  "seatOk (c\<lparr>cv_idleWaiters := x3\<rparr>) = seatOk c"
  "seatOk (c\<lparr>cv_running := x4\<rparr>) = seatOk c"
  "seatOk (c\<lparr>cv_answered := x5\<rparr>) = seatOk c"
  "seatOk (c\<lparr>cv_idleDone := x6\<rparr>) = seatOk c"
  by (simp_all add: seatOk_def)

lemma runsOk_upd [simp]:
  "runsOk (c\<lparr>cv_queue := x1\<rparr>) = runsOk c"
  "runsOk (c\<lparr>cv_waiters := x2\<rparr>) = runsOk c"
  "runsOk (c\<lparr>cv_idleWaiters := x3\<rparr>) = runsOk c"
  "runsOk (c\<lparr>cv_answered := x4\<rparr>) = runsOk c"
  "runsOk (c\<lparr>cv_idleDone := x5\<rparr>) = runsOk c"
  by (simp_all add: runsOk_def)

lemma pollsOk_upd [simp]:
  "pollsOk (c\<lparr>cv_records := x1\<rparr>) = pollsOk c"
  "pollsOk (c\<lparr>cv_queue := x2\<rparr>) = pollsOk c"
  "pollsOk (c\<lparr>cv_active := x3\<rparr>) = pollsOk c"
  "pollsOk (c\<lparr>cv_stopping := x4\<rparr>) = pollsOk c"
  "pollsOk (c\<lparr>cv_idleWaiters := x5\<rparr>) = pollsOk c"
  "pollsOk (c\<lparr>cv_started := x6\<rparr>) = pollsOk c"
  "pollsOk (c\<lparr>cv_running := x7\<rparr>) = pollsOk c"
  "pollsOk (c\<lparr>cv_answered := x8\<rparr>) = pollsOk c"
  "pollsOk (c\<lparr>cv_idleDone := x9\<rparr>) = pollsOk c"
  by (simp_all add: pollsOk_def)

lemmas inv_parts = convInv_def preInv_def baseInv_def

lemma admitted_sorted: "recOk c \<Longrightarrow> sorted_wrt (\<lambda>x y. sid_number x < sid_number y) (admittedIds (cv_record c))"
proof -
  assume "recOk c"
  then have "map sid_number (admittedIds (cv_record c)) = [1..<Suc (length (admittedIds (cv_record c)))]" by (simp add: recOk_def recValid_def)
  then have "sorted_wrt (<) (map sid_number (admittedIds (cv_record c)))" by (metis sorted_wrt_upt)
  then show ?thesis by (simp add: sorted_wrt_map)
qed

text \<open>The first of the queue is the first that is not settled.\<close>

lemma queue_first:
  assumes "recOk c" and "queueOk c" and "cv_queue c = sid # rest"
  shows "sid \<notin> set (settledIds c)" "sid \<in> set (admittedIds (cv_record c))" "sid \<in> fst ` set (cv_records c)"
    "\<forall>q\<in>set (admittedIds (cv_record c)). q \<in> set (settledIds c) \<or> sid = q \<or> sid_number sid < sid_number q"
proof -
  have eq: "filter (\<lambda>s. s \<notin> set (settledIds c)) (admittedIds (cv_record c)) = sid # rest" using assms(2,3) by (simp add: queueOk_def)
  then have mem: "set (sid # rest) = {s \<in> set (admittedIds (cv_record c)). s \<notin> set (settledIds c)}" by (metis set_filter)
  then show "sid \<notin> set (settledIds c)" "sid \<in> set (admittedIds (cv_record c))" by auto
  show "sid \<in> fst ` set (cv_records c)" using assms(2,3) by (auto simp: queueOk_def)
  have "sorted_wrt (\<lambda>x y. sid_number x < sid_number y) (sid # rest)" using admitted_sorted [OF assms(1)] eq by (metis sorted_wrt_filter)
  then show "\<forall>q\<in>set (admittedIds (cv_record c)). q \<in> set (settledIds c) \<or> sid = q \<or> sid_number sid < sid_number q" using mem by auto
qed

lemma pump_start:
  assumes "preInv c" and "cv_active c = None" and "cv_queue c = sid # rest"
  shows "convInv (pump c)"
proof -
  have inv: "recOk c" "recordsOk c" "runsOk c" "pollsOk c" "queueOk c" using assms(1) by (simp_all add: preInv_def baseInv_def)
  note first = queue_first [OF inv(1,5) assms(3)]
  have settled: "\<forall>s\<in>set (cv_started c). s \<in> set (settledIds c) \<and> sid_number s < sid_number sid"
    using inv(3) assms(2) first(1,2) by (fastforce simp: runsOk_def seatOf_def)
  have eq: "pump c = c\<lparr>cv_active := Some \<lparr>ac_id = sid, ac_aborted = False, ac_onPickOnly = False, ac_cut = False, ac_waiting = False\<rparr>,
      cv_started := cv_started c @ [sid], cv_running := cv_running c @ [sid]\<rparr>" using assms(2,3) by (simp add: pump_def)
  have "runsOk (pump c)" using inv(3) settled first assms(2) unfolding eq
    by (auto simp: runsOk_def sorted_wrt_append seatOf_def)
  then show ?thesis using inv first assms unfolding eq
    by (simp add: inv_parts) (simp add: seatOk_def)
qed

lemma pump_preInv:
  assumes "preInv c" and "\<And>a. cv_active c = Some a \<Longrightarrow> ac_waiting a \<longleftrightarrow> ac_id a \<notin> set (cv_running c)"
  shows "convInv (pump c)"
proof (cases "cv_active c")
  case None
  show ?thesis
  proof (cases "cv_queue c")
    case Nil
    then have "pump c = c\<lparr>cv_idleWaiters := [], cv_idleDone := cv_idleDone c @ cv_idleWaiters c\<rparr>" using None by (simp add: pump_def)
    then show ?thesis using assms None Nil by (simp add: inv_parts)
  qed (rule pump_start [OF assms(1) None])
next
  case (Some a)
  then show ?thesis using assms by (simp add: pump_def convInv_def)
qed

lemma convInv_waiting: "convInv c \<Longrightarrow> cv_active c = Some a \<Longrightarrow> ac_waiting a \<longleftrightarrow> ac_id a \<notin> set (cv_running c)"
  by (simp add: convInv_def)

text \<open>The seat of a settled Submission whose run is over, or was cut, is free.\<close>

lemma free_seat:
  assumes "preInv c" and "cv_active c = Some a" and "ac_id a \<in> set (settledIds c)" and "cv_stopping c \<or> ac_id a \<notin> set (cv_running c)"
  shows "convInv (pump (c\<lparr>cv_active := None\<rparr>))"
proof (rule pump_preInv)
  have "runsOk c" using assms(1) by (simp add: inv_parts)
  moreover have "cv_stopping c \<or> cv_running c = []" if "runsOk c" using that assms(2,4) by (cases "cv_running c") (auto simp: runsOk_def seatOf_def)
  ultimately have "runsOk (c\<lparr>cv_active := None\<rparr>)" using assms(2,3) by (auto simp: runsOk_def seatOf_def)
  then show "preInv (c\<lparr>cv_active := None\<rparr>)" using assms(1) by (simp add: inv_parts) (simp add: seatOk_def)
qed simp

lemma records_admitted: "recordsOk c \<Longrightarrow> sid \<in> fst ` set (cv_records c) \<Longrightarrow> sid \<in> set (admittedIds (cv_record c))"
  by (metis map_of_eq_None_iff not_None_eq recordsOk_def)

lemma admitted_number:
  assumes "recOk c" and "sid \<in> set (admittedIds (cv_record c))"
  shows "sid_number sid \<le> cv_admitted c"
proof -
  have "sid_number sid \<in> set (map sid_number (admittedIds (cv_record c)))" using assms(2) by simp
  also have "map sid_number (admittedIds (cv_record c)) = [1..<Suc (cv_admitted c)]" using assms(1) by (simp add: recOk_def recValid_def)
  finally show ?thesis by auto
qed

lemma admit_inv:
  assumes inv: "convInv c"
  shows "convInv (fst (admit tail' request c))"
proof -
  let ?sid = "Sid (Suc (cv_admitted c)) tail'"
  let ?c = "c\<lparr>cv_admitted := Suc (cv_admitted c), cv_record := cv_record c @ [AdmittedLine ?sid], cv_queue := cv_queue c @ [?sid],
     cv_records := mapSet ?sid \<lparr>sr_request = request, sr_settled = False, sr_usage = None\<rparr> (cv_records c)\<rparr>"
  have parts: "recOk c" "recordsOk c" "runsOk c" "pollsOk c" "queueOk c" "seatOk c" using inv by (simp_all add: inv_parts)
  have new: "?sid \<notin> set (admittedIds (cv_record c))" using admitted_number [OF parts(1), of ?sid] by auto
  then have unsettled: "?sid \<notin> set (settledIds c)" using settled_admitted [OF parts(1)] by blast
  have started: "\<forall>s\<in>set (cv_started c). sid_number s \<le> cv_admitted c"
    using parts(3) records_admitted [OF parts(2)] admitted_number [OF parts(1)] unfolding runsOk_def by blast
  have "recOk ?c" using parts(1) by (simp add: recOk_def recValid_snoc)
  moreover have "recordsOk ?c" using parts(2) unsettled by (auto simp: recordsOk_def)
  moreover have "runsOk ?c" using parts(3) started by (auto simp: runsOk_def)
  moreover have "pollsOk ?c" using parts(4) by (simp add: pollsOk_def)
  moreover have "queueOk ?c" using parts(5) unsettled by (auto simp: queueOk_def)
  moreover have "seatOk ?c" using parts(6) by (auto simp: seatOk_def)
  ultimately have "preInv ?c" by (simp only: preInv_def baseInv_def simp_thms)
  then have "convInv (pump ?c)" by (rule pump_preInv) (use convInv_waiting [OF inv] in simp)
  then show ?thesis by (simp add: admit_def Let_def)
qed

lemma append_inv_base:
  assumes "baseInv c" and "\<And>s. b \<noteq> SubmissionSettled s" and "cv_mintedMessages c' = cv_mintedMessages c + (if \<exists>n m. b = MessageAppended n m then 1 else 0)"
    and "c' = append_event b (c\<lparr>cv_messages := ms, cv_record := rec, cv_mintedMessages := k\<rparr>)"
    and "rec = cv_record c \<and> ms = cv_messages c \<or> (\<exists>m. rec = cv_record c @ [MessageLine m] \<and> ms = cv_messages c @ [m])"
  shows "recOk c' \<and> recordsOk c' \<and> pollsOk c'"
proof -
  let ?c = "c\<lparr>cv_messages := ms, cv_record := rec, cv_mintedMessages := k\<rparr>"
  obtain e where e: "cv_log c' = cv_log c @ [e]" "cv_record c' = rec @ [StreamLine e]" "ev_body e = b"
    using append_event_log [of b ?c] assms(4) by auto
  have same: "admittedIds (cv_record c') = admittedIds (cv_record c)" "settledIds c' = settledIds c"
    using assms(4,5) e(2) by (auto simp: settledIds_def)
  have none: "settlementOf e = []" using e(3) assms(2) by (auto simp: settlementOf_def split: EventBody.split)
  have msg: "isMessage e \<longleftrightarrow> (\<exists>n m. b = MessageAppended n m)" using e(3) by (auto simp: isMessage_def split: EventBody.split)
  have "recOk c" using assms(1) by (simp add: baseInv_def)
  then have "recOk c'" using assms(3,5) e none msg assms(4) by (auto simp: recOk_def recValid_snoc)
  moreover have "recordsOk c'" using assms(1,4) same by (simp add: baseInv_def recordsOk_def)
  moreover have "pollsOk c'" using assms(4) by (simp add: pollsOk_def)
  ultimately show ?thesis by simp
qed

lemma runsOk_append [simp]: "admittedIds (cv_record (append_event b c)) = admittedIds (cv_record c)"
  using append_event_log [of b c] by auto

lemma convInv_same:
  assumes "convInv c" and "recOk c'" and "recordsOk c'" and "pollsOk c'" and "settledIds c' = settledIds c"
    and "admittedIds (cv_record c') = admittedIds (cv_record c)" and "cv_records c' = cv_records c" and "cv_queue c' = cv_queue c"
    and "cv_active c' = cv_active c" and "cv_started c' = cv_started c" and "cv_running c' = cv_running c" and "cv_stopping c' = cv_stopping c"
  shows "convInv c'"
proof -
  have "seatOf s c' = seatOf s c" for s using assms(9) by (simp add: seatOf_def)
  then have "runsOk c' = runsOk c" "queueOk c' = queueOk c" "seatOk c' = seatOk c" using assms(5-12) by (simp_all add: runsOk_def queueOk_def seatOk_def)
  then show ?thesis using assms(1-4,8,9,11) by (simp add: inv_parts)
qed

lemma appendMessage_inv:
  assumes "convInv c"
  shows "convInv (appendMessage m c)"
proof -
  have "baseInv c" using assms by (simp add: inv_parts)
  then have "recOk (appendMessage m c) \<and> recordsOk (appendMessage m c) \<and> pollsOk (appendMessage m c)"
    by (rule append_inv_base) (auto simp: appendMessage_def)
  then show ?thesis by (intro convInv_same [OF assms]) (simp_all add: appendMessage_def settledIds_def)
qed

lemma reportMemoryLimit_inv:
  assumes "convInv c"
  shows "convInv (reportMemoryLimit kid peak limit c)"
proof -
  let ?c = "append_event (MemoryLimitEvent kid peak limit) c"
  have "baseInv c" using assms by (simp add: inv_parts)
  then have "recOk ?c \<and> recordsOk ?c \<and> pollsOk ?c"
    by (rule append_inv_base [where ms = "cv_messages c" and rec = "cv_record c" and k = "cv_mintedMessages c"]) auto
  then have "convInv ?c" by (intro convInv_same [OF assms]) (simp_all add: settledIds_def)
  then show ?thesis using assms by (simp add: reportMemoryLimit_def split: option.splits)
qed

lemma settle_all_preInv: "preInv c \<Longrightarrow> preInv (fold (\<lambda>sid. settle sid oc er) sids c)"
  by (induction sids arbitrary: c) (simp_all add: settle_preInv)

lemma settle_all_frame [simp]:
  "cv_active (fold (\<lambda>sid. settle sid (f sid) (g sid)) sids c) = cv_active c" "cv_stopping (fold (\<lambda>sid. settle sid (f sid) (g sid)) sids c) = cv_stopping c"
  "cv_running (fold (\<lambda>sid. settle sid (f sid) (g sid)) sids c) = cv_running c" "cv_started (fold (\<lambda>sid. settle sid (f sid) (g sid)) sids c) = cv_started c"
  "fst ` set (cv_records (fold (\<lambda>sid. settle sid (f sid) (g sid)) sids c)) = fst ` set (cv_records c)"
  "admittedIds (cv_record (fold (\<lambda>sid. settle sid (f sid) (g sid)) sids c)) = admittedIds (cv_record c)"
  by (induction sids arbitrary: c) simp_all

lemma settle_all_settled:
  assumes "recOk c" and "recordsOk c" and "set sids \<subseteq> fst ` set (cv_records c)"
  shows "set (settledIds (fold (\<lambda>sid. settle sid (f sid) (g sid)) sids c)) = set (settledIds c) \<union> set sids"
  using assms
proof (induction sids arbitrary: c)
  case (Cons s sids)
  then show ?case using settle_recOk [of c s "f s" "g s"] by (auto simp: settle_settledIds)
qed simp

lemma settle_all_baseInv: "baseInv c \<Longrightarrow> baseInv (fold (\<lambda>sid. settle sid (f sid) (g sid)) sids c)"
  by (induction sids arbitrary: c) (simp_all add: settle_baseInv)

lemma queue_settled: "queueOk c \<Longrightarrow> set (admittedIds (cv_record c)) \<subseteq> set (settledIds c) \<union> set (cv_queue c)"
  by (auto simp: queueOk_def)

lemma cutIfOnPick_inv:
  assumes inv: "convInv c"
  shows "convInv (cutIfOnPick c)"
proof (cases "cv_active c")
  case (Some a)
  show ?thesis
  proof (cases "\<not> cv_stopping c \<or> \<not> ac_onPickOnly a \<or> ac_cut a")
    case False
    let ?c = "c\<lparr>cv_active := Some (a\<lparr>ac_cut := True\<rparr>)\<rparr>"
    let ?er = "Some \<lparr>er_type = SUBMISSION_HARNESS_RESTARTED, er_message = Some SUBMISSION_CUT_MESSAGE\<rparr>"
    let ?f = "fold (\<lambda>sid. settle sid Failed ?er) (ac_id a # cv_queue c) ?c"
    have parts: "recOk c" "recordsOk c" "runsOk c" "seatOk c" "queueOk c" using inv by (simp_all add: inv_parts)
    have "runsOk ?c" "seatOk ?c" using parts(3,4) Some by (auto simp: runsOk_def seatOk_def seatOf_def)
    then have pre: "preInv ?c" using inv by (simp add: inv_parts)
    have "set (ac_id a # cv_queue c) \<subseteq> fst ` set (cv_records ?c)" using parts(4,5) Some by (auto simp: seatOk_def queueOk_def)
    then have "ac_id a \<in> set (settledIds ?f)" using settle_all_settled [of ?c "ac_id a # cv_queue c" "\<lambda>_. Failed" "\<lambda>_. ?er"] parts(1,2) by simp
    then have "convInv (pump (?f\<lparr>cv_active := None\<rparr>))"
      using settle_all_preInv [OF pre] False by (intro free_seat [where a = "a\<lparr>ac_cut := True\<rparr>"]) (auto simp del: fold.simps)
    then show ?thesis using False Some by (simp add: cutIfOnPick_def Let_def)
  qed (use Some inv in \<open>simp add: cutIfOnPick_def\<close>)
qed (simp add: cutIfOnPick_def inv)

text \<open>The settling of a sweep.\<close>

definition sweepOutcome :: "AbortCause option \<Rightarrow> SubmissionId option \<Rightarrow> Conversation \<Rightarrow> SubmissionId \<Rightarrow> SettlementOutcome" where
  "sweepOutcome cause named c sid = (if cause = Some PickCause \<and> seatOf sid c \<and> named = Some sid then Ended else Aborted)"

definition sweepError :: "AbortCause option \<Rightarrow> SubmissionId option \<Rightarrow> Conversation \<Rightarrow> SubmissionId \<Rightarrow> SettlementError option" where
  "sweepError cause named c sid =
     (if cause = Some PickCause \<and> seatOf sid c \<and> named = Some sid then None else Some \<lparr>er_type = SUBMISSION_ABORTED, er_message = None\<rparr>)"

definition swept :: "AbortCause option \<Rightarrow> SubmissionId option \<Rightarrow> Conversation \<Rightarrow> Conversation" where
  "swept cause named c = fold (\<lambda>sid. settle sid (sweepOutcome cause named c sid) (sweepError cause named c sid)) (cv_queue c)
     (c\<lparr>cv_queue := [], cv_active := map_option (\<lambda>a. a\<lparr>ac_aborted := True\<rparr>) (cv_active c)\<rparr>)"

lemma abort_swept:
  "fst (abort cause named c) =
     (if cv_queue c = [] then c
      else case cv_active c of Some a \<Rightarrow> if ac_waiting a then release (ac_id a) (swept cause named c) else swept cause named c | None \<Rightarrow> swept cause named c)"
proof -
  have "(\<lambda>sid. if cause = Some PickCause \<and> seatOf sid c \<and> named = Some sid then settle sid Ended None
           else settle sid Aborted (Some \<lparr>er_type = SUBMISSION_ABORTED, er_message = None\<rparr>))
        = (\<lambda>sid. settle sid (sweepOutcome cause named c sid) (sweepError cause named c sid))"
    by (auto simp: sweepOutcome_def sweepError_def)
  then show ?thesis unfolding abort_def swept_def Let_def by (simp split: option.split)
qed

lemma settle_queue_Nil: "cv_queue c = [] \<Longrightarrow> cv_queue (settle sid oc er c) = []"
  by (cases rule: settle_cases [of c sid oc er]) simp_all

lemma settle_all_queue_Nil: "cv_queue c = [] \<Longrightarrow> cv_queue (fold (\<lambda>sid. settle sid (f sid) (g sid)) sids c) = []"
  by (induction sids arbitrary: c) (simp_all add: settle_queue_Nil)

lemma swept_inv:
  assumes inv: "convInv c"
  shows "preInv (swept cause named c)" and "cv_queue (swept cause named c) = []"
    and "set (settledIds (swept cause named c)) = set (admittedIds (cv_record c))"
    and "cv_active (swept cause named c) = map_option (\<lambda>a. a\<lparr>ac_aborted := True\<rparr>) (cv_active c)" "cv_running (swept cause named c) = cv_running c"
proof -
  let ?c = "c\<lparr>cv_queue := [], cv_active := map_option (\<lambda>a. a\<lparr>ac_aborted := True\<rparr>) (cv_active c)\<rparr>"
  have parts: "recOk c" "recordsOk c" "runsOk c" "seatOk c" "queueOk c" "pollsOk c" using inv by (simp_all add: inv_parts)
  have seat: "seatOf s ?c = seatOf s c" for s by (auto simp: seatOf_def)
  have "runsOk ?c" using parts(3) seat unfolding runsOk_def by simp
  then have "baseInv ?c" using parts by (simp add: baseInv_def)
  then have base: "baseInv (swept cause named c)" unfolding swept_def by (rule settle_all_baseInv)
  show queue: "cv_queue (swept cause named c) = []" unfolding swept_def by (rule settle_all_queue_Nil) simp
  show settled: "set (settledIds (swept cause named c)) = set (admittedIds (cv_record c))"
    unfolding swept_def using parts queue_settled [OF parts(5)] settled_admitted [OF parts(1)]
    by (subst settle_all_settled) (auto simp: queueOk_def)
  show act: "cv_active (swept cause named c) = map_option (\<lambda>a. a\<lparr>ac_aborted := True\<rparr>) (cv_active c)" "cv_running (swept cause named c) = cv_running c"
    unfolding swept_def by simp_all
  have frame: "admittedIds (cv_record (swept cause named c)) = admittedIds (cv_record c)" "fst ` set (cv_records (swept cause named c)) = fst ` set (cv_records c)"
    "cv_started (swept cause named c) = cv_started c" unfolding swept_def by simp_all
  have "queueOk (swept cause named c)" using queue settled frame by (simp add: queueOk_def)
  moreover have "seatOk (swept cause named c)"
    using parts(2,4) settled frame act records_admitted [OF parts(2)] by (auto simp: seatOk_def)
  ultimately show "preInv (swept cause named c)" using base by (simp add: preInv_def)
qed

lemma abort_inv:
  assumes inv: "convInv c"
  shows "convInv (fst (abort cause named c))"
proof -
  note sw = swept_inv [OF inv, of cause named]
  have plain: "convInv (swept cause named c)" if "\<forall>a. cv_active c = Some a \<longrightarrow> \<not> ac_waiting a"
    using sw(1,2,4,5) inv by (auto simp: convInv_def)
  have waiting: "convInv (release (ac_id a) (swept cause named c))" if a: "cv_active c = Some a" "ac_waiting a" for a
  proof -
    have "ac_id a \<notin> set (cv_running c)" using convInv_waiting [OF inv a(1)] a(2) by simp
    moreover have "ac_id a \<in> set (settledIds (swept cause named c))"
      using inv a(1) sw(3) records_admitted [of c "ac_id a"] by (auto simp: inv_parts seatOk_def)
    ultimately show ?thesis using a sw free_seat [OF sw(1), of "a\<lparr>ac_aborted := True\<rparr>"] by (simp add: release_def seatOf_def)
  qed
  show ?thesis unfolding abort_swept using inv plain waiting by (auto split: option.splits)
qed

lemma seat_change:
  assumes inv: "convInv c" and "cv_active c = Some a" and "ac_id a' = ac_id a" and "ac_waiting a' = ac_waiting a"
  shows "convInv (c\<lparr>cv_active := Some a'\<rparr>)"
proof -
  have "seatOf s (c\<lparr>cv_active := Some a'\<rparr>) = seatOf s c" for s using assms(2,3) by (auto simp: seatOf_def)
  then have "runsOk (c\<lparr>cv_active := Some a'\<rparr>)" using inv by (simp add: inv_parts runsOk_def)
  moreover have "seatOk (c\<lparr>cv_active := Some a'\<rparr>)" using inv assms(2,3) by (auto simp: inv_parts seatOk_def)
  ultimately show ?thesis using inv assms(2-4) by (simp add: inv_parts)
qed

lemma seat_waiting_inv: "convInv c \<Longrightarrow> convInv (seat_waiting sid b c)"
  by (auto simp: seat_waiting_def seatOf_def intro!: cutIfOnPick_inv seat_change)

lemma records_same:
  assumes "fst ` set m = fst ` set (cv_records c)"
  shows "runsOk (c\<lparr>cv_records := m\<rparr>) = runsOk c" "queueOk (c\<lparr>cv_records := m\<rparr>) = queueOk c" "seatOk (c\<lparr>cv_records := m\<rparr>) = seatOk c"
  using assms by (simp_all add: runsOk_def queueOk_def seatOk_def)

lemma seat_spent_inv:
  assumes "convInv c"
  shows "convInv (seat_spent sid u c)"
proof (cases "map_of (cv_records c) sid")
  case (Some r)
  define m where "m = mapSet sid (r\<lparr>sr_usage := Some (case sr_usage r of None \<Rightarrow> u | Some u' \<Rightarrow> addUsage u' u)\<rparr>) (cv_records c)"
  have dom: "fst ` set m = fst ` set (cv_records c)" unfolding m_def using map_of_SomeD [OF Some] by force
  have "recordsOk (c\<lparr>cv_records := m\<rparr>)" using assms Some by (auto simp: inv_parts recordsOk_def m_def)
  then have "convInv (c\<lparr>cv_records := m\<rparr>)" using assms by (simp add: inv_parts records_same [OF dom])
  then show ?thesis using Some by (simp add: seat_spent_def m_def)
qed (simp add: seat_spent_def assms)

lemma settleEnd_cases:
  obtains (over) "e = ReturnedTurnOver" "\<And>c. settleEnd e signal sid c = c"
  | (settles) oc er where "e \<noteq> ReturnedTurnOver" "oc \<noteq> Ended" "\<And>c. settleEnd e signal sid c = settle sid oc er c"
  by (cases e; cases signal) auto

lemma runEnds_inv:
  assumes inv: "convInv c"
  shows "convInv (runEnds sid e c)"
proof (cases "sid \<in> set (cv_running c)")
  case True
  define signal where "signal = (case cv_active c of Some a \<Rightarrow> ac_id a = sid \<and> ac_aborted a | None \<Rightarrow> False)"
  define c0 where "c0 = c\<lparr>cv_running := setDelete sid (cv_running c)\<rparr>"
  define c1 where "c1 = settleEnd e signal sid c0"
  have parts: "recordsOk c" "runsOk c" "seatOk c" using inv by (simp_all add: inv_parts)
  have "runsOk c0" using parts(2) by (auto simp: runsOk_def c0_def)
  then have "preInv c0" using inv by (simp add: inv_parts c0_def)
  then have pre: "preInv c1" unfolding c1_def by (cases rule: settleEnd_cases [of e signal sid]) (simp_all add: settle_preInv)
  have frame: "cv_active c1 = cv_active c" "cv_running c1 = setDelete sid (cv_running c)" "cv_queue c1 = [] \<longleftrightarrow> cv_queue c1 = []"
    unfolding c1_def c0_def by (cases rule: settleEnd_cases [of e signal sid]; simp)+
  have eq: "runEnds sid e c = (if \<not> seatOf sid c1 then c1
      else if e = ReturnedTurnOver \<and> \<not> isSettled sid c
        then c1\<lparr>cv_record := cv_record c1 @ [OverLine sid], cv_active := map_option (\<lambda>a. a\<lparr>ac_waiting := True\<rparr>) (cv_active c1)\<rparr>
      else pump (c1\<lparr>cv_active := None\<rparr>))"
    using True by (simp add: runEnds_def Let_def signal_def c0_def c1_def)
  show ?thesis
  proof (cases "seatOf sid c1")
    case False
    then have other: "cv_active c = Some a \<Longrightarrow> ac_id a \<noteq> sid" for a using frame by (auto simp: seatOf_def)
    have "sid \<in> set (settledIds c)" using parts(2) True other by (auto simp: runsOk_def seatOf_def)
    moreover have "sid \<in> fst ` set (cv_records c)" using parts(2) True by (auto simp: runsOk_def)
    ultimately have "isSettled sid c0" using isSettled_iff [OF parts(1)] by (simp add: c0_def isSettled_def)
    then have "c1 = c0" unfolding c1_def by (cases rule: settleEnd_cases [of e signal sid]) (auto simp: settle_def isSettled_def split: option.splits)
    then show ?thesis using eq False pre inv other by (auto simp: convInv_def c0_def)
  next
    case seat: True
    then obtain a where a: "cv_active c = Some a" "ac_id a = sid" using frame by (auto simp: seatOf_def)
    have dom: "sid \<in> fst ` set (cv_records c)" using parts(3) a by (auto simp: seatOk_def)
    show ?thesis
    proof (cases "e = ReturnedTurnOver \<and> \<not> isSettled sid c")
      case True
      let ?c = "c1\<lparr>cv_record := cv_record c1 @ [OverLine sid], cv_active := Some (a\<lparr>ac_waiting := True\<rparr>)\<rparr>"
      have seats: "seatOf s ?c = seatOf s c1" for s using a frame by (auto simp: seatOf_def)
      have "recOk ?c" "recordsOk ?c" "pollsOk ?c" "queueOk ?c" using pre
        by (auto simp: inv_parts recOk_def recValid_snoc recordsOk_def pollsOk_def queueOk_def)
      moreover have "runsOk ?c" using pre seats by (simp add: inv_parts runsOk_def)
      moreover have "seatOk ?c" using pre a frame by (auto simp: inv_parts seatOk_def)
      ultimately have "convInv ?c" using a frame by (simp add: inv_parts)
      then show ?thesis using eq seat True a frame by simp
    next
      case False
      have "sid \<in> set (settledIds c1)"
      proof (cases rule: settleEnd_cases [of e signal sid])
        case over
        then show ?thesis using False isSettled_iff [OF parts(1) dom] by (simp add: c1_def c0_def)
      next
        case (settles oc er)
        then show ?thesis using settle_now_settled [of c0 sid oc er] parts(1) dom by (simp add: c1_def c0_def)
      qed
      then have "convInv (pump (c1\<lparr>cv_active := None\<rparr>))" using a frame by (intro free_seat [OF pre, of a]) simp_all
      then show ?thesis using eq seat False by simp
    qed
  qed
qed (simp add: runEnds_def inv)

lemma sweepTimeout_inv:
  assumes inv: "convInv c"
  shows "convInv (sweepTimeout sid c)"
proof (cases "\<exists>a. cv_active c = Some a \<and> ac_id a = sid \<and> ac_waiting a")
  case True
  then obtain a where a: "cv_active c = Some a" "ac_id a = sid" "ac_waiting a" by blast
  let ?c = "settle sid Aborted (Some \<lparr>er_type = SUBMISSION_ABORTED, er_message = Some NO_SWEEP_MESSAGE\<rparr>) c"
  have pre: "preInv ?c" using inv by (simp add: convInv_def settle_preInv)
  have "sid \<in> set (settledIds ?c)" using inv a by (intro settle_now_settled) (auto simp: inv_parts seatOk_def)
  then have "convInv (release sid ?c)" using free_seat [OF pre, of a] a convInv_waiting [OF inv a(1)] by (simp add: release_def seatOf_def)
  then show ?thesis using a by (simp add: sweepTimeout_def)
next
  case False
  then show ?thesis using inv by (auto simp: sweepTimeout_def split: option.splits)
qed

lemma waitForEvent_inv: "convInv c \<Longrightarrow> convInv (waitForEvent w offset c)"
  by (auto simp: waitForEvent_def inv_parts) (auto simp: pollsOk_def)

lemma pollTimeout_inv: "convInv c \<Longrightarrow> convInv (pollTimeout w c)"
  by (auto simp: pollTimeout_def inv_parts split: option.split) (auto simp: pollsOk_def mapDelete_def)

lemma drain_inv:
  assumes "convInv c"
  shows "convInv (drain w c)"
proof -
  have "convInv (c\<lparr>cv_stopping := True\<rparr>)" using assms by (simp add: inv_parts) (simp add: runsOk_def)
  then have "convInv (cutIfOnPick (c\<lparr>cv_stopping := True\<rparr>))" by (rule cutIfOnPick_inv)
  then show ?thesis by (simp add: drain_def idle_def inv_parts)
qed

lemma applyConv_inv: "convInv c \<Longrightarrow> convInv (applyConv op c)"
  by (cases op) (simp_all add: admit_inv abort_inv appendMessage_inv reportMemoryLimit_inv seat_waiting_inv seat_spent_inv runEnds_inv
      sweepTimeout_inv drain_inv waitForEvent_inv pollTimeout_inv)

section \<open>Restarts\<close>

lemma settleLost_eq:
  obtains oc er where "oc \<noteq> Ended" and "oc \<noteq> Completed" and "settleLost over sid = settleNow sid None oc er"
proof (cases "sid \<in> set over")
  case True
  then show thesis by (intro that [of Aborted]) (simp_all add: settleLost_def)
next
  case False
  then show thesis by (intro that [of Failed]) (simp_all add: settleLost_def)
qed

text \<open>What the rebuild starts from, and what it has settled so far.\<close>

definition lostInv :: "Conversation \<Rightarrow> bool" where
  "lostInv c \<longleftrightarrow> recOk c \<and> cv_records c = [] \<and> cv_queue c = [] \<and> cv_active c = None \<and> cv_waiters c = [] \<and> cv_started c = [] \<and> cv_running c = []"

lemma settleLost_all:
  assumes "lostInv c" and "set sids \<subseteq> set (admittedIds (cv_record c))" and "distinct sids" and "set sids \<inter> set (settledIds c) = {}"
  shows "lostInv (fold (settleLost over) sids c) \<and> settledIds (fold (settleLost over) sids c) = settledIds c @ sids
    \<and> admittedIds (cv_record (fold (settleLost over) sids c)) = admittedIds (cv_record c) \<and> prefix (cv_log c) (cv_log (fold (settleLost over) sids c))
    \<and> prefix (cv_settlements c) (cv_settlements (fold (settleLost over) sids c))"
  using assms
proof (induction sids arbitrary: c)
  case (Cons sid sids)
  obtain oc er where eq: "settleLost over sid = settleNow sid None oc er" by (rule settleLost_eq)
  let ?c = "settleNow sid None oc er c"
  have "lostInv ?c" using Cons.prems by (auto simp: lostInv_def intro: settleNow_recOk)
  then have IH: "lostInv (fold (settleLost over) sids ?c) \<and> settledIds (fold (settleLost over) sids ?c) = settledIds ?c @ sids
    \<and> admittedIds (cv_record (fold (settleLost over) sids ?c)) = admittedIds (cv_record ?c) \<and> prefix (cv_log ?c) (cv_log (fold (settleLost over) sids ?c))
    \<and> prefix (cv_settlements ?c) (cv_settlements (fold (settleLost over) sids ?c))"
    using Cons.prems by (intro Cons.IH) auto
  let ?F = "fold (settleLost over) sids ?c"
  have "prefix (cv_log c) (cv_log ?c)" using settleNow_record [of sid None oc er c] by auto
  then have log: "prefix (cv_log c) (cv_log ?F)" by (rule prefix_order.trans) (use IH in blast)
  have "prefix (cv_settlements c) (cv_settlements ?c)" by simp
  then have "prefix (cv_settlements c) (cv_settlements ?F)" by (rule prefix_order.trans) (use IH in blast)
  moreover have "settledIds ?F = settledIds c @ sid # sids" "admittedIds (cv_record ?F) = admittedIds (cv_record c)" "lostInv ?F" using IH by simp_all
  ultimately show ?case using log unfolding fold.simps comp_def eq by blast
qed simp

lemma recValid_take: "recValid ls \<Longrightarrow> recValid (take n ls)"
proof -
  assume valid: "recValid ls"
  have app: "admittedIds ls = admittedIds (take n ls) @ admittedIds (drop n ls)" "recordedIds ls = recordedIds (take n ls) @ recordedIds (drop n ls)"
    by (metis admittedIds_append append_take_drop_id, metis recordedIds_append append_take_drop_id)
  have "take (length (admittedIds (take n ls))) (map sid_number (admittedIds ls)) = map sid_number (admittedIds (take n ls))"
    unfolding app(1) by simp
  then have "map sid_number (admittedIds (take n ls)) = take (length (admittedIds (take n ls))) [1..<Suc (length (admittedIds ls))]"
    using valid by (simp add: recValid_def)
  then have "map sid_number (admittedIds (take n ls)) = [1..<Suc (length (admittedIds (take n ls)))]"
    using app(1) by (simp add: take_upt del: upt_Suc)
  then show ?thesis using valid app(2) by (simp add: recValid_def)
qed

lemma new_inv: "convInv (newConversation iid)"
  by (simp add: newConversation_def inv_parts recOk_def recValid_def recordsOk_def runsOk_def pollsOk_def queueOk_def seatOk_def settledIds_def)

text \<open>A rebuild from any valid record: nothing runs, everything admitted is settled, and what the record had is the head of the new stream.\<close>

lemma rebuilt_facts:
  assumes "recValid ls"
  shows "convInv (rebuilt iid ls) \<and> \<not> busy (rebuilt iid ls)
    \<and> settledIds (rebuilt iid ls) = recordedIds ls @ filter (\<lambda>sid. sid \<notin> set (recordedIds ls)) (admittedIds ls)
    \<and> prefix (concat (map eventOf ls)) (cv_log (rebuilt iid ls)) \<and> prefix (concat (map settlementOf (concat (map eventOf ls)))) (cv_settlements (rebuilt iid ls))
    \<and> admittedIds (cv_record (rebuilt iid ls)) = admittedIds ls"
proof -
  let ?r = "readRecord ls"
  let ?c0 = "(newConversation iid)\<lparr>cv_log := rc_log ?r, cv_messages := rc_messages ?r, cv_settlements := rc_settlements ?r,
              cv_admitted := length (rc_admitted ?r), cv_mintedMessages := length (filter isMessage (rc_log ?r)), cv_record := ls\<rparr>"
  let ?sids = "filter (\<lambda>sid. sid \<notin> set (recordedIds ls)) (admittedIds ls)"
  have c0: "lostInv ?c0" "settledIds ?c0 = recordedIds ls" "cv_record ?c0 = ls"
    using assms by (simp_all add: lostInv_def recOk_def newConversation_def readRecord_def admittedIds_def settledIds_def recordedIds_def)
  have eq: "rebuilt iid ls = fold (settleLost (rc_over ?r)) ?sids ?c0"
    by (simp add: rebuilt_def Let_def readRecord_def admittedIds_def recordedIds_def)
  have all: "lostInv (rebuilt iid ls) \<and> settledIds (rebuilt iid ls) = settledIds ?c0 @ ?sids
    \<and> admittedIds (cv_record (rebuilt iid ls)) = admittedIds (cv_record ?c0) \<and> prefix (cv_log ?c0) (cv_log (rebuilt iid ls))
    \<and> prefix (cv_settlements ?c0) (cv_settlements (rebuilt iid ls))"
    unfolding eq by (rule settleLost_all) (use c0 distinct_admitted [OF assms] in auto)
  have ids: "settledIds (rebuilt iid ls) = recordedIds ls @ ?sids" "admittedIds (cv_record (rebuilt iid ls)) = admittedIds ls"
    using all c0 by (metis, metis)
  have lost: "lostInv (rebuilt iid ls)" using all by blast
  then have "convInv (rebuilt iid ls)" using ids
    by (auto simp: lostInv_def inv_parts recordsOk_def runsOk_def pollsOk_def queueOk_def seatOk_def filter_empty_conv)
  moreover have "\<not> busy (rebuilt iid ls)" using lost by (simp add: lostInv_def busy_def)
  moreover have "cv_log ?c0 = concat (map eventOf ls)" "cv_settlements ?c0 = concat (map settlementOf (concat (map eventOf ls)))"
    by (simp_all add: readRecord_def)
  ultimately show ?thesis using ids all by metis
qed

lemma convReach_inv: "convReach c \<Longrightarrow> convInv c"
proof (induction rule: convReach.induct)
  case (convReach_step c c')
  show ?case
  proof (cases rule: convStep.cases [OF convReach_step.hyps(2)])
    case (1 c'' op)
    then show ?thesis using convReach_step.IH applyConv_inv by simp
  next
    case (2 c'' n op)
    have "recValid (cv_record (applyConv op c))" using applyConv_inv [OF convReach_step.IH] by (simp add: inv_parts recOk_def)
    then show ?thesis using rebuilt_facts [OF recValid_take] 2 by blast
  qed
qed (rule new_inv)

section \<open>What only grows\<close>

text \<open>A later state: more of the record, in the same order.\<close>

definition grows :: "Conversation \<Rightarrow> Conversation \<Rightarrow> bool" where
  "grows c c' \<longleftrightarrow> prefix (cv_record c) (cv_record c')"

lemma grows_refl [simp]: "grows c c"
  by (simp add: grows_def)

lemma grows_trans: "grows a b \<Longrightarrow> grows b c \<Longrightarrow> grows a c"
  unfolding grows_def by (rule prefix_order.trans)

lemma grows_upd [simp]:
  "grows c (c'\<lparr>cv_active := x1\<rparr>) = grows c c'" "grows c (c'\<lparr>cv_queue := x2\<rparr>) = grows c c'" "grows c (c'\<lparr>cv_stopping := x3\<rparr>) = grows c c'"
  "grows c (c'\<lparr>cv_running := x4\<rparr>) = grows c c'" "grows (c\<lparr>cv_active := x1\<rparr>) c' = grows c c'" "grows (c\<lparr>cv_queue := x2\<rparr>) c' = grows c c'"
  "grows (c\<lparr>cv_stopping := x3\<rparr>) c' = grows c c'" "grows (c\<lparr>cv_running := x4\<rparr>) c' = grows c c'" "grows (c\<lparr>cv_records := x5\<rparr>) c' = grows c c'"
  "grows c (c'\<lparr>cv_record := cv_record c' @ ls\<rparr>) \<longleftrightarrow> prefix (cv_record c) (cv_record c' @ ls)"
  by (simp_all add: grows_def)

lemma grows_append_event: "grows c (append_event b c)"
  using append_event_log [of b c] by (auto simp: grows_def)

lemma grows_settleNow: "grows c (settleNow sid u oc er c)"
  using settleNow_record [of sid u oc er c] by (auto simp: grows_def)

lemma grows_settle: "grows c (settle sid oc er c)"
proof (cases rule: settle_cases [of c sid oc er])
  case (settles r)
  then show ?thesis using grows_settleNow [of "c\<lparr>cv_records := mapSet sid (r\<lparr>sr_settled := True\<rparr>) (cv_records c)\<rparr>" sid "sr_usage r" oc er] by simp
qed simp

lemma grows_settle_all: "grows c (fold (\<lambda>sid. settle sid (f sid) (g sid)) sids c)"
proof (induction sids arbitrary: c)
  case (Cons sid sids)
  show ?case unfolding fold.simps comp_def by (rule grows_trans [OF grows_settle Cons.IH])
qed simp

lemma pump_record [simp]: "cv_record (pump c) = cv_record c" "cv_settlements (pump c) = cv_settlements c" "cv_log (pump c) = cv_log c"
  by (simp_all add: pump_def split: list.split)

lemma grows_pump [simp]: "grows c (pump c') = grows c c'"
  by (simp add: grows_def)

lemma grows_release [simp]: "grows c (release sid c') = grows c c'"
  by (simp add: release_def)

lemma grows_cut: "grows c (cutIfOnPick c)"
proof (cases "cv_active c")
  case (Some a)
  let ?er = "Some \<lparr>er_type = SUBMISSION_HARNESS_RESTARTED, er_message = Some SUBMISSION_CUT_MESSAGE\<rparr>"
  have "grows (c\<lparr>cv_active := Some (a\<lparr>ac_cut := True\<rparr>)\<rparr>)
      (fold (\<lambda>sid. settle sid Failed ?er) (ac_id a # cv_queue c) (c\<lparr>cv_active := Some (a\<lparr>ac_cut := True\<rparr>)\<rparr>))"
    by (rule grows_settle_all)
  then show ?thesis using Some by (simp add: cutIfOnPick_def Let_def)
qed (simp add: cutIfOnPick_def)

lemma grows_swept: "grows c (swept cause named c)"
proof -
  let ?c = "c\<lparr>cv_queue := [], cv_active := map_option (\<lambda>a. a\<lparr>ac_aborted := True\<rparr>) (cv_active c)\<rparr>"
  have "grows ?c (swept cause named c)" unfolding swept_def by (rule grows_settle_all)
  then show ?thesis by simp
qed

lemma grows_runEnds: "grows c (runEnds sid e c)"
proof -
  have end': "grows c (settleEnd e signal sid (c\<lparr>cv_running := x\<rparr>))" for signal x
    using grows_settle [of "c\<lparr>cv_running := x\<rparr>"] by (cases rule: settleEnd_cases [of e signal sid]) simp_all
  then have "prefix (cv_record c) (cv_record (settleEnd e signal sid (c\<lparr>cv_running := x\<rparr>)) @ ls)" for signal x ls
    unfolding grows_def by (meson prefix_order.trans prefixI)
  then show ?thesis using end' by (simp add: runEnds_def Let_def) (simp add: grows_def)
qed

lemma applyConv_grows: "grows c (applyConv op c)"
proof (cases op)
  case (Waits sid b)
  then show ?thesis using grows_cut [of "c\<lparr>cv_active := map_option (\<lambda>a. a\<lparr>ac_onPickOnly := b\<rparr>) (cv_active c)\<rparr>"] by (simp add: seat_waiting_def)
next
  case (Drain w)
  have "cv_record (idle w c') = cv_record c'" for c' by (simp add: idle_def)
  then show ?thesis using Drain grows_cut [of "c\<lparr>cv_stopping := True\<rparr>"] by (simp add: drain_def grows_def)
next
  case (Abort cause named)
  then show ?thesis using grows_swept [of c cause named] by (simp add: abort_swept split: option.split)
next
  case (Say m)
  then show ?thesis using append_event_log [of "MessageAppended (Suc (cv_mintedMessages c)) m"] by (simp add: appendMessage_def grows_def append_event_def Let_def)
next
  case (RunEnds sid e)
  then show ?thesis by (simp add: grows_runEnds)
qed (auto simp: admit_def Let_def grows_def reportMemoryLimit_def append_event_def seat_spent_def sweepTimeout_def waitForEvent_def pollTimeout_def release_def
    intro: grows_settle [unfolded grows_def] split: option.splits)

lemma concat_map_prefix: "prefix xs ys \<Longrightarrow> prefix (concat (map f xs)) (concat (map f ys))"
  by (auto simp: prefix_def)

lemma grows_log: "convInv c \<Longrightarrow> convInv c' \<Longrightarrow> grows c c' \<Longrightarrow> prefix (cv_log c) (cv_log c')"
  using concat_map_prefix [of "cv_record c" "cv_record c'" eventOf] by (simp add: inv_parts recOk_def grows_def)

lemma convStep_log:
  assumes "convInv c" and "convStep c c'"
  shows "convInv c' \<and> prefix (cv_log c) (cv_log c')"
proof (cases rule: convStep.cases [OF assms(2)])
  case (1 c'' op)
  then show ?thesis using assms(1) applyConv_inv applyConv_grows grows_log by blast
next
  case (2 c'' n op)
  let ?ls = "take n (cv_record (applyConv op c))"
  have valid: "recValid ?ls" using applyConv_inv [OF assms(1)] by (intro recValid_take) (simp add: inv_parts recOk_def)
  have "prefix (cv_record c) ?ls" using applyConv_grows [of c op] 2(1,3) by (auto simp: grows_def prefix_def)
  then have "prefix (cv_log c) (concat (map eventOf ?ls))" using concat_map_prefix [of "cv_record c" ?ls eventOf] assms(1) by (simp add: inv_parts recOk_def)
  then show ?thesis using rebuilt_facts [OF valid, of "cv_instanceId c"] 2(1,2) prefix_order.trans by blast
qed

section \<open>Properties\<close>

text \<open>C11. Every Submission settles once, in every conversation that can be reached with any interleaving of admissions, sweeps, runs, timers and
  restarts: the admitted have distinct ids, no id is settled twice, what is settled was admitted, and the queue is what was admitted and is not
  settled, in the order of admission. The stream holds exactly the settlements of the history view.\<close>

theorem submissions_settle_once:
  assumes "convReach c"
  shows "distinct (admittedIds (cv_record c)) \<and> distinct (settledIds c) \<and> set (settledIds c) \<subseteq> set (admittedIds (cv_record c))
    \<and> cv_queue c = filter (\<lambda>sid. sid \<notin> set (settledIds c)) (admittedIds (cv_record c)) \<and> concat (map settlementOf (cv_log c)) = cv_settlements c"
proof -
  have inv: "recOk c" "queueOk c" using convReach_inv [OF assms] by (simp_all add: inv_parts)
  then show ?thesis using distinct_admitted distinct_settled settled_admitted by (simp add: recOk_def queueOk_def)
qed

definition exampleOps :: "ConvOp list" where
  "exampleOps = [Admit ''a'' ''do'', Admit ''b'' ''more'', Say \<lparr>hm_role = AssistantRole, hm_text = ''hi''\<rparr>, RunEnds (Sid 1 ''a'') Returned]"

definition exampleConv :: Conversation where
  "exampleConv = fold applyConv exampleOps (newConversation ''i'')"

lemma convReach_fold: "convReach c \<Longrightarrow> convReach (fold applyConv ops c)"
  by (induction ops arbitrary: c) (auto intro: convReach_step conv_op)

lemma exampleConv_reach: "convReach exampleConv"
  unfolding exampleConv_def by (rule convReach_fold) (rule convReach_new)

lemma exampleConv_facts:
  "cv_queue exampleConv = [Sid 2 ''b'']" "settledIds exampleConv = [Sid 1 ''a'']" "length (cv_record exampleConv) = 5" "length (cv_log exampleConv) = 2"
  "cv_started exampleConv = [Sid 1 ''a'', Sid 2 ''b'']" "cv_running exampleConv = [Sid 2 ''b'']" "cv_instanceId exampleConv = ''i''"
  by code_simp+

theorem submissions_settle_once_witness:
  "[Sid 2 ''b''] = filter (\<lambda>sid. sid \<notin> {Sid 1 ''a''}) (admittedIds (cv_record exampleConv))"
  using submissions_settle_once [OF exampleConv_reach] by (simp add: exampleConv_facts)



text \<open>The settlement a rebuild gives to a Submission that is not settled in the record.\<close>

definition lostSettlement :: "SubmissionId list \<Rightarrow> SubmissionId \<Rightarrow> Settlement" where
  "lostSettlement over sid =
     (if sid \<in> set over then \<lparr>st_submissionId = sid, st_outcome = Aborted,
        st_error = Some \<lparr>er_type = SUBMISSION_ABORTED, er_message = Some NO_SWEEP_MESSAGE\<rparr>, st_usage = None\<rparr>
      else \<lparr>st_submissionId = sid, st_outcome = Failed,
        st_error = Some \<lparr>er_type = SUBMISSION_HARNESS_RESTARTED, er_message = Some SUBMISSION_RESTARTED_MESSAGE\<rparr>, st_usage = None\<rparr>)"

lemma settleLost_settlements: "cv_settlements (fold (settleLost over) sids c) = cv_settlements c @ map (lostSettlement over) sids"
  by (induction sids arbitrary: c) (simp_all add: settleLost_def lostSettlement_def)

lemma rebuilt_settlements:
  "cv_settlements (rebuilt iid ls) = rc_settlements (readRecord ls)
     @ map (lostSettlement (rc_over (readRecord ls))) (filter (\<lambda>sid. sid \<notin> set (recordedIds ls)) (admittedIds ls))"
  by (simp add: rebuilt_def Let_def settleLost_settlements) (simp add: readRecord_def recordedIds_def admittedIds_def)

text \<open>C12. A restart loses no stream and leaves no Submission open. Whenever the process ends, between two operations or in the middle of one with
  only some of its lines written, the process after it is idle, its stream begins with every event of the stream before, and every Submission
  that was admitted has exactly one settlement: the one it had, or \<^verbatim>\<open>aborted\<close> when its run waited for its sweep, or else \<^verbatim>\<open>failed\<close> as
  \<^verbatim>\<open>harness_restarted\<close>.\<close>

theorem restart_settles_all:
  assumes "convReach c" and "length (cv_record c) \<le> n"
  shows "let ls = take n (cv_record (applyConv op c)); c' = rebuilt (cv_instanceId c) ls
    in \<not> busy c' \<and> prefix (cv_log c) (cv_log c')
       \<and> (\<forall>sid\<in>set (admittedIds (cv_record c)). \<exists>!s. s \<in> set (cv_settlements c') \<and> st_submissionId s = sid)
       \<and> (\<forall>s\<in>set (cv_settlements c'). s \<in> set (rc_settlements (readRecord ls)) \<or> s = lostSettlement (rc_over (readRecord ls)) (st_submissionId s))"
proof -
  let ?ls = "take n (cv_record (applyConv op c))"
  let ?c' = "rebuilt (cv_instanceId c) ?ls"
  have inv: "convInv c" using assms(1) by (rule convReach_inv)
  have step: "convStep c ?c'" using assms(2) by (rule conv_crash)
  then have inv': "convInv ?c'" "prefix (cv_log c) (cv_log ?c')" using convStep_log [OF inv] by blast+
  have valid: "recValid ?ls" using applyConv_inv [OF inv] by (intro recValid_take) (simp add: inv_parts recOk_def)
  note facts = rebuilt_facts [OF valid, of "cv_instanceId c"]
  have ids: "settledIds ?c' = recordedIds ?ls @ filter (\<lambda>sid. sid \<notin> set (recordedIds ?ls)) (admittedIds ?ls)" using facts by blast
  have "prefix (cv_record c) ?ls" using applyConv_grows [of c op] assms(2) by (auto simp: grows_def prefix_def)
  then have sub: "set (admittedIds (cv_record c)) \<subseteq> set (settledIds ?c')" unfolding ids by (auto simp: prefix_def)
  have "distinct (settledIds ?c')" using inv'(1) by (intro distinct_settled) (simp add: inv_parts)
  then have inj: "inj_on st_submissionId (set (cv_settlements ?c'))" by (simp add: settledIds_def distinct_map)
  have "\<exists>!s. s \<in> set (cv_settlements ?c') \<and> st_submissionId s = sid" if "sid \<in> set (admittedIds (cv_record c))" for sid
  proof -
    have "sid \<in> st_submissionId ` set (cv_settlements ?c')" using sub that by (auto simp: settledIds_def)
    then show ?thesis using inj by (auto simp: inj_on_def)
  qed
  moreover have "\<forall>s\<in>set (cv_settlements ?c'). s \<in> set (rc_settlements (readRecord ?ls)) \<or> s = lostSettlement (rc_over (readRecord ?ls)) (st_submissionId s)"
    unfolding rebuilt_settlements by (auto simp: lostSettlement_def)
  ultimately show ?thesis using facts inv'(2) unfolding Let_def by blast
qed

theorem restart_settles_all_witness:
  "\<not> busy (rebuilt (cv_instanceId exampleConv) (take 5 (cv_record (applyConv (Admit ''c'' ''x'') exampleConv))))"
  using restart_settles_all [OF exampleConv_reach, of 5 "Admit ''c'' ''x''"] by (simp add: exampleConv_facts Let_def)

subsection \<open>How a Submission ends\<close>

definition endedOf :: "Conversation \<Rightarrow> Settlement set" where
  "endedOf c = {s \<in> set (cv_settlements c). st_outcome s = Ended}"

lemma settle_ended: "oc \<noteq> Ended \<Longrightarrow> endedOf (settle sid oc er c) = endedOf c"
  by (cases rule: settle_cases [of c sid oc er]) (auto simp: endedOf_def)

lemma settle_ended_id: "endedOf (settle sid oc er c) \<subseteq> endedOf c \<union> {s. oc = Ended \<and> st_submissionId s = sid}"
  by (cases rule: settle_cases [of c sid oc er]) (auto simp: endedOf_def)

lemma settle_all_ended: "endedOf (fold (\<lambda>sid. settle sid (f sid) (g sid)) sids c) \<subseteq> endedOf c \<union> {s. f (st_submissionId s) = Ended}"
proof (induction sids arbitrary: c)
  case (Cons sid sids)
  then show ?case using Cons.IH [of "settle sid (f sid) (g sid) c"] settle_ended_id [of sid "f sid" "g sid" c] by auto
qed simp

lemma endedOf_upd [simp]:
  "endedOf (c\<lparr>cv_active := x1\<rparr>) = endedOf c" "endedOf (c\<lparr>cv_queue := x2\<rparr>) = endedOf c" "endedOf (c\<lparr>cv_running := x3\<rparr>) = endedOf c"
  "endedOf (c\<lparr>cv_stopping := x4\<rparr>) = endedOf c" "endedOf (c\<lparr>cv_record := x5\<rparr>) = endedOf c" "endedOf (pump c) = endedOf c" "endedOf (release sid c) = endedOf c"
  "endedOf (append_event b c) = endedOf c" "endedOf (idle w c) = endedOf c"
  by (simp_all add: endedOf_def release_def idle_def)

lemma cut_ended: "endedOf (cutIfOnPick c) \<subseteq> endedOf c"
proof (cases "cv_active c")
  case (Some a)
  let ?er = "Some \<lparr>er_type = SUBMISSION_HARNESS_RESTARTED, er_message = Some SUBMISSION_CUT_MESSAGE\<rparr>"
  have "endedOf (fold (\<lambda>sid. settle sid Failed ?er) (ac_id a # cv_queue c) (c\<lparr>cv_active := Some (a\<lparr>ac_cut := True\<rparr>)\<rparr>)) \<subseteq> endedOf c"
    using settle_all_ended [of "\<lambda>_. Failed" "\<lambda>_. ?er" "ac_id a # cv_queue c" "c\<lparr>cv_active := Some (a\<lparr>ac_cut := True\<rparr>)\<rparr>"] by simp
  then show ?thesis using Some by (simp add: cutIfOnPick_def Let_def)
qed (simp add: cutIfOnPick_def)

lemma abort_ended:
  assumes "s \<in> endedOf (fst (abort cause named c))" and "s \<notin> endedOf c"
  shows "cause = Some PickCause \<and> named = Some (st_submissionId s) \<and> seatOf (st_submissionId s) c"
proof -
  have "endedOf (swept cause named c) \<subseteq> endedOf c \<union> {s. sweepOutcome cause named c (st_submissionId s) = Ended}"
    using settle_all_ended [of "sweepOutcome cause named c" "sweepError cause named c" "cv_queue c"
        "c\<lparr>cv_queue := [], cv_active := map_option (\<lambda>a. a\<lparr>ac_aborted := True\<rparr>) (cv_active c)\<rparr>"] by (simp add: swept_def)
  moreover have "endedOf (fst (abort cause named c)) = (if cv_queue c = [] then endedOf c else endedOf (swept cause named c))"
    by (simp add: abort_swept split: option.split)
  ultimately show ?thesis using assms by (auto simp: sweepOutcome_def split: if_splits)
qed

lemma runEnds_ended: "endedOf (runEnds sid e c) = endedOf c"
proof -
  have "endedOf (settleEnd e signal sid c') = endedOf c'" for signal c'
    by (cases rule: settleEnd_cases [of e signal sid]) (simp_all add: settle_ended)
  then show ?thesis by (simp add: runEnds_def Let_def)
qed

text \<open>C19. A Submission settles \<^verbatim>\<open>ended\<close> in one way: by a sweep whose cause is the Turn's own pick and that names this Submission, while it has
  the seat. No other operation, and no restart, gives that outcome.\<close>

theorem ended_only_by_own_pick:
  assumes "s \<in> set (cv_settlements (applyConv op c))" and "s \<notin> set (cv_settlements c)" and "st_outcome s = Ended"
  shows "op = Abort (Some PickCause) (Some (st_submissionId s)) \<and> seatOf (st_submissionId s) c"
proof -
  have s: "s \<in> endedOf (applyConv op c)" "s \<notin> endedOf c" using assms by (simp_all add: endedOf_def)
  show ?thesis
  proof (cases op)
    case (Abort cause named)
    then show ?thesis using s abort_ended [of s cause named c] by simp
  next
    case (Waits sid b)
    then show ?thesis using s cut_ended [of "c\<lparr>cv_active := map_option (\<lambda>a. a\<lparr>ac_onPickOnly := b\<rparr>) (cv_active c)\<rparr>"]
      by (auto simp: seat_waiting_def split: if_splits)
  next
    case (Drain w)
    then show ?thesis using s cut_ended [of "c\<lparr>cv_stopping := True\<rparr>"] by (auto simp: drain_def)
  next
    case (RunEnds sid e)
    then show ?thesis using s by (simp add: runEnds_ended)
  next
    case (SweepTimeout sid)
    then show ?thesis using s by (simp add: sweepTimeout_def settle_ended split: if_splits)
  qed (use s in \<open>auto simp: admit_def Let_def appendMessage_def reportMemoryLimit_def seat_spent_def waitForEvent_def pollTimeout_def endedOf_def split: option.splits if_splits\<close>)
qed

theorem ended_only_by_own_pick_witness:
  "seatOf (Sid 2 ''b'') exampleConv \<and> st_outcome (last (cv_settlements (applyConv (Abort (Some PickCause) (Some (Sid 2 ''b''))) exampleConv))) = Ended"
proof -
  let ?c = "applyConv (Abort (Some PickCause) (Some (Sid 2 ''b''))) exampleConv"
  have "st_outcome (last (cv_settlements ?c)) = Ended" "last (cv_settlements ?c) \<in> set (cv_settlements ?c)"
    "last (cv_settlements ?c) \<notin> set (cv_settlements exampleConv)" "st_submissionId (last (cv_settlements ?c)) = Sid 2 ''b''"
    by code_simp+
  then show ?thesis using ended_only_by_own_pick [of "last (cv_settlements ?c)" "Abort (Some PickCause) (Some (Sid 2 ''b''))" exampleConv] by metis
qed

subsection \<open>A drain ends\<close>

















subsection \<open>A wait sees its Settlement\<close>

lemma parseOffset_decimal:
  assumes "n < tooLarge"
  shows "parseOffset c (decimal n) = min n (length (cv_log c))"
proof -
  have digits: "takeWhile isDigit (decimal n) = decimal n" using decimal_digits [of n] by (simp add: takeWhile_eq_all_conv)
  have "isDigit (hd (decimal n))" using decimal_digits [of n] decimal_nonempty [of n] by simp
  then have first: "\<not> isSpace (hd (decimal n))" "hd (decimal n) \<noteq> CHR ''-''" "hd (decimal n) \<noteq> CHR ''+''" by (auto simp: digit_not_space isDigit_def)
  then have "dropWhile isSpace (decimal n) = decimal n" by (simp add: dropWhile_eq_self_iff)
  then show ?thesis using first assms decimal_nonempty [of n] by (simp add: parseOffset_def parseInt10_def Let_def digits decimal_value)
qed

lemma convSteps_log:
  assumes "convStep\<^sup>*\<^sup>* c c'" and "convInv c"
  shows "convInv c' \<and> prefix (cv_log c) (cv_log c')"
  using assms
proof (induction rule: rtranclp_induct)
  case (step b d)
  then show ?case using convStep_log [of b d] prefix_order.trans by blast
qed simp

text \<open>C16. A wait from an Admission's offset sees that Submission's Settlement. Whatever happens after the Admission, restarts included, once the
  Submission is settled its Settlement is an event of the stream read from the offset that the Admission answered.\<close>

theorem wait_sees_settlement:
  assumes "convReach c" and "admit tail' request c = (c1, ad)" and "convStep\<^sup>*\<^sup>* c1 c'" and "length (cv_log c) < tooLarge"
    and "s \<in> set (cv_settlements c')" and "st_submissionId s = ad_submissionId ad"
  shows "\<exists>e\<in>set (updatesView (ad_offset ad) c'). ev_body e = SubmissionSettled s"
proof -
  have inv: "convInv c" using assms(1) by (rule convReach_inv)
  have c1: "convInv c1" using admit_inv [OF inv, of tail' request] assms(2) by simp
  have ad: "ad_offset ad = decimal (length (cv_log c))" "cv_log c1 = cv_log c" "ad_submissionId ad = Sid (Suc (cv_admitted c)) tail'"
    using assms(2) by (auto simp: admit_def Let_def)
  have steps: "convInv c'" "prefix (cv_log c1) (cv_log c')" using convSteps_log [OF assms(3) c1] by blast+
  then obtain more' where log: "cv_log c' = cv_log c @ more'" using ad(2) by (auto simp: prefix_def)
  have "s \<notin> set (cv_settlements c)"
  proof
    assume "s \<in> set (cv_settlements c)"
    then have "ad_submissionId ad \<in> set (settledIds c)" using assms(6) by (metis image_eqI list.set_map settledIds_def)
    then show False using settled_admitted [of c] admitted_number [of c "ad_submissionId ad"] inv ad(3) by (auto simp: inv_parts)
  qed
  moreover have "concat (map settlementOf (cv_log c)) = cv_settlements c" "concat (map settlementOf (cv_log c')) = cv_settlements c'"
    using inv steps(1) by (simp_all add: inv_parts recOk_def)
  ultimately have "s \<in> set (concat (map settlementOf more'))" using assms(5) log by (metis Un_iff concat_append map_append set_append)
  then obtain e where e: "e \<in> set more'" "s \<in> set (settlementOf e)" by auto
  have "updatesView (ad_offset ad) c' = more'" using parseOffset_decimal [OF assms(4)] by (simp add: updatesView_def ad(1) log)
  moreover have "ev_body e = SubmissionSettled s" using e(2) by (auto simp: settlementOf_def split: EventBody.splits)
  ultimately show ?thesis using e(1) by blast
qed

theorem wait_sees_settlement_witness:
  "\<exists>e\<in>set (updatesView (decimal 2) (applyConv (Abort None None) (fst (admit ''c'' ''x'' exampleConv)))).
     ev_body e = SubmissionSettled \<lparr>st_submissionId = Sid 3 ''c'', st_outcome = Aborted, st_error = Some \<lparr>er_type = SUBMISSION_ABORTED, er_message = None\<rparr>, st_usage = None\<rparr>"
proof -
  let ?s = "\<lparr>st_submissionId = Sid 3 ''c'', st_outcome = Aborted, st_error = Some \<lparr>er_type = SUBMISSION_ABORTED, er_message = None\<rparr>, st_usage = None\<rparr>"
  let ?c = "fst (admit ''c'' ''x'' exampleConv)"
  let ?ad = "snd (admit ''c'' ''x'' exampleConv)"
  have step: "convStep\<^sup>*\<^sup>* ?c (applyConv (Abort None None) ?c)" by (rule r_into_rtranclp) (rule conv_op)
  have settled: "?s \<in> set (cv_settlements (applyConv (Abort None None) ?c))" by code_simp
  have ad: "ad_submissionId ?ad = Sid 3 ''c''" by code_simp
  have "ad_offset ?ad = decimal (length (cv_log exampleConv))" by (simp add: admit_def Let_def)
  then have offset: "ad_offset ?ad = decimal 2" by (simp only: exampleConv_facts)
  have "(2 :: nat) < tooLarge" by (simp add: tooLarge_def)
  then have "length (cv_log exampleConv) < tooLarge" by (simp only: exampleConv_facts)
  from wait_sees_settlement [OF exampleConv_reach prod.collapse [symmetric] step this settled] show ?thesis by (simp add: ad offset)
qed

end
