(* ===== verification/Utf8_Stream.thy ===== *)
theory Utf8_Stream
  imports Truncate
begin

text \<open>
  Text on a byte stream: the UTF-8 bytes of a JavaScript string, as \<^verbatim>\<open>Buffer.from(s)\<close> writes them, and Node's
  \<^verbatim>\<open>StringDecoder\<close>, which turns the chunks of a stream into strings and holds back the bytes of a character that a chunk cuts.

  The decoder works byte by byte. It holds a head byte and the continuation bytes that follow it until the sequence has the length that
  the head byte names, or until another byte comes, and then writes what the sequence says: a character, or U+FFFD for each of its parts that
  is none.
\<close>

section \<open>Bytes\<close>

type_synonym bytes = "8 word list"

definition isCont :: "8 word \<Rightarrow> bool" where
  "isCont b \<longleftrightarrow> 0x80 \<le> b \<and> b \<le> 0xbf"

text \<open>The length of the sequence that a byte starts.\<close>

definition seqLength :: "8 word \<Rightarrow> nat" where
  "seqLength b = (if b < 0xc0 \<or> 0xf8 \<le> b then 1 else if b < 0xe0 then 2 else if b < 0xf0 then 3 else 4)"

definition unitsOf :: "nat \<Rightarrow> jsstr" where
  "unitsOf cp = (if cp < 0x10000 then [of_nat cp] else [of_nat (0xd800 + (cp - 0x10000) div 0x400), of_nat (0xdc00 + (cp - 0x10000) mod 0x400)])"

definition bytesOf :: "nat \<Rightarrow> bytes" where
  "bytesOf cp = map of_nat
     (if cp < 0x80 then [cp] else if cp < 0x800 then [0xc0 + cp div 0x40, 0x80 + cp mod 0x40]
      else if cp < 0x10000 then [0xe0 + cp div 0x1000, 0x80 + cp div 0x40 mod 0x40, 0x80 + cp mod 0x40]
      else [0xf0 + cp div 0x40000, 0x80 + cp div 0x1000 mod 0x40, 0x80 + cp div 0x40 mod 0x40, 0x80 + cp mod 0x40])"

text \<open>The code points of a string, an unpaired surrogate read as U+FFFD.\<close>

definition pairPoint :: "16 word \<Rightarrow> 16 word \<Rightarrow> nat" where
  "pairPoint c d = 0x10000 + (unat c - 0xd800) * 0x400 + (unat d - 0xdc00)"

definition unitPoint :: "16 word \<Rightarrow> nat" where
  "unitPoint c = (if is_high c \<or> is_low c then 0xfffd else unat c)"

fun codePoints :: "jsstr \<Rightarrow> nat list" where
  "codePoints [] = []"
| "codePoints [c] = [unitPoint c]"
| "codePoints (c # d # cs) = (if is_high c \<and> is_low d then pairPoint c d # codePoints cs else unitPoint c # codePoints (d # cs))"

definition utf8 :: "jsstr \<Rightarrow> bytes" where
  "utf8 s = concat (map bytesOf (codePoints s))"

section \<open>The decoder\<close>

text \<open>Whether the second byte of a sequence can follow its head: no overlong form, no surrogate, nothing above U+10FFFF.\<close>

definition secondOk :: "8 word \<Rightarrow> 8 word \<Rightarrow> bool" where
  "secondOk h b \<longleftrightarrow> 0xc2 \<le> h \<and> h \<le> 0xf4 \<and> (h = 0xe0 \<longrightarrow> 0xa0 \<le> b) \<and> (h = 0xed \<longrightarrow> b \<le> 0x9f) \<and> (h = 0xf0 \<longrightarrow> 0x90 \<le> b) \<and> (h = 0xf4 \<longrightarrow> b \<le> 0x8f)"

fun pointOf :: "bytes \<Rightarrow> nat" where
  "pointOf [a, b] = (unat a - 0xc0) * 0x40 + (unat b - 0x80)"
| "pointOf [a, b, c] = (unat a - 0xe0) * 0x1000 + (unat b - 0x80) * 0x40 + (unat c - 0x80)"
| "pointOf [a, b, c, d] = (unat a - 0xf0) * 0x40000 + (unat b - 0x80) * 0x1000 + (unat c - 0x80) * 0x40 + (unat d - 0x80)"
| "pointOf _ = 0xfffd"

text \<open>A head byte with the continuation bytes that followed it. A head that starts nothing, or whose second byte cannot follow it, is
  one U+FFFD a byte; a sequence that ends early is one.\<close>

definition seqText :: "bytes \<Rightarrow> jsstr" where
  "seqText bs = (case bs of [] \<Rightarrow> []
     | h # t \<Rightarrow>
        if h < 0xc2 \<or> 0xf4 < h \<or> (t \<noteq> [] \<and> \<not> secondOk h (hd t)) then replicate (length bs) 0xfffd
        else if length bs < seqLength h then [0xfffd]
        else unitsOf (pointOf bs))"

text \<open>One byte where a character starts, and one byte after the held ones: the text written and the bytes held.\<close>

definition startByte :: "8 word \<Rightarrow> jsstr \<times> bytes" where
  "startByte b = (if b < 0x80 then ([of_nat (unat b)], []) else if seqLength b = 1 then ([0xfffd], []) else ([], [b]))"

definition decodeByte :: "bytes \<Rightarrow> 8 word \<Rightarrow> jsstr \<times> bytes" where
  "decodeByte held b =
     (if held = [] then startByte b
      else if \<not> isCont b then let (s, h) = startByte b in (seqText held @ s, h)
      else if length held + 1 < seqLength (hd held) then ([], held @ [b])
      else (seqText (held @ [b]), []))"

text \<open>\<^verbatim>\<open>decoder.write(bytes)\<close>.\<close>

fun decoderWrite :: "bytes \<Rightarrow> bytes \<Rightarrow> jsstr \<times> bytes" where
  "decoderWrite held [] = ([], held)"
| "decoderWrite held (b # bs) = (let (s, h) = decodeByte held b; (t, h') = decoderWrite h bs in (s @ t, h'))"

text \<open>The chunks of a stream, written one after the other: the strings that the decoder answers.\<close>

fun decoderWrites :: "bytes \<Rightarrow> bytes list \<Rightarrow> jsstr list \<times> bytes" where
  "decoderWrites held [] = ([], held)"
| "decoderWrites held (bs # bss) = (let (s, h) = decoderWrite held bs; (ss, h') = decoderWrites h bss in (s # ss, h'))"

section \<open>Lemmas\<close>

lemma decoderWrite_append:
  "decoderWrite held (xs @ ys) = (let (s, h) = decoderWrite held xs; (t, h') = decoderWrite h ys in (s @ t, h'))"
  by (induction xs arbitrary: held) (auto simp: Let_def split: prod.splits)

text \<open>Where the chunks are cut does not matter.\<close>

lemma decoderWrites_concat:
  "concat (fst (decoderWrites held bss)) = fst (decoderWrite held (concat bss))
   \<and> snd (decoderWrites held bss) = snd (decoderWrite held (concat bss))"
proof (induction bss arbitrary: held)
  case (Cons bs bss)
  show ?case using Cons.IH [of "snd (decoderWrite held bs)"] by (auto simp: decoderWrite_append Let_def case_prod_unfold)
qed simp

definition scalar :: "nat \<Rightarrow> bool" where
  "scalar cp \<longleftrightarrow> cp < 0xd800 \<or> (0xe000 \<le> cp \<and> cp < 0x110000)"

lemma unat_byte [simp]: "n < 256 \<Longrightarrow> unat (of_nat n :: 8 word) = n"
  by (simp add: unat_of_nat take_bit_nat_eq_self)

lemma byte_le: "n < 256 \<Longrightarrow> (of_nat n :: 8 word) < k \<longleftrightarrow> n < unat k"  "n < 256 \<Longrightarrow> k \<le> (of_nat n :: 8 word) \<longleftrightarrow> unat k \<le> n"
  "n < 256 \<Longrightarrow> k < (of_nat n :: 8 word) \<longleftrightarrow> unat k < n"  "n < 256 \<Longrightarrow> (of_nat n :: 8 word) \<le> k \<longleftrightarrow> n \<le> unat k"
  "n < 256 \<Longrightarrow> (of_nat n :: 8 word) = k \<longleftrightarrow> n = unat k"
  by (auto simp: word_less_nat_alt word_le_nat_alt word_unat_eq_iff)

lemmas decode_defs = decodeByte_def startByte_def seqLength_def isCont_def seqText_def secondOk_def

lemma decode_two:
  assumes "2 \<le> a" "a < 32" "b < 64"
  shows "decoderWrite [] [of_nat (0xc0 + a), of_nat (0x80 + b)] = (unitsOf (a * 0x40 + b), [])"
  using assms by (simp add: decode_defs byte_le del: of_nat_add)

lemma decode_three:
  assumes "a < 16" "b < 64" "c < 64" "a = 0 \<longrightarrow> 0x20 \<le> b" "a = 0xd \<longrightarrow> b < 0x20"
  shows "decoderWrite [] [of_nat (0xe0 + a), of_nat (0x80 + b), of_nat (0x80 + c)] = (unitsOf (a * 0x1000 + b * 0x40 + c), [])"
  using assms by (simp add: decode_defs byte_le del: of_nat_add) auto

lemma decode_four:
  assumes "a < 5" "b < 64" "c < 64" "d < 64" "a = 0 \<longrightarrow> 0x10 \<le> b" "a = 4 \<longrightarrow> b < 0x10"
  shows "decoderWrite [] [of_nat (0xf0 + a), of_nat (0x80 + b), of_nat (0x80 + c), of_nat (0x80 + d)]
    = (unitsOf (a * 0x40000 + b * 0x1000 + c * 0x40 + d), [])"
  using assms by (simp add: decode_defs byte_le del: of_nat_add) auto

lemma decode_bytesOf:
  assumes "scalar cp"
  shows "decoderWrite [] (bytesOf cp) = (unitsOf cp, [])"
proof -
  have lim: "cp < 0x110000" using assms by (auto simp: scalar_def)
  have digits: "cp = 0x40 * (cp div 0x40) + cp mod 0x40" "cp div 0x40 = 0x40 * (cp div 0x1000) + cp div 0x40 mod 0x40"
    "cp div 0x1000 = 0x40 * (cp div 0x40000) + cp div 0x1000 mod 0x40" "cp mod 0x40 < 0x40" "cp div 0x40 mod 0x40 < 0x40" "cp div 0x1000 mod 0x40 < 0x40"
    using mult_div_mod_eq [of "0x40" cp] mult_div_mod_eq [of "0x40" "cp div 0x40"] mult_div_mod_eq [of "0x40" "cp div 0x1000"]
    by (simp_all add: div_mult2_eq [symmetric])
  consider "cp < 0x80" | "0x80 \<le> cp" "cp < 0x800" | "0x800 \<le> cp" "cp < 0x10000" | "0x10000 \<le> cp" using lim by linarith
  then show ?thesis
  proof cases
    case 1
    then show ?thesis by (simp add: bytesOf_def decodeByte_def startByte_def byte_le unitsOf_def)
  next
    case 2
    then have "decoderWrite [] [of_nat (0xc0 + cp div 0x40), of_nat (0x80 + cp mod 0x40)] = (unitsOf cp, [])"
      by (subst decode_two) simp_all
    then show ?thesis using 2 by (simp add: bytesOf_def del: of_nat_add)
  next
    case 3
    have "cp div 0x1000 < 16" using 3 by simp
    moreover have "cp div 0x1000 = 0 \<longrightarrow> 0x20 \<le> cp div 0x40 mod 0x40" using 3 digits by linarith
    moreover have "cp div 0x1000 = 0xd \<longrightarrow> cp div 0x40 mod 0x40 < 0x20" using 3 assms digits unfolding scalar_def by linarith
    moreover have "cp div 0x1000 * 0x1000 + cp div 0x40 mod 0x40 * 0x40 + cp mod 0x40 = cp" using digits by linarith
    ultimately have "decoderWrite [] [of_nat (0xe0 + cp div 0x1000), of_nat (0x80 + cp div 0x40 mod 0x40), of_nat (0x80 + cp mod 0x40)]
        = (unitsOf cp, [])" using decode_three digits(5,4) by metis
    then show ?thesis using 3 by (simp add: bytesOf_def del: of_nat_add)
  next
    case 4
    have "cp div 0x40000 < 5" using lim by simp
    moreover have "cp div 0x40000 = 0 \<longrightarrow> 0x10 \<le> cp div 0x1000 mod 0x40" using 4 digits by linarith
    moreover have "cp div 0x40000 = 4 \<longrightarrow> cp div 0x1000 mod 0x40 < 0x10" using lim digits by linarith
    moreover have "cp div 0x40000 * 0x40000 + cp div 0x1000 mod 0x40 * 0x1000 + cp div 0x40 mod 0x40 * 0x40 + cp mod 0x40 = cp"
      using digits by linarith
    ultimately have "decoderWrite [] [of_nat (0xf0 + cp div 0x40000), of_nat (0x80 + cp div 0x1000 mod 0x40),
        of_nat (0x80 + cp div 0x40 mod 0x40), of_nat (0x80 + cp mod 0x40)] = (unitsOf cp, [])"
      using decode_four digits(6,5,4) by metis
    then show ?thesis using 4 by (simp add: bytesOf_def del: of_nat_add)
  qed
qed

lemma decode_points: "(\<forall>cp\<in>set cps. scalar cp) \<Longrightarrow> decoderWrite [] (concat (map bytesOf cps)) = (concat (map unitsOf cps), [])"
  by (induction cps) (auto simp: decoderWrite_append decode_bytesOf)

lemma unat_lt: "unat (c :: 16 word) < 0x10000"
  using unsigned_less [of c] by simp

lemma unitPoint_scalar: "scalar (unitPoint c)"
  using unat_lt [of c]
  by (auto simp: scalar_def unitPoint_def is_high_def is_low_def word_le_nat_alt)

lemma pair_bounds: "is_high c \<Longrightarrow> 0xd800 \<le> unat c \<and> unat c \<le> 0xdbff" "is_low d \<Longrightarrow> 0xdc00 \<le> unat d \<and> unat d \<le> 0xdfff"
  by (simp_all add: is_high_def is_low_def word_le_nat_alt)

lemma pairPoint_scalar: "is_high c \<Longrightarrow> is_low d \<Longrightarrow> scalar (pairPoint c d)"
  using pair_bounds(1) [of c] pair_bounds(2) [of d] by (auto simp: scalar_def pairPoint_def)

lemma unit_units: "unitsOf (unitPoint c) = [if is_high c \<or> is_low c then 0xfffd else c]"
  using unat_lt [of c] by (simp add: unitsOf_def unitPoint_def)

lemma pair_units:
  assumes "is_high c" and "is_low d"
  shows "unitsOf (pairPoint c d) = [c, d]"
proof -
  note b = pair_bounds(1) [OF assms(1)] pair_bounds(2) [OF assms(2)]
  have "(pairPoint c d - 0x10000) div 0x400 = unat c - 0xd800" "(pairPoint c d - 0x10000) mod 0x400 = unat d - 0xdc00"
    using b div_less [of "unat d - 0xdc00" "0x400"] mod_less [of "unat d - 0xdc00" "0x400"]
    by (simp_all add: pairPoint_def add_diff_assoc [symmetric] del: add_diff_assoc add_diff_assoc2 diff_add_assoc div_eq_0_iff mod_less, linarith+)
  moreover have "\<not> pairPoint c d < 0x10000" by (simp add: pairPoint_def)
  ultimately show ?thesis using b by (simp add: unitsOf_def del: of_nat_add)
qed

lemma codePoints_scalar: "cp \<in> set (codePoints s) \<Longrightarrow> scalar cp"
  by (induction s rule: codePoints.induct) (auto simp: unitPoint_scalar pairPoint_scalar split: if_splits)

lemma codePoints_units: "concat (map unitsOf (codePoints s)) = replaceUnpairedSurrogates s"
proof (induction s rule: codePoints.induct)
  case (3 c d cs)
  then show ?case by (auto simp: unit_units pair_units is_high_def is_low_def)
qed (auto simp: unit_units)

text \<open>However the bytes of a text are cut into chunks, the decoder writes the text, and holds nothing back.\<close>

lemma decoded_text:
  assumes "concat bss = utf8 s"
  shows "concat (fst (decoderWrites [] bss)) = replaceUnpairedSurrogates s \<and> snd (decoderWrites [] bss) = []"
  using decoderWrites_concat [of "[]" bss] decode_points [of "codePoints s"] codePoints_scalar [of _ s]
  by (simp add: assms utf8_def codePoints_units)

end
