(* ===== verification/Spawner_Client.thy ===== *)
theory Spawner_Client
  imports Utf8_Stream Json_Values
begin

text \<open>
  The spawner's client, \<^verbatim>\<open>packages/harness/src/spawner.ts\<close>: one spawner process at a time, the calls open on it, the frames that it sends, and
  the restart after it ends.

  Every spawner that was started is a \<open>Live\<close> of the list \<open>cl_lives\<close>, named by its place there: an old one is still an object that its exit and its
  bytes reach. What the client tells its callers, and what it does to the processes, is the list \<open>cl_told\<close>, in order. \<^verbatim>\<open>JSON.parse\<close> is the argument
  \<open>parse\<close>, with no law: a frame is whatever the domain sent. The time, and whether the spawner's stdin takes a write, are arguments. The log, the
  base64 of the frames sent, and what keeps the event loop waiting are left out.
\<close>

section \<open>Frames\<close>

definition isUpperOrDigit :: "char \<Rightarrow> bool" where
  "isUpperOrDigit c \<longleftrightarrow> (65 \<le> (of_char c :: nat) \<and> (of_char c :: nat) \<le> 90) \<or> isDigit c"

text \<open>The expressions \<open>ERRNO\<close>, \<open>SIGNAL\<close> and \<open>BASE64\<close>.\<close>

definition isErrno :: "string \<Rightarrow> bool" where
  "isErrno s \<longleftrightarrow> take 1 s = ''E'' \<and> 2 \<le> length s \<and> length s \<le> 21 \<and> list_all isUpperOrDigit (drop 1 s)"

definition isSignal :: "string \<Rightarrow> bool" where
  "isSignal s \<longleftrightarrow> take 3 s = ''SIG'' \<and> 4 \<le> length s \<and> length s \<le> 13 \<and> list_all isUpperOrDigit (drop 3 s)"

definition sextet :: "char \<Rightarrow> nat option" where
  "sextet c = (let n = of_char c :: nat in
     if 65 \<le> n \<and> n \<le> 90 then Some (n - 65) else if 97 \<le> n \<and> n \<le> 122 then Some (n - 71)
     else if 48 \<le> n \<and> n \<le> 57 then Some (n + 4) else if n = 43 then Some 62 else if n = 47 then Some 63 else None)"

text \<open>\<^verbatim>\<open>Buffer.from(data, "base64")\<close> of a text that \<^verbatim>\<open>BASE64\<close> takes; \<open>None\<close> for one that it does not.\<close>

fun fromBase64 :: "string \<Rightarrow> bytes option" where
  "fromBase64 [] = Some []"
| "fromBase64 (a # b # c # d # s) =
     (case (sextet a, sextet b) of
        (Some x, Some y) \<Rightarrow>
          if c = CHR ''='' \<and> d = CHR ''='' \<and> s = [] then Some [of_nat (x * 4 + y div 16)]
          else (case (sextet c, sextet d) of
              (Some z, Some w) \<Rightarrow>
                (case fromBase64 s of None \<Rightarrow> None
                 | Some bs \<Rightarrow> Some (of_nat (x * 4 + y div 16) # of_nat (y mod 16 * 16 + z div 4) # of_nat (z mod 4 * 64 + w) # bs))
            | (Some z, None) \<Rightarrow> if d = CHR ''='' \<and> s = [] then Some [of_nat (x * 4 + y div 16), of_nat (y mod 16 * 16 + z div 4)] else None
            | _ \<Rightarrow> None)
      | _ \<Rightarrow> None)"
| "fromBase64 _ = None"

definition isCount :: "Json option \<Rightarrow> bool" where
  "isCount v \<longleftrightarrow> (case v of Some (JNum q) \<Rightarrow> of_int \<lfloor>q\<rfloor> = q \<and> 0 \<le> q \<and> q \<le> 9007199254740991 | _ \<Rightarrow> False)"

definition isTermSize :: "rat \<Rightarrow> bool" where
  "isTermSize n \<longleftrightarrow> of_int \<lfloor>n\<rfloor> = n \<and> 1 \<le> n \<and> n \<le> 0xffff"

definition isEntryName :: "Json \<Rightarrow> bool" where
  "isEntryName v \<longleftrightarrow> (case v of JStr s \<Rightarrow> s \<noteq> '''' \<and> s \<noteq> ''.'' \<and> s \<noteq> ''..'' \<and> CHR ''/'' \<notin> set s \<and> CHR 0x00 \<notin> set s | _ \<Rightarrow> False)"

section \<open>Errors and answers\<close>

record SpawnExit =
  xt_code :: "nat option"
  xt_signal :: "string option"

text \<open>Why a spawner gives no more answers: the words of the source, one constructor each.\<close>

datatype Why = WasClosed | DidNotStart string | ItExited "int option" "string option" | FrameTooLong | FrameNotJson | FrameNotObject | FrameNoId
  | FrameNoCall | WrongErrorFrame | ErrorForStarted | WrongFileOp "Json option" | ReadNoData | ReaddirNames | StatFields | StartedOutOfOrder
  | OutputBeforeStart | OutputFields | ExitBeforeStart | ExitCode | ExitSignal | WrongProcessOp "Json option"

datatype Fault = SpawnError string string string | NoTermSize string rat rat | FileOpError string string string string | SpawnerGone Why bool | SpawnerClosed

definition isWordChar :: "char \<Rightarrow> bool" where
  "isWordChar c \<longleftrightarrow> isUpperOrDigit c \<or> (97 \<le> (of_char c :: nat) \<and> (of_char c :: nat) \<le> 122) \<or> c = CHR ''_''"

text \<open>\<^verbatim>\<open>/^(\w+) (.*): [^:]*$/s\<close>: the system call and the path that a message of the spawner names.\<close>

definition saidOf :: "string \<Rightarrow> (string \<times> string) option" where
  "saidOf m = (let w = takeWhile isWordChar m; r = drop (length w) m in
     if w = [] \<or> take 1 r \<noteq> '' '' then None
     else let after = takeWhile (\<lambda>c. c \<noteq> CHR '':'') (rev (drop 1 r)); before = drop (length after) (rev (drop 1 r)) in
       if before \<noteq> [] \<and> after \<noteq> [] \<and> last after = CHR '' '' then Some (w, rev (drop 1 before)) else None)"

definition fileOpError :: "string \<Rightarrow> string \<Rightarrow> string \<Rightarrow> Fault" where
  "fileOpError code message opPath =
     (case saidOf message of None \<Rightarrow> FileOpError code message ''open'' opPath | Some (syscall, p) \<Rightarrow> FileOpError code message syscall p)"

datatype StatKind = StatFile | StatDirectory | StatOther

datatype Answer = FileBytes bytes | FileDone | FileNames "string list" | FileStat StatKind rat rat string

section \<open>Requests and the state\<close>

record SpawnRequest =
  rq_argv :: "string list"
  rq_env :: "(string \<times> string) list"
  rq_cwd :: string
  rq_stdin :: bool
  rq_tty :: "(rat \<times> rat) option"

datatype FileKind = ReadOp | WriteOp | StatOp | ReaddirOp | UnlinkOp

datatype Frame = SpawnFrame string "string list" "(string \<times> string) list" string bool "(rat \<times> rat) option"
  | FileFrame FileKind string string "bytes option" | StdinFrame string bytes | StdinEndFrame string | ResizeFrame string rat rat
  | PauseFrame string | ResumeFrame string | SignalFrame string string

datatype Call = SpawnCall (call_file: string) (call_running: bool) | FileCall FileKind string

record Live =
  lv_calls :: "(string \<times> Call) list"
  lv_chunks :: "bytes list"
  lv_length :: nat
  lv_dead :: bool
  lv_bornAt :: int

text \<open>The process that a caller holds: the spawner that started it, if one ran, and its pid once started.\<close>

record Proc =
  pr_live :: "nat option"
  pr_pid :: "rat option"

datatype Told = Asked string bool | Started string rat | Out string bool bytes | Exited string SpawnExit | Failed string Fault
  | Answered string Answer | Sent nat Frame | SpawnerStarted nat | SpawnerKilled nat | StdinEnded nat | GroupSignalled rat string

record Client =
  cl_lives :: "Live list"
  cl_live :: "nat option"
  cl_closed :: bool
  cl_seq :: nat
  cl_restartMs :: nat
  cl_timer :: "nat option"
  cl_procs :: "(string \<times> Proc) list"
  cl_told :: "Told list"

record SpawnerOptions =
  so_restartMs :: nat
  so_maxRestartMs :: nat

definition MAX_FRAME :: nat where "MAX_FRAME = 0x1fffffe8"

definition HEALTHY_MS :: int where "HEALTHY_MS = 10000"

section \<open>The client\<close>

definition tell :: "Told list \<Rightarrow> Client \<Rightarrow> Client" where
  "tell ts c = c\<lparr>cl_told := cl_told c @ ts\<rparr>"

definition updLive :: "nat \<Rightarrow> (Live \<Rightarrow> Live) \<Rightarrow> Client \<Rightarrow> Client" where
  "updLive l f c = c\<lparr>cl_lives := (cl_lives c)[l := f (cl_lives c ! l)]\<rparr>"

definition liveOf :: "Client \<Rightarrow> nat \<Rightarrow> Live" where
  "liveOf c l = (cl_lives c ! l)"

definition newLive :: "int \<Rightarrow> Live" where
  "newLive now = \<lparr>lv_calls = [], lv_chunks = [], lv_length = 0, lv_dead = False, lv_bornAt = now\<rparr>"

definition ensure :: "int \<Rightarrow> Client \<Rightarrow> nat option \<times> Client" where
  "ensure now c =
     (if cl_closed c then (None, c)
      else case cl_live c of
        Some l \<Rightarrow> if \<not> lv_dead (liveOf c l) then (Some l, c) else (let n = length (cl_lives c) in
          (Some n, tell [SpawnerStarted n] (c\<lparr>cl_lives := cl_lives c @ [newLive now], cl_live := Some n, cl_timer := None\<rparr>)))
      | None \<Rightarrow> (let n = length (cl_lives c) in
          (Some n, tell [SpawnerStarted n] (c\<lparr>cl_lives := cl_lives c @ [newLive now], cl_live := Some n, cl_timer := None\<rparr>))))"

definition sendOn :: "bool \<Rightarrow> nat option \<Rightarrow> Frame \<Rightarrow> Client \<Rightarrow> bool \<times> Client" where
  "sendOn writable lo frame c = (case lo of None \<Rightarrow> (False, c)
     | Some l \<Rightarrow> if lv_dead (liveOf c l) \<or> cl_live c \<noteq> Some l \<or> \<not> writable then (False, c) else (True, tell [Sent l frame] c))"

definition callId :: "nat \<Rightarrow> string" where
  "callId n = ''c'' @ decimal n"

definition nextId :: "Client \<Rightarrow> string \<times> Client" where
  "nextId c = (callId (Suc (cl_seq c)), c\<lparr>cl_seq := Suc (cl_seq c)\<rparr>)"

text \<open>A terminal size that is none is a \<^verbatim>\<open>SpawnError\<close> with the code \<^verbatim>\<open>EINVAL\<close>.\<close>

definition ttyFault :: "string \<Rightarrow> SpawnRequest \<Rightarrow> Fault option" where
  "ttyFault file req = (case rq_tty req of None \<Rightarrow> None
     | Some (r, k) \<Rightarrow> if \<not> isTermSize r \<or> \<not> isTermSize k then Some (NoTermSize file r k) else None)"

definition spawn :: "int \<Rightarrow> bool \<Rightarrow> SpawnRequest \<Rightarrow> Client \<Rightarrow> string \<times> Client" where
  "spawn now writable req c =
     (let (lo, c1) = ensure now c; (i, c2) = nextId c1;
          c3 = tell [Asked i True] (c2\<lparr>cl_procs := mapSet i \<lparr>pr_live = lo, pr_pid = None\<rparr> (cl_procs c2)\<rparr>);
          file = (case rq_argv req of [] \<Rightarrow> '''' | a # _ \<Rightarrow> a)
      in (i, case lo of None \<Rightarrow> tell [Failed i SpawnerClosed] c3
         | Some l \<Rightarrow>
            (case ttyFault file req of Some fault \<Rightarrow> tell [Failed i fault] c3
             | None \<Rightarrow> snd (sendOn writable (Some l) (SpawnFrame i (rq_argv req) (rq_env req) (rq_cwd req) (rq_stdin req) (rq_tty req))
                 (updLive l (\<lambda>v. v\<lparr>lv_calls := mapSet i (SpawnCall file False) (lv_calls v)\<rparr>) c3)))))"

definition fileOp :: "int \<Rightarrow> bool \<Rightarrow> FileKind \<Rightarrow> string \<Rightarrow> bytes option \<Rightarrow> Client \<Rightarrow> string option \<times> Client" where
  "fileOp now writable kind path data c =
     (let (lo, c1) = ensure now c in
      case lo of None \<Rightarrow> (None, c1)
      | Some l \<Rightarrow>
          let (i, c2) = nextId c1 in
          (Some i, snd (sendOn writable (Some l) (FileFrame kind i path data)
             (updLive l (\<lambda>v. v\<lparr>lv_calls := mapSet i (FileCall kind path) (lv_calls v)\<rparr>) (tell [Asked i False] c2)))))"

definition failOf :: "Why \<Rightarrow> string \<times> Call \<Rightarrow> Told" where
  "failOf why = (\<lambda>(i, call). Failed i (SpawnerGone why (case call of SpawnCall _ r \<Rightarrow> r | FileCall _ _ \<Rightarrow> False)))"

definition gone :: "nat \<Rightarrow> Why \<Rightarrow> Client \<Rightarrow> Client" where
  "gone l why c =
     (if lv_dead (liveOf c l) then c
      else tell (map (failOf why) (lv_calls (liveOf c l)))
        (updLive l (\<lambda>v. v\<lparr>lv_dead := True, lv_chunks := [], lv_length := 0, lv_calls := []\<rparr>) c))"

definition broken :: "nat \<Rightarrow> Why \<Rightarrow> Client \<Rightarrow> Client" where
  "broken l why c = (if lv_dead (liveOf c l) then c else tell [SpawnerKilled l] (gone l why c))"

definition ended :: "SpawnerOptions \<Rightarrow> int \<Rightarrow> nat \<Rightarrow> Why \<Rightarrow> Client \<Rightarrow> Client" where
  "ended opts now l why c =
     (let c1 = gone l why c in
      if cl_live c1 \<noteq> Some l then c1
      else let c2 = c1\<lparr>cl_live := None\<rparr> in
        if cl_closed c2 then c2
        else let pause = (if now - lv_bornAt (liveOf c2 l) \<ge> HEALTHY_MS then 0 else cl_restartMs c2)
          in c2\<lparr>cl_restartMs := if pause = 0 then so_restartMs opts else min (cl_restartMs c2 * 2) (so_maxRestartMs opts),
                cl_timer := Some pause\<rparr>)"

text \<open>The pause is over.\<close>

definition timerFires :: "int \<Rightarrow> Client \<Rightarrow> Client" where
  "timerFires now c = (if cl_timer c = None then c else snd (ensure now (c\<lparr>cl_timer := None\<rparr>)))"

definition close :: "Client \<Rightarrow> Client" where
  "close c =
     (let c1 = c\<lparr>cl_closed := True, cl_timer := None\<rparr> in
      case cl_live c1 of None \<Rightarrow> c1 | Some l \<Rightarrow> tell [StdinEnded l] (gone l WasClosed c1))"

definition settleCall :: "nat \<Rightarrow> string \<Rightarrow> Client \<Rightarrow> Client" where
  "settleCall l i c = updLive l (\<lambda>v. v\<lparr>lv_calls := mapDelete i (lv_calls v)\<rparr>) c"

definition numOf :: "Json option \<Rightarrow> rat" where
  "numOf v = (case v of Some (JNum q) \<Rightarrow> q | _ \<Rightarrow> 0)"

text \<open>A code of an exit frame: \<open>null\<close>, or a whole number from 0 to 255; and its signal.\<close>

definition exitCode :: "Json option \<Rightarrow> nat option option" where
  "exitCode v = (case v of Some JNull \<Rightarrow> Some None
     | Some (JNum q) \<Rightarrow> if of_int \<lfloor>q\<rfloor> = q \<and> 0 \<le> q \<and> q \<le> 255 then Some (Some (nat \<lfloor>q\<rfloor>)) else None
     | _ \<Rightarrow> None)"

definition exitSignal :: "Json option \<Rightarrow> string option option" where
  "exitSignal v = (case v of Some JNull \<Rightarrow> Some None | Some (JStr s) \<Rightarrow> if isSignal s then Some (Some s) else None | _ \<Rightarrow> None)"

definition onSpawnFrame :: "nat \<Rightarrow> string \<Rightarrow> string \<Rightarrow> bool \<Rightarrow> Json \<Rightarrow> Client \<Rightarrow> Client" where
  "onSpawnFrame l i file isRunning f c =
     (let opr = field ''op'' f in
      if opr = Some (JStr ''started'') then
        if isRunning \<or> \<not> isCount (field ''pid'' f) \<or> numOf (field ''pid'' f) < 2 then broken l StartedOutOfOrder c
        else tell [Started i (numOf (field ''pid'' f))]
          ((updLive l (\<lambda>v. v\<lparr>lv_calls := mapSet i (SpawnCall file True) (lv_calls v)\<rparr>) c)
           \<lparr>cl_procs := (case map_of (cl_procs c) i of None \<Rightarrow> cl_procs c
              | Some p \<Rightarrow> mapSet i (p\<lparr>pr_pid := Some (numOf (field ''pid'' f))\<rparr>) (cl_procs c))\<rparr>)
      else if opr = Some (JStr ''out'') then
        if \<not> isRunning then broken l OutputBeforeStart c
        else (case (textOf (field ''stream'' f), map_option fromBase64 (textOf (field ''data'' f))) of
            (Some s, Some (Some bs)) \<Rightarrow> if s = ''stdout'' \<or> s = ''stderr'' then tell [Out i (s = ''stdout'') bs] c else broken l OutputFields c
          | _ \<Rightarrow> broken l OutputFields c)
      else if opr = Some (JStr ''exit'') then
        if \<not> isRunning then broken l ExitBeforeStart c
        else (case exitCode (field ''code'' f) of None \<Rightarrow> broken l ExitCode c
          | Some code \<Rightarrow>
             (case exitSignal (field ''signal'' f) of None \<Rightarrow> broken l ExitSignal c
              | Some sig \<Rightarrow> tell [Exited i \<lparr>xt_code = code, xt_signal = sig\<rparr>] (settleCall l i c)))
      else broken l (WrongProcessOp opr) c)"

text \<open>The answer of a file op, or why the frame is none.\<close>

definition answerOf :: "FileKind \<Rightarrow> Json \<Rightarrow> Why + Answer" where
  "answerOf kind f = (case kind of
     ReadOp \<Rightarrow> (case map_option fromBase64 (textOf (field ''data'' f)) of Some (Some bs) \<Rightarrow> Inr (FileBytes bs) | _ \<Rightarrow> Inl ReadNoData)
   | WriteOp \<Rightarrow> Inr FileDone
   | UnlinkOp \<Rightarrow> Inr FileDone
   | ReaddirOp \<Rightarrow> (case field ''names'' f of
        Some (JArr ns) \<Rightarrow> if list_all isEntryName ns then Inr (FileNames (map (\<lambda>v. case v of JStr s \<Rightarrow> s | _ \<Rightarrow> '''') ns)) else Inl ReaddirNames
      | _ \<Rightarrow> Inl ReaddirNames)
   | StatOp \<Rightarrow> (case (textOf (field ''kind'' f), field ''mtimeMs'' f, textOf (field ''realpath'' f)) of
        (Some k, Some (JNum m), Some p) \<Rightarrow>
          if k \<in> {''file'', ''directory'', ''other''} \<and> isCount (field ''size'' f) \<and> take 1 p = ''/''
          then Inr (FileStat (if k = ''file'' then StatFile else if k = ''directory'' then StatDirectory else StatOther) (numOf (field ''size'' f)) m p)
          else Inl StatFields
      | _ \<Rightarrow> Inl StatFields))"

definition onErrorFrame :: "nat \<Rightarrow> string \<Rightarrow> Call \<Rightarrow> Json \<Rightarrow> Client \<Rightarrow> Client" where
  "onErrorFrame l i call f c =
     (case (textOf (field ''code'' f), textOf (field ''message'' f)) of
        (Some code, Some message) \<Rightarrow>
          if \<not> isErrno code then broken l WrongErrorFrame c
          else (case call of
              SpawnCall file r \<Rightarrow> if r then broken l ErrorForStarted c
                else tell [Failed i (SpawnError file code (take 4096 message))] (settleCall l i c)
            | FileCall _ path \<Rightarrow> tell [Failed i (fileOpError code (take 4096 message) path)] (settleCall l i c))
      | _ \<Rightarrow> broken l WrongErrorFrame c)"

definition onFrame :: "(bytes \<Rightarrow> Json option) \<Rightarrow> nat \<Rightarrow> bytes \<Rightarrow> Client \<Rightarrow> Client" where
  "onFrame parse l line c =
     (case parse line of None \<Rightarrow> broken l FrameNotJson c
      | Some (JObj kvs) \<Rightarrow>
          (case textOf (field ''id'' (JObj kvs)) of None \<Rightarrow> broken l FrameNoId c
           | Some i \<Rightarrow>
              (case map_of (lv_calls (liveOf c l)) i of None \<Rightarrow> broken l FrameNoCall c
               | Some call \<Rightarrow>
                  if field ''op'' (JObj kvs) = Some (JStr ''error'') then onErrorFrame l i call (JObj kvs) c
                  else (case call of
                      SpawnCall file r \<Rightarrow> onSpawnFrame l i file r (JObj kvs) c
                    | FileCall kind path \<Rightarrow>
                        if field ''op'' (JObj kvs) \<noteq> Some (JStr ''ok'') then broken l (WrongFileOp (field ''op'' (JObj kvs))) c
                        else (case answerOf kind (JObj kvs) of Inl why \<Rightarrow> broken l why c
                          | Inr a \<Rightarrow> tell [Answered i a] (settleCall l i c)))))
      | Some _ \<Rightarrow> broken l FrameNotObject c)"

function onData :: "(bytes \<Rightarrow> Json option) \<Rightarrow> nat \<Rightarrow> bytes \<Rightarrow> Client \<Rightarrow> Client" where
  "onData parse l rest c =
     (if lv_dead (liveOf c l) then c
      else if 10 \<notin> set rest then
        let c1 = updLive l (\<lambda>v. v\<lparr>lv_chunks := lv_chunks v @ [rest], lv_length := lv_length v + length rest\<rparr>) c
        in if MAX_FRAME < lv_length (liveOf c1 l) then broken l FrameTooLong c1 else c1
      else let head = takeWhile (\<lambda>b. b \<noteq> 10) rest; rest' = drop (length head + 1) rest;
               line = concat (lv_chunks (liveOf c l)) @ head;
               c1 = updLive l (\<lambda>v. v\<lparr>lv_chunks := [], lv_length := 0\<rparr>) c
        in if MAX_FRAME < length line then broken l FrameTooLong c1 else onData parse l rest' (onFrame parse l line c1))"
  by pat_completeness auto
termination
  by (relation "measure (\<lambda>(_, _, rest, _). length rest)") (auto intro!: diff_less dest: length_pos_if_in_set)

declare onData.simps [simp del]

text \<open>What a caller does with its process.\<close>

datatype ProcOp = Write bytes | End | Resize rat rat | Pause | Resume | Signal string

definition procOp :: "bool \<Rightarrow> string \<Rightarrow> ProcOp \<Rightarrow> Client \<Rightarrow> Client" where
  "procOp writable i opr c = (case map_of (cl_procs c) i of None \<Rightarrow> c
     | Some p \<Rightarrow> (case opr of
         Write bs \<Rightarrow> if bs = [] then c else snd (sendOn writable (pr_live p) (StdinFrame i bs) c)
       | End \<Rightarrow> snd (sendOn writable (pr_live p) (StdinEndFrame i) c)
       | Resize r k \<Rightarrow> if \<not> isTermSize r \<or> \<not> isTermSize k then c else snd (sendOn writable (pr_live p) (ResizeFrame i r k) c)
       | Pause \<Rightarrow> snd (sendOn writable (pr_live p) (PauseFrame i) c)
       | Resume \<Rightarrow> snd (sendOn writable (pr_live p) (ResumeFrame i) c)
       | Signal sig \<Rightarrow> (let (ok, c1) = sendOn writable (pr_live p) (SignalFrame i sig) c in
           if ok then c1 else (case pr_pid p of None \<Rightarrow> c1 | Some pid \<Rightarrow> tell [GroupSignalled pid sig] c1))))"

definition newClient :: "SpawnerOptions \<Rightarrow> int \<Rightarrow> Client" where
  "newClient opts now = snd (ensure now
     \<lparr>cl_lives = [], cl_live = None, cl_closed = False, cl_seq = 0, cl_restartMs = so_restartMs opts, cl_timer = None, cl_procs = [], cl_told = []\<rparr>)"

section \<open>Every history of the client\<close>

datatype ClientOp = DoSpawn int bool SpawnRequest | DoFile int bool FileKind string "bytes option" | DoProc bool string ProcOp
  | GetData nat bytes | GetEnd int nat Why | GetTimer int | DoClose

fun clientStep :: "SpawnerOptions \<Rightarrow> (bytes \<Rightarrow> Json option) \<Rightarrow> ClientOp \<Rightarrow> Client \<Rightarrow> Client" where
  "clientStep opts parse (DoSpawn now w req) c = snd (spawn now w req c)"
| "clientStep opts parse (DoFile now w kind path data) c = snd (fileOp now w kind path data c)"
| "clientStep opts parse (DoProc w i opr) c = procOp w i opr c"
| "clientStep opts parse (GetData l bs) c = (if l < length (cl_lives c) then onData parse l bs c else c)"
| "clientStep opts parse (GetEnd now l why) c = (if l < length (cl_lives c) then ended opts now l why c else c)"
| "clientStep opts parse (GetTimer now) c = timerFires now c"
| "clientStep opts parse DoClose c = close c"

inductive clientReach :: "SpawnerOptions \<Rightarrow> (bytes \<Rightarrow> Json option) \<Rightarrow> Client \<Rightarrow> bool" for opts parse where
  init: "clientReach opts parse (newClient opts now)"
| step: "clientReach opts parse c \<Longrightarrow> clientReach opts parse (clientStep opts parse opr c)"

section \<open>The life of a call\<close>

text \<open>What a caller may hear of one call, in order: it was asked; for a process, that it started, its output, and last its exit or a failure; for a
  file op, its answer or a failure.\<close>

datatype Phase = Unasked | Opened bool | Going | Over | Wrong

fun about :: "Told \<Rightarrow> string option" where
  "about (Asked i _) = Some i"
| "about (Started i _) = Some i"
| "about (Out i _ _) = Some i"
| "about (Exited i _) = Some i"
| "about (Failed i _) = Some i"
| "about (Answered i _) = Some i"
| "about _ = None"

fun phaseNext :: "Phase \<Rightarrow> Told \<Rightarrow> Phase" where
  "phaseNext Unasked (Asked _ s) = Opened s"
| "phaseNext (Opened True) (Started _ _) = Going"
| "phaseNext Going (Out _ _ _) = Going"
| "phaseNext Going (Exited _ _) = Over"
| "phaseNext Going (Failed _ _) = Over"
| "phaseNext (Opened _) (Failed _ _) = Over"
| "phaseNext (Opened False) (Answered _ _) = Over"
| "phaseNext _ _ = Wrong"

definition phase :: "string \<Rightarrow> Told list \<Rightarrow> Phase" where
  "phase k ts = foldl phaseNext Unasked (filter (\<lambda>t. about t = Some k) ts)"

text \<open>The calls that can still be answered: those open on the spawner that runs now.\<close>

definition openCalls :: "Client \<Rightarrow> (string \<times> Call) list" where
  "openCalls c = (case cl_live c of None \<Rightarrow> [] | Some l \<Rightarrow> if lv_dead (liveOf c l) then [] else lv_calls (liveOf c l))"

definition callPhase :: "Call \<Rightarrow> Phase" where
  "callPhase call = (case call of SpawnCall _ r \<Rightarrow> if r then Going else Opened True | FileCall _ _ \<Rightarrow> Opened False)"

definition minted :: "Client \<Rightarrow> string set" where
  "minted c = callId ` {1..cl_seq c}"

definition livesOk :: "Client \<Rightarrow> bool" where
  "livesOk c \<longleftrightarrow> (\<forall>l. cl_live c = Some l \<longrightarrow> l < length (cl_lives c))
     \<and> (\<forall>l<length (cl_lives c). lv_dead (liveOf c l) \<longrightarrow> lv_calls (liveOf c l) = [])
     \<and> (\<forall>l<length (cl_lives c). lv_dead (liveOf c l) \<or> cl_live c = Some l)"

definition phasesOk :: "Client \<Rightarrow> bool" where
  "phasesOk c \<longleftrightarrow> distinct (map fst (openCalls c)) \<and> fst ` set (openCalls c) \<subseteq> minted c
     \<and> (\<forall>k. phase k (cl_told c) = (case map_of (openCalls c) k of Some call \<Rightarrow> callPhase call | None \<Rightarrow> if k \<in> minted c then Over else Unasked))"

definition clientOk :: "Client \<Rightarrow> bool" where
  "clientOk c \<longleftrightarrow> livesOk c \<and> phasesOk c"

lemma phase_append: "phase k (ts @ us) = foldl phaseNext (phase k ts) (filter (\<lambda>t. about t = Some k) us)"
  by (simp add: phase_def)

lemma callId_inj [simp]: "callId m = callId n \<longleftrightarrow> m = n"
  using decimal_value by (auto simp: callId_def) metis

lemma fails_filter:
  "distinct (map fst cs) \<Longrightarrow>
   filter (\<lambda>t. about t = Some k) (map (failOf why) cs) = (case map_of cs k of None \<Rightarrow> [] | Some call \<Rightarrow> [failOf why (k, call)])"
proof (induction cs)
  case (Cons x cs)
  then show ?case by (cases x) (auto simp: failOf_def split: option.splits dest: map_of_SomeD simp: image_iff)
qed simp

lemma fails_over: "phaseNext (callPhase call) (failOf why (k, call)) = Over"
  by (cases call) (auto simp: callPhase_def failOf_def)

text \<open>What the parts of the state are after the basic updates.\<close>

lemma tell_simps [frame_simps]:
  "cl_lives (tell ts c) = cl_lives c" "cl_live (tell ts c) = cl_live c" "cl_closed (tell ts c) = cl_closed c" "cl_seq (tell ts c) = cl_seq c"
  "cl_procs (tell ts c) = cl_procs c" "cl_told (tell ts c) = cl_told c @ ts" "liveOf (tell ts c) l = liveOf c l"
  by (simp_all add: tell_def liveOf_def)

lemma updLive_simps [frame_simps]:
  "length (cl_lives (updLive l f c)) = length (cl_lives c)" "cl_live (updLive l f c) = cl_live c" "cl_closed (updLive l f c) = cl_closed c"
  "cl_seq (updLive l f c) = cl_seq c" "cl_procs (updLive l f c) = cl_procs c" "cl_told (updLive l f c) = cl_told c"
  "l < length (cl_lives c) \<Longrightarrow> liveOf (updLive l f c) k = (if k = l then f (liveOf c l) else liveOf c k)"
  by (simp_all add: updLive_def liveOf_def)

lemma liveOf_upd [simp]:
  "liveOf (c\<lparr>cl_seq := n\<rparr>) l = liveOf c l" "liveOf (c\<lparr>cl_procs := ps\<rparr>) l = liveOf c l" "liveOf (c\<lparr>cl_closed := b\<rparr>) l = liveOf c l"
  "liveOf (c\<lparr>cl_timer := t\<rparr>) l = liveOf c l" "liveOf (c\<lparr>cl_live := lo\<rparr>) l = liveOf c l" "liveOf (c\<lparr>cl_restartMs := m\<rparr>) l = liveOf c l"
  by (simp_all add: liveOf_def)

lemma minted_frame [frame_simps]: "minted (tell ts c) = minted c" "minted (updLive l f c) = minted c"
  by (simp_all add: minted_def frame_simps)

lemma openCalls_tell [frame_simps]: "openCalls (tell ts c) = openCalls c"
  by (simp add: openCalls_def frame_simps split: option.split)

lemma livesOkD:
  assumes "livesOk c"
  shows "cl_live c = Some l \<Longrightarrow> l < length (cl_lives c)" "l < length (cl_lives c) \<Longrightarrow> lv_dead (liveOf c l) \<Longrightarrow> lv_calls (liveOf c l) = []"
    "l < length (cl_lives c) \<Longrightarrow> \<not> lv_dead (liveOf c l) \<Longrightarrow> cl_live c = Some l"
  using assms unfolding livesOk_def by blast+

lemma livesOkI:
  assumes "\<And>l. cl_live c = Some l \<Longrightarrow> l < length (cl_lives c)"
    and "\<And>l. l < length (cl_lives c) \<Longrightarrow> lv_dead (liveOf c l) \<Longrightarrow> lv_calls (liveOf c l) = []"
    and "\<And>l. l < length (cl_lives c) \<Longrightarrow> \<not> lv_dead (liveOf c l) \<Longrightarrow> cl_live c = Some l"
  shows "livesOk c"
  using assms unfolding livesOk_def by blast

lemma livesOk_tell [frame_simps]: "livesOk (tell ts c) \<longleftrightarrow> livesOk c"
  by (simp add: livesOk_def frame_simps)

lemma tell_other: "clientOk c \<Longrightarrow> list_all (\<lambda>t. about t = None) ts \<Longrightarrow> clientOk (tell ts c)"
proof -
  assume ok: "clientOk c" and "list_all (\<lambda>t. about t = None) ts"
  then have "filter (\<lambda>t. about t = Some k) ts = []" for k by (auto simp: filter_empty_conv list_all_iff)
  then show ?thesis using ok by (simp add: clientOk_def phasesOk_def frame_simps phase_append)
qed

lemma openCalls_live: "livesOk c \<Longrightarrow> l < length (cl_lives c) \<Longrightarrow> \<not> lv_dead (liveOf c l) \<Longrightarrow> openCalls c = lv_calls (liveOf c l)"
  using livesOkD(3) [of c l] by (simp add: openCalls_def)

lemma updLive_livesOk:
  assumes live: "livesOk c" and l: "l < length (cl_lives c)" "\<not> lv_dead (liveOf c l)" and f: "\<And>v. lv_dead (f v) = lv_dead v"
  shows "livesOk (updLive l f c)"
proof (rule livesOkI)
  fix k assume "k < length (cl_lives (updLive l f c))" "lv_dead (liveOf (updLive l f c) k)"
  then show "lv_calls (liveOf (updLive l f c) k) = []" using livesOkD(2) [OF live, of k] l f by (simp add: frame_simps split: if_splits)
next
  fix k assume "k < length (cl_lives (updLive l f c))" "\<not> lv_dead (liveOf (updLive l f c) k)"
  then show "cl_live (updLive l f c) = Some k" using livesOkD(3) [OF live, of k] l f by (simp add: frame_simps split: if_splits)
qed (use livesOkD(1) [OF live] in \<open>simp add: frame_simps\<close>)

text \<open>An update of the calls of the spawner that runs, with what is told of it.\<close>

lemma updCalls_ok:
  assumes ok: "clientOk c" and l: "l < length (cl_lives c)" "\<not> lv_dead (liveOf c l)"
    and f: "\<And>v. lv_dead (f v) = lv_dead v" "lv_calls (f (liveOf c l)) = cs"
    and cs: "distinct (map fst cs)" "fst ` set cs \<subseteq> minted c"
    and ph: "\<And>k. foldl phaseNext (phase k (cl_told c)) (filter (\<lambda>t. about t = Some k) ts)
      = (case map_of cs k of Some call \<Rightarrow> callPhase call | None \<Rightarrow> if k \<in> minted c then Over else Unasked)"
  shows "clientOk (tell ts (updLive l f c))"
proof -
  have "livesOk (updLive l f c)" using updLive_livesOk [OF _ l f(1)] ok by (simp add: clientOk_def)
  then have lo: "livesOk (tell ts (updLive l f c))" by (simp add: frame_simps)
  have "openCalls (tell ts (updLive l f c)) = cs"
    using openCalls_live [OF lo, of l] l f by (simp add: frame_simps)
  then show ?thesis using lo cs ph by (simp add: clientOk_def phasesOk_def frame_simps phase_append)
qed

lemma gone_frame [frame_simps]:
  "length (cl_lives (gone l why c)) = length (cl_lives c)" "cl_live (gone l why c) = cl_live c" "cl_closed (gone l why c) = cl_closed c"
  "l < length (cl_lives c) \<Longrightarrow> lv_dead (liveOf (gone l why c) l)"
  by (simp_all add: gone_def frame_simps)

lemma gone_ok [inv_intros]:
  assumes ok: "clientOk c" and l: "l < length (cl_lives c)"
  shows "clientOk (gone l why c)"
proof (cases "lv_dead (liveOf c l)")
  case False
  have oc: "openCalls c = lv_calls (liveOf c l)" using ok l False by (simp add: clientOk_def openCalls_live)
  have lo: "livesOk c" using ok by (simp add: clientOk_def)
  note cur = livesOkD(3) [OF lo l False]
  let ?c = "gone l why c"
  have live: "livesOk ?c"
  proof (rule livesOkI)
    fix k assume "k < length (cl_lives ?c)" "lv_dead (liveOf ?c k)"
    then show "lv_calls (liveOf ?c k) = []" using livesOkD(2) [OF lo, of k] l False by (simp add: gone_def frame_simps split: if_splits)
  next
    fix k assume "k < length (cl_lives ?c)" "\<not> lv_dead (liveOf ?c k)"
    then show "cl_live ?c = Some k" using livesOkD(3) [OF lo, of k] l False by (simp add: gone_def frame_simps split: if_splits)
  qed (use livesOkD(1) [OF lo] in \<open>simp add: frame_simps\<close>)
  have open': "openCalls ?c = []" using False l cur by (simp add: gone_def openCalls_def frame_simps)
  have "phase k (cl_told ?c) = (if k \<in> minted c then Over else Unasked)" for k
    using ok False unfolding clientOk_def phasesOk_def oc
    by (auto simp: gone_def frame_simps phase_append fails_filter fails_over split: option.splits dest!: map_of_SomeD)
  moreover have "minted ?c = minted c" by (simp add: gone_def frame_simps)
  ultimately show ?thesis using live open' by (simp add: clientOk_def phasesOk_def)
qed (use ok in \<open>simp add: gone_def\<close>)

lemma broken_ok [inv_intros]: "clientOk c \<Longrightarrow> l < length (cl_lives c) \<Longrightarrow> clientOk (broken l why c)"
  by (auto simp: broken_def intro!: tell_other gone_ok)

lemma broken_length [frame_simps]: "length (cl_lives (broken l why c)) = length (cl_lives c)"
  by (simp add: broken_def frame_simps)

lemma clientOkD: "clientOk c \<Longrightarrow> livesOk c"
  by (simp add: clientOk_def)

text \<open>Parts of the state that the invariant does not read.\<close>

lemma clientOk_cong:
  assumes "clientOk c" and "cl_lives c' = cl_lives c" "cl_live c' = cl_live c" "cl_seq c' = cl_seq c" "cl_told c' = cl_told c"
  shows "clientOk c'"
proof -
  have lv: "liveOf c' = liveOf c" using assms by (simp add: fun_eq_iff liveOf_def)
  then have "openCalls c' = openCalls c" "minted c' = minted c" using assms by (simp_all add: openCalls_def minted_def split: option.split)
  then show ?thesis using assms lv by (simp add: clientOk_def livesOk_def phasesOk_def)
qed

lemma chunks_ok:
  assumes ok: "clientOk c" and l: "l < length (cl_lives c)" "\<not> lv_dead (liveOf c l)"
    and f: "\<And>v. lv_dead (f v) = lv_dead v" "\<And>v. lv_calls (f v) = lv_calls v"
  shows "clientOk (updLive l f c)"
proof -
  have oc: "openCalls c = lv_calls (liveOf c l)" using openCalls_live [OF clientOkD [OF ok] l] .
  have "clientOk (tell [] (updLive l f c))"
    by (rule updCalls_ok [OF ok l, where cs = "openCalls c"]) (use ok oc f in \<open>auto simp: clientOk_def phasesOk_def\<close>)
  then show ?thesis by (simp add: tell_def)
qed

lemma distinct_mapDelete: "distinct (map fst m) \<Longrightarrow> distinct (map fst (mapDelete k m))"
  by (simp add: mapDelete_def distinct_map_filter)

lemma mapDelete_key: "x \<in> set (mapDelete k m) \<Longrightarrow> x \<in> set m"
  by (simp add: mapDelete_def)

text \<open>A call that is over: it is not open any more.\<close>

lemma settled_ok:
  assumes ok: "clientOk c" and l: "l < length (cl_lives c)" "\<not> lv_dead (liveOf c l)"
    and call: "map_of (lv_calls (liveOf c l)) i = Some call" and t: "about t = Some i" "phaseNext (callPhase call) t = Over"
  shows "clientOk (tell [t] (settleCall l i c))"
proof -
  have oc: "openCalls c = lv_calls (liveOf c l)" using openCalls_live [OF clientOkD [OF ok] l] .
  have cs: "distinct (map fst (openCalls c))" "fst ` set (openCalls c) \<subseteq> minted c" using ok by (simp_all add: clientOk_def phasesOk_def)
  have "i \<in> minted c" using cs(2) call oc by (force dest: map_of_SomeD)
  then show ?thesis unfolding settleCall_def
    by (intro updCalls_ok [OF ok l, where cs = "mapDelete i (openCalls c)"])
      (use ok oc cs call t in \<open>auto simp: clientOk_def phasesOk_def distinct_mapDelete dest: mapDelete_key\<close>)
qed

lemma started_ok:
  assumes ok: "clientOk c" and l: "l < length (cl_lives c)" "\<not> lv_dead (liveOf c l)"
    and call: "map_of (lv_calls (liveOf c l)) i = Some (SpawnCall file False)"
  shows "clientOk (tell [Started i pid] (updLive l (\<lambda>v. v\<lparr>lv_calls := mapSet i (SpawnCall file True) (lv_calls v)\<rparr>) c))"
proof -
  have oc: "openCalls c = lv_calls (liveOf c l)" using openCalls_live [OF clientOkD [OF ok] l] .
  have cs: "distinct (map fst (openCalls c))" "fst ` set (openCalls c) \<subseteq> minted c" using ok by (simp_all add: clientOk_def phasesOk_def)
  have "i \<in> minted c" using cs(2) call oc by (force dest: map_of_SomeD)
  then show ?thesis
    by (intro updCalls_ok [OF ok l, where cs = "mapSet i (SpawnCall file True) (openCalls c)"])
      (use ok oc cs call in \<open>auto simp: clientOk_def phasesOk_def distinct_mapSet callPhase_def\<close>)
qed

lemma out_ok:
  assumes ok: "clientOk c" and l: "l < length (cl_lives c)" "\<not> lv_dead (liveOf c l)"
    and call: "map_of (lv_calls (liveOf c l)) i = Some (SpawnCall file True)"
  shows "clientOk (tell [Out i b bs] c)"
proof -
  have "openCalls c = lv_calls (liveOf c l)" using openCalls_live [OF clientOkD [OF ok] l] .
  then show ?thesis using ok call by (auto simp: clientOk_def phasesOk_def frame_simps phase_append callPhase_def)
qed

lemma newLive_ok:
  assumes ok: "clientOk c" and "openCalls c = []" and idle: "\<And>l. l < length (cl_lives c) \<Longrightarrow> lv_dead (liveOf c l)"
  shows "clientOk (tell [SpawnerStarted n] (c\<lparr>cl_lives := cl_lives c @ [newLive now], cl_live := Some (length (cl_lives c)), cl_timer := None\<rparr>))"
    (is "clientOk (tell _ ?c)")
proof (rule tell_other)
  have lv: "liveOf ?c l = (if l < length (cl_lives c) then liveOf c l else newLive now)" if "l < length (cl_lives ?c)" for l
    using that by (auto simp: liveOf_def nth_append)
  have "livesOk ?c"
  proof (rule livesOkI)
    fix l assume "l < length (cl_lives ?c)" "lv_dead (liveOf ?c l)"
    then show "lv_calls (liveOf ?c l) = []" using lv [of l] livesOkD(2) [OF clientOkD [OF ok], of l] by (auto simp: newLive_def split: if_splits)
  next
    fix l assume "l < length (cl_lives ?c)" "\<not> lv_dead (liveOf ?c l)"
    then show "cl_live ?c = Some l" using lv [of l] idle [of l] by (auto split: if_splits)
  qed simp
  moreover have "openCalls ?c = []" using lv [of "length (cl_lives c)"] by (simp add: openCalls_def newLive_def)
  ultimately show "clientOk ?c" using ok assms(2) by (simp add: clientOk_def phasesOk_def minted_def)
qed simp

lemma ensure_ok:
  assumes ok: "clientOk c" and e: "ensure now c = (lo, c')"
  shows "clientOk c'" and "lo = Some l \<Longrightarrow> l < length (cl_lives c') \<and> \<not> lv_dead (liveOf c' l)" and "cl_seq c' = cl_seq c" and "cl_procs c' = cl_procs c"
proof -
  have live: "livesOk c" using ok by (rule clientOkD)
  have new: "clientOk (tell [SpawnerStarted n] (c\<lparr>cl_lives := cl_lives c @ [newLive now], cl_live := Some (length (cl_lives c)), cl_timer := None\<rparr>))"
    if "cl_live c = None \<or> (\<exists>l. cl_live c = Some l \<and> lv_dead (liveOf c l))" for n
  proof (rule newLive_ok [OF ok])
    show "openCalls c = []" using that by (auto simp: openCalls_def)
    fix l assume l: "l < length (cl_lives c)"
    show "lv_dead (liveOf c l)" using livesOkD(3) [OF live l] that by (cases "lv_dead (liveOf c l)") auto
  qed
  have fresh: "liveOf (c\<lparr>cl_lives := cl_lives c @ [v]\<rparr>) (length (cl_lives c)) = v" for v
    by (simp add: liveOf_def)
  show "clientOk c'" using e ok new by (auto simp: ensure_def Let_def split: if_splits option.splits)
  show "lo = Some l \<Longrightarrow> l < length (cl_lives c') \<and> \<not> lv_dead (liveOf c' l)"
    using e livesOkD(1) [OF live, of l] by (auto simp: ensure_def Let_def fresh frame_simps newLive_def split: if_splits option.splits)
  show "cl_seq c' = cl_seq c" "cl_procs c' = cl_procs c" using e by (auto simp: ensure_def Let_def frame_simps split: if_splits option.splits)
qed

lemma ensure_snd_ok: "clientOk c \<Longrightarrow> clientOk (snd (ensure now c))"
  using ensure_ok(1) [of c now "fst (ensure now c)" "snd (ensure now c)"] by simp

lemma sendOn_ok [inv_intros]: "clientOk c \<Longrightarrow> clientOk (snd (sendOn w lo f c))"
  by (auto simp: sendOn_def intro!: tell_other split: option.split)

text \<open>A new call: its id is the next one, so nothing was told of it.\<close>

lemma asked_open_ok:
  assumes ok: "clientOk c" and l: "l < length (cl_lives c)" "\<not> lv_dead (liveOf c l)" and call: "callPhase call = Opened s"
  shows "clientOk (updLive l (\<lambda>v. v\<lparr>lv_calls := mapSet (callId (Suc (cl_seq c))) call (lv_calls v)\<rparr>)
    (tell [Asked (callId (Suc (cl_seq c))) s] (c\<lparr>cl_seq := Suc (cl_seq c)\<rparr>)))"
proof -
  let ?i = "callId (Suc (cl_seq c))" and ?d = "c\<lparr>cl_seq := Suc (cl_seq c)\<rparr>"
  let ?f = "\<lambda>v. v\<lparr>lv_calls := mapSet ?i call (lv_calls v)\<rparr>"
  have oc: "openCalls c = lv_calls (liveOf c l)" using openCalls_live [OF clientOkD [OF ok] l] .
  have cs: "distinct (map fst (openCalls c))" "fst ` set (openCalls c) \<subseteq> minted c" using ok by (simp_all add: clientOk_def phasesOk_def)
  have ph: "phase k (cl_told c) = (case map_of (openCalls c) k of Some call \<Rightarrow> callPhase call | None \<Rightarrow> if k \<in> minted c then Over else Unasked)" for k
    using ok by (simp add: clientOk_def phasesOk_def)
  have new: "?i \<notin> minted c" by (auto simp: minted_def)
  then have no: "map_of (openCalls c) ?i = None" using cs(2) by (metis map_of_eq_None_iff subsetD)
  have m: "minted ?d = insert ?i (minted c)" by (auto simp: minted_def)
  have "livesOk ?d" using clientOkD [OF ok] by (simp add: livesOk_def)
  then have live: "livesOk (tell [Asked ?i s] (updLive l ?f ?d))" using updLive_livesOk [of ?d l ?f] l by (simp add: frame_simps)
  have oc': "openCalls (updLive l ?f ?d) = mapSet ?i call (openCalls c)"
    using openCalls_live [OF live, of l] l oc by (simp add: frame_simps)
  have "clientOk (tell [Asked ?i s] (updLive l ?f ?d))"
    using live cs no new m by (auto simp: clientOk_def phasesOk_def oc' frame_simps phase_append ph distinct_mapSet call)
  moreover have "tell [Asked ?i s] (updLive l ?f ?d) = updLive l ?f (tell [Asked ?i s] ?d)" by (simp add: tell_def updLive_def)
  ultimately show ?thesis by simp
qed

text \<open>A call that was refused at once.\<close>

lemma asked_failed_ok:
  assumes ok: "clientOk c"
  shows "clientOk (tell [Failed (callId (Suc (cl_seq c))) fault] (tell [Asked (callId (Suc (cl_seq c))) s] (c\<lparr>cl_seq := Suc (cl_seq c)\<rparr>)))"
proof -
  let ?i = "callId (Suc (cl_seq c))" and ?d = "c\<lparr>cl_seq := Suc (cl_seq c)\<rparr>"
  have new: "?i \<notin> minted c" by (auto simp: minted_def)
  have m: "minted ?d = insert ?i (minted c)" by (auto simp: minted_def)
  have no: "map_of (openCalls c) ?i = None" using ok new by (auto simp: clientOk_def phasesOk_def map_of_eq_None_iff)
  have oc: "openCalls ?d = openCalls c" by (simp add: openCalls_def split: option.split)
  have "livesOk ?d" using clientOkD [OF ok] by (simp add: livesOk_def)
  then show ?thesis using ok new no
    by (auto simp: clientOk_def phasesOk_def frame_simps phase_append m oc)
qed

lemma spawn_ok [inv_intros]:
  assumes ok: "clientOk c"
  shows "clientOk (snd (spawn now w req c))"
proof -
  obtain lo c1 where e: "ensure now c = (lo, c1)" by (cases "ensure now c")
  note e_ok = ensure_ok [OF ok e]
  let ?i = "callId (Suc (cl_seq c1))"
  let ?d = "c1\<lparr>cl_procs := mapSet ?i \<lparr>pr_live = lo, pr_pid = None\<rparr> (cl_procs c1)\<rparr>"
  have d: "clientOk ?d" "length (cl_lives ?d) = length (cl_lives c1)" "cl_seq ?d = cl_seq c1" by (auto intro: clientOk_cong [OF e_ok(1)])
  have order: "c1\<lparr>cl_seq := n, cl_procs := ps\<rparr> = c1\<lparr>cl_procs := ps, cl_seq := n\<rparr>" for n ps by simp
  show ?thesis using asked_failed_ok [OF d(1), of _ True] asked_open_ok [OF d(1), of _ "SpawnCall _ False" True] e_ok(2) d
    by (auto simp: spawn_def e nextId_def Let_def callPhase_def order split: option.split intro!: inv_intros)
qed

lemma fileOp_ok [inv_intros]:
  assumes ok: "clientOk c"
  shows "clientOk (snd (fileOp now w kind path data c))"
proof -
  obtain lo c1 where e: "ensure now c = (lo, c1)" by (cases "ensure now c")
  note e_ok = ensure_ok [OF ok e]
  show ?thesis using asked_open_ok [OF e_ok(1), of _ "FileCall kind path" False] e_ok
    by (auto simp: fileOp_def e nextId_def Let_def callPhase_def split: option.split intro!: inv_intros)
qed

lemma ended_ok [inv_intros]:
  assumes ok: "clientOk c" and l: "l < length (cl_lives c)"
  shows "clientOk (ended opts now l why c)"
proof -
  let ?c = "gone l why c"
  have g: "clientOk ?c" using gone_ok [OF ok l] .
  have dead: "lv_dead (liveOf ?c l)" using l by (simp add: frame_simps)
  have "clientOk (?c\<lparr>cl_live := None\<rparr>)" if cur: "cl_live ?c = Some l"
  proof -
    have "lv_dead (liveOf ?c k)" if "k < length (cl_lives ?c)" for k
      using livesOkD(3) [OF clientOkD [OF g] that] cur dead by (cases "lv_dead (liveOf ?c k)") auto
    then have "livesOk (?c\<lparr>cl_live := None\<rparr>)" using livesOkD(2) [OF clientOkD [OF g]] by (intro livesOkI) auto
    moreover have "openCalls ?c = []" "openCalls (?c\<lparr>cl_live := None\<rparr>) = []" using cur dead by (simp_all add: openCalls_def)
    ultimately show ?thesis using g by (simp add: clientOk_def phasesOk_def minted_def)
  qed
  then show ?thesis using g by (auto simp: ended_def Let_def intro: clientOk_cong)
qed

lemma timerFires_ok [inv_intros]: "clientOk c \<Longrightarrow> clientOk (timerFires now c)"
proof -
  assume ok: "clientOk c"
  have "clientOk (c\<lparr>cl_timer := None\<rparr>)" by (rule clientOk_cong [OF ok]) simp_all
  then show ?thesis using ok ensure_snd_ok by (simp add: timerFires_def)
qed

lemma close_ok [inv_intros]: "clientOk c \<Longrightarrow> clientOk (close c)"
proof -
  assume ok: "clientOk c"
  let ?c = "c\<lparr>cl_closed := True, cl_timer := None\<rparr>"
  have c: "clientOk ?c" by (rule clientOk_cong [OF ok]) simp_all
  then have "cl_live c = Some l \<Longrightarrow> clientOk (gone l WasClosed ?c)" for l using livesOkD(1) [OF clientOkD [OF c], of l] by (auto intro: gone_ok)
  then show ?thesis using c by (auto simp: close_def Let_def intro!: tell_other split: option.split)
qed

lemma procOp_ok [inv_intros]: "clientOk c \<Longrightarrow> clientOk (procOp w i opr c)"
  by (auto simp: procOp_def split: option.split ProcOp.split prod.split intro!: inv_intros tell_other dest: sendOn_ok)
    (metis sendOn_ok snd_conv)+

text \<open>The frames of the spawner that runs.\<close>

lemma onSpawnFrame_ok:
  assumes ok: "clientOk c" and l: "l < length (cl_lives c)" "\<not> lv_dead (liveOf c l)"
    and call: "map_of (lv_calls (liveOf c l)) i = Some (SpawnCall file r)"
  shows "clientOk (onSpawnFrame l i file r f c)"
proof -
  have b: "clientOk (broken l why c)" for why using broken_ok [OF ok l(1)] .
  have st: "clientOk ((tell [Started i pid] (updLive l (\<lambda>v. v\<lparr>lv_calls := mapSet i (SpawnCall file True) (lv_calls v)\<rparr>) c))\<lparr>cl_procs := ps\<rparr>)"
    if "\<not> r" for pid ps by (rule clientOk_cong [OF started_ok [OF ok l]]) (use call that in simp_all)
  have order: "tell ts (d\<lparr>cl_procs := ps\<rparr>) = (tell ts d)\<lparr>cl_procs := ps\<rparr>" for ts d ps by (simp add: tell_def)
  have out: "r \<Longrightarrow> clientOk (tell [Out i b bs] c)" for b bs using out_ok [OF ok l] call by simp
  have ex: "r \<Longrightarrow> clientOk (tell [Exited i x] (settleCall l i c))" for x using settled_ok [OF ok l call, of "Exited i x"] by (simp add: callPhase_def)
  show ?thesis using b st out ex unfolding onSpawnFrame_def order
    by (auto simp: Let_def split: option.split)
qed

lemma onErrorFrame_ok:
  assumes ok: "clientOk c" and l: "l < length (cl_lives c)" "\<not> lv_dead (liveOf c l)" and call: "map_of (lv_calls (liveOf c l)) i = Some call"
  shows "clientOk (onErrorFrame l i call f c)"
proof -
  have b: "clientOk (broken l why c)" for why using broken_ok [OF ok l(1)] .
  have "phaseNext (callPhase call) (Failed i fault) = Over" for fault by (cases call) (auto simp: callPhase_def)
  then have "clientOk (tell [Failed i fault] (settleCall l i c))" for fault using settled_ok [OF ok l call, of "Failed i fault"] by simp
  then show ?thesis using b by (auto simp: onErrorFrame_def split: option.split Call.split)
qed

lemma onFrame_ok:
  assumes ok: "clientOk c" and l: "l < length (cl_lives c)" "\<not> lv_dead (liveOf c l)"
  shows "clientOk (onFrame parse l line c)"
proof -
  have b: "clientOk (broken l why c)" for why using broken_ok [OF ok l(1)] .
  have "map_of (lv_calls (liveOf c l)) i = Some (FileCall kind path) \<Longrightarrow> clientOk (tell [Answered i a] (settleCall l i c))" for i kind path a
    using settled_ok [OF ok l, of i "FileCall kind path" "Answered i a"] by (simp add: callPhase_def)
  then show ?thesis using b onErrorFrame_ok [OF ok l] onSpawnFrame_ok [OF ok l]
    by (auto simp: onFrame_def simp del: field.simps split: option.split Json.split Call.split sum.split)
qed

lemma settleCall_length [frame_simps]: "length (cl_lives (settleCall l i c)) = length (cl_lives c)"
  by (simp add: settleCall_def frame_simps)

lemma onFrame_length [frame_simps]: "length (cl_lives (onFrame parse l line c)) = length (cl_lives c)"
  by (auto simp: onFrame_def onErrorFrame_def onSpawnFrame_def Let_def frame_simps simp del: field.simps
      split: option.split Json.split Call.split sum.split)

lemma onData_ok [inv_intros]: "clientOk c \<Longrightarrow> l < length (cl_lives c) \<Longrightarrow> clientOk (onData parse l rest c)"
proof (induction parse l rest c rule: onData.induct)
  case (1 parse l rest c)
  let ?chunk = "updLive l (\<lambda>v. v\<lparr>lv_chunks := lv_chunks v @ [rest], lv_length := lv_length v + length rest\<rparr>) c"
  let ?c = "updLive l (\<lambda>v. v\<lparr>lv_chunks := [], lv_length := 0\<rparr>) c"
  show ?case
  proof (cases "lv_dead (liveOf c l)")
    case True
    then show ?thesis using 1 by (subst onData.simps) simp
  next
    case alive: False
    have u: "clientOk ?chunk" "clientOk ?c" using 1(2,3) alive by (simp_all add: chunks_ok)
    moreover have "clientOk (onFrame parse l line ?c)" for line using onFrame_ok [OF u(2)] 1(3) alive by (simp add: frame_simps)
    ultimately show ?thesis using 1 alive
      by (subst onData.simps) (auto simp: Let_def frame_simps intro!: broken_ok 1(1))
  qed
qed

lemma newClient_ok: "clientOk (newClient opts now)"
proof -
  let ?c = "\<lparr>cl_lives = [], cl_live = None, cl_closed = False, cl_seq = 0, cl_restartMs = so_restartMs opts, cl_timer = None, cl_procs = [], cl_told = []\<rparr>"
  have "clientOk ?c" by (simp add: clientOk_def livesOk_def phasesOk_def openCalls_def minted_def phase_def)
  then show ?thesis using ensure_snd_ok by (simp add: newClient_def)
qed

lemma reach_ok: "clientReach opts parse c \<Longrightarrow> clientOk c"
proof (induction rule: clientReach.induct)
  case (step c opr)
  then show ?case by (cases opr) (auto intro: inv_intros)
qed (rule newClient_ok)

section \<open>What was told stays told\<close>

definition grows :: "Client \<Rightarrow> Client \<Rightarrow> bool" where
  "grows c c' \<longleftrightarrow> (\<exists>ts. cl_told c' = cl_told c @ ts) \<and> cl_seq c \<le> cl_seq c'"

lemma cgrows_refl [intro]: "cl_told c' = cl_told c \<Longrightarrow> cl_seq c' = cl_seq c \<Longrightarrow> grows c c'"
  by (simp add: grows_def)

lemma cgrows_trans: "grows c c' \<Longrightarrow> grows c' c'' \<Longrightarrow> grows c c''"
  by (auto simp: grows_def)

lemma grows_tell: "grows c c' \<Longrightarrow> grows c (tell ts c')"
  by (auto simp: grows_def frame_simps)

lemma cgrows_upd: "grows c c' \<Longrightarrow> grows c (updLive l f c')"
  by (auto simp: grows_def frame_simps)

lemma grows_gone: "grows c (gone l why c)"
  by (auto simp: gone_def intro!: grows_tell cgrows_upd)

lemma grows_broken: "grows c (broken l why c)"
  by (auto simp: broken_def intro!: grows_tell grows_gone)

lemma grows_ensure: "grows c (snd (ensure now c))"
  by (auto simp: ensure_def Let_def intro!: grows_tell split: option.split)

lemma grows_sendOn: "grows c (snd (sendOn w lo f c))"
  by (auto simp: sendOn_def intro!: grows_tell split: option.split)

lemma spawn_grows: "grows c (snd (spawn now w req c))" and spawn_id: "fst (spawn now w req c) = callId (Suc (cl_seq c))"
    and spawn_seq: "cl_seq (snd (spawn now w req c)) = Suc (cl_seq c)"
proof -
  obtain lo c1 where e: "ensure now c = (lo, c1)" by (cases "ensure now c")
  have g: "grows c c1" using grows_ensure [of c now] e by simp
  have seq: "cl_seq c1 = cl_seq c" using e by (auto simp: ensure_def Let_def frame_simps split: if_splits option.splits)
  have g2: "grows c (c1\<lparr>cl_seq := Suc (cl_seq c1), cl_procs := ps\<rparr>)" for ps using g by (simp add: grows_def)
  have s: "grows c (snd (sendOn w lo f c'))" if "grows c c'" for lo f c' using cgrows_trans [OF that grows_sendOn] .
  show "grows c (snd (spawn now w req c))"
    by (auto simp: spawn_def e nextId_def Let_def intro!: s grows_tell cgrows_upd g2 split: option.split)
  show "fst (spawn now w req c) = callId (Suc (cl_seq c))" by (simp add: spawn_def e nextId_def Let_def seq)
  show "cl_seq (snd (spawn now w req c)) = Suc (cl_seq c)"
    by (auto simp: spawn_def e nextId_def Let_def seq sendOn_def frame_simps split: option.split)
qed

lemma spawn_asked: "\<exists>us vs. cl_told (snd (spawn now w req c)) = cl_told c @ us @ Asked (callId (Suc (cl_seq c))) True # vs \<and> list_all (\<lambda>t. about t = None) us"
proof -
  obtain lo c1 where e: "ensure now c = (lo, c1)" by (cases "ensure now c")
  have c1: "\<exists>us. cl_told c1 = cl_told c @ us \<and> list_all (\<lambda>t. about t = None) us" "cl_seq c1 = cl_seq c"
    using e by (auto simp: ensure_def Let_def frame_simps split: if_splits option.splits)
  then obtain us where us: "cl_told c1 = cl_told c @ us" "list_all (\<lambda>t. about t = None) us" by blast
  have "\<exists>vs. cl_told (snd (spawn now w req c)) = cl_told c1 @ Asked (callId (Suc (cl_seq c1))) True # vs"
    by (auto simp: spawn_def e nextId_def Let_def frame_simps sendOn_def split: option.split)
  then show ?thesis using us c1(2) by auto
qed

lemma grows_settleCall: "grows c (tell ts (settleCall l i c))"
  by (simp add: settleCall_def grows_def frame_simps)

lemma grows_onSpawnFrame: "grows c (onSpawnFrame l i file r f c)"
proof -
  have "grows c (tell ts ((updLive l f c)\<lparr>cl_procs := ps\<rparr>))" "grows c (tell ts c)" for ts f ps by (simp_all add: grows_def frame_simps)
  then show ?thesis by (simp add: onSpawnFrame_def Let_def grows_broken grows_settleCall split: option.split)
qed

lemma grows_onFrame: "grows c (onFrame parse l line c)"
  by (simp add: onFrame_def onErrorFrame_def grows_broken grows_settleCall grows_onSpawnFrame
      del: field.simps split: option.split Json.split Call.split sum.split)

lemma grows_onData: "grows c (onData parse l rest c)"
proof (induction parse l rest c rule: onData.induct)
  case (1 parse l rest c)
  have u: "grows c (updLive l f c)" for f by (rule cgrows_upd) auto
  have b: "grows c (broken l why (updLive l f c))" for f why by (rule cgrows_trans [OF u grows_broken])
  show ?case
  proof (cases "lv_dead (liveOf c l) \<or> 10 \<notin> set rest \<or> MAX_FRAME < length (concat (lv_chunks (liveOf c l)) @ takeWhile (\<lambda>b. b \<noteq> 10) rest)")
    case True
    have "grows c c" by auto
    note unfold = onData.simps [of parse l rest c]
    show ?thesis
    proof (cases "lv_dead (liveOf c l)")
      case alive: False
      show ?thesis
      proof (cases "10 \<in> set rest")
        case new: True
        then have "MAX_FRAME < length (concat (lv_chunks (liveOf c l)) @ takeWhile (\<lambda>b. b \<noteq> 10) rest)" using True alive by simp
        then have "onData parse l rest c = broken l FrameTooLong (updLive l (\<lambda>v. v\<lparr>lv_chunks := [], lv_length := 0\<rparr>) c)"
          using alive new by (simp add: unfold Let_def)
        then show ?thesis using b by simp
      next
        case False
        then show ?thesis using alive u b by (simp add: unfold Let_def)
      qed
    qed (simp add: unfold \<open>grows c c\<close>)
  next
    case False
    let ?line = "concat (lv_chunks (liveOf c l)) @ takeWhile (\<lambda>b. b \<noteq> 10) rest"
    let ?c = "onFrame parse l ?line (updLive l (\<lambda>v. v\<lparr>lv_chunks := [], lv_length := 0\<rparr>) c)"
    let ?rest = "drop (length (takeWhile (\<lambda>b. b \<noteq> 10) rest) + 1) rest"
    have *: "onData parse l rest c = onData parse l ?rest ?c" using False by (simp add: onData.simps [of parse l rest c] Let_def)
    have "grows ?c (onData parse l ?rest ?c)" by (rule 1 [OF _ _ refl refl refl refl]) (use False in simp_all)
    then show ?thesis unfolding * by (rule cgrows_trans [OF cgrows_trans [OF u grows_onFrame]])
  qed
qed

lemma clientStep_grows: "grows c (clientStep opts parse opr c)"
proof (cases opr)
  case (DoFile now w kind path data)
  obtain lo c1 where e: "ensure now c = (lo, c1)" by (cases "ensure now c")
  have g: "grows c (c1\<lparr>cl_seq := Suc (cl_seq c1)\<rparr>)" "grows c c1" using grows_ensure [of c now] e by (auto simp: grows_def)
  have s: "grows c (snd (sendOn w lo f c'))" if "grows c c'" for lo f c' using cgrows_trans [OF that grows_sendOn] .
  show ?thesis using g by (auto simp: DoFile fileOp_def e nextId_def Let_def intro!: s grows_tell cgrows_upd split: option.split)
next
  case (DoProc w i x)
  have "grows c c1" if "sendOn w lo f c = (b, c1)" for lo f b c1 using grows_sendOn [of c w lo f] that by simp
  then show ?thesis by (auto simp: DoProc procOp_def intro!: grows_sendOn grows_tell split: option.split ProcOp.split prod.split)
next
  case (GetEnd now l why)
  have "grows c (ended opts now l why c)"
    using grows_gone [of c l why] by (auto simp: ended_def Let_def grows_def)
  then show ?thesis using GetEnd by auto
next
  case (GetTimer now)
  have "grows c (c\<lparr>cl_timer := None\<rparr>)" by auto
  then show ?thesis using GetTimer cgrows_trans [OF _ grows_ensure] by (auto simp: timerFires_def)
next
  case DoClose
  have "grows c (c\<lparr>cl_closed := True, cl_timer := None\<rparr>)" by auto
  then show ?thesis using DoClose cgrows_trans [OF _ grows_gone] by (auto simp: close_def Let_def intro!: grows_tell split: option.split)
qed (auto simp: spawn_grows grows_onData)

lemma phase_of: "clientOk c \<Longrightarrow> phase k (cl_told c) \<noteq> Wrong
    \<and> (phase k (cl_told c) \<in> {Unasked, Over} \<or> k \<in> fst ` set (openCalls c))"
  by (auto simp: clientOk_def phasesOk_def callPhase_def split: option.split Call.split dest!: map_of_SomeD intro: rev_image_eqI)

lemma closed_calls:
  assumes "clientOk c" and "l < length (cl_lives c)" and "openCalls c = []"
  shows "phase k (cl_told c) \<in> {Unasked, Over}"
  using phase_of [OF assms(1), of k] assms(3) by auto

lemma gone_closed: "cl_live c = Some l \<Longrightarrow> l < length (cl_lives c) \<Longrightarrow> openCalls (gone l why c) = []"
  by (simp add: openCalls_def frame_simps)

text \<open>C15. Whatever a spawner sends and whenever it ends, each call of the client is answered at most once: what its caller hears is that it was asked, for
  a process then its start, its output and last its exit or a failure, for a file op its answer or a failure, and nothing after that. A call that is not
  over is open on the one spawner that runs, and when that spawner ends, or the client is closed, every call is over.\<close>

theorem calls_answered_once:
  assumes "clientReach opts parse c"
  shows "phase k (cl_told c) \<noteq> Wrong
    \<and> (phase k (cl_told c) \<in> {Unasked, Over} \<or> (\<exists>l. cl_live c = Some l \<and> \<not> lv_dead (liveOf c l) \<and> k \<in> fst ` set (lv_calls (liveOf c l))))
    \<and> (cl_live c = Some l \<longrightarrow> phase k (cl_told (ended opts now l why c)) \<in> {Unasked, Over})
    \<and> phase k (cl_told (close c)) \<in> {Unasked, Over}"
proof -
  have ok: "clientOk c" using reach_ok [OF assms] .
  have e: "phase k (cl_told (ended opts now l why c)) \<in> {Unasked, Over}" if l: "cl_live c = Some l" for l
  proof -
    have ll: "l < length (cl_lives c)" using livesOkD(1) [OF clientOkD [OF ok] l] .
    have "openCalls (ended opts now l why c) = []" using l by (simp add: ended_def Let_def frame_simps openCalls_def)
    then show ?thesis using phase_of [OF ended_ok [OF ok ll, of opts now why], of k] by auto
  qed
  have "openCalls (close c) = []"
  proof (cases "cl_live c")
    case (Some l)
    then show ?thesis using livesOkD(1) [OF clientOkD [OF ok] Some] gone_closed [of "c\<lparr>cl_closed := True, cl_timer := None\<rparr>" l WasClosed]
      by (simp add: close_def Let_def frame_simps)
  qed (simp add: close_def openCalls_def)
  then have "phase k (cl_told (close c)) \<in> {Unasked, Over}" using phase_of [OF close_ok [OF ok], of k] by simp
  moreover have "k \<in> fst ` set (openCalls c) \<Longrightarrow> \<exists>l. cl_live c = Some l \<and> \<not> lv_dead (liveOf c l) \<and> k \<in> fst ` set (lv_calls (liveOf c l))"
    by (cases "cl_live c") (auto simp: openCalls_def split: if_splits)
  ultimately show ?thesis using e phase_of [OF ok, of k] by blast
qed

theorem calls_answered_once_witness:
  "let opts = \<lparr>so_restartMs = 100, so_maxRestartMs = 5000\<rparr>;
       parse = (\<lambda>bs. if bs = [1 :: 8 word] then Some (JObj [(''id'', JStr ''c1''), (''op'', JStr ''started''), (''pid'', JNum 7)]) else None);
       c0 = newClient opts 0; c1 = clientStep opts parse (DoSpawn 0 True \<lparr>rq_argv = [''a''], rq_env = [], rq_cwd = '''', rq_stdin = False, rq_tty = None\<rparr>) c0;
       c2 = clientStep opts parse (GetData 0 [1, 10]) c1
   in phase ''c1'' (cl_told c2) = Going \<and> phase ''c1'' (cl_told (ended opts 5 0 FrameNotJson c2)) \<in> {Unasked, Over}
      \<and> phase ''c1'' (cl_told (clientStep opts parse (GetData 0 [2, 10]) c2)) \<noteq> Wrong"
proof -
  define opts where "opts = \<lparr>so_restartMs = 100, so_maxRestartMs = 5000\<rparr>"
  define parse where "parse = (\<lambda>bs. if bs = [1 :: 8 word] then Some (JObj [(''id'', JStr ''c1''), (''op'', JStr ''started''), (''pid'', JNum 7)]) else None)"
  define c1 where "c1 = clientStep opts parse (DoSpawn 0 True \<lparr>rq_argv = [''a''], rq_env = [], rq_cwd = '''', rq_stdin = False, rq_tty = None\<rparr>) (newClient opts 0)"
  define c2 where "c2 = clientStep opts parse (GetData 0 [1, 10]) c1"
  have r: "clientReach opts parse c2" unfolding c2_def c1_def by (intro clientReach.intros)
  have "decimal (Suc 0) = ''1''" by code_simp
  then have c1: "liveOf c1 0 = \<lparr>lv_calls = [(''c1'', SpawnCall ''a'' False)], lv_chunks = [], lv_length = 0, lv_dead = False, lv_bornAt = 0\<rparr>"
      "length (cl_lives c1) = 1" "cl_live c1 = Some 0"
      "cl_told c1 = [SpawnerStarted 0, Asked ''c1'' True, Sent 0 (SpawnFrame ''c1'' [''a''] [] [] False None)]"
    unfolding c1_def opts_def
    by (simp_all add: newClient_def ensure_def newLive_def tell_def spawn_def nextId_def callId_def ttyFault_def sendOn_def liveOf_def updLive_def Let_def)
  have "onFrame parse 0 [1] (updLive 0 (\<lambda>v. v\<lparr>lv_chunks := [], lv_length := 0\<rparr>) c1)
      = tell [Started ''c1'' 7] ((updLive 0 (\<lambda>v. v\<lparr>lv_calls := mapSet ''c1'' (SpawnCall ''a'' True) (lv_calls v)\<rparr>)
          (updLive 0 (\<lambda>v. v\<lparr>lv_chunks := [], lv_length := 0\<rparr>) c1))\<lparr>cl_procs := (case map_of (cl_procs c1) ''c1'' of None \<Rightarrow> cl_procs c1
              | Some p \<Rightarrow> mapSet ''c1'' (p\<lparr>pr_pid := Some 7\<rparr>) (cl_procs c1))\<rparr>)"
    by (simp add: onFrame_def parse_def c1 frame_simps onSpawnFrame_def isCount_def numOf_def Let_def split: option.split)
  then have s: "phase ''c1'' (cl_told c2) = Going \<and> cl_live c2 = Some 0"
    by (simp add: c2_def c1 onData.simps [of _ _ "1 # _"] onData.simps [of _ _ "[]"] MAX_FRAME_def frame_simps phase_def Let_def)
  then have "phase ''c1'' (cl_told (ended opts 5 0 FrameNotJson c2)) \<in> {Unasked, Over}" using calls_answered_once [OF r] by blast
  moreover have "phase ''c1'' (cl_told (clientStep opts parse (GetData 0 [2, 10]) c2)) \<noteq> Wrong"
    using calls_answered_once [OF clientReach.step [OF r]] by blast
  ultimately show ?thesis using s unfolding Let_def opts_def [symmetric] parse_def [symmetric] c1_def [symmetric] c2_def [symmetric] by simp
qed

end
