(* ===== verification/Execs.thy ===== *)
theory Execs
  imports Spawner_Client
begin

text \<open>
  The execs of a Harness, \<^verbatim>\<open>packages/harness/src/exec.ts\<close>, over the spawner's client: the start of a program under an id, the stream that is kept, the tail,
  the reads by offset and their long polls, the kill, the timeout, and what is kept of settled execs. The routes of \<^verbatim>\<open>app.ts\<close> check a request.

  An \<^verbatim>\<open>Exec\<close> is an object that the map, the parked reads and the callbacks of its process share: the objects are the list \<open>xs_objs\<close>, and each of
  these names one by its place. What the client of the spawner tells is dispatched to the exec that owns the call, in order. A read that is woken is
  answered after the operation that woke it, from what the object is then. The env of a process, the folders that exist, and \<^verbatim>\<open>String(v)\<close> of a value that
  is no string are arguments. The mark for the kernel's memory choice is left out.
\<close>

section \<open>The wire\<close>

record ExecRequest =
  xr_argv :: "string list"
  xr_cwd :: "string option"
  xr_root :: bool
  xr_timeoutMs :: rat
  xr_tail :: rat

datatype ExecOutcome = OutExited nat (out_tail: jsstr) | OutTimeout (out_tail: jsstr) | OutKilled string (out_tail: jsstr)

record ExecRead =
  rd_settled :: bool
  rd_stream :: jsstr
  rd_next :: nat
  rd_dropped :: "nat option"
  rd_output :: "ExecOutcome option"

text \<open>\<^verbatim>\<open>execFault\<close>: why a body is no request, in the first words of the answer.\<close>

definition execFault :: "Json option \<Rightarrow> string option" where
  "execFault body =
     (case body of Some v \<Rightarrow>
        if (case v of JObj _ \<Rightarrow> False | JArr _ \<Rightarrow> False | _ \<Rightarrow> True) then Some ''the body is not an exec request''
        else if (case field ''argv'' v of Some (JArr as) \<Rightarrow> as = [] \<or> list_ex (\<lambda>a. case a of JStr _ \<Rightarrow> False | _ \<Rightarrow> True) as | _ \<Rightarrow> True)
        then Some ''argv must be a non-empty list of strings''
        else if (case field ''cwd'' v of None \<Rightarrow> False | Some (JStr s) \<Rightarrow> take 1 s \<noteq> ''/'' | _ \<Rightarrow> True) then Some ''cwd must be an absolute path''
        else if (case field ''timeoutMs'' v of Some (JNum q) \<Rightarrow> \<not> 0 < q | _ \<Rightarrow> True) then Some ''timeoutMs must be a positive number''
        else if (case field ''tail'' v of Some (JNum q) \<Rightarrow> \<not> 0 \<le> q | _ \<Rightarrow> True) then Some ''tail must be a number, 0 or more''
        else None
      | None \<Rightarrow> Some ''the body is not an exec request'')"

section \<open>The state\<close>

datatype EndedBy = ByTimeout | ByKill

text \<open>\<open>ex_child\<close> is the object's own field. \<open>ex_argv0\<close>, \<open>ex_outHeld\<close> and \<open>ex_errHeld\<close> are the variables of the callbacks: the program's name and the two
  decoders.\<close>

record Exec =
  ex_child :: "string option"
  ex_stream :: jsstr
  ex_base :: nat
  ex_tailMax :: rat
  ex_tail :: jsstr
  ex_output :: "ExecOutcome option"
  ex_ended :: "EndedBy option"
  ex_timer :: "nat option"
  ex_argv0 :: string
  ex_outHeld :: bytes
  ex_errHeld :: bytes

text \<open>\<open>xs_calls\<close>: the exec whose callbacks a call of the spawner has. \<open>xs_parked\<close> and \<open>xs_woken\<close>: the reads that wait, each with its exec and its offset, and
  those that go on. \<open>xs_answers\<close>: the reads that were answered.\<close>

record Execs =
  xs_objs :: "Exec list"
  xs_map :: "(string \<times> nat) list"
  xs_calls :: "(string \<times> nat) list"
  xs_parked :: "(nat \<times> nat \<times> nat) list"
  xs_woken :: "(nat \<times> nat \<times> nat) list"
  xs_answers :: "(nat \<times> ExecRead option) list"

record ExecsOptions =
  xo_maxStream :: nat
  xo_keepSettled :: nat

definition DEFAULT_MAX_STREAM :: nat where "DEFAULT_MAX_STREAM = 1048576"

definition DEFAULT_KEEP_SETTLED :: nat where "DEFAULT_KEEP_SETTLED = 64"

definition newExec :: "rat \<Rightarrow> string \<Rightarrow> Exec" where
  "newExec tailMax argv0 = \<lparr>ex_child = None, ex_stream = [], ex_base = 0, ex_tailMax = tailMax, ex_tail = [], ex_output = None, ex_ended = None,
     ex_timer = None, ex_argv0 = argv0, ex_outHeld = [], ex_errHeld = []\<rparr>"

definition newExecs :: Execs where
  "newExecs = \<lparr>xs_objs = [], xs_map = [], xs_calls = [], xs_parked = [], xs_woken = [], xs_answers = []\<rparr>"

section \<open>One exec\<close>

text \<open>\<^verbatim>\<open>s.slice(-t)\<close> for a \<open>t\<close> that is not negative: the last characters, and the whole string where \<open>t\<close> is below 1.\<close>

definition sliceLast :: "rat \<Rightarrow> jsstr \<Rightarrow> jsstr" where
  "sliceLast t s = (let k = nat \<lfloor>t\<rfloor> in if k = 0 then s else drop (length s - k) s)"

definition appendExec :: "nat \<Rightarrow> jsstr \<Rightarrow> Exec \<Rightarrow> Exec" where
  "appendExec maxStream chunk e =
     (let s = ex_stream e @ chunk; d = length s - maxStream
      in e\<lparr>ex_stream := drop d s, ex_base := ex_base e + d, ex_tail := if ex_tailMax e = 0 then [] else sliceLast (ex_tailMax e) (ex_tail e @ chunk)\<rparr>)"

definition settleExec :: "ExecOutcome \<Rightarrow> Exec \<Rightarrow> Exec" where
  "settleExec oc e = e\<lparr>ex_output := Some oc, ex_child := None\<rparr>"

text \<open>The delay that \<^verbatim>\<open>setTimeout\<close> takes: one that is below 1 or above \<open>2^31 - 1\<close> is 1.\<close>

definition timerDelay :: "rat \<Rightarrow> nat" where
  "timerDelay ms = (if 1 \<le> ms \<and> ms \<le> 2147483647 then nat \<lfloor>ms\<rfloor> else 1)"

text \<open>What the callbacks of a process make of an exec.\<close>

definition hearOut :: "nat \<Rightarrow> bool \<Rightarrow> bytes \<Rightarrow> Exec \<Rightarrow> Exec" where
  "hearOut maxStream isOut bs e =
     (if isOut then (let (s, held) = decoderWrite (ex_outHeld e) bs in appendExec maxStream s (e\<lparr>ex_outHeld := held\<rparr>))
      else (let (s, held) = decoderWrite (ex_errHeld e) bs in appendExec maxStream s (e\<lparr>ex_errHeld := held\<rparr>)))"

definition hearExit :: "SpawnExit \<Rightarrow> Exec \<Rightarrow> Exec" where
  "hearExit x e =
     (if ex_output e \<noteq> None then e
      else settleExec
        (if ex_ended e = Some ByTimeout then OutTimeout (ex_tail e)
         else case xt_signal x of Some s \<Rightarrow> OutKilled s (ex_tail e)
           | None \<Rightarrow> OutExited (case xt_code x of None \<Rightarrow> 0 | Some n \<Rightarrow> n) (ex_tail e))
        (e\<lparr>ex_timer := None\<rparr>))"

definition whyText :: "(Json option \<Rightarrow> string) \<Rightarrow> Why \<Rightarrow> string" where
  "whyText str why = (case why of
     WasClosed \<Rightarrow> ''the spawner was closed'' | DidNotStart m \<Rightarrow> ''the spawner did not start ('' @ m @ '')''
   | ItExited code sig \<Rightarrow> ''the spawner exited ('' @ (case sig of Some s \<Rightarrow> ''signal '' @ s
        | None \<Rightarrow> ''code '' @ (case code of None \<Rightarrow> ''null'' | Some n \<Rightarrow> decimalInt n)) @ '')''
   | FrameTooLong \<Rightarrow> ''the spawner sent a frame longer than the Harness reads'' | FrameNotJson \<Rightarrow> ''the spawner sent a frame that is not JSON''
   | FrameNotObject \<Rightarrow> ''the spawner sent a frame that is not an object'' | FrameNoId \<Rightarrow> ''the spawner sent a frame with no id''
   | FrameNoCall \<Rightarrow> ''the spawner sent a frame for no open call'' | WrongErrorFrame \<Rightarrow> ''the spawner sent an error frame with wrong fields''
   | ErrorForStarted \<Rightarrow> ''the spawner sent an error frame for a started process''
   | WrongFileOp opr \<Rightarrow> ''the spawner sent a '' @ take 20 (str opr) @ '' frame for a file op''
   | ReadNoData \<Rightarrow> ''the spawner sent a read answer with no data'' | ReaddirNames \<Rightarrow> ''the spawner sent a readdir answer with wrong names''
   | StatFields \<Rightarrow> ''the spawner sent a stat answer with wrong fields''
   | StartedOutOfOrder \<Rightarrow> ''the spawner sent a started frame out of order or with no pid''
   | OutputBeforeStart \<Rightarrow> ''the spawner sent output before its process started'' | OutputFields \<Rightarrow> ''the spawner sent an output frame with wrong fields''
   | ExitBeforeStart \<Rightarrow> ''the spawner sent an exit before its process started'' | ExitCode \<Rightarrow> ''the spawner sent an exit frame with a wrong code''
   | ExitSignal \<Rightarrow> ''the spawner sent an exit frame with a wrong signal''
   | WrongProcessOp opr \<Rightarrow> ''the spawner sent a '' @ take 20 (str opr) @ '' frame for a process'')"

text \<open>The message of an error that a process ends with.\<close>

definition faultMessage :: "(Json option \<Rightarrow> string) \<Rightarrow> Fault \<Rightarrow> string" where
  "faultMessage str fault = (case fault of
     SpawnError file code _ \<Rightarrow> ''spawn '' @ file @ '' '' @ code
   | NoTermSize file _ _ \<Rightarrow> ''spawn '' @ file @ '' EINVAL''
   | FileOpError _ message _ _ \<Rightarrow> message
   | SpawnerGone why wasRunning \<Rightarrow> whyText str why @ '' before the answer came'' @ (if wasRunning then ''; the process may still run'' else '''')
   | SpawnerClosed \<Rightarrow> ''the spawner is closed: this Harness starts no process'')"

definition failLine :: "(Json option \<Rightarrow> string) \<Rightarrow> string \<Rightarrow> Fault \<Rightarrow> jsstr" where
  "failLine str argv0 fault = js (''jr2: could not start '' @ argv0 @ '': '' @ faultMessage str fault @ [CHR 0x0A])"

definition hearFail :: "(Json option \<Rightarrow> string) \<Rightarrow> nat \<Rightarrow> Fault \<Rightarrow> Exec \<Rightarrow> Exec" where
  "hearFail str maxStream fault e =
     (if ex_output e \<noteq> None then e
      else let e1 = (appendExec maxStream (failLine str (ex_argv0 e) fault) e)\<lparr>ex_timer := None\<rparr>
        in settleExec (if ex_ended e = Some ByKill then OutKilled ''SIGKILL'' (ex_tail e1) else OutExited 127 (ex_tail e1)) e1)"

definition readAnswer :: "nat \<Rightarrow> Exec \<Rightarrow> ExecRead" where
  "readAnswer offset e =
     (let from = max offset (ex_base e); next = ex_base e + length (ex_stream e)
      in \<lparr>rd_settled = (ex_output e \<noteq> None), rd_stream = drop (min (from - ex_base e) (length (ex_stream e))) (ex_stream e),
          rd_next = max next offset, rd_dropped = (if offset < from then Some (from - offset) else None), rd_output = ex_output e\<rparr>)"

section \<open>The execs of the process\<close>

definition execAt :: "Execs \<Rightarrow> nat \<Rightarrow> Exec" where
  "execAt xs r = xs_objs xs ! r"

definition updExec :: "nat \<Rightarrow> (Exec \<Rightarrow> Exec) \<Rightarrow> Execs \<Rightarrow> Execs" where
  "updExec r f xs = xs\<lparr>xs_objs := (xs_objs xs)[r := f (xs_objs xs ! r)]\<rparr>"

definition wake :: "nat \<Rightarrow> Execs \<Rightarrow> Execs" where
  "wake r xs = xs\<lparr>xs_parked := filter (\<lambda>(_, q, _). q \<noteq> r) (xs_parked xs), xs_woken := xs_woken xs @ filter (\<lambda>(_, q, _). q = r) (xs_parked xs)\<rparr>"

definition append_text :: "ExecsOptions \<Rightarrow> nat \<Rightarrow> jsstr \<Rightarrow> Execs \<Rightarrow> Execs" where
  "append_text opts r chunk xs = wake r (updExec r (appendExec (xo_maxStream opts) chunk) xs)"

text \<open>The oldest settled execs of the map go, in the order of the map.\<close>

definition settledIds :: "Execs \<Rightarrow> string list" where
  "settledIds xs = map fst (filter (\<lambda>(_, r). ex_output (execAt xs r) \<noteq> None) (xs_map xs))"

definition evict :: "ExecsOptions \<Rightarrow> Execs \<Rightarrow> Execs" where
  "evict opts xs = (let ids = settledIds xs
     in xs\<lparr>xs_map := fold mapDelete (take (length ids - xo_keepSettled opts) ids) (xs_map xs)\<rparr>)"

definition settle :: "ExecsOptions \<Rightarrow> nat \<Rightarrow> ExecOutcome \<Rightarrow> Execs \<Rightarrow> Execs" where
  "settle opts r oc xs = evict opts (wake r (updExec r (settleExec oc) xs))"

text \<open>The reads that were woken go on.\<close>

definition resume :: "Execs \<Rightarrow> Execs" where
  "resume xs = xs\<lparr>xs_woken := [], xs_answers := xs_answers xs @ map (\<lambda>(t, r, offset). (t, Some (readAnswer offset (execAt xs r)))) (xs_woken xs)\<rparr>"

definition read :: "nat \<Rightarrow> string \<Rightarrow> nat option \<Rightarrow> bool \<Rightarrow> Execs \<Rightarrow> Execs" where
  "read t i offset wait xs = (case map_of (xs_map xs) i of
     None \<Rightarrow> xs\<lparr>xs_answers := xs_answers xs @ [(t, None)]\<rparr>
   | Some r \<Rightarrow>
       let e = execAt xs r; end = ex_base e + length (ex_stream e); off = (case offset of None \<Rightarrow> end | Some n \<Rightarrow> n)
       in if end \<le> off \<and> ex_output e = None \<and> wait then xs\<lparr>xs_parked := xs_parked xs @ [(t, r, off)]\<rparr>
          else xs\<lparr>xs_answers := xs_answers xs @ [(t, Some (readAnswer off e))]\<rparr>)"

text \<open>The wait of a read is over.\<close>

definition readTimeout :: "nat \<Rightarrow> Execs \<Rightarrow> Execs" where
  "readTimeout t xs = resume (xs\<lparr>xs_parked := filter (\<lambda>(u, _). u \<noteq> t) (xs_parked xs), xs_woken := filter (\<lambda>(u, _). u = t) (xs_parked xs)\<rparr>)"

definition forget :: "string \<Rightarrow> Execs \<Rightarrow> bool \<times> Execs" where
  "forget i xs = (case map_of (xs_map xs) i of None \<Rightarrow> (False, xs)
     | Some r \<Rightarrow> if ex_output (execAt xs r) = None then (False, xs) else (True, xs\<lparr>xs_map := mapDelete i (xs_map xs)\<rparr>))"

section \<open>With the spawner\<close>

text \<open>\<open>hs_fed\<close>: how much of what the client told was dispatched. \<open>hs_runs\<close>: the ids whose program was given to the spawner, a history that no code
  reads.\<close>

record Harness =
  hs_client :: Client
  hs_execs :: Execs
  hs_fed :: nat
  hs_runs :: "string list"

definition signalChild :: "bool \<Rightarrow> string \<Rightarrow> Harness \<Rightarrow> Harness" where
  "signalChild w k h = h\<lparr>hs_client := procOp w k (Signal ''SIGKILL'') (hs_client h)\<rparr>"

definition updExecs :: "(Execs \<Rightarrow> Execs) \<Rightarrow> Harness \<Rightarrow> Harness" where
  "updExecs f h = h\<lparr>hs_execs := f (hs_execs h)\<rparr>"

text \<open>One thing that the client told, to the exec that owns the call.\<close>

definition dispatch :: "ExecsOptions \<Rightarrow> (Json option \<Rightarrow> string) \<Rightarrow> bool \<Rightarrow> Told \<Rightarrow> Harness \<Rightarrow> Harness" where
  "dispatch opts str w t h = (case about t of None \<Rightarrow> h
     | Some k \<Rightarrow> (case map_of (xs_calls (hs_execs h)) k of None \<Rightarrow> h
        | Some r \<Rightarrow> (case t of
            Out _ isOut bs \<Rightarrow> updExecs (\<lambda>xs. wake r (updExec r (hearOut (xo_maxStream opts) isOut bs) xs)) h
          | Exited _ x \<Rightarrow>
              if ex_output (execAt (hs_execs h) r) \<noteq> None then signalChild w k h
              else updExecs (\<lambda>xs. evict opts (wake r (updExec r (hearExit x) xs))) (signalChild w k h)
          | Failed _ fault \<Rightarrow>
              if ex_output (execAt (hs_execs h) r) \<noteq> None then h
              else updExecs (\<lambda>xs. evict opts (wake r (updExec r (hearFail str (xo_maxStream opts) fault) xs))) h
          | _ \<Rightarrow> h)))"

definition feed :: "ExecsOptions \<Rightarrow> (Json option \<Rightarrow> string) \<Rightarrow> bool \<Rightarrow> Harness \<Rightarrow> Harness" where
  "feed opts str w h =
     (let told = cl_told (hs_client h)
      in updExecs resume (fold (dispatch opts str w) (drop (hs_fed h) told) (h\<lparr>hs_fed := length told\<rparr>)))"

text \<open>Why a request cannot start where it asks to.\<close>

definition missing :: "(string \<Rightarrow> bool) \<Rightarrow> ExecRequest \<Rightarrow> string option" where
  "missing exists req =
     (let cwd = (case xr_cwd req of None \<Rightarrow> ''undefined'' | Some d \<Rightarrow> d) in
      if xr_cwd req = None \<or> exists cwd
      then (if xr_root req \<and> \<not> exists (cwd @ ''/.git'') then Some (cwd @ '' is a folder, and no Worktree root'') else None)
      else Some (''no folder '' @ cwd @ '': cut the Worktree first''))"

definition addExec :: "string \<Rightarrow> Exec \<Rightarrow> Execs \<Rightarrow> nat \<times> Execs" where
  "addExec i e xs = (length (xs_objs xs), xs\<lparr>xs_objs := xs_objs xs @ [e], xs_map := mapSet i (length (xs_objs xs)) (xs_map xs)\<rparr>)"

definition start :: "ExecsOptions \<Rightarrow> (string \<times> string) list \<Rightarrow> (string \<Rightarrow> bool) \<Rightarrow> int \<Rightarrow> bool \<Rightarrow> string \<Rightarrow> ExecRequest \<Rightarrow> Harness \<Rightarrow> bool \<times> Harness" where
  "start opts env exists now w i req h =
     (if map_of (xs_map (hs_execs h)) i \<noteq> None then (False, h)
      else let argv0 = (case xr_argv req of [] \<Rightarrow> '''' | a # _ \<Rightarrow> a);
               (r, xs) = addExec i (newExec (max 0 (xr_tail req)) argv0) (hs_execs h)
        in case missing exists req of
             Some m \<Rightarrow>
               (let xs1 = append_text opts r (js (''jr2: '' @ m @ ''; nothing ran'' @ [CHR 0x0A])) xs
                in (True, h\<lparr>hs_execs := settle opts r (OutExited 127 (ex_tail (execAt xs1 r))) xs1\<rparr>))
           | None \<Rightarrow>
               (let (k, cl) = spawn now w \<lparr>rq_argv = xr_argv req, rq_env = env, rq_cwd = (case xr_cwd req of None \<Rightarrow> '''' | Some d \<Rightarrow> d),
                      rq_stdin = False, rq_tty = None\<rparr> (hs_client h);
                    xs1 = updExec r (\<lambda>e. e\<lparr>ex_child := Some k, ex_timer := Some (timerDelay (xr_timeoutMs req))\<rparr>) (xs\<lparr>xs_calls := mapSet k r (xs_calls xs)\<rparr>)
                in (True, h\<lparr>hs_client := cl, hs_execs := xs1, hs_runs := hs_runs h @ [i]\<rparr>)))"

definition killedText :: jsstr where
  "killedText = js (''jr2: killed before it started; nothing ran'' @ [CHR 0x0A])"

definition kill :: "ExecsOptions \<Rightarrow> bool \<Rightarrow> string \<Rightarrow> Harness \<Rightarrow> bool \<times> Harness" where
  "kill opts w i h = (case map_of (xs_map (hs_execs h)) i of
     None \<Rightarrow>
       (let (r, xs) = addExec i ((newExec 0 '''')\<lparr>ex_ended := Some ByKill\<rparr>) (hs_execs h)
        in (True, h\<lparr>hs_execs := settle opts r (OutKilled ''SIGKILL'' []) (append_text opts r killedText xs)\<rparr>))
   | Some r \<Rightarrow>
       (let e = execAt (hs_execs h) r in
        case (ex_output e, ex_child e) of
          (None, Some k) \<Rightarrow>
            (True, signalChild w k (updExecs (updExec r (\<lambda>e. e\<lparr>ex_ended := (case ex_ended e of None \<Rightarrow> Some ByKill | Some b \<Rightarrow> Some b)\<rparr>)) h))
        | _ \<Rightarrow> (False, h)))"

text \<open>The timeout of an exec. Its process is the one its start made: the field is still set, since an exec that settled has no timer.\<close>

definition execTimer :: "bool \<Rightarrow> nat \<Rightarrow> Harness \<Rightarrow> Harness" where
  "execTimer w r h =
     (if length (xs_objs (hs_execs h)) \<le> r then h
      else case (ex_timer (execAt (hs_execs h) r), ex_child (execAt (hs_execs h) r)) of
        (Some _, Some k) \<Rightarrow> signalChild w k (updExecs (updExec r (\<lambda>e. e\<lparr>ex_timer := None,
            ex_ended := (case ex_ended e of None \<Rightarrow> Some ByTimeout | Some b \<Rightarrow> Some b)\<rparr>)) h)
      | _ \<Rightarrow> h)"

text \<open>The route that starts an exec: who may ask, whether this Harness runs commands, and the request in the body.\<close>

definition truthy :: "Json option \<Rightarrow> bool" where
  "truthy v \<longleftrightarrow> v \<notin> {None, Some JNull, Some (JBool False), Some (JNum 0), Some (JStr '''')}"

definition requestOf :: "Json \<Rightarrow> ExecRequest" where
  "requestOf v = \<lparr>xr_argv = (case field ''argv'' v of Some (JArr as) \<Rightarrow> map (\<lambda>a. case a of JStr s \<Rightarrow> s | _ \<Rightarrow> '''') as | _ \<Rightarrow> []),
     xr_cwd = textOf (field ''cwd'' v), xr_root = truthy (field ''root'' v), xr_timeoutMs = numOf (field ''timeoutMs'' v), xr_tail = numOf (field ''tail'' v)\<rparr>"

definition postExec :: "ExecsOptions \<Rightarrow> (string \<times> string) list \<Rightarrow> (string \<Rightarrow> bool) \<Rightarrow> int \<Rightarrow> bool \<Rightarrow> bool \<Rightarrow> bool \<Rightarrow> bool \<Rightarrow> string \<Rightarrow> Json option \<Rightarrow> Harness \<Rightarrow> nat \<times> Harness" where
  "postExec opts env exists now w bearerOk menuOnly hasExecs i body h =
     (if \<not> bearerOk then (401, h) else if menuOnly then (403, h) else if \<not> hasExecs then (501, h)
      else case execFault body of Some _ \<Rightarrow> (400, h)
        | None \<Rightarrow> (case body of None \<Rightarrow> (400, h)
            | Some v \<Rightarrow> (let (started, h') = start opts env exists now w i (requestOf v) h in (if started then 201 else 200, h'))))"

text \<open>Only a whole request of a caller that may ask starts anything, and only where the id is not known.\<close>

lemma postExec_starts:
  assumes "postExec opts env exists now w bearerOk menuOnly hasExecs i body h = (status, h')" and "h' \<noteq> h"
  shows "status = 201 \<and> bearerOk \<and> \<not> menuOnly \<and> map_of (xs_map (hs_execs h)) i = None
    \<and> (\<exists>v. body = Some v \<and> xr_argv (requestOf v) \<noteq> [] \<and> 0 < xr_timeoutMs (requestOf v) \<and> 0 \<le> xr_tail (requestOf v))"
proof -
  have "bearerOk" "\<not> menuOnly" "hasExecs" "execFault body = None" using assms by (auto simp: postExec_def split: if_splits option.splits)
  then obtain v where v: "body = Some v" "execFault (Some v) = None" using assms by (cases body) (auto simp: execFault_def)
  obtain st h1 where st: "start opts env exists now w i (requestOf v) h = (st, h1)" by (cases "start opts env exists now w i (requestOf v) h")
  have "h' = h1" "status = (if st then 201 else 200)" using assms(1) v st \<open>bearerOk\<close> \<open>\<not> menuOnly\<close> \<open>hasExecs\<close> by (auto simp: postExec_def)
  moreover have "map_of (xs_map (hs_execs h)) i = None \<and> st" using st assms(2) \<open>h' = h1\<close>
    by (auto simp: start_def Let_def case_prod_unfold split: if_splits option.splits)
  moreover have "xr_argv (requestOf v) \<noteq> [] \<and> 0 < xr_timeoutMs (requestOf v) \<and> 0 \<le> xr_tail (requestOf v)"
    using v(2) by (auto simp: execFault_def requestOf_def numOf_def split: if_splits option.splits Json.splits)
  ultimately show ?thesis using v \<open>bearerOk\<close> \<open>\<not> menuOnly\<close> by auto
qed

text \<open>A timeout above \<open>2^31 - 1\<close> milliseconds is one millisecond.\<close>

lemma long_timeout_is_short: "2147483647 < xr_timeoutMs req \<Longrightarrow> timerDelay (xr_timeoutMs req) = 1"
  by (simp add: timerDelay_def)

section \<open>Every history of a Harness\<close>

text \<open>\<open>OnClient\<close> is all that reaches the client of the spawner elsewhere: other tools' processes and files, the bytes and the end of a spawner.\<close>

datatype HarnessOp = Start "string \<Rightarrow> bool" int bool string ExecRequest | Kill bool string | Forget string | Read nat string "nat option" bool
  | ReadTimeout nat | ExecTimer bool nat | OnClient bool ClientOp

record Env =
  en_opts :: ExecsOptions
  en_spawner :: SpawnerOptions
  en_env :: "(string \<times> string) list"
  en_parse :: "bytes \<Rightarrow> Json option"
  en_str :: "Json option \<Rightarrow> string"

fun harnessOp :: "Env \<Rightarrow> HarnessOp \<Rightarrow> Harness \<Rightarrow> Harness" where
  "harnessOp E (Start exists now w i req) h = snd (start (en_opts E) (en_env E) exists now w i req h)"
| "harnessOp E (Kill w i) h = snd (kill (en_opts E) w i h)"
| "harnessOp E (Forget i) h = updExecs (\<lambda>xs. snd (forget i xs)) h"
| "harnessOp E (Read t i offset wait) h = updExecs (read t i offset wait) h"
| "harnessOp E (ReadTimeout t) h = updExecs (readTimeout t) h"
| "harnessOp E (ExecTimer w r) h = execTimer w r h"
| "harnessOp E (OnClient w opr) h = h\<lparr>hs_client := clientStep (en_spawner E) (en_parse E) opr (hs_client h)\<rparr>"

definition harnessStep :: "Env \<Rightarrow> bool \<Rightarrow> HarnessOp \<Rightarrow> Harness \<Rightarrow> Harness" where
  "harnessStep E w opr h = feed (en_opts E) (en_str E) w (harnessOp E opr h)"

definition newHarness :: "Env \<Rightarrow> int \<Rightarrow> Harness" where
  "newHarness E now = \<lparr>hs_client = newClient (en_spawner E) now, hs_execs = newExecs, hs_fed = 0, hs_runs = []\<rparr>"

inductive harnessReach :: "Env \<Rightarrow> Harness \<Rightarrow> bool" for E where
  init: "harnessReach E (newHarness E now)"
| step: "harnessReach E h \<Longrightarrow> harnessReach E (harnessStep E w opr h)"

section \<open>What a process said\<close>

text \<open>The text of the events of one call, in order, with the bytes that the two decoders hold.\<close>

definition saidNext :: "(Json option \<Rightarrow> string) \<Rightarrow> string \<Rightarrow> jsstr \<times> bytes \<times> bytes \<Rightarrow> Told \<Rightarrow> jsstr \<times> bytes \<times> bytes" where
  "saidNext str argv0 = (\<lambda>(s, out, err) t. case t of
     Out _ isOut bs \<Rightarrow> if isOut then (s @ fst (decoderWrite out bs), snd (decoderWrite out bs), err) else (s @ fst (decoderWrite err bs), out, snd (decoderWrite err bs))
   | Failed _ fault \<Rightarrow> (s @ failLine str argv0 fault, out, err)
   | _ \<Rightarrow> (s, out, err))"

definition said :: "(Json option \<Rightarrow> string) \<Rightarrow> string \<Rightarrow> Told list \<Rightarrow> jsstr \<times> bytes \<times> bytes" where
  "said str argv0 ts = foldl (saidNext str argv0) ([], [], []) ts"

definition eventsOf :: "string \<Rightarrow> Told list \<Rightarrow> Told list" where
  "eventsOf k ts = filter (\<lambda>t. about t = Some k) ts"

fun isEnd :: "Told \<Rightarrow> bool" where
  "isEnd (Exited _ _) = True"
| "isEnd (Failed _ _) = True"
| "isEnd _ = False"

definition tailOf :: "rat \<Rightarrow> jsstr \<Rightarrow> jsstr" where
  "tailOf t s = (if t = 0 then [] else sliceLast t s)"

text \<open>How an exec settles on the last event of its process.\<close>

definition outcomeOf :: "EndedBy option \<Rightarrow> Told \<Rightarrow> jsstr \<Rightarrow> ExecOutcome" where
  "outcomeOf byWhom t tail = (case t of
     Exited _ x \<Rightarrow> if byWhom = Some ByTimeout then OutTimeout tail
       else (case xt_signal x of Some s \<Rightarrow> OutKilled s tail | None \<Rightarrow> OutExited (case xt_code x of None \<Rightarrow> 0 | Some n \<Rightarrow> n) tail)
   | _ \<Rightarrow> if byWhom = Some ByKill then OutKilled ''SIGKILL'' tail else OutExited 127 tail)"

section \<open>An exec follows its process\<close>

definition execOk :: "nat \<Rightarrow> (Json option \<Rightarrow> string) \<Rightarrow> string \<Rightarrow> Told list \<Rightarrow> Exec \<Rightarrow> bool" where
  "execOk mx str k ts e \<longleftrightarrow>
     (let (s, out, err) = said str (ex_argv0 e) ts in
       ex_outHeld e = out \<and> ex_errHeld e = err \<and> ex_base e = length s - mx \<and> ex_stream e = drop (length s - mx) s \<and> ex_tail e = tailOf (ex_tailMax e) s)
     \<and> ex_output e = (if ts \<noteq> [] \<and> isEnd (last ts) then Some (outcomeOf (ex_ended e) (last ts) (ex_tail e)) else None)
     \<and> ex_child e = (if ex_output e = None then Some k else None)
     \<and> (ex_timer e \<noteq> None \<longrightarrow> ex_output e = None)"

lemma said_snoc: "said str a (ts @ [t]) = saidNext str a (said str a ts) t"
  by (simp add: said_def)

lemma said_Nil: "said str a [] = ([], [], [])"
  by (simp add: said_def)

lemma sliceLast_append: "sliceLast t (sliceLast t a @ b) = sliceLast t (a @ b)"
  by (cases "nat \<lfloor>t\<rfloor> \<le> length a") (auto simp: sliceLast_def Let_def drop_append add.commute)

lemma appendExec_text:
  assumes "ex_base e = length s - mx" "ex_stream e = drop (length s - mx) s" "ex_tail e = tailOf (ex_tailMax e) s"
  shows "appendExec mx c e = e\<lparr>ex_stream := drop (length (s @ c) - mx) (s @ c), ex_base := length (s @ c) - mx, ex_tail := tailOf (ex_tailMax e) (s @ c)\<rparr>"
proof -
  have "length s - mx + (length (drop (length s - mx) s @ c) - mx) = length (s @ c) - mx" by auto
  moreover have "drop (length (drop (length s - mx) s @ c) - mx) (drop (length s - mx) s @ c) = drop (length (s @ c) - mx) (s @ c)"
    by (cases "mx \<le> length s") (auto simp: drop_append add.commute)
  ultimately show ?thesis using assms by (auto simp: appendExec_def Let_def tailOf_def sliceLast_append)
qed

lemma execOk_out:
  assumes "execOk mx str k ts e" and "ts = [] \<or> \<not> isEnd (last ts)"
  shows "execOk mx str k (ts @ [Out k isOut bs]) (hearOut mx isOut bs e)"
proof -
  obtain s out err where sd: "said str (ex_argv0 e) ts = (s, out, err)" by (cases "said str (ex_argv0 e) ts")
  note e = assms(1) [unfolded execOk_def sd]
  have ap: "appendExec mx c (e\<lparr>ex_outHeld := o', ex_errHeld := e'\<rparr>) = (e\<lparr>ex_outHeld := o', ex_errHeld := e'\<rparr>)\<lparr>ex_stream := drop (length (s @ c) - mx) (s @ c),
      ex_base := length (s @ c) - mx, ex_tail := tailOf (ex_tailMax e) (s @ c)\<rparr>" for c o' e' using e appendExec_text [of "e\<lparr>ex_outHeld := o', ex_errHeld := e'\<rparr>" s mx c] by simp
  have eta: "e\<lparr>ex_outHeld := ex_outHeld e\<rparr> = e" "e\<lparr>ex_errHeld := ex_errHeld e\<rparr> = e" by simp_all
  show ?thesis
  proof (cases isOut)
    case True
    have "hearOut mx isOut bs e = appendExec mx (fst (decoderWrite out bs)) (e\<lparr>ex_outHeld := snd (decoderWrite out bs), ex_errHeld := err\<rparr>)"
      using e True eta by (auto simp: hearOut_def case_prod_unfold Let_def)
    then show ?thesis using e True assms(2) unfolding ap by (auto simp: execOk_def said_snoc sd saidNext_def split: if_splits)
  next
    case False
    have "hearOut mx isOut bs e = appendExec mx (fst (decoderWrite err bs)) (e\<lparr>ex_outHeld := out, ex_errHeld := snd (decoderWrite err bs)\<rparr>)"
      using e False eta by (auto simp: hearOut_def case_prod_unfold Let_def)
    then show ?thesis using e False assms(2) unfolding ap by (auto simp: execOk_def said_snoc sd saidNext_def split: if_splits)
  qed
qed

lemma execOk_exit:
  assumes "execOk mx str k ts e" and "ts = [] \<or> \<not> isEnd (last ts)"
  shows "execOk mx str k (ts @ [Exited k x]) (hearExit x e)"
  using assms by (auto simp: execOk_def said_snoc saidNext_def hearExit_def settleExec_def outcomeOf_def split: prod.splits option.splits)

lemma execOk_fail:
  assumes "execOk mx str k ts e" and "ts = [] \<or> \<not> isEnd (last ts)"
  shows "execOk mx str k (ts @ [Failed k fault]) (hearFail str mx fault e)"
proof -
  obtain s out err where sd: "said str (ex_argv0 e) ts = (s, out, err)" by (cases "said str (ex_argv0 e) ts")
  note e = assms(1) [unfolded execOk_def sd]
  have "appendExec mx c e = e\<lparr>ex_stream := drop (length (s @ c) - mx) (s @ c), ex_base := length (s @ c) - mx, ex_tail := tailOf (ex_tailMax e) (s @ c)\<rparr>" for c
    using e appendExec_text [of e s mx c] by simp
  then show ?thesis using e assms(2)
    by (auto simp: execOk_def said_snoc sd saidNext_def hearFail_def settleExec_def outcomeOf_def Let_def)
qed

lemma execOk_other: "execOk mx str k ts e \<Longrightarrow> ts = [] \<or> \<not> isEnd (last ts) \<Longrightarrow> \<not> isEnd t \<Longrightarrow> (\<nexists>i b bs. t = Out i b bs) \<Longrightarrow> execOk mx str k (ts @ [t]) e"
  by (cases t) (auto simp: execOk_def said_snoc saidNext_def split: prod.splits)

section \<open>The contract of a spawned process\<close>

text \<open>What \<^verbatim>\<open>Spawned\<close> promises its caller: the events of a call come in order, and its end comes once, last.\<close>

locale spawned =
  fixes events :: "'s \<Rightarrow> string \<Rightarrow> Told list" and good :: "'s \<Rightarrow> bool"
  assumes answered: "good s \<Longrightarrow> foldl phaseNext Unasked (events s k) \<noteq> Wrong"
begin

lemma wrong_stays: "foldl phaseNext Wrong ts = Wrong"
  by (induction ts) auto

lemma over_stays: "ts \<noteq> [] \<Longrightarrow> foldl phaseNext Over ts = Wrong"
  using wrong_stays by (cases ts) auto

lemma end_phase: "isEnd t \<Longrightarrow> phaseNext p t \<in> {Over, Wrong}"
  by (cases "(p, t)" rule: phaseNext.cases) auto

lemma end_last:
  assumes "good s" and "events s k = ts @ t # us"
  shows "ts = [] \<or> \<not> isEnd (last ts)"
proof (rule ccontr)
  assume "\<not> ?thesis"
  then obtain vs v where v: "ts = vs @ [v]" "isEnd v" by (metis append_butlast_last_id)
  have "foldl phaseNext Unasked (events s k) = foldl phaseNext (phaseNext (foldl phaseNext Unasked vs) v) (t # us)" by (simp add: assms(2) v(1))
  also have "\<dots> = Wrong" using end_phase [OF v(2), of "foldl phaseNext Unasked vs"] over_stays [of "t # us"] wrong_stays [of "t # us"] by auto
  finally show False using answered [OF assms(1)] by simp
qed

lemma ended_over:
  assumes "good s" and "events s k \<noteq> []" and "isEnd (last (events s k))"
  shows "foldl phaseNext Unasked (events s k) = Over"
proof -
  obtain vs v where v: "events s k = vs @ [v]" "isEnd v" using assms(2,3) by (metis append_butlast_last_id)
  then show ?thesis using end_phase [OF v(2), of "foldl phaseNext Unasked vs"] answered [OF assms(1), of k] by auto
qed

end

interpretation spawned_client: spawned "\<lambda>c k. eventsOf k (cl_told c)" clientOk
  by unfold_locales (use phase_of in \<open>auto simp: eventsOf_def phase_def\<close>)

section \<open>The invariant of a Harness\<close>

definition refsOk :: "Execs \<Rightarrow> bool" where
  "refsOk xs \<longleftrightarrow> (\<forall>k r. map_of (xs_calls xs) k = Some r \<longrightarrow> r < length (xs_objs xs))
     \<and> (\<forall>k k' r. map_of (xs_calls xs) k = Some r \<and> map_of (xs_calls xs) k' = Some r \<longrightarrow> k = k')
     \<and> (\<forall>i r. (i, r) \<in> set (xs_map xs) \<longrightarrow> r < length (xs_objs xs)) \<and> distinct (map fst (xs_map xs))
     \<and> (\<forall>r<length (xs_objs xs). (\<forall>k. map_of (xs_calls xs) k \<noteq> Some r) \<longrightarrow> ex_output (execAt xs r) \<noteq> None \<and> ex_child (execAt xs r) = None \<and> ex_timer (execAt xs r) = None)"

definition followsOk :: "nat \<Rightarrow> (Json option \<Rightarrow> string) \<Rightarrow> Told list \<Rightarrow> Execs \<Rightarrow> bool" where
  "followsOk mx str ps xs \<longleftrightarrow> (\<forall>k r. map_of (xs_calls xs) k = Some r \<longrightarrow> execOk mx str k (eventsOf k ps) (execAt xs r))"

definition harnessInv :: "Env \<Rightarrow> Told list \<Rightarrow> Harness \<Rightarrow> bool" where
  "harnessInv E ps h \<longleftrightarrow> clientOk (hs_client h) \<and> refsOk (hs_execs h) \<and> followsOk (xo_maxStream (en_opts E)) (en_str E) ps (hs_execs h)
     \<and> (\<forall>k\<in>fst ` set (xs_calls (hs_execs h)). k \<in> minted (hs_client h))"

definition harnessOk :: "Env \<Rightarrow> Harness \<Rightarrow> bool" where
  "harnessOk E h \<longleftrightarrow> hs_fed h \<le> length (cl_told (hs_client h)) \<and> harnessInv E (take (hs_fed h) (cl_told (hs_client h))) h"

text \<open>What the updates leave.\<close>

lemma execAt_upd:
  "r < length (xs_objs xs) \<Longrightarrow> execAt (updExec r f xs) q = (if q = r then f (execAt xs r) else execAt xs q)"
  by (simp add: execAt_def updExec_def)

lemma updExec_frame [frame_simps]:
  "length (xs_objs (updExec r f xs)) = length (xs_objs xs)" "xs_map (updExec r f xs) = xs_map xs" "xs_calls (updExec r f xs) = xs_calls xs"
  by (simp_all add: updExec_def)

lemma wake_frame [frame_simps]: "xs_objs (wake r xs) = xs_objs xs" "xs_map (wake r xs) = xs_map xs" "xs_calls (wake r xs) = xs_calls xs"
    "execAt (wake r xs) q = execAt xs q"
  by (simp_all add: wake_def execAt_def)

lemma evict_frame [frame_simps]: "xs_objs (evict opts xs) = xs_objs xs" "xs_calls (evict opts xs) = xs_calls xs" "execAt (evict opts xs) q = execAt xs q"
  by (simp_all add: evict_def execAt_def Let_def)

lemma resume_frame [frame_simps]: "xs_objs (resume xs) = xs_objs xs" "xs_map (resume xs) = xs_map xs" "xs_calls (resume xs) = xs_calls xs"
    "execAt (resume xs) q = execAt xs q"
  by (simp_all add: resume_def execAt_def)

lemma fold_mapDelete:
  "set (fold mapDelete ks m) \<subseteq> set m" "distinct (map fst m) \<Longrightarrow> distinct (map fst (fold mapDelete ks m))"
  by (induction ks arbitrary: m) (auto dest: mapDelete_key simp: distinct_mapDelete)

lemma evict_map: "x \<in> set (xs_map (evict opts xs)) \<Longrightarrow> x \<in> set (xs_map xs)"
    "distinct (map fst (xs_map xs)) \<Longrightarrow> distinct (map fst (xs_map (evict opts xs)))"
  using fold_mapDelete by (auto simp: evict_def Let_def)

lemma refsOk_cong:
  assumes "refsOk xs" and "xs_objs xs' = xs_objs xs" "xs_calls xs' = xs_calls xs" and "set (xs_map xs') \<subseteq> set (xs_map xs)" "distinct (map fst (xs_map xs'))"
  shows "refsOk xs'"
proof -
  have "execAt xs' = execAt xs" using assms(2) by (simp add: fun_eq_iff execAt_def)
  then show ?thesis using assms unfolding refsOk_def by (auto dest: subsetD)
qed

lemma refsOkD:
  assumes "refsOk xs"
  shows "map_of (xs_calls xs) k = Some r \<Longrightarrow> r < length (xs_objs xs)" "(i, r) \<in> set (xs_map xs) \<Longrightarrow> r < length (xs_objs xs)"
    "map_of (xs_calls xs) k = Some r \<Longrightarrow> map_of (xs_calls xs) k' = Some r \<Longrightarrow> k = k'"
    "r < length (xs_objs xs) \<Longrightarrow> ex_output (execAt xs r) = None \<Longrightarrow> \<exists>k. map_of (xs_calls xs) k = Some r"
    "r < length (xs_objs xs) \<Longrightarrow> (\<And>k. map_of (xs_calls xs) k \<noteq> Some r) \<Longrightarrow> ex_output (execAt xs r) \<noteq> None \<and> ex_child (execAt xs r) = None \<and> ex_timer (execAt xs r) = None"
  using assms unfolding refsOk_def by blast+

lemma harnessInvD:
  assumes "harnessInv E ps h"
  shows "clientOk (hs_client h)" "refsOk (hs_execs h)"
    "map_of (xs_calls (hs_execs h)) k = Some r \<Longrightarrow> execOk (xo_maxStream (en_opts E)) (en_str E) k (eventsOf k ps) (execAt (hs_execs h) r)"
    "k \<in> fst ` set (xs_calls (hs_execs h)) \<Longrightarrow> k \<in> minted (hs_client h)"
  using assms unfolding harnessInv_def followsOk_def by blast+

lemma refsOk_distinct: "refsOk xs \<Longrightarrow> distinct (map fst (xs_map xs))"
  by (simp add: refsOk_def)

lemma refsOk_upd:
  assumes "refsOk xs" and "map_of (xs_calls xs) k = Some r"
  shows "refsOk (updExec r f xs)"
proof -
  have r: "r < length (xs_objs xs)" using assms by (auto simp: refsOk_def)
  show ?thesis using assms unfolding refsOk_def by (auto simp: frame_simps execAt_upd [OF r])
qed

lemma followsOk_cong: "followsOk mx str ps xs \<Longrightarrow> xs_objs xs' = xs_objs xs \<Longrightarrow> xs_calls xs' = xs_calls xs \<Longrightarrow> followsOk mx str ps xs'"
  by (simp add: followsOk_def execAt_def)

text \<open>The signals that an exec sends say nothing of a call.\<close>

lemma sendOn_told: "\<exists>ts. cl_told (snd (sendOn w lo f c)) = cl_told c @ ts \<and> list_all (\<lambda>t. about t = None) ts"
  by (auto simp: sendOn_def frame_simps split: option.split)

lemma signal_told: "\<exists>ts. cl_told (procOp w k (Signal sig) c) = cl_told c @ ts \<and> list_all (\<lambda>t. about t = None) ts"
proof (cases "map_of (cl_procs c) k")
  case (Some p)
  obtain b c1 where s: "sendOn w (pr_live p) (SignalFrame k sig) c = (b, c1)" by (cases "sendOn w (pr_live p) (SignalFrame k sig) c")
  then obtain ts where "cl_told c1 = cl_told c @ ts" "list_all (\<lambda>t. about t = None) ts" using sendOn_told [of w "pr_live p" "SignalFrame k sig" c] by auto
  then show ?thesis using Some s by (auto simp: procOp_def frame_simps split: option.split)
qed (simp add: procOp_def)

lemma sendOn_seq [frame_simps]: "cl_seq (snd (sendOn w lo f c)) = cl_seq c"
  by (auto simp: sendOn_def frame_simps split: option.split)

lemma signal_seq: "cl_seq (procOp w k (Signal sig) c) = cl_seq c"
proof (cases "map_of (cl_procs c) k")
  case (Some p)
  obtain b c1 where s: "sendOn w (pr_live p) (SignalFrame k sig) c = (b, c1)" by (cases "sendOn w (pr_live p) (SignalFrame k sig) c")
  then have "cl_seq c1 = cl_seq c" using sendOn_seq [of w "pr_live p" "SignalFrame k sig" c] by simp
  then show ?thesis using Some s by (auto simp: procOp_def frame_simps split: option.split)
qed (simp add: procOp_def)

lemma eventsOf_simps [simp]: "eventsOf k [] = []" "eventsOf k (ts @ us) = eventsOf k ts @ eventsOf k us"
    "eventsOf k (t # ts) = (if about t = Some k then t # eventsOf k ts else eventsOf k ts)"
  by (simp_all add: eventsOf_def)

lemma eventsOf_none: "list_all (\<lambda>t. about t = None) ts \<Longrightarrow> eventsOf k ts = []"
  by (auto simp: eventsOf_def filter_empty_conv list_all_iff)

lemma signalChild_inv:
  assumes "harnessInv E ps h"
  shows "harnessInv E ps (signalChild w k h)" "eventsOf i (cl_told (hs_client (signalChild w k h))) = eventsOf i (cl_told (hs_client h))"
    "\<exists>ts. cl_told (hs_client (signalChild w k h)) = cl_told (hs_client h) @ ts \<and> list_all (\<lambda>t. about t = None) ts"
    "hs_execs (signalChild w k h) = hs_execs h"
proof -
  show "harnessInv E ps (signalChild w k h)" using assms procOp_ok [of "hs_client h"]
    by (auto simp: harnessInv_def signalChild_def minted_def signal_seq)
  show told: "\<exists>ts. cl_told (hs_client (signalChild w k h)) = cl_told (hs_client h) @ ts \<and> list_all (\<lambda>t. about t = None) ts"
    using signal_told by (simp add: signalChild_def)
  then show "eventsOf i (cl_told (hs_client (signalChild w k h))) = eventsOf i (cl_told (hs_client h))" by (auto simp: eventsOf_none)
qed (simp add: signalChild_def)

lemma followsOk_step:
  assumes "followsOk mx str ps xs" and "refsOk xs" and k: "map_of (xs_calls xs) k = Some r" "about t = Some k"
    and ok: "execOk mx str k (eventsOf k ps @ [t]) (f (execAt xs r))"
  shows "followsOk mx str (ps @ [t]) (updExec r f xs)"
proof -
  have r: "r < length (xs_objs xs)" using assms(2) k(1) unfolding refsOk_def by blast
  have inj: "k' = k" if "map_of (xs_calls xs) k' = Some r" for k' using assms(2) k(1) that unfolding refsOk_def by blast
  have "execOk mx str k' (eventsOf k' (ps @ [t])) (execAt (updExec r f xs) r')" if k': "map_of (xs_calls xs) k' = Some r'" for k' r'
  proof (cases "k' = k")
    case True
    then show ?thesis using k k' ok r by (simp add: execAt_upd)
  next
    case False
    then have "r' \<noteq> r" using inj k' by blast
    then show ?thesis using False k assms(1) k' by (simp add: execAt_upd [OF r] followsOk_def)
  qed
  then show ?thesis by (simp add: followsOk_def frame_simps)
qed

lemma dispatch_told:
  assumes inv: "harnessInv E ps h"
  shows "\<exists>ts. cl_told (hs_client (dispatch opts str w t h)) = cl_told (hs_client h) @ ts \<and> list_all (\<lambda>t. about t = None) ts"
proof -
  have "hs_client (dispatch opts str w t h) = hs_client h \<or> (\<exists>k. hs_client (dispatch opts str w t h) = hs_client (signalChild w k h))"
  proof (cases "about t")
    case (Some k)
    show ?thesis
    proof (cases "map_of (xs_calls (hs_execs h)) k")
      case (Some r)
      then show ?thesis using \<open>about t = Some k\<close> by (cases t) (auto simp: dispatch_def updExecs_def)
    qed (simp add: dispatch_def Some)
  qed (simp add: dispatch_def)
  then consider "hs_client (dispatch opts str w t h) = hs_client h" | k where "hs_client (dispatch opts str w t h) = hs_client (signalChild w k h)" by blast
  then show ?thesis
  proof cases
    case (2 k)
    show ?thesis unfolding 2 by (rule signalChild_inv(3) [OF inv])
  qed simp
qed

text \<open>An event that changes the exec that owns the call, with what the map drops.\<close>

lemma heard_inv:
  assumes inv: "harnessInv E ps h" and k: "map_of (xs_calls (hs_execs h)) k = Some r" "about t = Some k"
    and ok: "execOk (xo_maxStream (en_opts E)) (en_str E) k (eventsOf k ps @ [t]) (f (execAt (hs_execs h) r))"
    and g: "\<And>xs. xs_objs (g xs) = xs_objs xs" "\<And>xs. xs_calls (g xs) = xs_calls xs" "\<And>xs. set (xs_map (g xs)) \<subseteq> set (xs_map xs)"
      "\<And>xs. distinct (map fst (xs_map xs)) \<Longrightarrow> distinct (map fst (xs_map (g xs)))"
  shows "harnessInv E (ps @ [t]) (updExecs (\<lambda>xs. g (updExec r f xs)) h)"
proof -
  let ?xs = "hs_execs h"
  note i = inv [unfolded harnessInv_def]
  have u: "refsOk (updExec r f ?xs)" using refsOk_upd i k(1) by blast
  have "refsOk (g (updExec r f ?xs))" by (rule refsOk_cong [OF u]) (use g refsOk_distinct [OF u] in simp_all)
  moreover have "followsOk (xo_maxStream (en_opts E)) (en_str E) (ps @ [t]) (g (updExec r f ?xs))"
    using followsOk_cong [OF followsOk_step [where f = f, OF _ _ k ok]] i g by simp
  ultimately show ?thesis using i g(2) by (simp add: harnessInv_def updExecs_def frame_simps)
qed

lemma evict_wake:
  "set (xs_map (evict opts (wake r xs))) \<subseteq> set (xs_map xs)"
  "distinct (map fst (xs_map xs)) \<Longrightarrow> distinct (map fst (xs_map (evict opts (wake r xs))))"
  using evict_map [where xs = "wake r xs" and opts = opts] by (auto simp: frame_simps)

lemma unheard_inv:
  assumes inv: "harnessInv E ps h"
    and "\<And>k r. about t = Some k \<Longrightarrow> map_of (xs_calls (hs_execs h)) k = Some r
      \<Longrightarrow> execOk (xo_maxStream (en_opts E)) (en_str E) k (eventsOf k ps @ [t]) (execAt (hs_execs h) r)"
  shows "harnessInv E (ps @ [t]) h"
  using inv assms(2) by (simp add: harnessInv_def followsOk_def)

lemma dispatch_inv:
  assumes inv: "harnessInv E ps h" and told: "\<And>i. eventsOf i (cl_told (hs_client h)) = eventsOf i (ps @ t # us)"
  shows "harnessInv E (ps @ [t]) (dispatch (en_opts E) (en_str E) w t h)"
proof -
  let ?mx = "xo_maxStream (en_opts E)" and ?xs = "hs_execs h"
  note i = inv [unfolded harnessInv_def]
  have parts: "eventsOf k ps = [] \<or> \<not> isEnd (last (eventsOf k ps))" "execOk ?mx (en_str E) k (eventsOf k ps) (execAt ?xs r)" "ex_output (execAt ?xs r) = None"
    if k: "about t = Some k" "map_of (xs_calls ?xs) k = Some r" for k r
  proof -
    show *: "eventsOf k ps = [] \<or> \<not> isEnd (last (eventsOf k ps))"
      using spawned_client.end_last [of "hs_client h" k "eventsOf k ps" t "eventsOf k us"] i told [of k] k(1) by simp
    show "execOk ?mx (en_str E) k (eventsOf k ps) (execAt ?xs r)" using i k(2) by (simp add: followsOk_def)
    then show "ex_output (execAt ?xs r) = None" using * by (auto simp: execOk_def)
  qed
  have same: "harnessInv E (ps @ [t]) h" if "(\<forall>i b bs. t \<noteq> Out i b bs) \<and> \<not> isEnd t \<or> (\<forall>k. about t = Some k \<longrightarrow> map_of (xs_calls ?xs) k = None)"
    by (rule unheard_inv [OF inv]) (use that parts execOk_other in auto)
  show ?thesis
  proof (cases "\<exists>k r. about t = Some k \<and> map_of (xs_calls ?xs) k = Some r")
    case False
    then have "dispatch (en_opts E) (en_str E) w t h = h" by (auto simp: dispatch_def split: option.split)
    then show ?thesis using same False by auto
  next
    case True
    then obtain k r where k: "about t = Some k" "map_of (xs_calls ?xs) k = Some r" by blast
    note p = parts [OF k] and sg = signalChild_inv [OF inv, where w = w and k = k]
    show ?thesis
    proof (cases t)
      case (Out x b bs)
      have "harnessInv E (ps @ [t]) (updExecs (\<lambda>xs. wake r (updExec r (hearOut ?mx b bs) xs)) h)"
        by (rule heard_inv [OF inv k(2,1), where g = "wake r"]) (use execOk_out [OF p(2,1)] Out k in \<open>auto simp: frame_simps\<close>)
      then show ?thesis using Out k by (simp add: dispatch_def)
    next
      case (Exited x ext)
      have "harnessInv E (ps @ [t]) (updExecs (\<lambda>xs. evict (en_opts E) (wake r (updExec r (hearExit ext) xs))) (signalChild w k h))"
        by (rule heard_inv [OF sg(1), where g = "\<lambda>xs. evict (en_opts E) (wake r xs)"])
          (use execOk_exit [OF p(2,1)] Exited k evict_wake in \<open>auto simp: frame_simps sg(4)\<close>)
      then show ?thesis using Exited k p(3) by (simp add: dispatch_def)
    next
      case (Failed x fault)
      have "harnessInv E (ps @ [t]) (updExecs (\<lambda>xs. evict (en_opts E) (wake r (updExec r (hearFail (en_str E) ?mx fault) xs))) h)"
        by (rule heard_inv [OF inv k(2,1), where g = "\<lambda>xs. evict (en_opts E) (wake r xs)"])
          (use execOk_fail [OF p(2,1)] Failed k evict_wake in \<open>auto simp: frame_simps\<close>)
      then show ?thesis using Failed k p(3) by (simp add: dispatch_def)
    qed (use k same in \<open>simp_all add: dispatch_def\<close>)
  qed
qed

lemma fold_dispatch_inv:
  assumes "harnessInv E ps h" and "\<And>i. eventsOf i (cl_told (hs_client h)) = eventsOf i (ps @ ts)"
  shows "harnessInv E (ps @ ts) (fold (dispatch (en_opts E) (en_str E) w) ts h)
    \<and> (\<exists>us. cl_told (hs_client (fold (dispatch (en_opts E) (en_str E) w) ts h)) = cl_told (hs_client h) @ us \<and> list_all (\<lambda>t. about t = None) us)"
  using assms
proof (induction ts arbitrary: ps h)
  case (Cons t ts)
  let ?h = "dispatch (en_opts E) (en_str E) w t h"
  have inv: "harnessInv E (ps @ [t]) ?h" using dispatch_inv [OF Cons.prems] .
  obtain us where us: "cl_told (hs_client ?h) = cl_told (hs_client h) @ us" "list_all (\<lambda>t. about t = None) us" using dispatch_told [OF Cons.prems(1)] by blast
  have ev: "\<And>i. eventsOf i (cl_told (hs_client ?h)) = eventsOf i ((ps @ [t]) @ ts)" using Cons.prems(2) us by (simp add: eventsOf_none)
  show ?case using Cons.IH [OF inv ev] us by auto
qed simp

lemma feed_ok:
  assumes "harnessInv E (take (hs_fed h) (cl_told (hs_client h))) h"
  shows "harnessOk E (feed (en_opts E) (en_str E) w h)"
proof -
  let ?told = "cl_told (hs_client h)"
  let ?g = "fold (dispatch (en_opts E) (en_str E) w) (drop (hs_fed h) ?told) (h\<lparr>hs_fed := length ?told\<rparr>)"
  have inv: "harnessInv E (take (hs_fed h) ?told) (h\<lparr>hs_fed := length ?told\<rparr>)" using assms by (simp add: harnessInv_def)
  have ev: "eventsOf i (cl_told (hs_client (h\<lparr>hs_fed := length ?told\<rparr>))) = eventsOf i (take (hs_fed h) ?told @ drop (hs_fed h) ?told)" for i
    by (simp del: eventsOf_simps)
  obtain us where g: "harnessInv E ?told ?g" "cl_told (hs_client ?g) = ?told @ us" using fold_dispatch_inv [OF inv ev] by auto
  have fed: "hs_fed (fold (dispatch (en_opts E) (en_str E) w) ts h') = hs_fed h'" for ts h'
  proof (induction ts arbitrary: h')
    case (Cons t ts)
    then show ?case by (auto simp: dispatch_def updExecs_def signalChild_def split: option.split Told.split)
  qed simp
  show ?thesis using g unfolding feed_def Let_def
    by (auto simp: harnessOk_def harnessInv_def updExecs_def fed frame_simps intro: refsOk_cong followsOk_cong simp: refsOk_distinct)
qed

section \<open>The operations\<close>

text \<open>An operation that leaves what was dispatched: the invariant is about a head of what the client told.\<close>

lemma opOk:
  assumes ok: "harnessOk E h" and inv: "harnessInv E (take (hs_fed h) (cl_told (hs_client h))) h'"
    and g: "grows (hs_client h) (hs_client h')" "hs_fed h' = hs_fed h"
  shows "harnessInv E (take (hs_fed h') (cl_told (hs_client h'))) h'"
proof -
  obtain ts where "cl_told (hs_client h') = cl_told (hs_client h) @ ts" using g(1) by (auto simp: grows_def)
  then show ?thesis using ok inv g(2) by (simp add: harnessOk_def)
qed

lemma harnessInv_execs:
  assumes "harnessInv E ps h" and "refsOk xs'" and "followsOk (xo_maxStream (en_opts E)) (en_str E) ps xs'" and "xs_calls xs' = xs_calls (hs_execs h)"
  shows "harnessInv E ps (h\<lparr>hs_execs := xs'\<rparr>)"
  using assms by (simp add: harnessInv_def)

text \<open>A change of an exec that its process does not see: who ended it, and its timer.\<close>

lemma marked_inv:
  assumes inv: "harnessInv E ps h" and r: "r < length (xs_objs (hs_execs h))" and run: "ex_output (execAt (hs_execs h) r) = None"
    and f: "\<And>k ts e. execOk (xo_maxStream (en_opts E)) (en_str E) k ts e \<Longrightarrow> ex_output e = None \<Longrightarrow> execOk (xo_maxStream (en_opts E)) (en_str E) k ts (f e)"
  shows "harnessInv E ps (updExecs (updExec r f) h)"
proof -
  let ?xs = "hs_execs h" and ?mx = "xo_maxStream (en_opts E)"
  have refs: "refsOk ?xs" using harnessInvD(2) [OF inv] .
  obtain k where k: "map_of (xs_calls ?xs) k = Some r" using refsOkD(4) [OF refs r run] by blast
  have "execOk ?mx (en_str E) k' (eventsOf k' ps) (execAt (updExec r f ?xs) r')" if "map_of (xs_calls ?xs) k' = Some r'" for k' r'
    using harnessInvD(3) [OF inv that] f [of k' "eventsOf k' ps" "execAt ?xs r"] run by (auto simp: execAt_upd [OF r])
  then have "followsOk ?mx (en_str E) ps (updExec r f ?xs)" by (simp add: followsOk_def frame_simps)
  then show ?thesis using harnessInv_execs [OF inv refsOk_upd [OF refs k]] by (simp add: updExecs_def frame_simps)
qed

lemma execOk_ended: "execOk mx str k ts e \<Longrightarrow> ex_output e = None \<Longrightarrow> execOk mx str k ts (e\<lparr>ex_ended := b\<rparr>)"
  "execOk mx str k ts e \<Longrightarrow> ex_output e = None \<Longrightarrow> execOk mx str k ts (e\<lparr>ex_timer := None, ex_ended := b\<rparr>)"
  by (auto simp: execOk_def split: if_splits prod.splits)

text \<open>A new exec that has no process is settled.\<close>

lemma settled_new_inv:
  assumes inv: "harnessInv E ps h" and e: "ex_output e' \<noteq> None" "ex_child e' = None" "ex_timer e' = None"
    and xs: "xs_objs xs' = xs_objs (hs_execs h) @ [e']" "xs_calls xs' = xs_calls (hs_execs h)"
      "set (xs_map xs') \<subseteq> set (mapSet i (length (xs_objs (hs_execs h))) (xs_map (hs_execs h)))" "distinct (map fst (xs_map xs'))"
  shows "harnessInv E ps (h\<lparr>hs_execs := xs'\<rparr>)"
proof -
  let ?xs = "hs_execs h" and ?n = "length (xs_objs (hs_execs h))"
  have refs: "refsOk ?xs" using harnessInvD(2) [OF inv] .
  have at_new: "execAt xs' r = (if r < ?n then execAt ?xs r else e')" if "r < length (xs_objs xs')" for r using that xs(1) by (auto simp: execAt_def nth_append)
  note lt = refsOkD(1) [OF refs]
  have keys: "x \<in> set (mapSet i ?n m) \<Longrightarrow> x = (i, ?n) \<or> x \<in> set m" for x m by (induction m) (auto split: if_splits)
  have "refsOk xs'" unfolding refsOk_def
  proof (intro conjI allI impI)
    fix k r assume "map_of (xs_calls xs') k = Some r"
    then show "r < length (xs_objs xs')" using lt [of k r] xs by simp
  next
    fix k k' r assume "map_of (xs_calls xs') k = Some r \<and> map_of (xs_calls xs') k' = Some r"
    then show "k = k'" using refsOkD(3) [OF refs] xs(2) by simp
  next
    fix j r assume "(j, r) \<in> set (xs_map xs')"
    then have "(j, r) = (i, ?n) \<or> (j, r) \<in> set (xs_map ?xs)" using xs(3) keys by blast
    then show "r < length (xs_objs xs')" using refsOkD(2) [OF refs, of j r] xs(1) by auto
  next
    fix r assume r: "r < length (xs_objs xs')" "\<forall>k. map_of (xs_calls xs') k \<noteq> Some r"
    have "r < ?n \<Longrightarrow> ex_output (execAt ?xs r) \<noteq> None \<and> ex_child (execAt ?xs r) = None \<and> ex_timer (execAt ?xs r) = None"
      using refsOkD(5) [OF refs, of r] r(2) xs(2) by simp
    then show "ex_output (execAt xs' r) \<noteq> None" "ex_child (execAt xs' r) = None" "ex_timer (execAt xs' r) = None"
      using at_new [OF r(1)] e by auto
  qed (rule xs(4))
  moreover have "followsOk (xo_maxStream (en_opts E)) (en_str E) ps xs'" unfolding followsOk_def
  proof (intro allI impI)
    fix k r assume "map_of (xs_calls xs') k = Some r"
    then have "map_of (xs_calls ?xs) k = Some r" "r < ?n" using lt xs(2) by simp_all
    then show "execOk (xo_maxStream (en_opts E)) (en_str E) k (eventsOf k ps) (execAt xs' r)" using harnessInvD(3) [OF inv, of k r] at_new [of r] xs(1) by simp
  qed
  ultimately show ?thesis using harnessInv_execs [OF inv] xs(2) by simp
qed

lemma settle_new:
  assumes refs: "refsOk xs" and e: "ex_child e = None" "ex_timer e = None"
  shows "\<exists>e'. xs_objs (settle opts (length (xs_objs xs)) oc (append_text opts (length (xs_objs xs)) chunk (snd (addExec i e xs)))) = xs_objs xs @ [e']
      \<and> ex_output e' \<noteq> None \<and> ex_child e' = None \<and> ex_timer e' = None"
    and "xs_calls (settle opts (length (xs_objs xs)) oc (append_text opts (length (xs_objs xs)) chunk (snd (addExec i e xs)))) = xs_calls xs"
    and "set (xs_map (settle opts (length (xs_objs xs)) oc (append_text opts (length (xs_objs xs)) chunk (snd (addExec i e xs))))) \<subseteq> set (mapSet i (length (xs_objs xs)) (xs_map xs))"
    and "distinct (map fst (xs_map (settle opts (length (xs_objs xs)) oc (append_text opts (length (xs_objs xs)) chunk (snd (addExec i e xs))))))"
proof -
  let ?n = "length (xs_objs xs)"
  have "appendExec m chunk e = e\<lparr>ex_stream := a, ex_base := b, ex_tail := c\<rparr> \<Longrightarrow> ex_timer (appendExec m chunk e) = None" for m a b c using e by simp
  moreover have "\<exists>a b c. appendExec m chunk e = e\<lparr>ex_stream := a, ex_base := b, ex_tail := c\<rparr>" for m by (auto simp: appendExec_def Let_def)
  ultimately have timer: "ex_timer (appendExec m chunk e) = None" for m by blast
  show "\<exists>e'. xs_objs (settle opts ?n oc (append_text opts ?n chunk (snd (addExec i e xs)))) = xs_objs xs @ [e']
      \<and> ex_output e' \<noteq> None \<and> ex_child e' = None \<and> ex_timer e' = None"
    by (rule exI [of _ "settleExec oc (appendExec (xo_maxStream opts) chunk e)"])
      (simp add: settle_def append_text_def addExec_def frame_simps settleExec_def updExec_def timer)
  have m: "distinct (map fst (mapSet i ?n (xs_map xs)))" using distinct_mapSet [OF refsOk_distinct [OF refs]] .
  show "xs_calls (settle opts ?n oc (append_text opts ?n chunk (snd (addExec i e xs)))) = xs_calls xs"
    by (simp add: settle_def append_text_def addExec_def frame_simps)
  show "set (xs_map (settle opts ?n oc (append_text opts ?n chunk (snd (addExec i e xs))))) \<subseteq> set (mapSet i ?n (xs_map xs))"
    using evict_wake(1) by (fastforce simp: settle_def append_text_def addExec_def frame_simps)
  show "distinct (map fst (xs_map (settle opts ?n oc (append_text opts ?n chunk (snd (addExec i e xs))))))"
    unfolding settle_def by (rule evict_wake(2)) (use m in \<open>simp add: append_text_def addExec_def frame_simps\<close>)
qed

lemma settle_new_inv:
  assumes inv: "harnessInv E ps h" and e: "ex_child e = None" "ex_timer e = None" and n: "n = length (xs_objs (hs_execs h))"
  shows "harnessInv E ps (h\<lparr>hs_execs := settle opts n oc (append_text opts n chunk (snd (addExec i e (hs_execs h))))\<rparr>)"
proof -
  have refs: "refsOk (hs_execs h)" using harnessInvD(2) [OF inv] .
  note st = settle_new [OF refs e, of opts oc chunk i]
  obtain e' where "xs_objs (settle opts n oc (append_text opts n chunk (snd (addExec i e (hs_execs h))))) = xs_objs (hs_execs h) @ [e']"
      "ex_output e' \<noteq> None" "ex_child e' = None" "ex_timer e' = None" using st(1) unfolding n by blast
  then show ?thesis using settled_new_inv [OF inv] st(2-4) unfolding n by blast
qed

text \<open>A process that was just asked for: nothing was told of it.\<close>

lemma unminted_events: "clientOk c \<Longrightarrow> k \<notin> minted c \<Longrightarrow> eventsOf k (cl_told c) = []"
proof -
  assume ok: "clientOk c" and k: "k \<notin> minted c"
  have un: "foldl phaseNext p ts = Unasked \<Longrightarrow> ts = [] \<and> p = Unasked" for p ts
  proof (induction ts rule: rev_induct)
    case (snoc t ts)
    then show ?case by (cases "(foldl phaseNext p ts, t)" rule: phaseNext.cases) auto
  qed simp
  have "map_of (openCalls c) k = None" using ok k by (auto simp: clientOk_def phasesOk_def map_of_eq_None_iff)
  then have "phase k (cl_told c) = Unasked" using ok k by (simp add: clientOk_def phasesOk_def)
  then show ?thesis using un by (auto simp: phase_def eventsOf_def)
qed

lemma spawned_new_inv:
  assumes inv: "harnessInv E (take m (cl_told (hs_client h))) h" and cl: "clientOk cl" "minted cl = insert k (minted (hs_client h))"
    and k: "k \<notin> minted (hs_client h)" and e: "e = (newExec tm a)\<lparr>ex_child := Some k, ex_timer := d\<rparr>"
    and xs: "xs_objs xs' = xs_objs (hs_execs h) @ [e]" "xs_calls xs' = mapSet k (length (xs_objs (hs_execs h))) (xs_calls (hs_execs h))"
      "xs_map xs' = mapSet i (length (xs_objs (hs_execs h))) (xs_map (hs_execs h))"
  shows "harnessInv E (take m (cl_told (hs_client h))) (h\<lparr>hs_client := cl, hs_execs := xs', hs_runs := rs\<rparr>)"
proof -
  let ?xs = "hs_execs h" and ?n = "length (xs_objs (hs_execs h))" and ?ps = "take m (cl_told (hs_client h))"
  have refs: "refsOk ?xs" using harnessInvD(2) [OF inv] .
  note lt = refsOkD(1) [OF refs]
  have at_new: "execAt xs' r = (if r < ?n then execAt ?xs r else e)" if "r < length (xs_objs xs')" for r using that xs(1) by (auto simp: execAt_def nth_append)
  have no: "map_of (xs_calls ?xs) k = None" using harnessInvD(4) [OF inv, of k] k by (auto simp: map_of_eq_None_iff)
  have calls: "map_of (xs_calls xs') k' = (if k' = k then Some ?n else map_of (xs_calls ?xs) k')" for k' using xs(2) by simp
  have keys: "x \<in> set (mapSet i ?n m) \<Longrightarrow> x = (i, ?n) \<or> x \<in> set m" for x m by (induction m) (auto split: if_splits)
  have "refsOk xs'" unfolding refsOk_def
  proof (intro conjI allI impI)
    fix k' r assume "map_of (xs_calls xs') k' = Some r"
    then show "r < length (xs_objs xs')" using lt [of k' r] xs(1) calls [of k'] by (auto split: if_splits)
  next
    fix k1 k2 r assume "map_of (xs_calls xs') k1 = Some r \<and> map_of (xs_calls xs') k2 = Some r"
    then show "k1 = k2" using refsOkD(3) [OF refs] lt [of k1] lt [of k2] calls [of k1] calls [of k2] by (auto split: if_splits)
  next
    fix j r assume "(j, r) \<in> set (xs_map xs')"
    then have "(j, r) = (i, ?n) \<or> (j, r) \<in> set (xs_map ?xs)" using xs(3) keys by auto
    then show "r < length (xs_objs xs')" using refsOkD(2) [OF refs, of j r] xs(1) by auto
  next
    show "distinct (map fst (xs_map xs'))" using distinct_mapSet [OF refsOk_distinct [OF refs]] xs(3) by simp
  next
    fix r assume r: "r < length (xs_objs xs')" "\<forall>k. map_of (xs_calls xs') k \<noteq> Some r"
    have "r \<noteq> ?n" using r(2) calls [of k] by auto
    then have rn: "r < ?n" using r(1) xs(1) by simp
    have "map_of (xs_calls ?xs) k' \<noteq> Some r" for k' using r(2) calls [of k'] no by (auto split: if_splits)
    then show "ex_output (execAt xs' r) \<noteq> None" "ex_child (execAt xs' r) = None" "ex_timer (execAt xs' r) = None"
      using at_new [OF r(1)] rn refsOkD(5) [OF refs rn] by auto
  qed
  moreover have "execOk (xo_maxStream (en_opts E)) (en_str E) k' (eventsOf k' ?ps) (execAt xs' r)" if k': "map_of (xs_calls xs') k' = Some r" for k' r
  proof (cases "k' = k")
    case True
    then have r: "r = ?n" using k' calls [of k'] by simp
    have "eventsOf k (cl_told (hs_client h)) = []" using unminted_events [OF harnessInvD(1) [OF inv] k] .
    then have "eventsOf k ?ps @ eventsOf k (drop m (cl_told (hs_client h))) = []" by (simp only: eventsOf_simps(2) [symmetric] append_take_drop_id)
    then have "eventsOf k ?ps = []" by simp
    then show ?thesis using True r at_new [of ?n] xs(1) e by (simp add: execOk_def said_Nil newExec_def tailOf_def sliceLast_def)
  next
    case False
    then have "map_of (xs_calls ?xs) k' = Some r" using k' calls [of k'] by simp
    then show ?thesis using harnessInvD(3) [OF inv, of k' r] lt [of k' r] at_new [of r] xs(1) by simp
  qed
  moreover have "\<forall>k'\<in>fst ` set (xs_calls xs'). k' \<in> minted cl" using cl(2) harnessInvD(4) [OF inv] xs(2) by auto
  ultimately show ?thesis using cl(1) by (simp add: harnessInv_def followsOk_def)
qed

lemma start_inv:
  assumes ok: "harnessOk E h"
  shows "harnessInv E (take (hs_fed h) (cl_told (hs_client h))) (snd (start (en_opts E) env exists now w i req h))"
    and "grows (hs_client h) (hs_client (snd (start (en_opts E) env exists now w i req h)))"
    and "hs_fed (snd (start (en_opts E) env exists now w i req h)) = hs_fed h"
proof -
  let ?ps = "take (hs_fed h) (cl_told (hs_client h))" and ?n = "length (xs_objs (hs_execs h))"
  have inv: "harnessInv E ?ps h" using ok by (simp add: harnessOk_def)
  have cok: "clientOk (hs_client h)" using harnessInvD(1) [OF inv] .
  define argv0 where "argv0 = (case xr_argv req of [] \<Rightarrow> '''' | a # _ \<Rightarrow> a)"
  define e where "e = newExec (max 0 (xr_tail req)) argv0"
  define rq where "rq = \<lparr>rq_argv = xr_argv req, rq_env = env, rq_cwd = (case xr_cwd req of None \<Rightarrow> '''' | Some d \<Rightarrow> d), rq_stdin = False, rq_tty = None\<rparr>"
  obtain k cl where sp: "spawn now w rq (hs_client h) = (k, cl)" by (cases "spawn now w rq (hs_client h)")
  have k: "k = callId (Suc (cl_seq (hs_client h)))" "cl_seq cl = Suc (cl_seq (hs_client h))" "grows (hs_client h) cl" "clientOk cl"
    using spawn_id [of now w rq "hs_client h"] spawn_seq [of now w rq "hs_client h"] spawn_grows [of "hs_client h" now w rq] spawn_ok [OF cok, of now w rq] sp by simp_all
  have mint: "minted cl = insert k (minted (hs_client h))" "k \<notin> minted (hs_client h)" using k(1,2) by (auto simp: minted_def)
  let ?f = "\<lambda>e. e\<lparr>ex_child := Some k, ex_timer := Some (timerDelay (xr_timeoutMs req))\<rparr>"
  let ?xs = "updExec ?n ?f ((snd (addExec i e (hs_execs h)))\<lparr>xs_calls := mapSet k ?n (xs_calls (hs_execs h))\<rparr>)"
  have new: "harnessInv E ?ps (h\<lparr>hs_client := cl, hs_execs := ?xs, hs_runs := rs\<rparr>)" for rs
    by (rule spawned_new_inv [OF inv k(4) mint, where tm = "max 0 (xr_tail req)" and a = argv0 and d = "Some (timerDelay (xr_timeoutMs req))"])
      (simp_all add: addExec_def updExec_def e_def)
  have missing_inv: "harnessInv E ?ps (h\<lparr>hs_execs := settle (en_opts E) ?n oc (append_text (en_opts E) ?n chunk (snd (addExec i e (hs_execs h))))\<rparr>)" for oc chunk
    by (rule settle_new_inv [OF inv]) (simp_all add: e_def newExec_def)
  have start: "start (en_opts E) env exists now w i req h =
      (if map_of (xs_map (hs_execs h)) i \<noteq> None then (False, h)
       else case missing exists req of
         Some m \<Rightarrow> (let xs1 = append_text (en_opts E) ?n (js (''jr2: '' @ m @ ''; nothing ran'' @ [CHR 0x0A])) (snd (addExec i e (hs_execs h)))
            in (True, h\<lparr>hs_execs := settle (en_opts E) ?n (OutExited 127 (ex_tail (execAt xs1 ?n))) xs1\<rparr>))
       | None \<Rightarrow> (True, h\<lparr>hs_client := cl, hs_execs := ?xs, hs_runs := hs_runs h @ [i]\<rparr>))"
    unfolding start_def e_def argv0_def Let_def rq_def [symmetric] sp by (simp add: addExec_def split: option.split)
  show "harnessInv E ?ps (snd (start (en_opts E) env exists now w i req h))" using inv new missing_inv by (simp add: start Let_def split: option.split)
  show "grows (hs_client h) (hs_client (snd (start (en_opts E) env exists now w i req h)))" using k(3) cgrows_refl [of "hs_client h" "hs_client h"]
    by (simp add: start Let_def split: option.split)
  show "hs_fed (snd (start (en_opts E) env exists now w i req h)) = hs_fed h" by (simp add: start Let_def split: option.split)
qed

lemma kill_inv:
  assumes ok: "harnessOk E h"
  shows "harnessInv E (take (hs_fed h) (cl_told (hs_client h))) (snd (kill (en_opts E) w i h))"
    and "grows (hs_client h) (hs_client (snd (kill (en_opts E) w i h)))" and "hs_fed (snd (kill (en_opts E) w i h)) = hs_fed h"
proof -
  let ?ps = "take (hs_fed h) (cl_told (hs_client h))" and ?xs = "hs_execs h"
  have inv: "harnessInv E ?ps h" using ok by (simp add: harnessOk_def)
  have same: "grows (hs_client h) (hs_client h)" by auto
  have sig: "grows c (procOp w k (Signal s) c)" for w k s c using signal_told signal_seq by (metis grows_def order_refl)
  have "harnessInv E ?ps (snd (kill (en_opts E) w i h)) \<and> grows (hs_client h) (hs_client (snd (kill (en_opts E) w i h))) \<and> hs_fed (snd (kill (en_opts E) w i h)) = hs_fed h"
  proof (cases "map_of (xs_map ?xs) i")
    case None
    have n: "fst (addExec i e ?xs) = length (xs_objs ?xs)" for e by (simp add: addExec_def)
    have "harnessInv E ?ps (h\<lparr>hs_execs := settle (en_opts E) (length (xs_objs ?xs)) oc
        (append_text (en_opts E) (length (xs_objs ?xs)) killedText (snd (addExec i ((newExec 0 '''')\<lparr>ex_ended := Some ByKill\<rparr>) ?xs)))\<rparr>)" for oc
      by (rule settle_new_inv [OF inv]) (simp_all add: newExec_def)
    then show ?thesis using None same by (simp add: kill_def case_prod_unfold n Let_def)
  next
    case (Some r)
    let ?f = "\<lambda>e. e\<lparr>ex_ended := (case ex_ended e of None \<Rightarrow> Some ByKill | Some b \<Rightarrow> Some b)\<rparr>"
    have r: "r < length (xs_objs ?xs)" using refsOkD(2) [OF harnessInvD(2) [OF inv]] map_of_SomeD [OF Some] by blast
    show ?thesis
    proof (cases "ex_output (execAt ?xs r) = None \<and> ex_child (execAt ?xs r) \<noteq> None")
      case True
      have "harnessInv E ?ps (updExecs (updExec r ?f) h)" by (rule marked_inv [OF inv r]) (use True execOk_ended in auto)
      from signalChild_inv(1) [OF this] show ?thesis using Some True sig by (auto simp: kill_def Let_def signalChild_def updExecs_def)
    next
      case False
      then have "snd (kill (en_opts E) w i h) = h" using Some by (auto simp: kill_def Let_def split: option.split)
      then show ?thesis using inv same by simp
    qed
  qed
  then show "harnessInv E ?ps (snd (kill (en_opts E) w i h))" "grows (hs_client h) (hs_client (snd (kill (en_opts E) w i h)))"
    "hs_fed (snd (kill (en_opts E) w i h)) = hs_fed h" by blast+
qed

lemma execTimer_inv:
  assumes ok: "harnessOk E h"
  shows "harnessInv E (take (hs_fed h) (cl_told (hs_client h))) (execTimer w r h)
    \<and> grows (hs_client h) (hs_client (execTimer w r h)) \<and> hs_fed (execTimer w r h) = hs_fed h"
proof -
  let ?ps = "take (hs_fed h) (cl_told (hs_client h))" and ?xs = "hs_execs h"
  let ?f = "\<lambda>e. e\<lparr>ex_timer := None, ex_ended := (case ex_ended e of None \<Rightarrow> Some ByTimeout | Some b \<Rightarrow> Some b)\<rparr>"
  have inv: "harnessInv E ?ps h" using ok by (simp add: harnessOk_def)
  have same: "grows (hs_client h) (hs_client h)" by auto
  have sig: "grows c (procOp w k (Signal s) c)" for w k s c using signal_told signal_seq by (metis grows_def order_refl)
  show ?thesis
  proof (cases "r < length (xs_objs ?xs) \<and> ex_timer (execAt ?xs r) \<noteq> None \<and> ex_child (execAt ?xs r) \<noteq> None")
    case True
    have "ex_output (execAt ?xs r) = None"
    proof (rule ccontr)
      assume out: "ex_output (execAt ?xs r) \<noteq> None"
      then obtain k where "map_of (xs_calls ?xs) k = Some r" using refsOkD(5) [OF harnessInvD(2) [OF inv], of r] True by blast
      then show False using harnessInvD(3) [OF inv] True out by (auto simp: execOk_def)
    qed
    then have "harnessInv E ?ps (updExecs (updExec r ?f) h)" by (intro marked_inv [OF inv]) (use True execOk_ended in auto)
    from signalChild_inv(1) [OF this] show ?thesis using True sig by (auto simp: execTimer_def signalChild_def updExecs_def)
  next
    case False
    then have "execTimer w r h = h" by (auto simp: execTimer_def split: option.split)
    then show ?thesis using inv same by simp
  qed
qed

lemma execs_op_inv:
  assumes ok: "harnessOk E h" and f: "\<And>xs. xs_objs (f xs) = xs_objs xs" "\<And>xs. xs_calls (f xs) = xs_calls xs" "\<And>xs. set (xs_map (f xs)) \<subseteq> set (xs_map xs)"
      "\<And>xs. distinct (map fst (xs_map xs)) \<Longrightarrow> distinct (map fst (xs_map (f xs)))"
  shows "harnessInv E (take (hs_fed h) (cl_told (hs_client h))) (updExecs f h)"
proof -
  have inv: "harnessInv E (take (hs_fed h) (cl_told (hs_client h))) h" using ok by (simp add: harnessOk_def)
  have refs: "refsOk (hs_execs h)" using harnessInvD(2) [OF inv] .
  have "refsOk (f (hs_execs h))" by (rule refsOk_cong [OF refs]) (use f refsOk_distinct [OF refs] in simp_all)
  moreover have "followsOk (xo_maxStream (en_opts E)) (en_str E) (take (hs_fed h) (cl_told (hs_client h))) (f (hs_execs h))"
    by (rule followsOk_cong) (use inv f in \<open>simp_all add: harnessInv_def\<close>)
  ultimately show ?thesis using harnessInv_execs [OF inv] f(2) by (simp add: updExecs_def)
qed

lemma read_frame: "xs_objs (read t i offset wait xs) = xs_objs xs \<and> xs_calls (read t i offset wait xs) = xs_calls xs \<and> xs_map (read t i offset wait xs) = xs_map xs"
  by (simp add: read_def Let_def split: option.split)

lemma readTimeout_frame: "xs_objs (readTimeout t xs) = xs_objs xs \<and> xs_calls (readTimeout t xs) = xs_calls xs \<and> xs_map (readTimeout t xs) = xs_map xs"
  by (simp add: readTimeout_def frame_simps)

lemma forget_frame: "xs_objs (snd (forget i xs)) = xs_objs xs" "xs_calls (snd (forget i xs)) = xs_calls xs" "set (xs_map (snd (forget i xs))) \<subseteq> set (xs_map xs)"
    "distinct (map fst (xs_map xs)) \<Longrightarrow> distinct (map fst (xs_map (snd (forget i xs))))"
  by (auto simp: forget_def distinct_mapDelete dest: mapDelete_key split: option.split)

lemma client_op_inv:
  assumes ok: "harnessOk E h"
  shows "harnessInv E (take (hs_fed h) (cl_told (hs_client h))) (h\<lparr>hs_client := clientStep opts parse opr (hs_client h)\<rparr>)"
proof -
  have inv: "harnessInv E (take (hs_fed h) (cl_told (hs_client h))) h" using ok by (simp add: harnessOk_def)
  let ?c = "clientStep opts parse opr (hs_client h)"
  have "clientOk ?c" using harnessInvD(1) [OF inv] by (cases opr) (auto intro: inv_intros)
  moreover have "minted (hs_client h) \<subseteq> minted ?c" using clientStep_grows [of "hs_client h" opts parse opr] by (auto simp: minted_def grows_def)
  ultimately show ?thesis using inv by (auto simp: harnessInv_def)
qed

lemma harnessOp_inv:
  assumes ok: "harnessOk E h"
  shows "harnessInv E (take (hs_fed (harnessOp E opr h)) (cl_told (hs_client (harnessOp E opr h)))) (harnessOp E opr h)"
proof (rule opOk [OF ok])
  have same: "grows (hs_client h) (hs_client h)" by auto
  show "harnessInv E (take (hs_fed h) (cl_told (hs_client h))) (harnessOp E opr h)"
  proof (cases opr)
    case (Forget i)
    then show ?thesis using execs_op_inv [OF ok, of "\<lambda>xs. snd (forget i xs)"] forget_frame by simp
  qed (use start_inv [OF ok] kill_inv [OF ok] execTimer_inv [OF ok] client_op_inv [OF ok] execs_op_inv [OF ok] read_frame readTimeout_frame in simp_all)
  show "grows (hs_client h) (hs_client (harnessOp E opr h))"
    using start_inv [OF ok] kill_inv [OF ok] execTimer_inv [OF ok] clientStep_grows same by (cases opr) (simp_all add: updExecs_def)
  show "hs_fed (harnessOp E opr h) = hs_fed h"
    using start_inv [OF ok] kill_inv [OF ok] execTimer_inv [OF ok] by (cases opr) (simp_all add: updExecs_def)
qed

lemma newHarness_ok: "harnessOk E (newHarness E now)"
  using newClient_ok by (simp add: harnessOk_def harnessInv_def newHarness_def newExecs_def refsOk_def followsOk_def)

lemma harness_reach_ok: "harnessReach E h \<Longrightarrow> harnessOk E h"
proof (induction rule: harnessReach.induct)
  case (step h w opr)
  then show ?case unfolding harnessStep_def by (intro feed_ok harnessOp_inv)
qed (rule newHarness_ok)

section \<open>Everything that was told was dispatched\<close>

definition fedAll :: "Harness \<Rightarrow> bool" where
  "fedAll h \<longleftrightarrow> list_all (\<lambda>t. about t = None) (drop (hs_fed h) (cl_told (hs_client h)))"

definition askedOk :: "Harness \<Rightarrow> bool" where
  "askedOk h \<longleftrightarrow> (\<forall>k\<in>fst ` set (xs_calls (hs_execs h)). \<exists>ts. eventsOf k (cl_told (hs_client h)) = Asked k True # ts)"

lemma askedOkD: "askedOk h \<Longrightarrow> k \<in> fst ` set (xs_calls (hs_execs h)) \<Longrightarrow> \<exists>ts. eventsOf k (cl_told (hs_client h)) = Asked k True # ts"
  unfolding askedOk_def by (rule bspec)

lemma askedOk_grows:
  assumes "askedOk h" and "grows (hs_client h) (hs_client h')" and "xs_calls (hs_execs h') = xs_calls (hs_execs h)"
  shows "askedOk h'"
  using assms by (fastforce simp: askedOk_def grows_def)

lemma start_asked:
  assumes ok: "harnessOk E h" and asked: "askedOk h"
  shows "askedOk (snd (start opts env exists now w i req h))"
proof -
  have cok: "clientOk (hs_client h)" using ok harnessInvD(1) by (auto simp: harnessOk_def)
  define rq where "rq = \<lparr>rq_argv = xr_argv req, rq_env = env, rq_cwd = (case xr_cwd req of None \<Rightarrow> '''' | Some d \<Rightarrow> d), rq_stdin = False, rq_tty = None\<rparr>"
  obtain k cl where sp: "spawn now w rq (hs_client h) = (k, cl)" by (cases "spawn now w rq (hs_client h)")
  have k: "k = callId (Suc (cl_seq (hs_client h)))" "grows (hs_client h) cl" using spawn_id [of now w rq "hs_client h"] spawn_grows [of "hs_client h" now w rq] sp by simp_all
  obtain us vs where told: "cl_told cl = cl_told (hs_client h) @ us @ Asked k True # vs" "list_all (\<lambda>t. about t = None) us"
    using spawn_asked [of now w rq "hs_client h"] sp k(1) by auto
  have "k \<notin> minted (hs_client h)" using k(1) by (auto simp: minted_def)
  then have own: "eventsOf k (cl_told cl) = Asked k True # eventsOf k vs" using unminted_events [OF cok] told by (simp add: eventsOf_none)
  have "\<exists>ts. eventsOf j (cl_told cl) = Asked j True # ts" if j: "j \<in> insert k (fst ` set (xs_calls (hs_execs h)))" for j
  proof (cases "j = k")
    case True
    then show ?thesis using own by simp
  next
    case False
    then obtain ts where "eventsOf j (cl_told (hs_client h)) = Asked j True # ts" using askedOkD [OF asked, of j] j by auto
    then show ?thesis using told(1) by simp
  qed
  then have "askedOk (h\<lparr>hs_client := cl, hs_execs := xs, hs_runs := rs\<rparr>)" if "fst ` set (xs_calls xs) \<subseteq> insert k (fst ` set (xs_calls (hs_execs h)))" for xs rs
    unfolding askedOk_def using that by (simp add: subset_iff)
  moreover have "askedOk (h\<lparr>hs_execs := xs\<rparr>)" if "xs_calls xs = xs_calls (hs_execs h)" for xs using asked that by (simp add: askedOk_def)
  ultimately show ?thesis using asked unfolding start_def Let_def rq_def [symmetric] sp
    by (simp add: addExec_def settle_def append_text_def frame_simps split: option.split)
qed

lemma dispatch_calls: "xs_calls (hs_execs (dispatch opts str w t h)) = xs_calls (hs_execs h) \<and> hs_fed (dispatch opts str w t h) = hs_fed h"
proof (cases "about t")
  case (Some k)
  show ?thesis
  proof (cases "map_of (xs_calls (hs_execs h)) k")
    case (Some r)
    then show ?thesis using \<open>about t = Some k\<close> by (cases t) (simp_all add: dispatch_def updExecs_def signalChild_def frame_simps)
  qed (simp add: dispatch_def Some)
qed (simp add: dispatch_def)

lemma feed_frame:
  assumes inv: "harnessInv E (take (hs_fed h) (cl_told (hs_client h))) h"
  shows "xs_calls (hs_execs (feed (en_opts E) (en_str E) w h)) = xs_calls (hs_execs h)" "fedAll (feed (en_opts E) (en_str E) w h)"
    "\<exists>us. cl_told (hs_client (feed (en_opts E) (en_str E) w h)) = cl_told (hs_client h) @ us \<and> list_all (\<lambda>t. about t = None) us"
proof -
  let ?told = "cl_told (hs_client h)" and ?D = "dispatch (en_opts E) (en_str E) w"
  let ?g = "fold ?D (drop (hs_fed h) ?told) (h\<lparr>hs_fed := length ?told\<rparr>)"
  have inv': "harnessInv E (take (hs_fed h) ?told) (h\<lparr>hs_fed := length ?told\<rparr>)" using inv by (simp add: harnessInv_def)
  have ev: "eventsOf i (cl_told (hs_client (h\<lparr>hs_fed := length ?told\<rparr>))) = eventsOf i (take (hs_fed h) ?told @ drop (hs_fed h) ?told)" for i
    by (simp del: eventsOf_simps)
  obtain us where us: "cl_told (hs_client ?g) = ?told @ us" "list_all (\<lambda>t. about t = None) us" using fold_dispatch_inv [OF inv' ev] by auto
  have calls: "xs_calls (hs_execs (fold ?D ts h')) = xs_calls (hs_execs h') \<and> hs_fed (fold ?D ts h') = hs_fed h'" for ts h'
  proof (induction ts arbitrary: h')
    case (Cons t ts)
    show ?case using Cons.IH [of "?D t h'"] dispatch_calls [of "en_opts E" "en_str E" w t h'] by simp
  qed simp
  show "xs_calls (hs_execs (feed (en_opts E) (en_str E) w h)) = xs_calls (hs_execs h)" by (simp add: feed_def Let_def updExecs_def frame_simps calls)
  show "fedAll (feed (en_opts E) (en_str E) w h)" using us by (simp add: fedAll_def feed_def Let_def updExecs_def calls)
  show "\<exists>us. cl_told (hs_client (feed (en_opts E) (en_str E) w h)) = ?told @ us \<and> list_all (\<lambda>t. about t = None) us"
    using us by (auto simp: feed_def Let_def updExecs_def)
qed

lemma kill_calls: "xs_calls (hs_execs (snd (kill opts w i h))) = xs_calls (hs_execs h)"
  by (auto simp: kill_def Let_def case_prod_unfold addExec_def settle_def append_text_def frame_simps signalChild_def updExecs_def split: option.split)

lemma execTimer_calls: "xs_calls (hs_execs (execTimer w r h)) = xs_calls (hs_execs h)"
  by (auto simp: execTimer_def signalChild_def updExecs_def frame_simps split: option.split)

lemma harness_reach_fed:
  assumes "harnessReach E h"
  shows "fedAll h \<and> askedOk h"
  using assms
proof (induction rule: harnessReach.induct)
  case (init now)
  show ?case by (simp add: fedAll_def askedOk_def newHarness_def newExecs_def newClient_def ensure_def frame_simps)
next
  case (step h w opr)
  let ?h = "harnessOp E opr h"
  have ok: "harnessOk E h" using harness_reach_ok [OF step.hyps] .
  have inv: "harnessInv E (take (hs_fed ?h) (cl_told (hs_client ?h))) ?h" using harnessOp_inv [OF ok] .
  have asked: "askedOk h" using step.IH by blast
  have same: "grows (hs_client h) (hs_client h)" by auto
  have "askedOk ?h"
  proof (cases opr)
    case (Start ex now v i req)
    then show ?thesis using start_asked [OF ok asked] by simp
  next
    case (Kill v i)
    then show ?thesis using askedOk_grows [OF asked] kill_inv(2) [OF ok] kill_calls by simp
  next
    case (ExecTimer v r)
    then show ?thesis using askedOk_grows [OF asked] execTimer_inv [OF ok] execTimer_calls by simp
  next
    case (OnClient v x)
    then show ?thesis using askedOk_grows [OF asked, of ?h] clientStep_grows by simp
  qed (use asked forget_frame read_frame readTimeout_frame in \<open>simp_all add: askedOk_def updExecs_def\<close>)
  moreover obtain us where "cl_told (hs_client (harnessStep E w opr h)) = cl_told (hs_client ?h) @ us" "list_all (\<lambda>t. about t = None) us"
    using feed_frame(3) [OF inv] unfolding harnessStep_def by blast
  ultimately have "askedOk (harnessStep E w opr h)" using feed_frame(1) [OF inv] by (simp add: askedOk_def harnessStep_def eventsOf_none)
  then show ?case using feed_frame(2) [OF inv] by (simp add: harnessStep_def)
qed

text \<open>The whole of what is known of an exec that has a process.\<close>

lemma exec_follows:
  assumes reach: "harnessReach E h" and k: "map_of (xs_calls (hs_execs h)) k = Some r"
  shows "execOk (xo_maxStream (en_opts E)) (en_str E) k (eventsOf k (cl_told (hs_client h))) (execAt (hs_execs h) r)"
    and "ex_output (execAt (hs_execs h) r) = None \<Longrightarrow> k \<in> fst ` set (openCalls (hs_client h))"
proof -
  have inv: "harnessInv E (take (hs_fed h) (cl_told (hs_client h))) h" using harness_reach_ok [OF reach] by (simp add: harnessOk_def)
  have "eventsOf k (take (hs_fed h) (cl_told (hs_client h)) @ drop (hs_fed h) (cl_told (hs_client h))) = eventsOf k (take (hs_fed h) (cl_told (hs_client h)))"
    using harness_reach_fed [OF reach] unfolding eventsOf_simps(2) by (simp add: fedAll_def eventsOf_none)
  then have ev: "eventsOf k (take (hs_fed h) (cl_told (hs_client h))) = eventsOf k (cl_told (hs_client h))" by (simp only: append_take_drop_id)
  show ok: "execOk (xo_maxStream (en_opts E)) (en_str E) k (eventsOf k (cl_told (hs_client h))) (execAt (hs_execs h) r)"
    using harnessInvD(3) [OF inv k] unfolding ev .
  have key: "k \<in> fst ` set (xs_calls (hs_execs h))" using map_of_SomeD [OF k] by force
  then obtain ts where ts: "eventsOf k (cl_told (hs_client h)) = Asked k True # ts" using askedOkD [OF conjunct2 [OF harness_reach_fed [OF reach]]] by blast
  have life: "foldl phaseNext (Opened True) us \<in> {Opened True, Going, Wrong} \<or> (foldl phaseNext (Opened True) us = Over \<and> us \<noteq> [] \<and> isEnd (last us))" for us
  proof (induction us rule: rev_induct)
    case (snoc u us)
    then show ?case by (cases "(foldl phaseNext (Opened True) us, u)" rule: phaseNext.cases) auto
  qed simp
  assume "ex_output (execAt (hs_execs h) r) = None"
  then have "\<not> isEnd (last (Asked k True # ts))" using ok ts by (auto simp: execOk_def split: if_splits)
  then have "phase k (cl_told (hs_client h)) \<notin> {Over, Unasked}" using life [of ts] ts by (auto simp: phase_def eventsOf_def [symmetric] split: if_splits)
  then show "k \<in> fst ` set (openCalls (hs_client h))" using phase_of [OF harnessInvD(1) [OF inv], of k] by blast
qed

section \<open>The stream\<close>

text \<open>A process that wrote only on its stdout, and did not fail: the bytes it wrote, chunk by chunk.\<close>

fun outChunks :: "Told list \<Rightarrow> bytes list" where
  "outChunks [] = []"
| "outChunks (Out _ True bs # ts) = bs # outChunks ts"
| "outChunks (_ # ts) = outChunks ts"

definition onlyStdout :: "Told list \<Rightarrow> bool" where
  "onlyStdout ts \<longleftrightarrow> list_all (\<lambda>t. case t of Out _ isOut _ \<Rightarrow> isOut | Failed _ _ \<Rightarrow> False | _ \<Rightarrow> True) ts"

lemma outChunks_append: "outChunks (ts @ us) = outChunks ts @ outChunks us"
  by (induction ts rule: outChunks.induct) auto

lemma decoderWrites_append:
  "decoderWrites held (xs @ ys) = (fst (decoderWrites held xs) @ fst (decoderWrites (snd (decoderWrites held xs)) ys), snd (decoderWrites (snd (decoderWrites held xs)) ys))"
  by (induction xs arbitrary: held) (auto simp: Let_def case_prod_unfold)

lemma said_stdout: "onlyStdout ts \<Longrightarrow> said str a ts = (concat (fst (decoderWrites [] (outChunks ts))), snd (decoderWrites [] (outChunks ts)), [])"
proof (induction ts rule: rev_induct)
  case (snoc t ts)
  then show ?case
    by (cases t) (auto simp: said_snoc saidNext_def onlyStdout_def outChunks_append decoderWrites_append Let_def case_prod_unfold)
qed (simp add: said_Nil)

text \<open>C14. A read of a known exec from an offset answers what its process said from there on, stdout and stderr in the order in which they came, up to now: the
  rest of that text after the characters the exec no longer keeps, whose number \<^verbatim>\<open>dropped\<close> says, with \<^verbatim>\<open>next\<close> at the end of the text. The exec is settled
  exactly when its process ended, with the outcome of that end and the last characters of the text, and while it runs its process is open on the spawner.
  A process that writes a text on its stdout as UTF-8 has said that text, wherever the pipe cut it.\<close>

theorem exec_read_is_output:
  assumes "harnessReach E h" and "map_of (xs_map (hs_execs h)) i = Some r" and "map_of (xs_calls (hs_execs h)) k = Some r"
    and "ts = eventsOf k (cl_told (hs_client h))" and "s = fst (said (en_str E) (ex_argv0 (execAt (hs_execs h) r)) ts)" and "offset \<le> length s"
  shows "(\<exists>a. xs_answers (read t i (Some offset) False (hs_execs h)) = xs_answers (hs_execs h) @ [(t, Some a)]
      \<and> rd_stream a = drop (offset + (length s - xo_maxStream (en_opts E) - offset)) s \<and> rd_next a = length s
      \<and> rd_dropped a = (if offset < length s - xo_maxStream (en_opts E) then Some (length s - xo_maxStream (en_opts E) - offset) else None)
      \<and> rd_output a = (if ts \<noteq> [] \<and> isEnd (last ts)
           then Some (outcomeOf (ex_ended (execAt (hs_execs h) r)) (last ts) (tailOf (ex_tailMax (execAt (hs_execs h) r)) s)) else None))
    \<and> (ts \<noteq> [] \<and> isEnd (last ts) \<or> k \<in> fst ` set (openCalls (hs_client h)))
    \<and> (onlyStdout ts \<and> concat (outChunks ts) = utf8 u \<longrightarrow> s = replaceUnpairedSurrogates u)"
proof -
  let ?e = "execAt (hs_execs h) r" and ?mx = "xo_maxStream (en_opts E)"
  have ok: "execOk ?mx (en_str E) k ts ?e" using exec_follows(1) [OF assms(1,3)] assms(4) by simp
  obtain out err where sd: "said (en_str E) (ex_argv0 ?e) ts = (s, out, err)" using assms(5) by (cases "said (en_str E) (ex_argv0 ?e) ts") simp
  have e: "ex_base ?e = length s - ?mx" "ex_stream ?e = drop (length s - ?mx) s" "ex_tail ?e = tailOf (ex_tailMax ?e) s"
    "ex_output ?e = (if ts \<noteq> [] \<and> isEnd (last ts) then Some (outcomeOf (ex_ended ?e) (last ts) (ex_tail ?e)) else None)"
    using ok sd by (auto simp: execOk_def)
  have "rd_stream (readAnswer offset ?e) = drop (offset + (length s - ?mx - offset)) s"
    using e(1,2) assms(6) by (cases "offset < length s - ?mx") (simp_all add: readAnswer_def Let_def min_def max_def)
  moreover have "rd_next (readAnswer offset ?e) = length s" using e(1,2) assms(6) by (simp add: readAnswer_def Let_def)
  moreover have "rd_dropped (readAnswer offset ?e) = (if offset < length s - ?mx then Some (length s - ?mx - offset) else None)"
    using e(1) by (auto simp: readAnswer_def Let_def)
  moreover have "rd_output (readAnswer offset ?e) = (if ts \<noteq> [] \<and> isEnd (last ts)
      then Some (outcomeOf (ex_ended ?e) (last ts) (tailOf (ex_tailMax ?e) s)) else None)" using e(3,4) by (simp add: readAnswer_def Let_def)
  moreover have "xs_answers (read t i (Some offset) False (hs_execs h)) = xs_answers (hs_execs h) @ [(t, Some (readAnswer offset ?e))]"
    using assms(2) by (simp add: read_def Let_def)
  moreover have "ts \<noteq> [] \<and> isEnd (last ts) \<or> k \<in> fst ` set (openCalls (hs_client h))"
    using exec_follows(2) [OF assms(1,3)] e(4) by (cases "ts \<noteq> [] \<and> isEnd (last ts)") simp_all
  moreover have "onlyStdout ts \<and> concat (outChunks ts) = utf8 u \<longrightarrow> s = replaceUnpairedSurrogates u"
    using said_stdout [of ts "en_str E" "ex_argv0 ?e"] decoded_text [of "outChunks ts" u] sd by simp
  ultimately show ?thesis by blast
qed

definition sampleEnv :: Env where
  "sampleEnv = \<lparr>en_opts = \<lparr>xo_maxStream = 8, xo_keepSettled = 2\<rparr>, en_spawner = \<lparr>so_restartMs = 1, so_maxRestartMs = 1\<rparr>, en_env = [],
    en_parse = (\<lambda>line. if line = [1] then Some (JObj [(''id'', JStr ''c1''), (''op'', JStr ''started''), (''pid'', JNum 7)]) else None), en_str = (\<lambda>_. '''')\<rparr>"

definition sampleRequest :: ExecRequest where
  "sampleRequest = \<lparr>xr_argv = [''x''], xr_cwd = None, xr_root = False, xr_timeoutMs = 5, xr_tail = 3\<rparr>"

lemma decimal_one: "decimal (Suc 0) = ''1''"
  by code_simp

definition sampleStarted :: Harness where
  "sampleStarted =
     \<lparr>hs_client = \<lparr>cl_lives = [\<lparr>lv_calls = [(''c1'', SpawnCall ''x'' False)], lv_chunks = [], lv_length = 0, lv_dead = False, lv_bornAt = 0\<rparr>], cl_live = Some 0,
         cl_closed = False, cl_seq = 1, cl_restartMs = 1, cl_timer = None, cl_procs = [(''c1'', \<lparr>pr_live = Some 0, pr_pid = None\<rparr>)],
         cl_told = [SpawnerStarted 0, Asked ''c1'' True, Sent 0 (SpawnFrame ''c1'' [''x''] [] '''' False None)]\<rparr>,
      hs_execs = \<lparr>xs_objs = [\<lparr>ex_child = Some ''c1'', ex_stream = [], ex_base = 0, ex_tailMax = 3, ex_tail = [], ex_output = None, ex_ended = None,
           ex_timer = Some 5, ex_argv0 = ''x'', ex_outHeld = [], ex_errHeld = []\<rparr>],
         xs_map = [(''a'', 0)], xs_calls = [(''c1'', 0)], xs_parked = [], xs_woken = [], xs_answers = []\<rparr>,
      hs_fed = 3, hs_runs = [''a'']\<rparr>"

lemma sample_started: "harnessStep sampleEnv True (Start (\<lambda>_. True) 0 True ''a'' sampleRequest) (newHarness sampleEnv 0) = sampleStarted"
  by (simp add: sampleStarted_def harnessStep_def newHarness_def newClient_def ensure_def newLive_def tell_def start_def newExecs_def newExec_def addExec_def
      missing_def sampleRequest_def sampleEnv_def spawn_def nextId_def callId_def decimal_one ttyFault_def sendOn_def liveOf_def updLive_def updExec_def
      timerDelay_def feed_def Let_def updExecs_def resume_def dispatch_def)

lemma sample_reach: "harnessReach sampleEnv sampleStarted"
  unfolding sample_started [symmetric] by (intro harnessReach.intros)

text \<open>The spawner of that Harness ends while its process starts.\<close>

definition sampleGone :: Harness where
  "sampleGone = harnessStep sampleEnv True (OnClient True (GetEnd 1 0 FrameNotJson)) sampleStarted"

lemma sample_gone:
  "hs_client sampleGone = (hs_client sampleStarted)\<lparr>cl_lives := [\<lparr>lv_calls = [], lv_chunks = [], lv_length = 0, lv_dead = True, lv_bornAt = 0\<rparr>], cl_live := None,
     cl_timer := Some 1, cl_told := cl_told (hs_client sampleStarted) @ [Failed ''c1'' (SpawnerGone FrameNotJson False)]\<rparr>"
  "map_of (xs_map (hs_execs sampleGone)) ''a'' = Some 0" "xs_calls (hs_execs sampleGone) = [(''c1'', 0)]" "xs_answers (hs_execs sampleGone) = []"
  "ex_argv0 (execAt (hs_execs sampleGone) 0) = ''x''" "ex_ended (execAt (hs_execs sampleGone) 0) = None" "ex_tailMax (execAt (hs_execs sampleGone) 0) = 3"
  unfolding sampleGone_def
  by (simp_all add: sampleStarted_def sampleEnv_def harnessStep_def ended_def gone_def HEALTHY_MS_def liveOf_def updLive_def failOf_def tell_def feed_def Let_def
      updExecs_def resume_def dispatch_def execAt_def updExec_def hearFail_def appendExec_def settleExec_def evict_def settledIds_def wake_def)

theorem exec_read_is_output_witness:
  "\<exists>a. xs_answers (read 7 ''a'' (Some 0) False (hs_execs sampleGone)) = [(7, Some a)]
     \<and> rd_next a = length (failLine (en_str sampleEnv) ''x'' (SpawnerGone FrameNotJson False))
     \<and> rd_output a = Some (OutExited 127 (tailOf 3 (failLine (en_str sampleEnv) ''x'' (SpawnerGone FrameNotJson False))))"
proof -
  have r: "harnessReach sampleEnv sampleGone" unfolding sampleGone_def using sample_reach by (rule harnessReach.step)
  have ts: "[Asked ''c1'' True, Failed ''c1'' (SpawnerGone FrameNotJson False)] = eventsOf ''c1'' (cl_told (hs_client sampleGone))"
    by (simp add: sample_gone sampleStarted_def)
  have s: "failLine (en_str sampleEnv) ''x'' (SpawnerGone FrameNotJson False) = fst (said (en_str sampleEnv) (ex_argv0 (execAt (hs_execs sampleGone) 0))
      [Asked ''c1'' True, Failed ''c1'' (SpawnerGone FrameNotJson False)])" by (simp add: said_def saidNext_def sample_gone)
  have k: "map_of (xs_calls (hs_execs sampleGone)) ''c1'' = Some 0" by (simp add: sample_gone)
  show ?thesis using exec_read_is_output [OF r sample_gone(2) k ts s le0, of 7 "[]"] by (force simp: sample_gone outcomeOf_def)
qed

section \<open>What is kept, and what is not killed\<close>

lemma length_filter_mono: "(\<And>x. P x \<Longrightarrow> Q x) \<Longrightarrow> length (filter P xs) \<le> length (filter Q xs)"
  by (induction xs) (auto intro: le_SucI)

lemma fold_mapDelete_gone: "k \<in> set ks \<Longrightarrow> map_of (fold mapDelete ks m) k = None"
proof (induction ks arbitrary: m)
  case (Cons x ks)
  have none: "map_of m k = None \<Longrightarrow> map_of (fold mapDelete ks m) k = None" for m by (induction ks arbitrary: m) auto
  show ?case using Cons none [of "mapDelete k m"] by (cases "x = k") auto
qed simp

text \<open>C22. The execs that are dropped are the first of the map, in the order of their starts and not of their settlements: an exec that settles while as many execs
  that were started after it are settled and unread as the Harness keeps is dropped at once, and a read of it finds nothing, though each of those is
  older as an output.\<close>

theorem long_exec_dropped_as_it_settles:
  assumes "xs_map xs = us @ (i, r) # vs" and "r < length (xs_objs xs)"
    and "xo_keepSettled opts \<le> length (filter (\<lambda>(_, q). ex_output (execAt xs q) \<noteq> None) vs)"
  shows "map_of (xs_map (settle opts r oc xs)) i = None \<and> xs_answers (read t i offset wait (settle opts r oc xs)) = xs_answers xs @ [(t, None)]"
proof -
  let ?s = "wake r (updExec r (settleExec oc) xs)"
  let ?f = "\<lambda>(_ :: string, q). ex_output (execAt ?s q) \<noteq> None"
  have at_s: "execAt ?s q = (if q = r then settleExec oc (execAt xs r) else execAt xs q)" for q using execAt_upd [OF assms(2)] by (simp add: frame_simps)
  have ids: "settledIds ?s = map fst (filter ?f us) @ i # map fst (filter ?f vs)"
    using assms(1) by (simp add: settledIds_def frame_simps execAt_upd [OF assms(2)] settleExec_def)
  have "ex_output (execAt xs q) \<noteq> None \<Longrightarrow> ex_output (execAt ?s q) \<noteq> None" for q unfolding at_s by (simp add: settleExec_def)
  then have "length (filter (\<lambda>(_, q). ex_output (execAt xs q) \<noteq> None) ws) \<le> length (filter ?f ws)" for ws :: "(string \<times> nat) list"
    by (intro length_filter_mono) blast
  then have "xo_keepSettled opts \<le> length (filter ?f vs)" using assms(3) le_trans by blast
  then have "i \<in> set (take (length (settledIds ?s) - xo_keepSettled opts) (settledIds ?s))" unfolding ids by (simp add: take_Cons')
  then have none: "map_of (xs_map (settle opts r oc xs)) i = None" by (simp add: settle_def evict_def Let_def fold_mapDelete_gone)
  moreover have "xs_answers (settle opts r oc xs) = xs_answers xs" by (simp add: settle_def evict_def Let_def wake_def updExec_def)
  ultimately show ?thesis by (simp add: read_def)
qed

theorem long_exec_dropped_as_it_settles_witness:
  "let e = newExec 0 ''a''; s = settleExec (OutExited 0 []) e;
       xs = newExecs\<lparr>xs_objs := [e, s], xs_map := [(''long'', 0), (''short'', 1)]\<rparr>
   in map_of (xs_map (settle \<lparr>xo_maxStream = 9, xo_keepSettled = 1\<rparr> 0 (OutExited 0 []) xs)) ''long'' = None"
  using long_exec_dropped_as_it_settles [of "newExecs\<lparr>xs_objs := [newExec 0 ''a'', settleExec (OutExited 0 []) (newExec 0 ''a'')], xs_map := [(''long'', 0), (''short'', 1)]\<rparr>"
      "[]" "''long''" 0 "[(''short'', 1)]" "\<lparr>xo_maxStream = 9, xo_keepSettled = 1\<rparr>" "OutExited 0 []"]
  by (simp add: execAt_def settleExec_def)

lemma ended_told: "cl_live c = Some l \<Longrightarrow> cl_told (ended opts now l why c) = cl_told (gone l why c)"
  by (simp add: ended_def Let_def)

lemma updExec_ended: "(\<And>e. ex_ended (f e) = ex_ended e) \<Longrightarrow> ex_ended (execAt (updExec r f xs) q) = ex_ended (execAt xs q)"
  by (cases "r < length (xs_objs xs)") (auto simp: execAt_upd, simp add: updExec_def execAt_def list_update_beyond)

lemma hear_ended: "ex_ended (hearOut mx b bs e) = ex_ended e" "ex_ended (hearExit x e) = ex_ended e" "ex_ended (hearFail str mx fault e) = ex_ended e"
  by (simp_all add: hearOut_def hearExit_def hearFail_def appendExec_def settleExec_def Let_def case_prod_unfold)

lemma dispatch_ended: "ex_ended (execAt (hs_execs (fold (dispatch opts str w) ts h)) q) = ex_ended (execAt (hs_execs h) q)"
proof (induction ts arbitrary: h)
  case (Cons t ts)
  have "ex_ended (execAt (hs_execs (dispatch opts str w t h)) q) = ex_ended (execAt (hs_execs h) q)"
  proof (cases "about t")
    case (Some k)
    show ?thesis
    proof (cases "map_of (xs_calls (hs_execs h)) k")
      case (Some r)
      then show ?thesis using \<open>about t = Some k\<close>
        by (cases t) (simp_all add: dispatch_def updExecs_def signalChild_def frame_simps updExec_ended hear_ended)
    qed (simp add: dispatch_def Some)
  qed (simp add: dispatch_def)
  then show ?case using Cons by simp
qed simp

lemma quiet_dispatch:
  "list_all (\<lambda>t. about t = None \<or> (\<exists>i f. t = Failed i f)) ts \<Longrightarrow> hs_client (fold (dispatch opts str w) ts h) = hs_client h"
proof (induction ts arbitrary: h)
  case (Cons t ts)
  have "hs_client (dispatch opts str w t h) = hs_client h" using Cons.prems by (auto simp: dispatch_def updExecs_def split: option.split)
  then show ?case using Cons by simp
qed simp

fun isSignalled :: "Told \<Rightarrow> bool" where
  "isSignalled (Sent _ (SignalFrame _ _)) = True"
| "isSignalled (GroupSignalled _ _) = True"
| "isSignalled _ = False"

text \<open>C21. When the spawner ends under an exec, the exec settles as a command that could not start, also when its process runs: no signal is sent to any process
  group then, and after it neither a kill, which answers false, nor the timeout sends one. The process runs on, which is not what the header of \<^verbatim>\<open>exec.ts\<close>
  claims of an exec's group.\<close>

theorem process_outlives_spawner:
  assumes "harnessReach E h" and "map_of (xs_map (hs_execs h)) i = Some r" and "map_of (xs_calls (hs_execs h)) k = Some r"
    and "map_of (openCalls (hs_client h)) k = Some (SpawnCall file True)" and "cl_live (hs_client h) = Some l" and "ex_ended (execAt (hs_execs h) r) = None"
    and "h' = harnessStep E w (OnClient v (GetEnd now l why)) h"
  shows "(\<exists>tail. ex_output (execAt (hs_execs h') r) = Some (OutExited 127 tail))
    \<and> list_all (\<lambda>t. \<not> isSignalled t) (drop (length (cl_told (hs_client h))) (cl_told (hs_client h')))
    \<and> execTimer v' r h' = h' \<and> (map_of (xs_map (hs_execs h')) i = Some r \<longrightarrow> kill (en_opts E) v' i h' = (False, h'))"
proof -
  let ?c = "ended (en_spawner E) now l why (hs_client h)" and ?h = "h\<lparr>hs_client := ended (en_spawner E) now l why (hs_client h)\<rparr>"
  have inv: "harnessInv E (take (hs_fed h) (cl_told (hs_client h))) h" using harness_reach_ok [OF assms(1)] by (simp add: harnessOk_def)
  have fed: "hs_fed h \<le> length (cl_told (hs_client h))" using harness_reach_ok [OF assms(1)] by (simp add: harnessOk_def)
  have cok: "clientOk (hs_client h)" using harnessInvD(1) [OF inv] .
  have ll: "l < length (cl_lives (hs_client h))" using livesOkD(1) [OF clientOkD [OF cok] assms(5)] .
  have op: "harnessOp E (OnClient v (GetEnd now l why)) h = ?h" using ll by simp
  have alive: "\<not> lv_dead (liveOf (hs_client h) l)" and calls: "openCalls (hs_client h) = lv_calls (liveOf (hs_client h) l)"
    using assms(4,5) by (auto simp: openCalls_def split: if_splits)
  have told: "cl_told ?c = cl_told (hs_client h) @ map (failOf why) (openCalls (hs_client h))"
    using alive calls by (simp add: ended_told [OF assms(5)] gone_def frame_simps)
  have quiet: "list_all (\<lambda>t. about t = None \<or> (\<exists>i f. t = Failed i f)) (drop (hs_fed h) (cl_told ?c))"
    using harness_reach_fed [OF assms(1)] fed by (auto simp: told fedAll_def list_all_iff failOf_def)
  have client: "hs_client h' = ?c"
    unfolding assms(7) harnessStep_def op feed_def Let_def using quiet by (simp add: updExecs_def quiet_dispatch)
  have reach: "harnessReach E h'" unfolding assms(7) by (rule harnessReach.step [OF assms(1)])
  have inv': "harnessInv E (take (hs_fed ?h) (cl_told (hs_client ?h))) ?h" using harnessOp_inv [OF harness_reach_ok [OF assms(1)], of "OnClient v (GetEnd now l why)"] unfolding op .
  have k': "map_of (xs_calls (hs_execs h')) k = Some r" using feed_frame(1) [OF inv'] assms(3) unfolding assms(7) harnessStep_def op by simp
  have dis: "distinct (map fst (openCalls (hs_client h)))" using cok by (simp add: clientOk_def phasesOk_def)
  have last: "last (eventsOf k (cl_told (hs_client h'))) = Failed k (SpawnerGone why True)" "eventsOf k (cl_told (hs_client h')) \<noteq> []"
    using fails_filter [OF dis, of k why] assms(4) by (simp_all add: client told eventsOf_def failOf_def)
  have "ex_ended (execAt (hs_execs h') r) = None"
    unfolding assms(7) harnessStep_def op feed_def Let_def using assms(6) by (simp add: updExecs_def frame_simps dispatch_ended)
  then have e: "ex_output (execAt (hs_execs h') r) = Some (OutExited 127 (ex_tail (execAt (hs_execs h') r)))" "ex_timer (execAt (hs_execs h') r) = None"
    using exec_follows(1) [OF reach k'] last by (auto simp: execOk_def outcomeOf_def)
  have "list_all (\<lambda>t. \<not> isSignalled t) (drop (length (cl_told (hs_client h))) (cl_told (hs_client h')))"
    by (auto simp: client told list_all_iff failOf_def)
  moreover have "execTimer v' r h' = h'" using e(2) by (simp add: execTimer_def)
  moreover have "map_of (xs_map (hs_execs h')) i = Some r \<longrightarrow> kill (en_opts E) v' i h' = (False, h')" using e(1) by (simp add: kill_def Let_def)
  ultimately show ?thesis using e(1) by blast
qed

text \<open>The process of that Harness runs.\<close>

definition sampleRunning :: Harness where
  "sampleRunning = harnessStep sampleEnv True (OnClient True (GetData 0 [1, 10])) sampleStarted"

lemma sample_running:
  "map_of (openCalls (hs_client sampleRunning)) ''c1'' = Some (SpawnCall ''x'' True)" "cl_live (hs_client sampleRunning) = Some 0"
  "hs_execs sampleRunning = hs_execs sampleStarted"
proof -
  let ?c = "hs_client sampleStarted"
  let ?u = "updLive 0 (\<lambda>v. v\<lparr>lv_chunks := [], lv_length := 0\<rparr>) ?c"
  let ?r = "\<lambda>chunks. \<lparr>cl_lives = [\<lparr>lv_calls = [(''c1'', SpawnCall ''x'' True)], lv_chunks = chunks, lv_length = 0, lv_dead = False, lv_bornAt = 0\<rparr>], cl_live = Some 0,
         cl_closed = False, cl_seq = 1, cl_restartMs = 1, cl_timer = None, cl_procs = [(''c1'', \<lparr>pr_live = Some 0, pr_pid = Some 7\<rparr>)],
         cl_told = [SpawnerStarted 0, Asked ''c1'' True, Sent 0 (SpawnFrame ''c1'' [''x''] [] '''' False None), Started ''c1'' 7]\<rparr>"
  have f: "onFrame (en_parse sampleEnv) 0 [1] ?u = ?r []"
    by (simp add: onFrame_def sampleEnv_def sampleStarted_def liveOf_def updLive_def onSpawnFrame_def isCount_def numOf_def Let_def tell_def)
  have "onData (en_parse sampleEnv) 0 [1, 10] ?c = onData (en_parse sampleEnv) 0 [] (onFrame (en_parse sampleEnv) 0 [1] ?u)"
    by (simp add: onData.simps [of _ _ "[1, 10]"] Let_def MAX_FRAME_def) (simp add: sampleStarted_def liveOf_def)
  also have "\<dots> = ?r [[]]" unfolding f by (simp add: onData.simps [of _ _ "[]"] Let_def MAX_FRAME_def liveOf_def updLive_def)
  finally have d: "onData (en_parse sampleEnv) 0 [1, 10] ?c = ?r [[]]" .
  have "harnessOp sampleEnv (OnClient True (GetData 0 [1, 10])) sampleStarted = sampleStarted\<lparr>hs_client := ?r [[]]\<rparr>"
    using d by (simp add: sampleStarted_def)
  then have run: "sampleRunning = sampleStarted\<lparr>hs_client := ?r [[]], hs_fed := 4\<rparr>"
    unfolding sampleRunning_def harnessStep_def by (simp add: feed_def Let_def updExecs_def resume_def dispatch_def sampleStarted_def)
  show "map_of (openCalls (hs_client sampleRunning)) ''c1'' = Some (SpawnCall ''x'' True)" "cl_live (hs_client sampleRunning) = Some 0"
      "hs_execs sampleRunning = hs_execs sampleStarted" unfolding run by (simp_all add: openCalls_def liveOf_def)
qed

theorem process_outlives_spawner_witness:
  "let h' = harnessStep sampleEnv True (OnClient True (GetEnd 9 0 FrameNotJson)) sampleRunning
   in (\<exists>tail. ex_output (execAt (hs_execs h') 0) = Some (OutExited 127 tail))
     \<and> list_all (\<lambda>t. \<not> isSignalled t) (drop (length (cl_told (hs_client sampleRunning))) (cl_told (hs_client h'))) \<and> execTimer True 0 h' = h'"
proof -
  have r: "harnessReach sampleEnv sampleRunning" unfolding sampleRunning_def by (rule harnessReach.step [OF sample_reach])
  have m: "map_of (xs_map (hs_execs sampleRunning)) ''a'' = Some 0" "map_of (xs_calls (hs_execs sampleRunning)) ''c1'' = Some 0"
    "ex_ended (execAt (hs_execs sampleRunning) 0) = None" by (simp_all add: sample_running sampleStarted_def execAt_def)
  show ?thesis using process_outlives_spawner [OF r m(1,2) sample_running(1,2) m(3) refl] unfolding Let_def by blast
qed

end
