(* ===== verification/Command_Effect.thy ===== *)
theory Command_Effect
  imports Execs
begin

text \<open>
  A \<^verbatim>\<open>command\<close> Effect, \<^verbatim>\<open>packages/orchestrator/src/effect.ts\<close>, over the exec of a Harness: the actor's snapshot, its ledger row, the start that is sent at most once
  where it may have arrived, the reads to the end, the resends of a cut, the stop with its kill, and the restarts of the Orchestrator and of the Harness.

  The actor's asynchronous function \<^verbatim>\<open>drive\<close> is the state \<open>ac_drive\<close>: the place where it waits. A request is an operation of the environment, which says
  how it ends; one that may still arrive is a message on \<open>sy_wire\<close>, which arrives once, or never, at the Harness that runs then. The saved row and status are
  \<open>sy_disk\<close>: a row recorded at once is saved with the snapshot of that moment, and any other save is an operation. What the checks of a fresh Effect say
  (the Workspace it is in, its Worktree) is an argument, and \<^verbatim>\<open>JSON.parse\<close> of a cut's answer is one. The ledger's other fields, the times and the backoff
  are left out.
\<close>

section \<open>The ledger and the actor\<close>

text \<open>\<open>LessTail\<close> is an exec's output whose \<^verbatim>\<open>tail\<close> was dropped from its row.\<close>

datatype EffectOutput = ExecEnded ExecOutcome | LessTail ExecOutcome | Unknown jsstr | Refused string | CutAnswer Json

datatype EffectRow = Intent string string | Settled EffectOutput | Aborted

datatype Status = Active | Done EffectOutput | Errored | Stopped

datatype Sent = SentOk | Uncertain

text \<open>Where \<open>drive\<close> waits. \<open>Starting\<close>, \<open>FirstRead\<close> and \<open>Following\<close> hold the number of the pass; \<open>Following\<close> the offset of the next read, and \<open>None\<close> for the
  pass of a re-attached Effect.\<close>

datatype Drive = NotBegun | Fresh | DeliverSettled EffectOutput | ReAttach | Starting nat ExecRequest | FirstRead nat ExecRequest Sent
  | Following "(nat \<times> ExecRequest) option" nat | Ended

text \<open>\<open>ac_read\<close>: the exec that the Harness took for the read that waits, and its offset.\<close>

record Actor =
  ac_status :: Status
  ac_row :: "EffectRow option"
  ac_drive :: Drive
  ac_aborted :: bool
  ac_read :: "(nat \<times> nat) option"
  ac_killing :: bool

datatype Message = StartMsg ExecRequest | KillMsg | ForgetMsg

datatype Mark = MarkStarted | MarkAgain | MarkOutput jsstr | MarkSettled EffectOutput | MarkAborted

record System =
  sy_actor :: Actor
  sy_disk :: "EffectRow option \<times> Status"
  sy_wire :: "Message list"
  sy_harness :: Harness
  sy_gone :: "Harness list"
  sy_marks :: "Mark list"

record Parts =
  pt_id :: string
  pt_idempotent :: bool
  pt_parse :: "jsstr \<Rightarrow> Json option"



text \<open>\<^verbatim>\<open>cutOutputOf\<close>: what a cut's program answers is its last line.\<close>

fun isBlank :: "16 word \<Rightarrow> bool" where
  "isBlank c \<longleftrightarrow> c \<in> {9, 10, 11, 12, 13, 32, 0xa0, 0x1680, 0x2028, 0x2029, 0x202f, 0x205f, 0x3000, 0xfeff} \<or> (0x2000 \<le> c \<and> c \<le> 0x200a)"

definition trimText :: "jsstr \<Rightarrow> jsstr" where
  "trimText s = rev (dropWhile isBlank (rev (dropWhile isBlank s)))"

definition outcomeName :: "ExecOutcome \<Rightarrow> string" where
  "outcomeName oc = (case oc of OutExited _ _ \<Rightarrow> ''exited'' | OutTimeout _ \<Rightarrow> ''timeout'' | OutKilled _ _ \<Rightarrow> ''killed'')"

definition noAnswer :: "ExecOutcome \<Rightarrow> EffectOutput" where
  "noAnswer oc = Unknown (js (''the cut ended '' @ outcomeName oc @ '' with no answer: '') @ sliceLast 400 (out_tail oc))"

definition cutOutputOf :: "Parts \<Rightarrow> EffectOutput \<Rightarrow> EffectOutput" where
  "cutOutputOf P raw = (case raw of
     ExecEnded oc \<Rightarrow>
       (case (oc, pt_parse P (last (splitNewline (trimText (out_tail oc))))) of
          (OutExited 0 _, Some v) \<Rightarrow>
            if field ''outcome'' v = Some (JStr ''ready'') \<or> field ''outcome'' v = Some (JStr ''refused'') then CutAnswer v else noAnswer oc
        | _ \<Rightarrow> noAnswer oc)
   | _ \<Rightarrow> raw)"

text \<open>\<^verbatim>\<open>dropSavedTails\<close>, for the row of a command.\<close>

fun dropTail :: "EffectOutput \<Rightarrow> EffectOutput" where
  "dropTail (ExecEnded (OutExited code _)) = LessTail (OutExited code [])"
| "dropTail (ExecEnded (OutTimeout _)) = LessTail (OutTimeout [])"
| "dropTail (ExecEnded (OutKilled sig _)) = LessTail (OutKilled sig [])"
| "dropTail (CutAnswer (JObj kvs)) = CutAnswer (JObj (filter (\<lambda>(k, _). k \<noteq> ''tail'') kvs))"
| "dropTail out = out"

definition dropSavedTail :: "EffectRow option \<Rightarrow> EffectRow option" where
  "dropSavedTail row = (case row of Some (Settled out) \<Rightarrow> Some (Settled (dropTail out)) | _ \<Rightarrow> row)"

section \<open>The steps of drive\<close>

definition updActor :: "(Actor \<Rightarrow> Actor) \<Rightarrow> System \<Rightarrow> System" where
  "updActor f s = s\<lparr>sy_actor := f (sy_actor s)\<rparr>"

definition goTo :: "Drive \<Rightarrow> System \<Rightarrow> System" where
  "goTo d s = updActor (\<lambda>a. a\<lparr>ac_drive := d, ac_read := None\<rparr>) s"

definition mark :: "Mark \<Rightarrow> System \<Rightarrow> System" where
  "mark m s = s\<lparr>sy_marks := sy_marks s @ [m]\<rparr>"

text \<open>\<^verbatim>\<open>recordEffect(id, row)\<close>: the row and the snapshot of now are saved.\<close>

definition recordNow :: "EffectRow \<Rightarrow> System \<Rightarrow> System" where
  "recordNow row s = (updActor (\<lambda>a. a\<lparr>ac_row := Some row\<rparr>) s)\<lparr>sy_disk := (Some row, ac_status (sy_actor s))\<rparr>"

definition throw :: "System \<Rightarrow> System" where
  "throw s = goTo Ended (if ac_aborted (sy_actor s) \<or> ac_status (sy_actor s) \<noteq> Active then s else updActor (\<lambda>a. a\<lparr>ac_status := Errored\<rparr>) s)"

definition settleEffect :: "Parts \<Rightarrow> EffectOutput \<Rightarrow> System \<Rightarrow> System" where
  "settleEffect P raw s =
     (if ac_aborted (sy_actor s) \<or> ac_status (sy_actor s) \<noteq> Active then goTo Ended s
      else let out = (if pt_idempotent P \<and> (\<forall>m. raw \<noteq> Refused m) then cutOutputOf P raw else raw)
        in goTo Ended (updActor (\<lambda>a. a\<lparr>ac_status := Done out\<rparr>) (mark (MarkSettled out) (recordNow (Settled out) s))))"






definition harnessDoes :: "Env \<Rightarrow> bool \<Rightarrow> HarnessOp \<Rightarrow> System \<Rightarrow> System" where
  "harnessDoes E w opr s = s\<lparr>sy_harness := harnessStep E w opr (sy_harness s)\<rparr>"














section \<open>The world around it\<close>






definition harnessRestarts :: "Env \<Rightarrow> int \<Rightarrow> System \<Rightarrow> System" where
  "harnessRestarts E now s = updActor (\<lambda>a. a\<lparr>ac_read := None\<rparr>) (s\<lparr>sy_gone := sy_gone s @ [sy_harness s], sy_harness := newHarness E now\<rparr>)"






section \<open>How often the command ran\<close>

definition runsOf :: "string \<Rightarrow> System \<Rightarrow> nat" where
  "runsOf i s = count_list (concat (map hs_runs (sy_gone s)) @ hs_runs (sy_harness s)) i"

fun isStart :: "Message \<Rightarrow> bool" where
  "isStart (StartMsg _) = True"
| "isStart _ = False"

definition startsIn :: "Message list \<Rightarrow> nat" where
  "startsIn ms = length (filter isStart ms)"







text \<open>What can still run: what ran, with the starts that may arrive.\<close>

definition spent :: "Parts \<Rightarrow> System \<Rightarrow> nat" where
  "spent P s = runsOf (pt_id P) s + startsIn (sy_wire s)"

definition passOk :: "Drive \<Rightarrow> bool" where
  "passOk d \<longleftrightarrow> (case d of Starting p _ \<Rightarrow> 1 \<le> p | FirstRead p _ _ \<Rightarrow> 1 \<le> p | Following (Some (p, _)) _ \<Rightarrow> 1 \<le> p | _ \<Rightarrow> True)"

definition onceOk :: "Parts \<Rightarrow> System \<Rightarrow> bool" where
  "onceOk P s \<longleftrightarrow> spent P s \<le> 1 \<and> (ac_row (sy_actor s) = None \<longrightarrow> spent P s = 0) \<and> (fst (sy_disk s) = None \<longrightarrow> spent P s = 0)
     \<and> (fst (sy_disk s) \<noteq> None \<longrightarrow> ac_row (sy_actor s) \<noteq> None) \<and> (ac_drive (sy_actor s) = Fresh \<longrightarrow> ac_row (sy_actor s) = None)
     \<and> ((\<exists>p req. ac_drive (sy_actor s) = Starting p req) \<longrightarrow> spent P s = 0 \<and> fst (sy_disk s) \<noteq> None) \<and> passOk (ac_drive (sy_actor s))"

lemmas sys_defs = goTo_def updActor_def mark_def recordNow_def throw_def

text \<open>A place of \<open>drive\<close> that starts nothing by itself.\<close>

definition idlePlace :: "Drive \<Rightarrow> bool" where
  "idlePlace d \<longleftrightarrow> passOk d \<and> d \<noteq> Fresh \<and> (\<forall>p req. d \<noteq> Starting p req)"

lemma idlePlace_simps [simp]: "idlePlace Ended" "idlePlace NotBegun" "idlePlace ReAttach" "idlePlace (DeliverSettled out)"
    "idlePlace (FirstRead p req sent) \<longleftrightarrow> 1 \<le> p" "idlePlace (Following None n)" "idlePlace (Following (Some (p, req)) n) \<longleftrightarrow> 1 \<le> p"
  by (simp_all add: idlePlace_def passOk_def)








lemma once_mark [simp]: "onceOk P (mark m s) \<longleftrightarrow> onceOk P s"
  by (simp add: onceOk_def mark_def spent_def runsOf_def)


















lemma dropSavedTail_none [simp]: "dropSavedTail r = None \<longleftrightarrow> r = None" "\<exists>z. dropSavedTail (Some y) = Some z"
  by (simp_all add: dropSavedTail_def split: option.split EffectRow.split)







section \<open>The ledger\<close>

fun isSettledMark :: "Mark \<Rightarrow> bool" where
  "isSettledMark (MarkSettled _) = True"
| "isSettledMark _ = False"

text \<open>An Effect with no settled row, in memory or saved; and one that is settled: the row is saved, and it ends with that output only.\<close>

definition openOk :: "System \<Rightarrow> bool" where
  "openOk s \<longleftrightarrow> (\<forall>out. ac_row (sy_actor s) \<noteq> Some (Settled out) \<and> fst (sy_disk s) \<noteq> Some (Settled out) \<and> ac_status (sy_actor s) \<noteq> Done out
     \<and> snd (sy_disk s) \<noteq> Done out \<and> ac_drive (sy_actor s) \<noteq> DeliverSettled out) \<and> filter isSettledMark (sy_marks s) = []"

definition doneOk :: "EffectOutput \<Rightarrow> System \<Rightarrow> bool" where
  "doneOk out s \<longleftrightarrow> ac_row (sy_actor s) \<in> {Some (Settled out), Some (Settled (dropTail out))} \<and> fst (sy_disk s) \<in> {Some (Settled out), Some (Settled (dropTail out))}
     \<and> (ac_status (sy_actor s) = Active \<longrightarrow> ac_row (sy_actor s) = Some (Settled out)) \<and> (snd (sy_disk s) = Active \<longrightarrow> fst (sy_disk s) = Some (Settled out))
     \<and> (\<forall>o'. ac_status (sy_actor s) = Done o' \<longrightarrow> o' = out) \<and> (\<forall>o'. snd (sy_disk s) = Done o' \<longrightarrow> o' = out)
     \<and> ac_drive (sy_actor s) \<in> {NotBegun, Ended, DeliverSettled out} \<and> filter isSettledMark (sy_marks s) = [MarkSettled out]"

definition ledgerOk :: "System \<Rightarrow> bool" where
  "ledgerOk s \<longleftrightarrow> openOk s \<or> (\<exists>out. doneOk out s)"




lemma mark_open [simp]: "\<not> isSettledMark m \<Longrightarrow> openOk (mark m s) \<longleftrightarrow> openOk s"
  by (simp add: openOk_def sys_defs)


text \<open>The parts that the ledger does not read.\<close>

lemma wire_ledger [simp]: "openOk (s\<lparr>sy_wire := ms\<rparr>) \<longleftrightarrow> openOk s" "doneOk out (s\<lparr>sy_wire := ms\<rparr>) \<longleftrightarrow> doneOk out s" "ledgerOk (s\<lparr>sy_wire := ms\<rparr>) \<longleftrightarrow> ledgerOk s"
    "openOk (harnessDoes E w opr s) \<longleftrightarrow> openOk s" "doneOk out (harnessDoes E w opr s) \<longleftrightarrow> doneOk out s"
    "openOk (harnessRestarts E now s) \<longleftrightarrow> openOk s" "doneOk out (harnessRestarts E now s) \<longleftrightarrow> doneOk out s"
  by (simp_all add: openOk_def doneOk_def ledgerOk_def harnessDoes_def harnessRestarts_def updActor_def)






lemma dropTail_idem [simp]: "dropTail (dropTail out) = dropTail out"
  by (cases out rule: dropTail.cases) simp_all

lemma settle_done: "doneOk out s \<Longrightarrow> ac_aborted (sy_actor s) \<or> ac_status (sy_actor s) \<noteq> Active \<Longrightarrow> doneOk out (settleEffect P raw s)"
  by (auto simp: settleEffect_def sys_defs doneOk_def)








end
