(* ===== verification/Spec2Isabelle.thy ===== *)
theory Spec2Isabelle
  imports Truncate Notices Conversations Keeper Snapshot_Store Tokens Run_List Pool File_Edit File_Read Door_Compat Workspace_Size Compaction Memory_Kills Submissions Command_Effect
begin

text \<open>
  A verification development for jr2 (\<^verbatim>\<open>src/packages\<close>).

  \<^bold>\<open>The program.\<close> jr2 runs Workflows, xstate Machines that place Agents in Sandboxes, on a cluster. The Orchestrator
  (\<^verbatim>\<open>packages/orchestrator\<close>) hosts the runs, keeps their snapshots in a SQLite store, keeps the Agents' conversations, holds the
  notices that a conversation is still to hear, answers the listing of runs, and authenticates who calls. The Harness
  (\<^verbatim>\<open>packages/harness\<close>) runs an Agent's Turns in its pod: it admits Submissions and settles each one on a stream, runs the tools and cuts
  what they print, starts every process through a spawner, runs the commands of a Machine, keeps the context of the model within its window, guards the pod's memory, records each entry of the conversation
  and sends it to the Orchestrator in batches. The CLI (\<^verbatim>\<open>packages/cli\<close>) is a client.

  \<^bold>\<open>The theories.\<close> Each has the state of its part as a record, one definition for each operation, an invariant and the lemmas,
  in the order of the code.

  \<^item> \<^verbatim>\<open>Jr2_Prelude\<close>: what the parts share. JavaScript strings as lists of 16-bit code units, the operations of \<^verbatim>\<open>Map\<close> and \<^verbatim>\<open>Set\<close> on
    lists that keep the order of insertion, and the generic lemmas on them. \<^verbatim>\<open>Decimals\<close> prints and reads numbers, \<^verbatim>\<open>Json_Values\<close> has the
    values of JSON and \<^verbatim>\<open>Json_Text\<close> the text that \<^verbatim>\<open>JSON.stringify\<close> gives of a string, with its length in UTF-8 bytes.
  \<^item> \<^verbatim>\<open>Truncate\<close> (\<^verbatim>\<open>harness/src/truncate.ts\<close>): the cut of an output by lines and by UTF-8 bytes, from its head or its tail. What is
    kept is shown to be the longest head, or tail, of whole lines that fits, and a cut last line to be the longest end of whole
    characters. Loops are structural on the list of lines or of code units.
  \<^item> \<^verbatim>\<open>Notices\<close> (\<^verbatim>\<open>orchestrator/src/notices.ts\<close>): the ledger of notices, with its reservations, Steering messages, members and
    retries. A ledger is reached by any sequence of operations from a fresh or restored one; the invariant is by rule induction
    over them. No notice is lost, none is heard twice, a release undoes a take, a restart hands out again what was not heard.
  \<^item> \<^verbatim>\<open>Conversations\<close> (\<^verbatim>\<open>orchestrator/src/conversations.ts\<close>): the store of kept conversations. A failed SQL constraint and a failed
    transaction are values of a sum. Entries are kept once, within the cap, in pages; the space guard sweeps ended runs only.
  \<^item> \<^verbatim>\<open>Keeper\<close> (\<^verbatim>\<open>harness/src/keep.ts\<close>): the sender of a conversation, with its timer, backoff and one batch in flight, as a step
    relation over sends that are answered, lost or answered twice. The locale \<open>entry_sink\<close> is what the sender relies on; it is
    interpreted on \<^verbatim>\<open>Conversations\<close>, so the exactly-once property is of the two parts together.
  \<^item> \<^verbatim>\<open>Snapshot_Store\<close> (\<^verbatim>\<open>orchestrator/src/snapshot-store.ts\<close>): the rows of runs, hook log, standing heads, Machines and notices. The
    locale \<open>run_index\<close> is the prefix lookup that the removal of orphan conversations and the listing rely on.
  \<^item> \<^verbatim>\<open>Tokens\<close> (\<^verbatim>\<open>orchestrator/src/tokens.ts\<close>, \<^verbatim>\<open>callers.ts\<close>): the tokens of pods, the authenticators and the scopes of a Caller. HMAC,
    SHA-256 and the library that verifies a JWT are parameters, and what is relied on of them are hypotheses (no forged
    signature; equal digests of equal texts only). The locale \<open>caller_seam\<close> is the contract of an authenticator.
  \<^item> \<^verbatim>\<open>Run_List\<close> (\<^verbatim>\<open>orchestrator/src/run-list.ts\<close>, and of \<^verbatim>\<open>run-host.ts\<close> the listing): the pages of the runs, hosted and stored, and the
    candidates of an abbreviated id, over \<^verbatim>\<open>Snapshot_Store\<close>.
  \<^item> \<^verbatim>\<open>Pool\<close> (\<^verbatim>\<open>orchestrator/src/pool.ts\<close>): the Machine that works the items of a Source. A step is a macrostep of xstate: the
    transition of an event and then the eventless transitions, which end because each one takes from the lists of items that
    wait, or goes down in rank (\<open>stateRank\<close>). The author's functions and the schema are parameters of its spec.

  \<^item> \<^verbatim>\<open>File_Edit\<close> and \<^verbatim>\<open>File_Read\<close> (\<^verbatim>\<open>harness/src/file-tools.ts\<close>): the edit tool's matching, exact and fuzzy, and its replacements; the pages of
    the read tool. Unicode's NFKC normalization is a parameter. An edit changes what it names and no other line, and following the notices of
    \<^verbatim>\<open>read\<close> reads the whole file.
  \<^item> \<^verbatim>\<open>Door_Compat\<close> (\<^verbatim>\<open>orchestrator/src/door-compat.ts\<close>, and of \<^verbatim>\<open>chart.ts\<close> what it calls): whether what a slot may send is what a door takes. A
    meaning of schemas by the values they accept is the specification that the comparison refines; its gap is a finding.
  \<^item> \<^verbatim>\<open>Workspace_Size\<close> (\<^verbatim>\<open>orchestrator/src/size.ts\<close>): quantities, the Size of a Workspace and its split in the pod, over the rationals.
  \<^item> \<^verbatim>\<open>Transcript\<close> and \<^verbatim>\<open>Compaction\<close> (\<^verbatim>\<open>harness/src/transcript.ts\<close>, \<^verbatim>\<open>compaction.ts\<close>, \<^verbatim>\<open>compaction-summary.ts\<close>): the engine part of a conversation,
    when its context is cut, where, and what the summary covers. The model that writes a summary is a parameter.
  \<^item> \<^verbatim>\<open>Memory_Kills\<close> (\<^verbatim>\<open>harness/src/memory-guard.ts\<close>, \<^verbatim>\<open>pod-kills.ts\<close>, and of \<^verbatim>\<open>app.ts\<close>, \<^verbatim>\<open>orchestrator/src/harness-client.ts\<close> and \<^verbatim>\<open>actor.ts\<close> the kills): a
    memory kill from the guard's poll over the pod's list to the notice in the ledger of \<^verbatim>\<open>Notices\<close>. The file the list is read from may hold
    anything, since the Agent can write it; the bounds hold all the same.
  \<^item> \<^verbatim>\<open>Submissions\<close> (\<^verbatim>\<open>harness/src/conversation.ts\<close>, \<^verbatim>\<open>record.ts\<close>): the Submissions of a conversation, its stream and its record, as steps that
    interleave in any order and as ends of the process between any two lines of the record. The invariant is by rule induction over them.

  \<^item> \<^verbatim>\<open>Utf8_Stream\<close>: UTF-8 as \<^verbatim>\<open>Buffer\<close> writes it and Node's \<^verbatim>\<open>StringDecoder\<close> reads it, byte by byte. A text is decoded to itself, with its
    unpaired surrogates replaced, wherever a pipe cut its bytes.
  \<^item> \<^verbatim>\<open>Spawner_Client\<close> (\<^verbatim>\<open>harness/src/spawner.ts\<close>): the client of the spawner: the calls open on it, the frames it may send, what breaks the channel,
    its end and its restart. \<^verbatim>\<open>JSON.parse\<close> is a parameter with no law, since a frame is data of the domain: each call is answered at most once
    whatever it answers, by rule induction over the operations and the frames.
  \<^item> \<^verbatim>\<open>Execs\<close> (\<^verbatim>\<open>harness/src/exec.ts\<close>, and of \<^verbatim>\<open>app.ts\<close> the route that starts one): the program that a Machine's command runs, its stream by offset, its
    tail, its timeout and its kill. The locale \<open>spawned\<close> is what an exec relies on of its process; it is interpreted on \<^verbatim>\<open>Spawner_Client\<close>. The
    environment, \<^verbatim>\<open>existsSync\<close> and the text of a thrown value are parameters.
  \<^item> \<^verbatim>\<open>Command_Effect\<close> (\<^verbatim>\<open>orchestrator/src/effect.ts\<close>): the actor of a command and of a cut, its ledger row and its restarts, with the Harness of \<^verbatim>\<open>Execs\<close>
    behind a wire whose messages are late or lost. A command that is no cut runs at most once, and an Effect settles once. What the checks of a
    fresh Effect say is an argument.

  \<^bold>\<open>How the parts meet.\<close> \<^verbatim>\<open>Keeper\<close> sends to \<^verbatim>\<open>Conversations\<close>; \<^verbatim>\<open>Conversations\<close> loses the conversations of runs that \<^verbatim>\<open>Snapshot_Store\<close>
  does not know; \<^verbatim>\<open>Run_List\<close> reads \<^verbatim>\<open>Snapshot_Store\<close> by the read rule of \<^verbatim>\<open>Tokens\<close>; the ledger of \<^verbatim>\<open>Notices\<close> is saved with a run and made again
  from what was saved, and \<^verbatim>\<open>Memory_Kills\<close> raises its notices in it; a \<^verbatim>\<open>Pool\<close>'s dispatched runs are found by the idempotency keys of
  \<^verbatim>\<open>Snapshot_Store\<close>; a \<^verbatim>\<open>Compaction\<close> writes to the \<^verbatim>\<open>Transcript\<close> it reads, and the kills of \<^verbatim>\<open>Memory_Kills\<close> go on the streams of \<^verbatim>\<open>Submissions\<close>;
  a \<^verbatim>\<open>Command_Effect\<close> starts, reads and kills an exec of \<^verbatim>\<open>Execs\<close>, whose process is a call of \<^verbatim>\<open>Spawner_Client\<close> and whose text is read by \<^verbatim>\<open>Utf8_Stream\<close>.

  \<^bold>\<open>Bounds.\<close> No fuel is used: every loop is structural, or has a measure with its termination proof. Sizes and times are naturals
  and integers, since JavaScript's numbers are exact in the ranges the code uses; code units are 16 bits wide and bytes are 8. The code's
  fractions (quantities, costs) are rationals.

  \<^bold>\<open>Not modelled.\<close> Hosting of actors and the wiring of ports (\<^verbatim>\<open>run-host.ts\<close> but for the listing and the save of an Effect's row), HTTP framing, Kubernetes,
  git, the spawner itself (Go), the other Effects, the model's provider and the loop of a Turn, the validation of charts and of configuration but for the parts above, the CLI, the
  operator and the effector: these are I/O, or code of libraries, around the operations above. In the parts that are modelled, the texts of
  errors are modelled where the code decides by them or keeps them, and logging is not.
\<close>

end
